(* ===== verification/Codon_Prelude.thy ===== *)
theory Codon_Prelude
  imports Main "HOL-Library.Word" "HOL-Library.Multiset"
begin

text \<open>
  The prelude of the development: the idioms of unsigned machine arithmetic that several
  components of the flight software write out by hand, the lemmas on lists and blocks of
  memory that their proofs share, and the fact collections they are gathered in.

  \<^item> \<open>size_t\<close> values are natural numbers below \<open>2 ^ 64\<close>; every operation that can wrap in
    the source is written with its \<open>mod\<close>.
  \<^item> \<open>pow2_check\<close> is the test \<open>(alignment != 0) && ((alignment & -alignment) == alignment)\<close>
    that \<^verbatim>\<open>AlignedBuffer::ensure\<close>, \<^verbatim>\<open>SlateLayout::allocate_element\<close> and
    \<^verbatim>\<open>SlateLayout::create_view_element\<close> begin with.
  \<^item> \<open>align_up\<close> is the rounding \<open>(x + alignment - 1) & -alignment\<close> of
    \<^verbatim>\<open>AlignedBuffer\<close>, \<^verbatim>\<open>SlateLayout\<close> and \<^verbatim>\<open>MonotonicPool\<close>.
  \<^item> \<open>cover\<close> counts the blocks that contain an address: the allocator and the arena state
    disjointness as \<open>cover \<le> 1\<close>.
\<close>

unbundle bit_operations_syntax

named_theorems align_simps \<open>rounding and power-of-two facts\<close>
named_theorems cover_simps \<open>block coverage facts\<close>

type_synonym byte = "8 word"

text \<open>\<^verbatim>\<open>nano_t\<close>, a signed number of nanoseconds, as a word, with the comparison and \<^verbatim>\<open>std::min\<close> of signed values.\<close>

type_synonym u32 = "32 word"
type_synonym nano = "64 word"

definition nano_max :: nano where
  "nano_max = 0x7FFFFFFFFFFFFFFF"

definition nano_min :: nano where
  "nano_min = 0x8000000000000000"

definition min_nano :: "nano \<Rightarrow> nano \<Rightarrow> nano" where
  "min_nano a b = (if b <s a then b else a)"

lemma nano_bounds: "a \<le>s nano_max" "nano_min \<le>s a"
  using sint_lt [of a] sint_ge [of a] by (simp_all add: word_sle_eq nano_max_def nano_min_def)

lemma min_nano_le: "min_nano a b \<le>s a" "min_nano a b \<le>s b" "min_nano a b \<in> {a, b}"
  by (auto simp: min_nano_def word_sle_eq word_sless_alt)

section \<open>Unsigned 64-bit arithmetic\<close>

abbreviation size_max :: nat where
  "size_max \<equiv> 2 ^ 64"

definition neg_size :: "nat \<Rightarrow> nat" where
  "neg_size a = (size_max - a) mod size_max"

definition sub_size :: "nat \<Rightarrow> nat \<Rightarrow> nat" where
  "sub_size a b = (a + (size_max - b mod size_max)) mod size_max"

definition pow2_check :: "nat \<Rightarrow> bool" where
  "pow2_check a \<longleftrightarrow> a \<noteq> 0 \<and> a AND neg_size a = a"

definition align_up :: "nat \<Rightarrow> nat \<Rightarrow> nat" where
  "align_up x a = ((x + a - 1) mod size_max) AND neg_size a"

lemma sub_size_le [align_simps]:
  assumes "b \<le> a" and "a < size_max"
  shows "sub_size a b = a - b"
proof -
  have "b mod size_max = b" using assms by simp
  then have "a + (size_max - b mod size_max) = size_max + (a - b)" using assms by linarith
  then have "sub_size a b = (size_max + (a - b)) mod size_max" by (simp only: sub_size_def)
  also have "\<dots> = (a - b) mod size_max" by (simp only: mod_add_self1)
  also have "\<dots> = a - b" using assms by simp
  finally show ?thesis .
qed

lemma sub_size_wrap:
  assumes "a < b" and "b < size_max"
  shows "sub_size a b = size_max - (b - a)"
proof -
  have "b mod size_max = b" using assms by simp
  then have "a + (size_max - b mod size_max) = size_max - (b - a)" using assms by linarith
  then show ?thesis using assms by (simp add: sub_size_def)
qed

lemma and_complement_nat: "q < 2 ^ n \<Longrightarrow> q AND (2 ^ n - 1 - q) = (0::nat)"
proof (induction n arbitrary: q)
  case 0
  then show ?case by simp
next
  case (Suc n)
  have half: "q div 2 < 2 ^ n" using Suc.prems by simp
  have "(2 ^ Suc n - 1 - q) div 2 = 2 ^ n - 1 - q div 2"
    using Suc.prems by simp
  moreover have "even (2 ^ Suc n - 1 - q) \<longleftrightarrow> odd q"
    using Suc.prems by simp
  ultimately show ?case
    using Suc.IH [OF half]
    by (subst and_rec) auto
qed

lemma odd_and_complement:
  assumes "odd m" and "m < 2 ^ j"
  shows "m AND (2 ^ j - m) = (1::nat)"
proof -
  obtain i where j: "j = Suc i"
    using assms by (cases j) auto
  have "m div 2 < 2 ^ i" using assms j by simp
  moreover have "(2 ^ j - m) div 2 = 2 ^ i - 1 - m div 2"
    using assms j by (auto elim!: oddE)
  moreover have "odd (2 ^ j - m)" using assms j by simp
  ultimately show ?thesis
    using assms and_complement_nat [of "m div 2" i]
    by (subst and_rec) auto
qed

lemma pow2_odd_split: "0 < a \<Longrightarrow> \<exists>k m. a = 2 ^ k * m \<and> odd (m::nat)"
proof (induction a rule: less_induct)
  case (less a)
  show ?case
  proof (cases "odd a")
    case True
    then have "a = 2 ^ 0 * a \<and> odd a" by simp
    then show ?thesis by blast
  next
    case False
    then obtain b where b: "a = 2 * b" by (auto elim: evenE)
    with less.prems have "0 < b" "b < a" by auto
    then obtain k m where "b = 2 ^ k * m" "odd m" using less.IH by blast
    with b have "a = 2 ^ Suc k * m \<and> odd m" by simp
    then show ?thesis by blast
  qed
qed

lemma lowest_bit:
  assumes "odd m" and "2 ^ k * m < 2 ^ n"
  shows "(2 ^ k * m) AND (2 ^ n - 2 ^ k * m) = (2 ^ k :: nat)"
proof -
  have "0 < m" using assms(1) by (cases m) auto
  then have "(2::nat) ^ k < 2 ^ n"
    using assms(2) by (metis le_less_trans mult.right_neutral mult_le_mono2 Suc_leI One_nat_def)
  then have "k < n" by simp
  then have n: "(2::nat) ^ n = 2 ^ k * 2 ^ (n - k)"
    by (simp flip: power_add)
  then have "m < 2 ^ (n - k)" using assms(2) by simp
  then have "m AND (2 ^ (n - k) - m) = 1" by (rule odd_and_complement [OF assms(1)])
  moreover have "2 ^ k * m = push_bit k m" "2 ^ n - 2 ^ k * m = push_bit k (2 ^ (n - k) - m)"
    by (simp_all add: push_bit_eq_mult n diff_mult_distrib2 mult.commute)
  ultimately show ?thesis by (simp flip: push_bit_and)
qed

lemma pow2_check_iff [align_simps]:
  assumes "a < size_max"
  shows "pow2_check a \<longleftrightarrow> (\<exists>k<64. a = 2 ^ k)"
proof (cases "a = 0")
  case True
  then show ?thesis by (simp add: pow2_check_def)
next
  case False
  then obtain k m where a: "a = 2 ^ k * m" and m: "odd m"
    using pow2_odd_split by blast
  have neg: "neg_size a = size_max - a"
    using False assms by (simp add: neg_size_def)
  have "a AND (size_max - a) = 2 ^ k"
    using lowest_bit [OF m, of k 64] assms unfolding a by blast
  then have "a AND neg_size a = 2 ^ k" by (simp only: neg)
  then have "pow2_check a \<longleftrightarrow> a = 2 ^ k"
    using False by (auto simp: pow2_check_def)
  also have "\<dots> \<longleftrightarrow> (\<exists>k<64. a = 2 ^ k)"
  proof
    assume "a = 2 ^ k"
    with assms have "(2::nat) ^ k < 2 ^ 64" by simp
    then have "k < 64" by (rule power_less_imp_less_exp [rotated]) simp
    with \<open>a = 2 ^ k\<close> show "\<exists>k<64. a = 2 ^ k" by blast
  next
    assume "\<exists>k<64. a = 2 ^ k"
    then obtain i where i: "2 ^ i = 2 ^ k * m" using a by auto
    have "m dvd 2 ^ i" by (simp add: i)
    with m have "m = 1"
      by (metis coprime_power_right_iff coprime_right_2_iff_odd coprime_absorb_left nat_dvd_1_iff_1 dvd_refl coprime_common_divisor_nat)
    with a show "a = 2 ^ k" by simp
  qed
  finally show ?thesis .
qed

lemma and_neg_pow2:
  assumes "k < 64" and "y < size_max"
  shows "y AND neg_size (2 ^ k) = (y div 2 ^ k) * 2 ^ k"
proof -
  have lt: "(2::nat) ^ k < 2 ^ 64"
    using assms(1) by (rule power_strict_increasing) simp
  then have neg: "neg_size (2 ^ k) = 2 ^ 64 - 2 ^ k"
    by (simp add: neg_size_def)
  have n: "(2::nat) ^ 64 = 2 ^ k * 2 ^ (64 - k)"
    using assms(1) by (simp flip: power_add)
  have "neg_size (2 ^ k) = push_bit k (mask (64 - k))"
    unfolding neg n push_bit_eq_mult mask_eq_exp_minus_1
    by (simp add: diff_mult_distrib2 mult.commute)
  moreover have "y AND push_bit k (mask (64 - k)) = push_bit k (drop_bit k y)"
  proof (rule bit_eqI)
    fix i
    have "bit y i \<Longrightarrow> i < 64"
    proof (rule ccontr)
      assume "bit y i" and "\<not> i < 64"
      then have "(2::nat) ^ 64 \<le> 2 ^ i" by (intro power_increasing) auto
      with assms(2) have "y div 2 ^ i = 0" by simp
      with \<open>bit y i\<close> show False by (simp add: bit_iff_odd)
    qed
    then show "bit (y AND push_bit k (mask (64 - k))) i = bit (push_bit k (drop_bit k y)) i"
      by (auto simp: bit_simps)
  qed
  ultimately show ?thesis by (simp add: push_bit_eq_mult drop_bit_eq_div)
qed

lemma align_up_eq:
  assumes "k < 64" and "x + 2 ^ k \<le> size_max"
  shows "align_up x (2 ^ k) = ((x + 2 ^ k - 1) div 2 ^ k) * 2 ^ k"
proof -
  have "x + 2 ^ k - 1 < size_max" using assms(2) by (simp add: less_eq_Suc_le)
  then show ?thesis using assms(1) by (simp add: align_up_def and_neg_pow2)
qed

lemma align_up_dvd: "k < 64 \<Longrightarrow> 2 ^ k dvd align_up x (2 ^ k)"
  by (simp add: align_up_def and_neg_pow2)

lemma align_up_bounds:
  assumes "k < 64" and "x + 2 ^ k \<le> size_max"
  shows "x \<le> align_up x (2 ^ k)" and "align_up x (2 ^ k) < x + 2 ^ k"
proof -
  define p where "p = (2::nat) ^ k"
  have p: "0 < p" by (simp add: p_def)
  define y where "y = x + p - 1"
  have au: "align_up x p = y - y mod p"
    using align_up_eq [OF assms] by (simp add: p_def y_def minus_mod_eq_div_mult)
  have le: "y mod p < p" "y mod p \<le> y" using p by simp_all
  have y: "y + 1 = x + p" using p by (simp add: y_def)
  show "x \<le> align_up x (2 ^ k)"
    unfolding p_def [symmetric] au using le y by linarith
  show "align_up x (2 ^ k) < x + 2 ^ k"
    unfolding p_def [symmetric] au using le y by linarith
qed

section \<open>Blocks of memory\<close>

text \<open>
  A block is a pair of a size and an offset. \<open>cover bs x\<close> is the number of blocks of
  \<open>bs\<close> that contain the address \<open>x\<close>.
\<close>

type_synonym block = "nat \<times> nat"

definition in_block :: "block \<Rightarrow> nat \<Rightarrow> bool" where
  "in_block b x \<longleftrightarrow> snd b \<le> x \<and> x < snd b + fst b"

primrec cover :: "block list \<Rightarrow> nat \<Rightarrow> nat" where
  "cover [] x = 0"
| "cover (b # bs) x = (if in_block b x then 1 else 0) + cover bs x"

lemma cover_append [cover_simps]: "cover (as @ bs) x = cover as x + cover bs x"
  by (induction as) auto

lemma cover_ge_in_block: "b \<in> set bs \<Longrightarrow> in_block b x \<Longrightarrow> 0 < cover bs x"
  by (induction bs) auto

lemma cover_remove1:
  "b \<in> set bs \<Longrightarrow> cover bs x = cover (remove1 b bs) x + (if in_block b x then 1 else 0)"
  by (induction bs) auto

lemma cover_perm: "mset as = mset bs \<Longrightarrow> cover as x = cover bs x"
proof -
  have "cover cs x = size (filter_mset (\<lambda>b. in_block b x) (mset cs))" for cs
    by (induction cs) auto
  then show "mset as = mset bs \<Longrightarrow> cover as x = cover bs x" by simp
qed

definition disjoint_blocks :: "block \<Rightarrow> block \<Rightarrow> bool" where
  "disjoint_blocks a b \<longleftrightarrow> (\<forall>x. \<not> (in_block a x \<and> in_block b x))"

lemma cover_le_1_disjoint:
  assumes "\<forall>x. cover (a # bs) x \<le> 1" and "b \<in> set bs"
  shows "disjoint_blocks a b"
  unfolding disjoint_blocks_def
proof (intro allI notI)
  fix x
  assume x: "in_block a x \<and> in_block b x"
  then have "0 < cover bs x" using assms(2) by (blast intro: cover_ge_in_block)
  with x have "1 < cover (a # bs) x" by simp
  with assms(1) show False by (meson not_le)
qed

end
