(* ===== verification/Aligned_Buffer.thy ===== *)
theory Aligned_Buffer
  imports Codon_Prelude
begin

text \<open>
  \<^verbatim>\<open>vehicle/src/bullwinkle/all/AlignedBuffer.cc\<close>: the growable, 32-byte aligned memory
  buffer behind every shard of the Slate.

  The pointers \<open>ptr\<close> and \<open>aligned_ptr\<close> are addresses, \<open>0\<close> being the null pointer; the bytes
  at \<open>aligned_ptr\<close> are the list \<open>ab_mem\<close>, one entry per byte of \<open>total\<close>. What
  \<^verbatim>\<open>new char[]\<close> returns is an input of the operations that allocate: the address of the
  allocation and the uninitialised bytes found there. A \<^verbatim>\<open>bad_alloc\<close> ends the process and
  is outside the model. The two results of \<open>ensure\<close> that the source reports are the boolean
  it returns and the buffer it leaves.
\<close>

section \<open>State\<close>

definition max_alignment :: nat where
  "max_alignment = 32"

definition initial_total :: nat where
  "initial_total = 3072"

record abuf =
  ab_ptr :: nat
  ab_aligned :: nat
  ab_length :: nat
  ab_total :: nat
  ab_mem :: "byte list"

definition abuf_new :: abuf where
  "abuf_new = \<lparr>ab_ptr = 0, ab_aligned = 0, ab_length = 0, ab_total = 0, ab_mem = []\<rparr>"

text \<open>\<open>alloc_buffer\<close>: the aligned address inside an allocation at \<open>base\<close>.\<close>

definition alloc_size :: "nat \<Rightarrow> nat \<Rightarrow> nat" where
  "alloc_size sz alignment = (sz + alignment - 1) mod size_max"

definition alloc_buffer :: "nat \<Rightarrow> nat \<Rightarrow> nat \<times> nat" where
  "alloc_buffer alignment base = (base, align_up base alignment)"

section \<open>Operations\<close>

definition ensure :: "nat \<Rightarrow> byte list \<Rightarrow> nat \<Rightarrow> nat \<Rightarrow> abuf \<Rightarrow> bool \<times> abuf" where
  "ensure base fresh amount alignment b =
     (if \<not> pow2_check alignment then (False, b)
      else if alignment > max_alignment then (False, b)
      else if ab_total b \<ge> amount then (True, b\<lparr>ab_length := max (ab_length b) amount\<rparr>)
      else
        let new_total = max (max (ab_total b + ab_total b div 2) initial_total) amount;
            (new_ptr, new_aligned) = alloc_buffer max_alignment base;
            copied = (if ab_aligned b \<noteq> 0 then take (ab_length b) (ab_mem b)
                      else take (ab_length b) fresh)
        in (True,
            \<lparr>ab_ptr = new_ptr, ab_aligned = new_aligned, ab_length = amount,
             ab_total = new_total,
             ab_mem = copied @ replicate (new_total - ab_length b) 0\<rparr>))"

definition assign_buffer :: "abuf \<Rightarrow> abuf \<Rightarrow> abuf \<times> abuf" where
  "assign_buffer this other =
     (\<lparr>ab_ptr = ab_ptr other, ab_aligned = ab_aligned other, ab_length = ab_length other,
       ab_total = ab_total other, ab_mem = ab_mem other\<rparr>,
      abuf_new)"

definition clone :: "nat \<Rightarrow> abuf \<Rightarrow> abuf" where
  "clone base b =
     (if ab_aligned b \<noteq> 0 then
        let (new_ptr, new_aligned) = alloc_buffer max_alignment base
        in \<lparr>ab_ptr = new_ptr, ab_aligned = new_aligned, ab_length = ab_length b,
            ab_total = ab_length b, ab_mem = take (ab_length b) (ab_mem b)\<rparr>
      else abuf_new)"

text \<open>A caller's write of \<open>bytes\<close> through \<open>data() + off\<close>.\<close>

definition poke :: "nat \<Rightarrow> byte list \<Rightarrow> abuf \<Rightarrow> abuf" where
  "poke off bytes b =
     b\<lparr>ab_mem := take off (ab_mem b) @ bytes @ drop (off + length bytes) (ab_mem b)\<rparr>"

section \<open>Invariant\<close>

text \<open>
  The bytes handed out (below \<open>length\<close>) lie inside the allocation, a buffer that was never
  allocated is empty, the data pointer is aligned, and the bytes between \<open>length\<close> and
  \<open>total\<close> are still zero: \<open>ensure\<close> may extend \<open>length\<close> over them without touching them.
\<close>

definition abuf_inv :: "abuf \<Rightarrow> bool" where
  "abuf_inv b \<longleftrightarrow>
     length (ab_mem b) = ab_total b \<and> ab_length b \<le> ab_total b \<and>
     (ab_aligned b = 0 \<longrightarrow> ab_total b = 0) \<and> max_alignment dvd ab_aligned b \<and>
     (\<forall>i. ab_length b \<le> i \<and> i < ab_total b \<longrightarrow> ab_mem b ! i = 0)"

definition abuf_data :: "abuf \<Rightarrow> byte list" where
  "abuf_data b = take (ab_length b) (ab_mem b)"

text \<open>An address \<^verbatim>\<open>operator new[]\<close> may return for \<open>sz\<close> bytes.\<close>

definition good_base :: "nat \<Rightarrow> nat \<Rightarrow> bool" where
  "good_base base sz \<longleftrightarrow> 0 < base \<and> base + sz + max_alignment \<le> size_max"

lemma max_alignment_pow2: "max_alignment = 2 ^ 5"
  by (simp add: max_alignment_def)

lemma alignment_ok_iff:
  "pow2_check a \<and> a \<le> max_alignment \<longleftrightarrow> a \<in> {1, 2, 4, 8, 16, 32}"
proof -
  have "pow2_check a \<longleftrightarrow> (\<exists>k<64. a = 2 ^ k)" if "a \<le> 32"
    using that by (intro pow2_check_iff) simp
  moreover have "(\<exists>k<64. a = 2 ^ k) \<and> a \<le> 32 \<longleftrightarrow> a \<in> {1, 2, 4, 8, 16, 32}"
  proof
    assume "(\<exists>k<64. a = 2 ^ k) \<and> a \<le> 32"
    then obtain k where a: "a = 2 ^ k" "2 ^ k \<le> (2::nat) ^ 5" by auto
    then have "k \<le> 5" by (simp only: power_increasing_iff)
    then have "k = 0 \<or> k = 1 \<or> k = 2 \<or> k = 3 \<or> k = 4 \<or> k = 5" by auto
    with a show "a \<in> {1, 2, 4, 8, 16, 32}" by auto
  next
    assume "a \<in> {1, 2, 4, 8, 16, 32}"
    then have "a = 2 ^ 0 \<or> a = 2 ^ 1 \<or> a = 2 ^ 2 \<or> a = 2 ^ 3 \<or> a = 2 ^ 4 \<or> a = 2 ^ 5" by auto
    then obtain k where "k \<in> {0, 1, 2, 3, 4, 5 :: nat}" "a = 2 ^ k" by blast
    then have "k < 64 \<and> a = 2 ^ k" by auto
    then have "\<exists>k<64. a = 2 ^ k" by blast
    with \<open>a \<in> {1, 2, 4, 8, 16, 32}\<close> show "(\<exists>k<64. a = 2 ^ k) \<and> a \<le> 32" by auto
  qed
  ultimately show ?thesis by (auto simp: max_alignment_def)
qed

lemma alloc_buffer_bounds:
  assumes "good_base base sz"
  shows "max_alignment dvd snd (alloc_buffer max_alignment base)"
    and "base \<le> snd (alloc_buffer max_alignment base)"
    and "snd (alloc_buffer max_alignment base) + sz \<le> base + alloc_size sz max_alignment"
proof -
  have b: "base + 2 ^ 5 \<le> size_max" "sz + 32 \<le> size_max"
    using assms by (auto simp: good_base_def max_alignment_def)
  have a: "(32::nat) = 2 ^ 5" by simp
  show "max_alignment dvd snd (alloc_buffer max_alignment base)"
    using align_up_dvd [of 5 base] by (simp add: alloc_buffer_def max_alignment_def)
  show "base \<le> snd (alloc_buffer max_alignment base)"
    using align_up_bounds(1) [OF _ b(1)] by (simp add: alloc_buffer_def max_alignment_def)
  have "align_up base 32 < base + 32"
    using align_up_bounds(2) [OF _ b(1)] by simp
  moreover have "alloc_size sz 32 = sz + 31"
    using b(2) by (simp add: alloc_size_def)
  ultimately show "snd (alloc_buffer max_alignment base) + sz \<le> base + alloc_size sz max_alignment"
    by (simp add: alloc_buffer_def max_alignment_def)
qed

lemma abuf_inv_new: "abuf_inv abuf_new"
  by (simp add: abuf_inv_def abuf_new_def)

lemma ensure_total_ge:
  assumes "ensure base fresh amount alignment b = (True, b')"
  shows "amount \<le> ab_total b'" and "ab_total b \<le> ab_total b'"
  using assms by (auto simp: ensure_def Let_def split: if_splits prod.splits)

lemma ensure_inv:
  assumes "abuf_inv b" and "good_base base (max (max (ab_total b + ab_total b div 2) initial_total) amount)"
    and "ensure base fresh amount alignment b = (ok, b')"
  shows "abuf_inv b'"
proof (cases "pow2_check alignment \<and> alignment \<le> max_alignment \<and> ab_total b < amount")
  case False
  then show ?thesis using assms(1,3) by (auto simp: ensure_def abuf_inv_def split: if_splits)
next
  case True
  define nt where "nt = max (max (ab_total b + ab_total b div 2) initial_total) amount"
  define copied where "copied = (if ab_aligned b \<noteq> 0 then take (ab_length b) (ab_mem b)
                                 else take (ab_length b) fresh)"
  have len: "length copied = ab_length b"
    using assms(1) by (auto simp: copied_def abuf_inv_def)
  have nt: "ab_length b \<le> nt" "amount \<le> nt"
    using assms(1) by (auto simp: nt_def abuf_inv_def)
  have b': "b' = \<lparr>ab_ptr = base, ab_aligned = align_up base max_alignment, ab_length = amount,
                 ab_total = nt, ab_mem = copied @ replicate (nt - ab_length b) 0\<rparr>"
    using assms(3) True
    by (auto simp: ensure_def Let_def alloc_buffer_def copied_def nt_def not_le split: if_splits)
  have "0 < align_up base max_alignment" "max_alignment dvd align_up base max_alignment"
    using alloc_buffer_bounds(1,2) [OF assms(2)] assms(2)
    by (auto simp: alloc_buffer_def good_base_def)
  moreover have "ab_length b \<le> amount" using assms(1) True by (simp add: abuf_inv_def)
  ultimately show ?thesis
    using len nt by (auto simp: abuf_inv_def b' nth_append)
qed

lemma ensure_data:
  assumes "abuf_inv b" and "ensure base fresh amount alignment b = (True, b')"
  shows "abuf_data b' = abuf_data b @ replicate (max (ab_length b) amount - ab_length b) 0"
proof (cases "amount \<le> ab_total b")
  case True
  then have b': "b' = b\<lparr>ab_length := max (ab_length b) amount\<rparr>"
    using assms(2) by (auto simp: ensure_def split: if_splits)
  have "max (ab_length b) amount \<le> ab_total b"
    using assms(1) True by (simp add: abuf_inv_def)
  then show ?thesis
    using assms(1)
    by (intro nth_equalityI) (auto simp: abuf_data_def b' abuf_inv_def nth_append max_def)
next
  case False
  have len: "ab_length b \<le> ab_total b" "length (ab_mem b) = ab_total b"
    using assms(1) by (auto simp: abuf_inv_def)
  have none: "ab_aligned b = 0 \<Longrightarrow> ab_length b = 0"
    using assms(1) by (auto simp: abuf_inv_def)
  show ?thesis
    using assms(2) False len none
    by (cases "ab_aligned b = 0")
       (auto simp: ensure_def Let_def abuf_data_def min_def max_def split: if_splits prod.splits)
qed

lemma poke_inv:
  assumes "abuf_inv b" and "off + length bytes \<le> ab_length b"
  shows "abuf_inv (poke off bytes b)"
  using assms by (auto simp: abuf_inv_def poke_def nth_append)

lemma clone_data:
  assumes "abuf_inv b"
  shows "abuf_data (clone base b) = abuf_data b"
  using assms by (auto simp: clone_def abuf_data_def abuf_inv_def Let_def abuf_new_def split: prod.splits)

section \<open>Properties\<close>

text \<open>
  Growing a buffer never loses or leaks a byte: a successful \<open>ensure\<close> keeps the bytes
  handed out so far and extends them with zeros up to the requested length, whether or not it
  reallocated, and succeeds exactly for the alignments 1, 2, 4, 8, 16 and 32.
\<close>

theorem ensure_extends_with_zeros:
  assumes "abuf_inv b" and "ensure base fresh amount alignment b = (ok, b')"
  shows "(ok \<longleftrightarrow> alignment \<in> {1, 2, 4, 8, 16, 32}) \<and>
         (if ok then abuf_data b' = abuf_data b @ replicate (amount - ab_length b) 0
          else b' = b)"
proof -
  have "ok \<longleftrightarrow> alignment \<in> {1, 2, 4, 8, 16, 32}"
    unfolding alignment_ok_iff [symmetric] using assms(2)
    by (auto simp: ensure_def Let_def split: prod.splits if_splits)
  moreover have "abuf_data b' = abuf_data b @ replicate (amount - ab_length b) 0" if ok
    using ensure_data [OF assms(1)] assms(2) that
    by (cases "ab_length b \<le> amount") (auto simp: max_def)
  moreover have "b' = b" if "\<not> ok"
    using assms(2) that by (auto simp: ensure_def Let_def split: prod.splits if_splits)
  ultimately show ?thesis by simp
qed

theorem ensure_extends_with_zeros_witness:
  "abuf_data (snd (ensure 4096 [] 4 4
     \<lparr>ab_ptr = 1000, ab_aligned = 1024, ab_length = 2, ab_total = 3, ab_mem = [7, 8, 0]\<rparr>)) =
   [7, 8, 0, 0]"
proof -
  let ?b = "\<lparr>ab_ptr = 1000, ab_aligned = 1024, ab_length = 2, ab_total = 3, ab_mem = [7, 8, 0]\<rparr>"
  have inv: "abuf_inv ?b"
    by (auto simp: abuf_inv_def max_alignment_def less_Suc_eq numeral_3_eq_3)
  have "abuf_data (snd (ensure 4096 [] 4 4 ?b)) = abuf_data ?b @ replicate (4 - ab_length ?b) 0"
    using ensure_extends_with_zeros [OF inv prod.collapse [symmetric], of 4096 "[]" 4 4] by simp
  also have "\<dots> = [7, 8, 0, 0]"
    by (simp add: abuf_data_def numeral_eq_Suc)
  finally show ?thesis .
qed

end
