(* ===== verification/Slate_Alloc.thy ===== *)
theory Slate_Alloc
  imports Aligned_Buffer
begin

text \<open>
  The shard allocator of \<^verbatim>\<open>vehicle/src/bullwinkle/all/SlateLayout.cc\<close>
  (\<^verbatim>\<open>SlateLayout::allocate_element\<close>, lines 104 to 182): every Slate element gets its bytes
  from the shard it lives in, either from a free chunk left over by earlier alignment gaps or
  by growing the shard.

  \<^item> \<open>slate_offset_t\<close> is an unsigned type of \<open>w\<close> bits. Its definition is not part of the
    repository, so \<open>w\<close> is a parameter; the \<^verbatim>\<open>static_assert\<close> of line 128 is
    \<open>wide_enough w\<close>.
  \<^item> the free list is a \<^verbatim>\<open>std::multimap\<close> from size to offset: a list of blocks in the order
    of their keys, with insertion after equal keys.
  \<^item> the pair \<open>env\<close> is what \<^verbatim>\<open>new char[]\<close> returns if the initial values have to be
    reallocated (see \<open>Aligned_Buffer\<close>).
  \<^item> an operation returns the allocated offset, or \<open>None\<close> where the source returns false,
    together with the shard it leaves, which can differ from the old one on failure too.
\<close>

section \<open>Data\<close>

definition max_offset :: "nat \<Rightarrow> nat" where
  "max_offset w = 2 ^ w - 1"

definition cast_off :: "nat \<Rightarrow> nat \<Rightarrow> nat" where
  "cast_off w n = n mod 2 ^ w"

definition wide_enough :: "nat \<Rightarrow> bool" where
  "wide_enough w \<longleftrightarrow> max_alignment + 1 \<le> max_offset w \<and> w < 64"

record shard =
  sh_size :: nat
  sh_free :: "block list"
  sh_init :: abuf

type_synonym heap_env = "nat \<times> byte list"

section \<open>The free list\<close>

fun mm_insert :: "block \<Rightarrow> block list \<Rightarrow> block list" where
  "mm_insert b [] = [b]"
| "mm_insert b (c # cs) = (if fst b < fst c then b # c # cs else c # mm_insert b cs)"

text \<open>\<open>lower_bound\<close> followed by \<open>erase\<close> of the entry found.\<close>

definition mm_take :: "nat \<Rightarrow> block list \<Rightarrow> (block \<times> block list) option" where
  "mm_take key bs =
     (case dropWhile (\<lambda>b. fst b < key) bs of
        [] \<Rightarrow> None
      | b # rest \<Rightarrow> Some (b, takeWhile (\<lambda>b. fst b < key) bs @ rest))"

section \<open>Carving, growing, allocating\<close>

text \<open>
  The loop of lines 161 to 171, with \<open>size = 2 ^ k\<close>. It is entered with
  \<open>free_size < max_alignment\<close>, so that \<open>size\<close> stays far below the width of its type.
\<close>

function carve :: "nat \<Rightarrow> nat \<Rightarrow> nat \<Rightarrow> nat \<Rightarrow> block list \<Rightarrow> nat \<times> nat \<times> block list" where
  "carve w k free_offset free_size fl =
     (if 2 ^ k \<le> free_size then
        if free_offset AND 2 ^ k \<noteq> 0 then
          carve w (Suc k) (free_offset + 2 ^ k) (free_size - 2 ^ k)
            (mm_insert (2 ^ k, cast_off w free_offset) fl)
        else carve w (Suc k) free_offset free_size fl
      else (free_offset, free_size, fl))"
  by pat_completeness auto
termination
proof (relation "measure (\<lambda>(w, k, fo, fs, fl). Suc fs - 2 ^ k)")
  fix w k fo fs and fl :: "block list"
  assume le: "(2::nat) ^ k \<le> fs"
  have "(0::nat) < 2 ^ k" by simp
  with le show "((w, Suc k, fo + 2 ^ k, fs - 2 ^ k, mm_insert (2 ^ k, cast_off w fo) fl), w, k, fo, fs, fl)
      \<in> measure (\<lambda>(w, k, fo, fs, fl). Suc fs - 2 ^ k)"
    unfolding in_measure prod.case power_Suc by linarith
  from le show "((w, Suc k, fo, fs, fl), w, k, fo, fs, fl)
      \<in> measure (\<lambda>(w, k, fo, fs, fl). Suc fs - 2 ^ k)"
    unfolding in_measure prod.case power_Suc using \<open>(0::nat) < 2 ^ k\<close> by linarith
qed simp

declare carve.simps [simp del]

definition place :: "nat \<Rightarrow> nat \<Rightarrow> nat \<Rightarrow> nat \<Rightarrow> shard \<Rightarrow> nat option \<times> shard" where
  "place w value_offset free_offset free_size sh =
     (if free_size \<noteq> 0 then
        if \<not> free_size < max_alignment then (None, sh)
        else
          (case carve w 0 free_offset free_size (sh_free sh) of
             (_, rest, fl) \<Rightarrow>
               if rest \<noteq> 0 then (None, sh\<lparr>sh_free := fl\<rparr>)
               else (Some value_offset, sh\<lparr>sh_free := fl\<rparr>))
      else (Some value_offset, sh))"

definition grow :: "nat \<Rightarrow> heap_env \<Rightarrow> nat \<Rightarrow> nat \<Rightarrow> shard \<Rightarrow> (nat \<times> nat \<times> nat) option \<times> shard" where
  "grow w env value_size alignment sh =
     (if sh_size sh > max_offset w - max_alignment + 1 then (None, sh)
      else
        let value_offset = align_up (sh_size sh) alignment;
            free_offset = sh_size sh;
            free_size = sub_size value_offset free_offset
        in if value_size > max_offset w then (None, sh)
           else
             let new_size = cast_off w (value_offset + value_size);
                 sh' = sh\<lparr>sh_size := new_size\<rparr>
             in if value_offset \<ge> new_size then (None, sh')
                else
                  (case ensure (fst env) (snd env) new_size alignment (sh_init sh) of
                     (False, buf) \<Rightarrow> (None, sh'\<lparr>sh_init := buf\<rparr>)
                   | (True, buf) \<Rightarrow>
                       (Some (value_offset, free_offset, free_size), sh'\<lparr>sh_init := buf\<rparr>)))"

definition alloc_block :: "nat \<Rightarrow> heap_env \<Rightarrow> nat \<Rightarrow> nat \<Rightarrow> shard \<Rightarrow> nat option \<times> shard" where
  "alloc_block w env value_size alignment sh =
     (case mm_take (cast_off w value_size) (sh_free sh) of
        Some ((chunk, off), rest) \<Rightarrow>
          place w off (off + value_size) (sub_size chunk value_size) (sh\<lparr>sh_free := rest\<rparr>)
      | None \<Rightarrow>
          (case grow w env value_size alignment sh of
             (None, sh') \<Rightarrow> (None, sh')
           | (Some (value_offset, free_offset, free_size), sh') \<Rightarrow>
               place w value_offset free_offset free_size sh'))"

section \<open>The free list as a multiset\<close>

lemma mset_mm_insert: "mset (mm_insert b bs) = add_mset b (mset bs)"
  by (induction bs) auto

lemma set_mm_insert: "set (mm_insert b bs) = insert b (set bs)"
  by (induction bs) auto

lemma cover_mm_insert [cover_simps]: "cover (mm_insert b bs) x = cover (b # bs) x"
  by (rule cover_perm) (simp add: mset_mm_insert)

lemma sorted_mm_insert: "sorted (map fst bs) \<Longrightarrow> sorted (map fst (mm_insert b bs))"
  by (induction bs) (auto simp: set_mm_insert)

lemma mm_take_SomeD:
  assumes "mm_take key bs = Some (b, rest)"
  shows "mset bs = add_mset b (mset rest)" and "key \<le> fst b" and "b \<in> set bs"
    and "set rest \<subseteq> set bs"
proof -
  obtain tl where dw: "dropWhile (\<lambda>b. fst b < key) bs = b # tl"
    and rest: "rest = takeWhile (\<lambda>b. fst b < key) bs @ tl"
    using assms by (auto simp: mm_take_def split: list.splits)
  have bs: "bs = takeWhile (\<lambda>b. fst b < key) bs @ b # tl"
    by (metis dw takeWhile_dropWhile_id)
  then show "mset bs = add_mset b (mset rest)" "b \<in> set bs"
    by (metis rest mset_append mset.simps(2) union_mset_add_mset_right) (metis bs in_set_conv_decomp)
  show "key \<le> fst b"
    using dw by (metis hd_dropWhile list.distinct(1) list.sel(1) not_le)
  show "set rest \<subseteq> set bs"
    unfolding rest using bs by (metis set_append set_subset_Cons Un_mono subset_refl)
qed

lemma mm_take_sorted:
  assumes "mm_take key bs = Some (b, rest)" and "sorted (map fst bs)"
  shows "sorted (map fst rest)"
proof -
  obtain tl where "dropWhile (\<lambda>b. fst b < key) bs = b # tl"
    and rest: "rest = takeWhile (\<lambda>b. fst b < key) bs @ tl"
    using assms(1) by (auto simp: mm_take_def split: list.splits)
  then have "bs = takeWhile (\<lambda>b. fst b < key) bs @ b # tl"
    by (metis takeWhile_dropWhile_id)
  then have "sorted (map fst (takeWhile (\<lambda>b. fst b < key) bs @ b # tl))" using assms(2) by simp
  then show ?thesis unfolding rest by (simp add: sorted_append)
qed

lemma mm_take_None_iff: "mm_take key bs = None \<longleftrightarrow> (\<forall>b\<in>set bs. fst b < key)"
  by (auto simp: mm_take_def split: list.splits)
     (metis dropWhile_eq_Nil_conv fst_conv list.distinct(1))

lemma mm_take_best_fit:
  assumes "sorted (map fst bs)" and "mm_take key bs = Some (b, rest)"
    and "c \<in> set bs" and "key \<le> fst c"
  shows "fst b \<le> fst c"
  using assms
proof (induction bs arbitrary: rest)
  case Nil
  then show ?case by simp
next
  case (Cons a bs)
  show ?case
  proof (cases "fst a < key")
    case True
    then have "mm_take key (a # bs) = map_option (\<lambda>(b, r). (b, a # r)) (mm_take key bs)"
      by (cases "dropWhile (\<lambda>b. fst b < key) bs") (simp_all add: mm_take_def del: dropWhile_eq_Nil_conv)
    then obtain r where "mm_take key bs = Some (b, r)"
      using Cons.prems(2) by (cases "mm_take key bs") auto
    then show ?thesis
      using Cons.prems True Cons.IH by auto
  next
    case False
    then have "b = a" using Cons.prems(2) by (auto simp: mm_take_def)
    then show ?thesis using Cons.prems(1,3) by auto
  qed
qed

section \<open>The allocator invariant\<close>

text \<open>
  \<open>live\<close> lists the blocks handed out so far. The live blocks and the free chunks tile the
  shard: every byte below \<open>shard_size\<close> belongs to exactly one of them. A free chunk is a
  power of two below \<open>max_alignment\<close>, aligned to its own size.
\<close>

definition good_chunk :: "nat \<Rightarrow> block \<Rightarrow> bool" where
  "good_chunk lim b \<longleftrightarrow> (\<exists>k<5. fst b = 2 ^ k) \<and> fst b dvd snd b \<and> snd b + fst b \<le> lim"

definition shard_inv :: "nat \<Rightarrow> shard \<Rightarrow> block list \<Rightarrow> bool" where
  "shard_inv w sh live \<longleftrightarrow>
     sh_size sh \<le> max_offset w \<and> sorted (map fst (sh_free sh)) \<and>
     (\<forall>b\<in>set (sh_free sh). good_chunk (sh_size sh) b) \<and>
     (\<forall>x. cover live x + cover (sh_free sh) x = (if x < sh_size sh then 1 else 0))"

definition alignment_ok :: "nat \<Rightarrow> nat \<Rightarrow> bool" where
  "alignment_ok alignment value_size \<longleftrightarrow>
     pow2_check alignment \<and> alignment \<le> max_alignment \<and> alignment \<le> value_size \<and>
     value_size < size_max"

lemma alignment_okE:
  assumes "alignment_ok alignment value_size"
  obtains k where "k \<le> 5" and "alignment = 2 ^ k" and "0 < value_size" and "value_size < size_max"
    and "alignment \<le> value_size"
proof -
  have "alignment \<in> {1, 2, 4, 8, 16, 32}" and v: "alignment \<le> value_size" "value_size < size_max"
    using assms alignment_ok_iff [of alignment] by (auto simp: alignment_ok_def)
  then have "alignment = 2 ^ 0 \<or> alignment = 2 ^ 1 \<or> alignment = 2 ^ 2 \<or> alignment = 2 ^ 3 \<or>
      alignment = 2 ^ 4 \<or> alignment = 2 ^ 5" by auto
  then obtain k where k: "k \<in> {0, 1, 2, 3, 4, 5 :: nat}" "alignment = 2 ^ k" by blast
  moreover have "0 < value_size" using v(1) k(2) by (metis gr_zeroI le_zero_eq power_not_zero zero_neq_numeral)
  ultimately show thesis using that [of k] v by auto
qed

lemma wide_enough_bounds:
  assumes "wide_enough w"
  shows "34 \<le> (2::nat) ^ w" and "(2::nat) ^ w < size_max" and "w < 64" and "33 \<le> max_offset w"
    and "max_offset w + 1 = 2 ^ w"
proof -
  show "34 \<le> (2::nat) ^ w" "33 \<le> max_offset w" "w < 64" "max_offset w + 1 = 2 ^ w"
    using assms by (auto simp: wide_enough_def max_offset_def max_alignment_def)
  show "(2::nat) ^ w < size_max"
    using assms by (intro power_strict_increasing) (auto simp: wide_enough_def)
qed

lemma cast_off_small:
  assumes "n \<le> max_offset w"
  shows "cast_off w n = n"
proof -
  have "(0::nat) < 2 ^ w" by simp
  then have "n < 2 ^ w" using assms unfolding max_offset_def by linarith
  then show ?thesis by (simp add: cast_off_def)
qed

lemma exp_dvd_step:
  assumes "2 ^ k dvd (n::nat)"
  shows "n AND 2 ^ k \<noteq> 0 \<longleftrightarrow> \<not> 2 ^ Suc k dvd n"
    and "n AND 2 ^ k \<noteq> 0 \<Longrightarrow> 2 ^ Suc k dvd n + 2 ^ k"
proof -
  obtain q where n: "n = 2 ^ k * q" using assms by (elim dvdE)
  have bit: "n AND 2 ^ k \<noteq> 0 \<longleftrightarrow> odd q"
    by (simp add: and_exp_eq_0_iff_not_bit bit_iff_odd n)
  have "2 ^ Suc k dvd n \<longleftrightarrow> even q"
    unfolding n power_Suc2 by (rule nat_mult_dvd_cancel1) simp
  with bit show "n AND 2 ^ k \<noteq> 0 \<longleftrightarrow> \<not> 2 ^ Suc k dvd n" by simp
  have "n + 2 ^ k = 2 ^ k * (q + 1)" by (simp add: n)
  moreover have "2 ^ Suc k dvd 2 ^ k * (q + 1) \<longleftrightarrow> even (q + 1)"
    unfolding power_Suc2 by (rule nat_mult_dvd_cancel1) simp
  ultimately show "2 ^ Suc k dvd n + 2 ^ k" if "n AND 2 ^ k \<noteq> 0"
    using bit that by (metis odd_one odd_add)
qed

text \<open>
  The loop turns the gap between an offset and an end aligned to \<open>2 ^ m\<close> into chunks, and
  leaves nothing over: the "double check" of line 181 never fires.
\<close>

lemma carve_correct:
  assumes "2 ^ k dvd fo" and "2 ^ m dvd fo + fs" and "fs < 2 ^ m" and "m \<le> 5" and "k \<le> m"
    and "fo + fs \<le> max_offset w" and "sorted (map fst fl)"
    and "carve w k fo fs fl = (fo', rest, fl')"
  shows "rest = 0 \<and> sorted (map fst fl') \<and>
     (\<forall>b\<in>set fl'. b \<in> set fl \<or> good_chunk (fo + fs) b) \<and>
     (\<forall>x. cover fl' x = cover fl x + (if fo \<le> x \<and> x < fo + fs then 1 else 0))"
  using assms
proof (induction w k fo fs fl rule: carve.induct)
  case (1 w k fo fs fl)
  show ?case
  proof (cases "2 ^ k \<le> fs")
    case False
    have "2 ^ k dvd fo + fs" using "1.prems"(2,5) by (meson dvd_trans le_imp_power_dvd)
    then have "2 ^ k dvd fs" using "1.prems"(1) dvd_add_right_iff by blast
    with False have "fs = 0" by (metis dvd_imp_le gr_zeroI)
    moreover have "(fo, fs, fl) = (fo', rest, fl')"
      using "1.prems"(8) False by (simp add: carve.simps [of w k fo fs fl])
    ultimately show ?thesis using "1.prems"(7) by auto
  next
    case True
    then have "(2::nat) ^ k < 2 ^ m" using "1.prems"(3) by linarith
    then have km: "Suc k \<le> m" by (simp add: Suc_leI)
    show ?thesis
    proof (cases "fo AND 2 ^ k \<noteq> 0")
      case bit: True
      let ?b = "(2 ^ k, fo)"
      have cast: "cast_off w fo = fo" by (rule cast_off_small) (use "1.prems"(6) in linarith)
      have end_eq: "fo + 2 ^ k + (fs - 2 ^ k) = fo + fs" using True by simp
      have rec: "carve w (Suc k) (fo + 2 ^ k) (fs - 2 ^ k) (mm_insert ?b fl) = (fo', rest, fl')"
        using "1.prems"(8) True bit by (simp add: carve.simps [of w k fo fs fl] cast)
      have "rest = 0 \<and> sorted (map fst fl') \<and>
          (\<forall>b\<in>set fl'. b \<in> set (mm_insert ?b fl) \<or> good_chunk (fo + fs) b) \<and>
          (\<forall>x. cover fl' x = cover (mm_insert ?b fl) x +
              (if fo + 2 ^ k \<le> x \<and> x < fo + fs then 1 else 0))"
        using "1.IH"(1) [OF True bit] exp_dvd_step(2) [OF "1.prems"(1) bit] "1.prems" km rec
        by (simp add: end_eq cast sorted_mm_insert less_imp_diff_less)
      moreover have "good_chunk (fo + fs) ?b"
        using "1.prems"(1,4) km True by (auto simp: good_chunk_def)
      ultimately show ?thesis
        using True by (auto simp: set_mm_insert cover_simps in_block_def)
    next
      case bit: False
      have "2 ^ Suc k dvd fo" using exp_dvd_step(1) [OF "1.prems"(1)] bit by blast
      moreover have "carve w (Suc k) fo fs fl = (fo', rest, fl')"
        using "1.prems"(8) True bit by (simp add: carve.simps [of w k fo fs fl])
      ultimately show ?thesis
        using "1.IH"(2) [OF True bit] "1.prems" km by blast
    qed
  qed
qed

lemma good_chunk_mono: "good_chunk a b \<Longrightarrow> a \<le> c \<Longrightarrow> good_chunk c b"
  by (auto simp: good_chunk_def)

lemma place_correct:
  assumes "2 ^ m dvd fo + fs" and "fs < 2 ^ m" and "m \<le> 5"
    and "fo + fs \<le> sh_size sh" and "sh_size sh \<le> max_offset w"
    and "sorted (map fst (sh_free sh))" and "\<forall>b\<in>set (sh_free sh). good_chunk (sh_size sh) b"
  obtains fl where "place w vo fo fs sh = (Some vo, sh\<lparr>sh_free := fl\<rparr>)"
    and "sorted (map fst fl)" and "\<forall>b\<in>set fl. good_chunk (sh_size sh) b"
    and "\<And>x. cover fl x = cover (sh_free sh) x + (if fo \<le> x \<and> x < fo + fs then 1 else 0)"
proof (cases "fs = 0")
  case True
  then show thesis using that [of "sh_free sh"] assms(6,7) by (simp add: place_def)
next
  case False
  obtain fo' rest fl where c: "carve w 0 fo fs (sh_free sh) = (fo', rest, fl)"
    by (metis prod_cases3)
  have "fo + fs \<le> max_offset w" using assms(4,5) by linarith
  then have ok: "rest = 0" "sorted (map fst fl)"
    "\<forall>b\<in>set fl. b \<in> set (sh_free sh) \<or> good_chunk (fo + fs) b"
    "\<And>x. cover fl x = cover (sh_free sh) x + (if fo \<le> x \<and> x < fo + fs then 1 else 0)"
    using carve_correct [OF _ assms(1,2,3) _ _ assms(6) c] by auto
  have "(2::nat) ^ m \<le> 2 ^ 5" using assms(3) by (intro power_increasing) auto
  then have "fs < max_alignment" using assms(2) by (simp add: max_alignment_def)
  then have "place w vo fo fs sh = (Some vo, sh\<lparr>sh_free := fl\<rparr>)"
    using False c ok(1) by (simp add: place_def)
  moreover have "\<forall>b\<in>set fl. good_chunk (sh_size sh) b"
    using ok(3) assms(4,7) by (auto intro: good_chunk_mono)
  ultimately show thesis using that ok(2,4) by blast
qed

text \<open>The free-chunk path: the chunk found is split into the element and smaller chunks.\<close>

lemma alloc_from_chunk:
  assumes inv: "shard_inv w sh live" and w: "wide_enough w"
    and ok: "alignment_ok alignment vs" and vs: "vs \<le> max_offset w"
    and hit: "mm_take vs (sh_free sh) = Some ((chunk, off), rest)"
  obtains fl where "alloc_block w env vs alignment sh = (Some off, sh\<lparr>sh_free := fl\<rparr>)"
    and "alignment dvd off" and "off + vs \<le> sh_size sh"
    and "shard_inv w (sh\<lparr>sh_free := fl\<rparr>) ((vs, off) # live)"
    and "\<And>b. b \<in> set live \<Longrightarrow> disjoint_blocks (vs, off) b"
proof -
  from hit have m: "mset (sh_free sh) = add_mset (chunk, off) (mset rest)" and le: "vs \<le> chunk"
    and sub: "set rest \<subseteq> set (sh_free sh)" and mem: "(chunk, off) \<in> set (sh_free sh)"
    using mm_take_SomeD [OF hit] by auto
  have "good_chunk (sh_size sh) (chunk, off)" using inv mem by (auto simp: shard_inv_def)
  then obtain j where j: "j < 5" "chunk = 2 ^ j" and dvd: "chunk dvd off" and
    top: "off + chunk \<le> sh_size sh" by (auto simp: good_chunk_def)
  obtain k where k: "alignment = 2 ^ k" "alignment \<le> vs" "0 < vs"
    using ok by (elim alignment_okE)
  have "(2::nat) ^ k \<le> 2 ^ j" using k(1,2) le j(2) by linarith
  then have align: "alignment dvd chunk" by (simp add: k(1) j(2) le_imp_power_dvd)
  have chunk_lt: "chunk < size_max"
    unfolding j(2) using j(1) by (intro power_strict_increasing) auto
  have sub_eq: "sub_size chunk vs = chunk - vs" using le chunk_lt by (simp add: sub_size_le)
  have gap_end: "off + vs + (chunk - vs) = off + chunk" using le by simp
  let ?sh = "sh\<lparr>sh_free := rest\<rparr>"
  have cov_rest: "cover (sh_free sh) x = cover rest x + (if in_block (chunk, off) x then 1 else 0)" for x
    using cover_perm [of "sh_free sh" "(chunk, off) # rest" x] m by simp
  have gap: "2 ^ j dvd off + vs + (chunk - vs)" "chunk - vs < 2 ^ j" "j \<le> 5"
    "off + vs + (chunk - vs) \<le> sh_size ?sh"
    using dvd j top k(3) le by (auto simp: gap_end)
  have inv_rest: "sh_size ?sh \<le> max_offset w" "sorted (map fst (sh_free ?sh))"
    "\<forall>b\<in>set (sh_free ?sh). good_chunk (sh_size ?sh) b"
    using inv sub mm_take_sorted [OF hit] by (auto simp: shard_inv_def)
  obtain fl where p: "place w off (off + vs) (chunk - vs) ?sh = (Some off, ?sh\<lparr>sh_free := fl\<rparr>)"
    and fl: "sorted (map fst fl)" "\<forall>b\<in>set fl. good_chunk (sh_size sh) b"
    and cov: "\<And>x. cover fl x = cover rest x + (if off + vs \<le> x \<and> x < off + chunk then 1 else 0)"
    using place_correct [OF gap inv_rest] by (auto simp: gap_end)
  have alloc: "alloc_block w env vs alignment sh = (Some off, sh\<lparr>sh_free := fl\<rparr>)"
    using p by (simp add: alloc_block_def cast_off_small [OF vs] hit sub_eq)
  have tile: "cover ((vs, off) # live) x + cover fl x = (if x < sh_size sh then 1 else 0)" for x
  proof -
    have "cover live x + cover (sh_free sh) x = (if x < sh_size sh then 1 else 0)"
      using inv by (simp add: shard_inv_def)
    then show ?thesis using cov [of x] cov_rest [of x] le by (auto simp: in_block_def split: if_splits)
  qed
  have inv': "shard_inv w (sh\<lparr>sh_free := fl\<rparr>) ((vs, off) # live)"
    using inv fl tile by (simp add: shard_inv_def)
  have "disjoint_blocks (vs, off) b" if "b \<in> set live" for b
  proof (rule cover_le_1_disjoint [OF _ that])
    show "\<forall>x. cover ((vs, off) # live) x \<le> 1"
      using tile by (metis le_add1 zero_le order_trans le_numeral_extra(4))
  qed
  moreover have "alignment dvd off" using align dvd by (rule dvd_trans)
  moreover have "off + vs \<le> sh_size sh" using top le by linarith
  ultimately show thesis using that alloc inv' by blast
qed

text \<open>The growth path: the gap before the aligned element becomes free chunks.\<close>

lemma grow_gap:
  assumes "wide_enough w" and "sh_size sh \<le> max_offset w" and "alignment_ok alignment vs"
  obtains k where "k \<le> 5" and "alignment = 2 ^ k" and "0 < vs"
    and "alignment dvd align_up (sh_size sh) alignment"
    and "sh_size sh \<le> align_up (sh_size sh) alignment"
    and "align_up (sh_size sh) alignment < sh_size sh + 2 ^ k"
    and "sub_size (align_up (sh_size sh) alignment) (sh_size sh) =
           align_up (sh_size sh) alignment - sh_size sh"
proof -
  obtain k where k: "k \<le> 5" "alignment = 2 ^ k" "0 < vs" using assms(3) by (elim alignment_okE)
  note wb = wide_enough_bounds [OF assms(1)]
  have "(2::nat) ^ w \<le> 2 ^ 63" using wb(3) by (intro power_increasing) auto
  moreover have "(2::nat) ^ k \<le> 2 ^ 5" using k(1) by (intro power_increasing) auto
  ultimately have b: "sh_size sh + 2 ^ k \<le> size_max" using assms(2) wb(5) by simp
  have "k < 64" using k(1) by simp
  note ab = align_up_bounds [OF this b]
  have "sub_size (align_up (sh_size sh) alignment) (sh_size sh) =
          align_up (sh_size sh) alignment - sh_size sh"
    using ab b k(2) by (intro sub_size_le) auto
  then show thesis using that [of k] ab align_up_dvd [OF \<open>k < 64\<close>] k by simp
qed

lemma ensure_succeeds: "alignment_ok alignment vs \<Longrightarrow> \<exists>buf. ensure base fresh n alignment b = (True, buf)"
  by (auto simp: alignment_ok_def ensure_def Let_def alloc_buffer_def)

lemma alloc_by_growth:
  assumes inv: "shard_inv w sh live" and w: "wide_enough w"
    and ok: "alignment_ok alignment vs"
    and miss: "mm_take (cast_off w vs) (sh_free sh) = None"
    and room: "sh_size sh \<le> max_offset w - max_alignment + 1"
      "align_up (sh_size sh) alignment + vs \<le> max_offset w"
  obtains fl buf where
    "alloc_block w env vs alignment sh =
       (Some (align_up (sh_size sh) alignment),
        \<lparr>sh_size = align_up (sh_size sh) alignment + vs, sh_free = fl, sh_init = buf\<rparr>)"
    and "ensure (fst env) (snd env) (align_up (sh_size sh) alignment + vs) alignment (sh_init sh) = (True, buf)"
    and "alignment dvd align_up (sh_size sh) alignment"
    and "shard_inv w \<lparr>sh_size = align_up (sh_size sh) alignment + vs, sh_free = fl, sh_init = buf\<rparr>
           ((vs, align_up (sh_size sh) alignment) # live)"
    and "\<And>b. b \<in> set live \<Longrightarrow> disjoint_blocks (vs, align_up (sh_size sh) alignment) b"
proof -
  define vo where "vo = align_up (sh_size sh) alignment"
  have top: "sh_size sh \<le> max_offset w" using inv by (simp add: shard_inv_def)
  obtain k where k: "k \<le> 5" "alignment = 2 ^ k" "0 < vs" and dvd: "alignment dvd vo"
    and lo: "sh_size sh \<le> vo" and hi: "vo < sh_size sh + 2 ^ k"
    and gap: "sub_size vo (sh_size sh) = vo - sh_size sh"
    using grow_gap [OF w top ok] unfolding vo_def by metis
  obtain buf where e: "ensure (fst env) (snd env) (vo + vs) alignment (sh_init sh) = (True, buf)"
    using ensure_succeeds [OF ok] by blast
  have cast: "cast_off w (vo + vs) = vo + vs" using room(2) by (simp add: vo_def cast_off_small)
  let ?sh = "sh\<lparr>sh_size := vo + vs, sh_init := buf\<rparr>"
  have g: "grow w env vs alignment sh = (Some (vo, sh_size sh, vo - sh_size sh), ?sh)"
    using room e k(3) cast gap by (simp add: grow_def Let_def vo_def)
  have regions: "2 ^ k dvd sh_size sh + (vo - sh_size sh)" "vo - sh_size sh < 2 ^ k" "k \<le> 5"
    "sh_size sh + (vo - sh_size sh) \<le> sh_size ?sh"
    using dvd k lo hi by auto
  have old: "sh_size ?sh \<le> max_offset w" "sorted (map fst (sh_free ?sh))"
    "\<forall>b\<in>set (sh_free ?sh). good_chunk (sh_size ?sh) b"
    using inv room(2) lo by (auto simp: shard_inv_def vo_def intro: good_chunk_mono)
  obtain fl where p: "place w vo (sh_size sh) (vo - sh_size sh) ?sh = (Some vo, ?sh\<lparr>sh_free := fl\<rparr>)"
    and fl: "sorted (map fst fl)" "\<forall>b\<in>set fl. good_chunk (vo + vs) b"
    and cov: "\<And>x. cover fl x = cover (sh_free sh) x + (if sh_size sh \<le> x \<and> x < vo then 1 else 0)"
    using place_correct [OF regions old] lo by auto
  let ?new = "\<lparr>sh_size = vo + vs, sh_free = fl, sh_init = buf\<rparr>"
  have alloc: "alloc_block w env vs alignment sh = (Some vo, ?new)"
    using g p miss by (simp add: alloc_block_def)
  have tile: "cover ((vs, vo) # live) x + cover fl x = (if x < vo + vs then 1 else 0)" for x
  proof -
    have "cover live x + cover (sh_free sh) x = (if x < sh_size sh then 1 else 0)"
      using inv by (simp add: shard_inv_def)
    then show ?thesis using cov [of x] lo by (auto simp: in_block_def split: if_splits)
  qed
  have inv': "shard_inv w ?new ((vs, vo) # live)"
    using fl tile room(2) by (simp add: shard_inv_def vo_def)
  have "disjoint_blocks (vs, vo) b" if "b \<in> set live" for b
  proof (rule cover_le_1_disjoint [OF _ that])
    show "\<forall>x. cover ((vs, vo) # live) x \<le> 1"
      using tile by (metis le_add1 zero_le order_trans le_numeral_extra(4))
  qed
  then show thesis using that alloc e dvd inv' unfolding vo_def by blast
qed

text \<open>A request wider than \<open>slate_offset_t\<close> is never satisfied, although its size is
  truncated when the free list is searched.\<close>

lemma wide_request_misses:
  assumes w: "wide_enough w" and ok: "alignment_ok alignment vs" and big: "max_offset w < vs"
    and chunks: "\<forall>b\<in>set (sh_free sh). good_chunk (sh_size sh) b"
  shows "fst (alloc_block w env vs alignment sh) = None"
proof (cases "mm_take (cast_off w vs) (sh_free sh)")
  case None
  have "fst (grow w env vs alignment sh) = None" using big by (simp add: grow_def Let_def)
  then show ?thesis using None
    by (cases "grow w env vs alignment sh") (simp add: alloc_block_def)
next
  case (Some hit)
  obtain chunk off rest where hit: "hit = ((chunk, off), rest)" by (metis surj_pair)
  note wb = wide_enough_bounds [OF w]
  have vs: "vs < size_max" using ok by (simp add: alignment_ok_def)
  have "(chunk, off) \<in> set (sh_free sh)" and le: "cast_off w vs \<le> chunk"
    using mm_take_SomeD [of _ "sh_free sh"] Some hit by auto
  then have "good_chunk (sh_size sh) (chunk, off)" using chunks by blast
  then obtain j where "j < 5" "chunk = 2 ^ j" by (auto simp: good_chunk_def)
  then have c32: "chunk < 32" using power_strict_increasing [of j 5 "2::nat"] by simp
  have dvd: "2 ^ w dvd size_max" using wb(3) by (intro le_imp_power_dvd) simp
  have vs_split: "vs = 2 ^ w * (vs div 2 ^ w) + cast_off w vs" by (simp add: cast_off_def)
  obtain q where q: "size_max = 2 ^ w * q" using dvd by (elim dvdE)
  have "2 ^ w * (vs div 2 ^ w) < 2 ^ w * q" using vs vs_split q by linarith
  then have "vs div 2 ^ w + 1 \<le> q" by simp
  then have "2 ^ w * (vs div 2 ^ w + 1) \<le> 2 ^ w * q" by (rule mult_le_mono2)
  then have far: "vs + 2 ^ w \<le> size_max + chunk" using q vs_split le by (simp add: add_mult_distrib2)
  have "chunk < vs" using c32 big wb(4) by linarith
  then have "sub_size chunk vs = size_max - (vs - chunk)" using vs by (rule sub_size_wrap)
  then have gap: "sub_size chunk vs \<noteq> 0" "\<not> sub_size chunk vs < max_alignment"
    using far wb(1) c32 vs \<open>chunk < vs\<close> unfolding max_alignment_def by linarith+
  have "alloc_block w env vs alignment sh =
      place w off (off + vs) (sub_size chunk vs) (sh\<lparr>sh_free := rest\<rparr>)"
    using Some hit by (simp add: alloc_block_def)
  also have "\<dots> = (None, sh\<lparr>sh_free := rest\<rparr>)"
    unfolding place_def using gap by simp
  finally show ?thesis by simp
qed

lemma grow_SomeD:
  assumes "wide_enough w" and "sh_size sh \<le> max_offset w" and "alignment_ok alignment vs"
    and "grow w env vs alignment sh = (Some r, sh')"
  shows "sh_size sh \<le> max_offset w - max_alignment + 1"
    and "align_up (sh_size sh) alignment + vs \<le> max_offset w"
proof -
  show room: "sh_size sh \<le> max_offset w - max_alignment + 1"
    using assms(4) by (auto simp: grow_def Let_def split: if_splits)
  obtain k where k: "k \<le> 5" "alignment = 2 ^ k"
    and hi: "align_up (sh_size sh) alignment < sh_size sh + 2 ^ k"
    using grow_gap [OF assms(1,2,3)] by metis
  note wb = wide_enough_bounds [OF assms(1)]
  have "(2::nat) ^ k \<le> 2 ^ 5" using k(1) by (intro power_increasing) auto
  then have vo: "align_up (sh_size sh) alignment \<le> max_offset w"
    using hi room wb(4) by (simp add: max_alignment_def)
  have vs: "vs \<le> max_offset w" and nw: "\<not> cast_off w (align_up (sh_size sh) alignment + vs) \<le>
      align_up (sh_size sh) alignment"
    using assms(4) by (auto simp: grow_def Let_def not_le split: if_splits)
  show "align_up (sh_size sh) alignment + vs \<le> max_offset w"
  proof (rule ccontr)
    assume "\<not> align_up (sh_size sh) alignment + vs \<le> max_offset w"
    then have ge: "2 ^ w \<le> align_up (sh_size sh) alignment + vs" using wb(5) by linarith
    define r where "r = align_up (sh_size sh) alignment + vs - 2 ^ w"
    have r: "align_up (sh_size sh) alignment + vs = 2 ^ w + r" using ge by (simp add: r_def)
    have "r < 2 ^ w" using r vo vs wb(5) by linarith
    with r have "cast_off w (align_up (sh_size sh) alignment + vs) = r" by (simp add: cast_off_def)
    with nw r vs wb(5) show False by linarith
  qed
qed

lemma alloc_block_SomeD:
  assumes inv: "shard_inv w sh live" and w: "wide_enough w" and ok: "alignment_ok alignment vs"
    and alloc: "alloc_block w env vs alignment sh = (Some off, sh')"
  shows "alignment dvd off" and "off + vs \<le> sh_size sh'" and "vs \<le> max_offset w"
    and "shard_inv w sh' ((vs, off) # live)"
    and "\<forall>b\<in>set live. disjoint_blocks (vs, off) b"
    and "sh_size sh \<le> sh_size sh'"
proof -
  have top: "sh_size sh \<le> max_offset w" and chunks: "\<forall>b\<in>set (sh_free sh). good_chunk (sh_size sh) b"
    using inv by (simp_all add: shard_inv_def)
  show vs: "vs \<le> max_offset w"
    using wide_request_misses [OF w ok _ chunks, of env] alloc by (metis fst_conv not_le option.distinct(1))
  have "alignment dvd off \<and> off + vs \<le> sh_size sh' \<and> shard_inv w sh' ((vs, off) # live) \<and>
      (\<forall>b\<in>set live. disjoint_blocks (vs, off) b) \<and> sh_size sh \<le> sh_size sh'"
  proof (cases "mm_take vs (sh_free sh)")
    case (Some hit)
    obtain chunk o' rest where "hit = ((chunk, o'), rest)" by (metis surj_pair)
    with Some have "mm_take vs (sh_free sh) = Some ((chunk, o'), rest)" by simp
    then show ?thesis
    proof (rule alloc_from_chunk [OF inv w ok vs, where env = env])
      fix fl
      assume "alloc_block w env vs alignment sh = (Some o', sh\<lparr>sh_free := fl\<rparr>)"
        and rest: "alignment dvd o'" "o' + vs \<le> sh_size sh"
          "shard_inv w (sh\<lparr>sh_free := fl\<rparr>) ((vs, o') # live)"
          "\<And>b. b \<in> set live \<Longrightarrow> disjoint_blocks (vs, o') b"
      with alloc have "off = o'" "sh' = sh\<lparr>sh_free := fl\<rparr>" by simp_all
      with rest show ?thesis by simp
    qed
  next
    case None
    then have miss: "mm_take (cast_off w vs) (sh_free sh) = None" by (simp add: cast_off_small [OF vs])
    obtain r sg where g: "grow w env vs alignment sh = (Some r, sg)"
      using alloc miss by (cases "grow w env vs alignment sh") (auto simp: alloc_block_def split: option.splits)
    note room = grow_SomeD [OF w top ok g]
    have le: "sh_size sh \<le> align_up (sh_size sh) alignment" using grow_gap [OF w top ok] by metis
    show ?thesis
    proof (rule alloc_by_growth [OF inv w ok miss room, where env = env])
      fix fl buf
      let ?vo = "align_up (sh_size sh) alignment"
      let ?sh = "\<lparr>sh_size = ?vo + vs, sh_free = fl, sh_init = buf\<rparr>"
      assume eq: "alloc_block w env vs alignment sh = (Some ?vo, ?sh)"
        and rest: "alignment dvd ?vo" "shard_inv w ?sh ((vs, ?vo) # live)"
          "\<And>b. b \<in> set live \<Longrightarrow> disjoint_blocks (vs, ?vo) b"
      have "(Some off, sh') = (Some ?vo, ?sh)" by (rule trans [OF alloc [symmetric] eq])
      then have "off = ?vo" "sh' = ?sh" by blast+
      then show ?thesis using rest le by simp
    qed
  qed
  then show "alignment dvd off" "off + vs \<le> sh_size sh'" "shard_inv w sh' ((vs, off) # live)"
    "\<forall>b\<in>set live. disjoint_blocks (vs, off) b" "sh_size sh \<le> sh_size sh'" by simp_all
qed

lemma alloc_block_NoneD:
  assumes inv: "shard_inv w sh live" and w: "wide_enough w" and ok: "alignment_ok alignment vs"
    and vs: "vs \<le> max_offset w" and none: "fst (alloc_block w env vs alignment sh) = None"
  shows "mm_take vs (sh_free sh) = None \<and>
         (max_offset w - max_alignment + 1 < sh_size sh \<or>
          max_offset w < align_up (sh_size sh) alignment + vs)"
proof (rule conjI)
  show miss: "mm_take vs (sh_free sh) = None"
  proof (rule ccontr)
    assume "mm_take vs (sh_free sh) \<noteq> None"
    then obtain chunk o' rest where "mm_take vs (sh_free sh) = Some ((chunk, o'), rest)" by auto
    then show False
      using alloc_from_chunk [OF inv w ok vs, where env = env] none by (metis fst_conv option.distinct(1))
  qed
  show "max_offset w - max_alignment + 1 < sh_size sh \<or>
      max_offset w < align_up (sh_size sh) alignment + vs"
  proof (rule ccontr)
    assume "\<not> ?thesis"
    then have room: "sh_size sh \<le> max_offset w - max_alignment + 1"
      "align_up (sh_size sh) alignment + vs \<le> max_offset w" by simp_all
    have "mm_take (cast_off w vs) (sh_free sh) = None" using miss by (simp add: cast_off_small [OF vs])
    then show False
      using alloc_by_growth [OF inv w ok _ room, where env = env] none
      by (metis fst_conv option.distinct(1))
  qed
qed

section \<open>The interface of an allocator\<close>

text \<open>
  What the code that lays out elements relies on: a successful request returns a block that no
  earlier successful request of the same run was given. \<open>alloc_seq\<close> is a run of requests as
  the builder makes them, ending at the first that fails.
\<close>

primrec alloc_seq :: "('r \<Rightarrow> 's \<Rightarrow> nat option \<times> 's) \<Rightarrow> ('r \<Rightarrow> nat) \<Rightarrow> 'r list \<Rightarrow> 's \<Rightarrow> (block list \<times> 's) option" where
  "alloc_seq alloc need [] s = Some ([], s)"
| "alloc_seq alloc need (r # rs) s =
     (case alloc r s of
        (None, _) \<Rightarrow> None
      | (Some off, s') \<Rightarrow> map_option (map_prod (Cons (need r, off)) id) (alloc_seq alloc need rs s'))"

locale block_allocator =
  fixes alloc :: "'r \<Rightarrow> 's \<Rightarrow> nat option \<times> 's"
    and need :: "'r \<Rightarrow> nat"
    and inv :: "'s \<Rightarrow> block list \<Rightarrow> bool"
    and valid :: "'r \<Rightarrow> bool"
  assumes alloc_inv: "inv s live \<Longrightarrow> valid r \<Longrightarrow> alloc r s = (Some off, s') \<Longrightarrow> inv s' ((need r, off) # live)"
    and alloc_fresh: "inv s live \<Longrightarrow> valid r \<Longrightarrow> alloc r s = (Some off, s') \<Longrightarrow>
      b \<in> set live \<Longrightarrow> disjoint_blocks (need r, off) b"
begin

lemma seq_inv:
  "inv s live \<Longrightarrow> list_all valid rs \<Longrightarrow> alloc_seq alloc need rs s = Some (bs, s') \<Longrightarrow>
   inv s' (rev bs @ live)"
proof (induction rs arbitrary: s live bs)
  case Nil
  then show ?case by simp
next
  case (Cons r rs)
  then obtain off s1 cs where step: "alloc r s = (Some off, s1)"
    and rest: "alloc_seq alloc need rs s1 = Some (cs, s')" and bs: "bs = (need r, off) # cs"
    by (auto split: prod.splits option.splits)
  have "inv s1 ((need r, off) # live)" using Cons.prems step by (auto intro: alloc_inv)
  then have "inv s' (rev cs @ (need r, off) # live)" using Cons.IH Cons.prems(2) rest by simp
  then show ?case by (simp add: bs)
qed

lemma seq_disjoint:
  "inv s live \<Longrightarrow> list_all valid rs \<Longrightarrow> alloc_seq alloc need rs s = Some (bs, s') \<Longrightarrow>
   sorted_wrt disjoint_blocks bs \<and> (\<forall>b\<in>set bs. \<forall>l\<in>set live. disjoint_blocks l b)"
proof (induction rs arbitrary: s live bs)
  case Nil
  then show ?case by simp
next
  case (Cons r rs)
  then obtain off s1 cs where step: "alloc r s = (Some off, s1)"
    and rest: "alloc_seq alloc need rs s1 = Some (cs, s')" and bs: "bs = (need r, off) # cs"
    by (auto split: prod.splits option.splits)
  have "inv s1 ((need r, off) # live)" using Cons.prems step by (auto intro: alloc_inv)
  then have "sorted_wrt disjoint_blocks cs \<and>
      (\<forall>b\<in>set cs. \<forall>l\<in>set ((need r, off) # live). disjoint_blocks l b)"
    using Cons.IH Cons.prems(2) rest by simp
  moreover have "disjoint_blocks l (need r, off)" if "l \<in> set live" for l
    using alloc_fresh [of s live r off s1 l] Cons.prems step that by (auto simp: disjoint_blocks_def)
  ultimately show ?case by (auto simp: bs)
qed

end

text \<open>The requests of the shard allocator: what \<^verbatim>\<open>new\<close> would return, size and alignment.\<close>

type_synonym shard_request = "heap_env \<times> nat \<times> nat"

definition shard_alloc :: "nat \<Rightarrow> shard_request \<Rightarrow> shard \<Rightarrow> nat option \<times> shard" where
  "shard_alloc w r sh = (case r of (env, value_size, alignment) \<Rightarrow> alloc_block w env value_size alignment sh)"

definition shard_need :: "shard_request \<Rightarrow> nat" where
  "shard_need r = fst (snd r)"

definition shard_valid :: "nat \<Rightarrow> shard_request \<Rightarrow> bool" where
  "shard_valid w r \<longleftrightarrow> wide_enough w \<and> alignment_ok (snd (snd r)) (shard_need r)"

interpretation shards: block_allocator "shard_alloc w" shard_need "shard_inv w" "shard_valid w" for w
proof
  fix s live r off s'
  assume inv: "shard_inv w s live" and valid: "shard_valid w r" and a: "shard_alloc w r s = (Some off, s')"
  obtain env vs alignment where r: "r = (env, vs, alignment)" by (metis prod_cases3)
  have facts: "wide_enough w" "alignment_ok alignment vs" "alloc_block w env vs alignment s = (Some off, s')"
    using valid a by (auto simp: r shard_valid_def shard_need_def shard_alloc_def)
  show "shard_inv w s' ((shard_need r, off) # live)"
    using alloc_block_SomeD(4) [OF inv facts] by (simp add: r shard_need_def)
  show "disjoint_blocks (shard_need r, off) b" if "b \<in> set live" for b
    using alloc_block_SomeD(5) [OF inv facts] that by (simp add: r shard_need_def)
qed

section \<open>Properties\<close>

text \<open>
  C1: allocating an element never corrupts another one. From a shard whose live blocks and free
  chunks tile it, a request that succeeds returns an offset aligned as asked, inside the shard,
  disjoint from every block handed out before, and the new block, the old ones and the free
  chunks tile the shard again: no byte is lost and none is given out twice.
\<close>

theorem alloc_block_sound:
  assumes "shard_inv w sh live" and "wide_enough w" and "alignment_ok alignment value_size"
    and "alloc_block w env value_size alignment sh = (Some off, sh')"
  shows "alignment dvd off \<and> off + value_size \<le> sh_size sh' \<and>
         (\<forall>b\<in>set live. disjoint_blocks (value_size, off) b) \<and>
         shard_inv w sh' ((value_size, off) # live)"
  using alloc_block_SomeD [OF assms] by blast

definition sample_shard :: shard where
  "sample_shard = \<lparr>sh_size = 3, sh_free = [],
     sh_init = \<lparr>ab_ptr = 4096, ab_aligned = 4096, ab_length = 3, ab_total = 3072,
                ab_mem = replicate 3072 0\<rparr>\<rparr>"

lemma sample_shard_inv: "shard_inv 32 sample_shard [(3, 0)]"
  by (simp add: shard_inv_def sample_shard_def max_offset_def in_block_def)

lemma wide_enough_32: "wide_enough 32"
  by (simp add: wide_enough_def max_offset_def max_alignment_def)

lemma alignment_ok_simps [align_simps]:
  "alignment_ok a n \<longleftrightarrow> a \<in> {1, 2, 4, 8, 16, 32} \<and> a \<le> n \<and> n < size_max"
  using alignment_ok_iff [of a] by (auto simp: alignment_ok_def)

lemma sample_shard_alloc:
  "alloc_block 32 env 8 8 sample_shard =
     (Some 8, sample_shard\<lparr>sh_size := 16, sh_free := [(1, 3), (4, 4)],
        sh_init := sh_init sample_shard\<lparr>ab_length := 16\<rparr>\<rparr>)"
  by (simp add: alloc_block_def sample_shard_def mm_take_def grow_def max_offset_def
      max_alignment_def align_up_def neg_size_def sub_size_def cast_off_def ensure_def
      pow2_check_def place_def carve.simps Let_def)

theorem alloc_block_sound_witness:
  "fst (alloc_block 32 (0, []) 8 8 sample_shard) = Some 8 \<and>
   shard_inv 32 (snd (alloc_block 32 (0, []) 8 8 sample_shard)) [(8, 8), (3, 0)]"
  using alloc_block_sound [OF sample_shard_inv wide_enough_32 _ sample_shard_alloc [of "(0, [])"]]
  by (simp add: align_simps sample_shard_alloc)

text \<open>
  C8: when an allocation can fail. A request whose size fits \<open>slate_offset_t\<close> is refused exactly
  when no free chunk is large enough and the shard cannot grow: its size is beyond the last
  offset at which alignment is safe, or the aligned end of the element is past the last offset.
\<close>

theorem alloc_block_fails_iff:
  assumes "shard_inv w sh live" and "wide_enough w" and "alignment_ok alignment value_size"
    and "value_size \<le> max_offset w"
  shows "fst (alloc_block w env value_size alignment sh) = None \<longleftrightarrow>
         (\<forall>b\<in>set (sh_free sh). fst b < value_size) \<and>
         (max_offset w - max_alignment + 1 < sh_size sh \<or>
          max_offset w < align_up (sh_size sh) alignment + value_size)"
proof
  assume "fst (alloc_block w env value_size alignment sh) = None"
  then show "(\<forall>b\<in>set (sh_free sh). fst b < value_size) \<and>
         (max_offset w - max_alignment + 1 < sh_size sh \<or>
          max_offset w < align_up (sh_size sh) alignment + value_size)"
    using alloc_block_NoneD [OF assms] by (simp add: mm_take_None_iff)
next
  assume no: "(\<forall>b\<in>set (sh_free sh). fst b < value_size) \<and>
         (max_offset w - max_alignment + 1 < sh_size sh \<or>
          max_offset w < align_up (sh_size sh) alignment + value_size)"
  have top: "sh_size sh \<le> max_offset w" using assms(1) by (simp add: shard_inv_def)
  have "mm_take (cast_off w value_size) (sh_free sh) = None"
    using no by (simp add: mm_take_None_iff cast_off_small [OF assms(4)])
  moreover have "fst (grow w env value_size alignment sh) = None"
    using grow_SomeD [OF assms(2) top assms(3), of env] no
    by (cases "grow w env value_size alignment sh"; cases "fst (grow w env value_size alignment sh)") auto
  ultimately show "fst (alloc_block w env value_size alignment sh) = None"
    by (cases "grow w env value_size alignment sh") (simp add: alloc_block_def)
qed

theorem alloc_block_fails_iff_witness:
  "fst (alloc_block 32 (0, []) 4294967295 1 sample_shard) = None"
proof -
  have "alignment_ok 1 4294967295" by (simp add: align_simps)
  moreover have "(4294967295::nat) \<le> max_offset 32" by (simp add: max_offset_def)
  ultimately show ?thesis
    using alloc_block_fails_iff [OF sample_shard_inv wide_enough_32, of 1 4294967295 "(0, [])"]
    by (simp add: sample_shard_def max_offset_def align_up_def neg_size_def)
qed

text \<open>
  The holes are used first. If some free chunk is large enough the request succeeds without
  growing the shard, and the element is placed at the start of a smallest chunk that fits.
\<close>

theorem alloc_block_best_fit:
  assumes "shard_inv w sh live" and "wide_enough w" and "alignment_ok alignment value_size"
    and "value_size \<le> max_offset w" and "\<exists>b\<in>set (sh_free sh). value_size \<le> fst b"
  shows "\<exists>chunk off sh'. alloc_block w env value_size alignment sh = (Some off, sh') \<and>
           sh_size sh' = sh_size sh \<and> (chunk, off) \<in> set (sh_free sh) \<and> value_size \<le> chunk \<and>
           (\<forall>b\<in>set (sh_free sh). value_size \<le> fst b \<longrightarrow> chunk \<le> fst b)"
proof -
  have "mm_take value_size (sh_free sh) \<noteq> None"
    using assms(5) by (metis mm_take_None_iff not_le)
  then obtain chunk off rest where hit: "mm_take value_size (sh_free sh) = Some ((chunk, off), rest)"
    by auto
  obtain fl where alloc: "alloc_block w env value_size alignment sh = (Some off, sh\<lparr>sh_free := fl\<rparr>)"
    using alloc_from_chunk [OF assms(1-4) hit, where env = env] by metis
  have sorted: "sorted (map fst (sh_free sh))" using assms(1) by (simp add: shard_inv_def)
  have mem: "(chunk, off) \<in> set (sh_free sh)" "value_size \<le> chunk"
    using mm_take_SomeD [OF hit] by simp_all
  have least: "\<forall>b\<in>set (sh_free sh). value_size \<le> fst b \<longrightarrow> chunk \<le> fst b"
    using mm_take_best_fit [OF sorted hit] by simp
  have size: "sh_size (sh\<lparr>sh_free := fl\<rparr>) = sh_size sh" by simp
  show ?thesis using alloc mem least size by blast
qed

theorem alloc_block_best_fit_witness:
  "\<exists>sh'. alloc_block 32 (0, []) 2 2 (snd (alloc_block 32 (0, []) 8 8 sample_shard)) = (Some 4, sh') \<and>
         sh_size sh' = 16"
proof -
  let ?sh = "snd (alloc_block 32 (0, []) 8 8 sample_shard)"
  have inv: "shard_inv 32 ?sh [(8, 8), (3, 0)]"
    using alloc_block_SomeD(4) [OF sample_shard_inv wide_enough_32 _ sample_shard_alloc [of "(0, [])"]]
    by (simp add: align_simps sample_shard_alloc)
  have req: "alignment_ok 2 2" "2 \<le> max_offset 32" by (simp_all add: align_simps max_offset_def)
  have "\<exists>b\<in>set (sh_free ?sh). 2 \<le> fst b" by (simp add: sample_shard_alloc)
  from alloc_block_best_fit [OF inv wide_enough_32 req this, of "(0, [])"]
  obtain chunk off sh' where hit: "alloc_block 32 (0, []) 2 2 ?sh = (Some off, sh')" "sh_size sh' = sh_size ?sh"
    "(chunk, off) \<in> set (sh_free ?sh)" "2 \<le> chunk" by blast
  have "off = 4" using hit(3,4) by (auto simp: sample_shard_alloc)
  moreover have "sh_size ?sh = 16" by (simp add: sample_shard_alloc)
  ultimately show ?thesis using hit(1,2) by auto
qed

text \<open>
  C5: the layout of a whole build is free of overlap. Any run of valid requests that all succeed
  returns pairwise disjoint blocks, disjoint also from every block that was live before.
\<close>

theorem alloc_run_disjoint:
  assumes "shard_inv w sh live" and "list_all (shard_valid w) reqs"
    and "alloc_seq (shard_alloc w) shard_need reqs sh = Some (blocks, sh')"
  shows "sorted_wrt disjoint_blocks blocks \<and>
         (\<forall>b\<in>set blocks. \<forall>l\<in>set live. disjoint_blocks l b) \<and>
         shard_inv w sh' (rev blocks @ live)"
  using shards.seq_disjoint [OF assms] shards.seq_inv [OF assms] by blast

theorem alloc_run_disjoint_witness:
  "\<exists>blocks sh'. alloc_seq (shard_alloc 32) shard_need [((0, []), 8, 8), ((0, []), 3, 1)] sample_shard =
      Some (blocks, sh') \<and> sorted_wrt disjoint_blocks blocks \<and> blocks = [(8, 8), (3, 4)]"
proof -
  let ?reqs = "[((0, []), 8, 8), ((0, []), 3, 1)] :: shard_request list"
  have "list_all (shard_valid 32) ?reqs"
    by (simp add: shard_valid_def shard_need_def align_simps wide_enough_32)
  moreover have second: "\<exists>sh'. alloc_block 32 (0, []) 3 1 (snd (alloc_block 32 (0, []) 8 8 sample_shard)) = (Some 4, sh')"
    by (simp add: sample_shard_alloc)
       (simp add: sample_shard_def alloc_block_def mm_take_def cast_off_def sub_size_def place_def
         max_alignment_def carve.simps)
  then obtain sh' where "alloc_seq (shard_alloc 32) shard_need ?reqs sample_shard = Some ([(8, 8), (3, 4)], sh')"
    by (auto simp: shard_alloc_def shard_need_def sample_shard_alloc)
  ultimately show ?thesis
    using alloc_run_disjoint [OF sample_shard_inv] by blast
qed

definition big_shard :: shard where
  "big_shard = \<lparr>sh_size = 100, sh_free = [],
     sh_init = \<lparr>ab_ptr = 4096, ab_aligned = 4096, ab_length = 100, ab_total = 3072,
                ab_mem = replicate 3072 0\<rparr>\<rparr>"

text \<open>
  The one failure that does corrupt. An element size close to the width of
  \<open>slate_offset_t\<close> makes the new shard size wrap around; the source notices (line 147) and
  returns false, but only after it has stored the wrapped size (line 145). The shard is now
  smaller than what was handed out, and the next request is placed over a live element.
\<close>

theorem failed_growth_corrupts_shard:
  "shard_inv 32 big_shard [(100, 0)] \<and>
   (case alloc_block 32 env (2 ^ 32 - 50) 4 big_shard of
      (None, sh) \<Rightarrow> sh_size sh = 50 \<and>
        (case alloc_block 32 env 4 4 sh of
           (Some off, _) \<Rightarrow> off = 52 \<and> \<not> disjoint_blocks (4, off) (100, 0)
         | (None, _) \<Rightarrow> False)
    | (Some _, _) \<Rightarrow> False)"
proof -
  have "\<not> disjoint_blocks (4, 52) (100, 0)"
    by (auto simp: disjoint_blocks_def in_block_def intro: exI [of _ 52])
  moreover have "shard_inv 32 big_shard [(100, 0)]"
    by (simp add: shard_inv_def big_shard_def max_offset_def in_block_def)
  ultimately show ?thesis
    by (simp add: alloc_block_def big_shard_def mm_take_def grow_def max_offset_def
        max_alignment_def align_up_def neg_size_def sub_size_def cast_off_def ensure_def
        pow2_check_def place_def carve.simps Let_def)
qed

end
