(* ===== verification/Slate_Layout.thy ===== *)
theory Slate_Layout
  imports Slate_Alloc
begin

text \<open>
  \<^verbatim>\<open>vehicle/src/bullwinkle/all/SlateLayout.cc\<close>: the registry of all Slate elements. It maps
  element paths to metadata, hands out element IDs that carry the write and validation rights,
  and places each element in its shard with the allocator of \<open>Slate_Alloc\<close>.

  Three things the file uses are not part of the repository and are parameters, collected in
  the record \<open>layout_env\<close>:
  \<^item> the ID packing \<^verbatim>\<open>slate_id_*\<close> (\<open>id_codec\<close>), with the laws \<open>codec_ok\<close>: what is packed
    into an ID can be read back, and \<^verbatim>\<open>slate_id_ro\<close> clears the write bit only;
  \<^item> the container \<^verbatim>\<open>SlatePathMap\<close> (\<open>path_map\<close>), with the laws \<open>path_map_ok\<close>: a map from
    paths to metadata whose entries keep a stable index;
  \<^item> \<^verbatim>\<open>validate_slate_path\<close>, the width of \<open>slate_offset_t\<close>, the number of shards and the
    index of the static shard.
  A validator is an option, \<open>None\<close> standing for the default validator that does nothing. The
  operations return \<open>None\<close> where the source returns false, with the layout they leave. The
  string pool that keeps the paths alive, and the printing, have no counterpart.
\<close>

section \<open>Data\<close>

datatype access = Slate_private | Slate_read_only | Slate_read_write

instantiation access :: linorder
begin

fun access_rank :: "access \<Rightarrow> nat" where
  "access_rank Slate_private = 0"
| "access_rank Slate_read_only = 1"
| "access_rank Slate_read_write = 2"

definition less_eq_access_def: "a \<le> b \<longleftrightarrow> access_rank a \<le> access_rank b"
definition less_access_def: "a < b \<longleftrightarrow> access_rank a < access_rank b"

instance
proof
  fix a b :: access
  show "a \<le> b \<Longrightarrow> b \<le> a \<Longrightarrow> a = b"
    by (cases a; cases b) (simp_all add: less_eq_access_def)
qed (auto simp: less_eq_access_def less_access_def)

end

record metadata =
  md_type :: nat
  md_shard :: nat
  md_offset :: nat
  md_size :: nat
  md_access :: access
  md_subsystem :: nat
  md_is_view :: bool

record 'id id_codec =
  id_buildup :: "bool \<Rightarrow> bool \<Rightarrow> nat \<Rightarrow> nat \<Rightarrow> nat \<Rightarrow> 'id option"
  id_is_valid :: "'id \<Rightarrow> bool"
  id_index :: "'id \<Rightarrow> nat"
  id_can_write :: "'id \<Rightarrow> bool"
  id_has_validator :: "'id \<Rightarrow> bool"
  id_ro :: "'id \<Rightarrow> 'id"

record 'pm path_map =
  pm_empty :: 'pm
  pm_insert :: "string \<Rightarrow> metadata \<Rightarrow> 'pm \<Rightarrow> bool \<times> nat \<times> 'pm"
  pm_find :: "string \<Rightarrow> 'pm \<Rightarrow> nat option"
  pm_at :: "nat \<Rightarrow> 'pm \<Rightarrow> (string \<times> metadata) option"

record ('id, 'pm) layout_env =
  le_width :: nat
  le_num_shards :: nat
  le_static :: nat
  le_type_invalid :: nat
  le_codec :: "'id id_codec"
  le_paths :: "'pm path_map"
  le_valid_path :: "string \<Rightarrow> bool"

record ('pm, 'v) layout =
  lo_elements :: 'pm
  lo_validators :: "nat \<rightharpoonup> 'v"
  lo_policy :: "nat \<Rightarrow> access"
  lo_shards :: "nat \<Rightarrow> shard"

section \<open>Laws of the parameters\<close>

definition codec_ok :: "'id id_codec \<Rightarrow> bool" where
  "codec_ok c \<longleftrightarrow>
     (\<forall>w v s off i eid. id_buildup c w v s off i = Some eid \<longrightarrow>
        id_index c eid = i \<and> id_can_write c eid = w \<and> id_has_validator c eid = v) \<and>
     (\<forall>eid. id_index c (id_ro c eid) = id_index c eid \<and> \<not> id_can_write c (id_ro c eid) \<and>
        id_has_validator c (id_ro c eid) = id_has_validator c eid \<and>
        id_is_valid c (id_ro c eid) = id_is_valid c eid)"

definition path_map_ok :: "'pm path_map \<Rightarrow> ('pm \<Rightarrow> bool) \<Rightarrow> bool" where
  "path_map_ok m ok \<longleftrightarrow>
     ok (pm_empty m) \<and> (\<forall>i. pm_at m i (pm_empty m) = None) \<and>
     (\<forall>s p i. ok s \<longrightarrow> (pm_find m p s = Some i \<longleftrightarrow> (\<exists>md. pm_at m i s = Some (p, md)))) \<and>
     (\<forall>s p md b i s'. ok s \<longrightarrow> pm_insert m p md s = (b, i, s') \<longrightarrow>
        ok s' \<and> (b \<longleftrightarrow> pm_find m p s = None) \<and>
        (b \<longrightarrow> pm_at m i s = None \<and> (\<forall>j. pm_at m j s' = (if j = i then Some (p, md) else pm_at m j s))) \<and>
        (\<not> b \<longrightarrow> s' = s))"

section \<open>Construction\<close>

definition empty_shard :: shard where
  "empty_shard = \<lparr>sh_size = 0, sh_free = [], sh_init = abuf_new\<rparr>"

definition layout_new :: "('id, 'pm) layout_env \<Rightarrow> ('pm, 'v) layout" where
  "layout_new E =
     \<lparr>lo_elements = pm_empty (le_paths E), lo_validators = Map.empty,
      lo_policy = (\<lambda>_. Slate_read_write)(le_static E := Slate_read_only),
      lo_shards = (\<lambda>_. empty_shard)\<rparr>"

section \<open>Registering an element\<close>

definition add_element_and_build_id ::
  "('id, 'pm) layout_env \<Rightarrow> string \<Rightarrow> metadata \<Rightarrow> 'v option \<Rightarrow> ('pm, 'v) layout \<Rightarrow>
   'id option \<times> ('pm, 'v) layout" where
  "add_element_and_build_id E path md validator lo =
     (if path = [] then (None, lo)
      else if \<not> le_valid_path E path then (None, lo)
      else
        (case pm_insert (le_paths E) path md (lo_elements lo) of (inserted, idx, pm') \<Rightarrow>
           if \<not> inserted then (None, lo\<lparr>lo_elements := pm'\<rparr>)
           else
             let lo' = lo\<lparr>lo_elements := pm'\<rparr> in
             (case id_buildup (le_codec E) (md_shard md \<noteq> le_static E) (validator \<noteq> None)
                     (md_shard md) (md_offset md) idx of
                None \<Rightarrow> (None, lo')
              | Some eid \<Rightarrow>
                  if \<not> id_is_valid (le_codec E) eid then (None, lo')
                  else
                    (case validator of
                       None \<Rightarrow> (Some eid, lo')
                     | Some v \<Rightarrow>
                         if lo_validators lo' idx \<noteq> None then (None, lo')
                         else (Some eid, lo'\<lparr>lo_validators := (lo_validators lo')(idx \<mapsto> v)\<rparr>)))))"

text \<open>
  \<open>allocate_element\<close> returns the element ID and where the element's initial value lives: the
  shard and the offset that the pointer \<open>mem\<close> points at.
\<close>

definition allocate_element ::
  "('id, 'pm) layout_env \<Rightarrow> heap_env \<Rightarrow> string \<Rightarrow> nat \<Rightarrow> nat \<Rightarrow> nat \<Rightarrow> nat \<Rightarrow> access \<Rightarrow>
   'v option \<Rightarrow> nat \<Rightarrow> ('pm, 'v) layout \<Rightarrow> ('id \<times> nat \<times> nat) option \<times> ('pm, 'v) layout" where
  "allocate_element E heap path type_id value_size alignment shard policy validator subsystem lo =
     (if value_size = 0 then (None, lo)
      else if \<not> pow2_check alignment then (None, lo)
      else if alignment > max_alignment then (None, lo)
      else if alignment > value_size then (None, lo)
      else if \<not> shard < le_num_shards E then (None, lo)
      else if policy > lo_policy lo shard then (None, lo)
      else
        (case alloc_block (le_width E) heap value_size alignment (lo_shards lo shard) of
           (None, sh) \<Rightarrow> (None, lo\<lparr>lo_shards := (lo_shards lo)(shard := sh)\<rparr>)
         | (Some value_offset, sh) \<Rightarrow>
             let lo' = lo\<lparr>lo_shards := (lo_shards lo)(shard := sh)\<rparr>;
                 md = \<lparr>md_type = type_id, md_shard = shard,
                       md_offset = cast_off (le_width E) value_offset,
                       md_size = cast_off (le_width E) value_size,
                       md_access = policy, md_subsystem = subsystem, md_is_view = False\<rparr>
             in (case add_element_and_build_id E path md validator lo' of
                   (None, lo'') \<Rightarrow> (None, lo'')
                 | (Some eid, lo'') \<Rightarrow> (Some (eid, shard, value_offset), lo''))))"

section \<open>Queries\<close>

definition get_element ::
  "('id, 'pm) layout_env \<Rightarrow> 'id \<Rightarrow> nat \<Rightarrow> ('pm, 'v) layout \<Rightarrow> (string \<times> metadata) option" where
  "get_element E eid type_id lo =
     (if \<not> id_is_valid (le_codec E) eid then None
      else if type_id = le_type_invalid E then None
      else
        (case pm_at (le_paths E) (id_index (le_codec E) eid) (lo_elements lo) of
           None \<Rightarrow> None
         | Some (path, md) \<Rightarrow> if md_type md = type_id then Some (path, md) else None))"

definition get_element_by_path ::
  "('id, 'pm) layout_env \<Rightarrow> string \<Rightarrow> ('pm, 'v) layout \<Rightarrow> metadata option" where
  "get_element_by_path E path lo =
     (case pm_find (le_paths E) path (lo_elements lo) of
        None \<Rightarrow> None
      | Some i \<Rightarrow> map_option snd (pm_at (le_paths E) i (lo_elements lo)))"

definition build_element_id ::
  "('id, 'pm) layout_env \<Rightarrow> string \<Rightarrow> metadata \<Rightarrow> access \<Rightarrow> ('pm, 'v) layout \<Rightarrow> 'id option" where
  "build_element_id E path md access_elevation lo =
     (case pm_find (le_paths E) path (lo_elements lo) of
        None \<Rightarrow> None
      | Some idx \<Rightarrow>
          let access = max (md_access md) access_elevation in
          (case id_buildup (le_codec E) False False (md_shard md) (md_offset md) idx of
             None \<Rightarrow> None
           | Some _ \<Rightarrow>
               let has_validator = (lo_validators lo idx \<noteq> None) in
               (case access of
                  Slate_private \<Rightarrow> None
                | Slate_read_only \<Rightarrow>
                    id_buildup (le_codec E) False has_validator (md_shard md) (md_offset md) idx
                | Slate_read_write \<Rightarrow>
                    id_buildup (le_codec E) True has_validator (md_shard md) (md_offset md) idx)))"

definition get_element_id_elevated ::
  "('id, 'pm) layout_env \<Rightarrow> string \<Rightarrow> nat \<Rightarrow> access \<Rightarrow> ('pm, 'v) layout \<Rightarrow> 'id option" where
  "get_element_id_elevated E path type_id access_elevation lo =
     (case get_element_by_path E path lo of
        None \<Rightarrow> None
      | Some md \<Rightarrow>
          if md_type md \<noteq> type_id then None
          else build_element_id E path md access_elevation lo)"

definition get_element_id ::
  "('id, 'pm) layout_env \<Rightarrow> string \<Rightarrow> nat \<Rightarrow> ('pm, 'v) layout \<Rightarrow> 'id option" where
  "get_element_id E path type_id lo = get_element_id_elevated E path type_id Slate_private lo"

definition get_element_access_policy ::
  "('id, 'pm) layout_env \<Rightarrow> 'id \<Rightarrow> nat \<Rightarrow> ('pm, 'v) layout \<Rightarrow> access option" where
  "get_element_access_policy E eid type_id lo = map_option (md_access \<circ> snd) (get_element E eid type_id lo)"

definition get_element_type :: "('id, 'pm) layout_env \<Rightarrow> string \<Rightarrow> ('pm, 'v) layout \<Rightarrow> nat option" where
  "get_element_type E path lo = map_option md_type (get_element_by_path E path lo)"

definition get_element_path :: "('id, 'pm) layout_env \<Rightarrow> 'id \<Rightarrow> ('pm, 'v) layout \<Rightarrow> string option" where
  "get_element_path E eid lo =
     (if \<not> id_is_valid (le_codec E) eid then None
      else map_option fst (pm_at (le_paths E) (id_index (le_codec E) eid) (lo_elements lo)))"

definition get_first_element_path ::
  "('id, 'pm) layout_env \<Rightarrow> 'id \<Rightarrow> nat \<Rightarrow> ('pm, 'v) layout \<Rightarrow> string option" where
  "get_first_element_path E eid type_id lo = map_option fst (get_element E eid type_id lo)"

definition get_element_initial_memory ::
  "('id, 'pm) layout_env \<Rightarrow> 'id \<Rightarrow> nat \<Rightarrow> ('pm, 'v) layout \<Rightarrow> byte list option" where
  "get_element_initial_memory E eid type_id lo =
     (case get_element E eid type_id lo of
        None \<Rightarrow> None
      | Some (_, md) \<Rightarrow>
          Some (take (md_size md) (drop (md_offset md) (ab_mem (sh_init (lo_shards lo (md_shard md)))))))"

definition get_element_validator ::
  "('id, 'pm) layout_env \<Rightarrow> 'id \<Rightarrow> ('pm, 'v) layout \<Rightarrow> 'v option" where
  "get_element_validator E eid lo = lo_validators lo (id_index (le_codec E) eid)"

definition path_exists :: "('id, 'pm) layout_env \<Rightarrow> string \<Rightarrow> ('pm, 'v) layout \<Rightarrow> bool" where
  "path_exists E path lo \<longleftrightarrow> pm_find (le_paths E) path (lo_elements lo) \<noteq> None"

definition element_exists :: "('id, 'pm) layout_env \<Rightarrow> string \<Rightarrow> nat \<Rightarrow> ('pm, 'v) layout \<Rightarrow> bool" where
  "element_exists E path type_id lo \<longleftrightarrow>
     (case get_element_by_path E path lo of None \<Rightarrow> False | Some md \<Rightarrow> md_type md = type_id)"

definition get_shard_size :: "('id, 'pm) layout_env \<Rightarrow> nat \<Rightarrow> ('pm, 'v) layout \<Rightarrow> nat option" where
  "get_shard_size E shard lo =
     (if shard < le_num_shards E then Some (sh_size (lo_shards lo shard)) else None)"

section \<open>Views and finalization\<close>

definition create_view_element ::
  "('id, 'pm) layout_env \<Rightarrow> 'id \<Rightarrow> nat \<Rightarrow> nat \<Rightarrow> string \<Rightarrow> nat \<Rightarrow> nat \<Rightarrow> nat \<Rightarrow> nat \<Rightarrow>
   ('pm, 'v) layout \<Rightarrow> 'id option \<times> ('pm, 'v) layout" where
  "create_view_element E parent_id parent_type element_offset path type_id value_size alignment subsystem lo =
     (if value_size = 0 then (None, lo)
      else if \<not> pow2_check alignment then (None, lo)
      else if alignment > max_alignment then (None, lo)
      else
        (case get_element E parent_id parent_type lo of
           None \<Rightarrow> (None, lo)
         | Some (_, parent) \<Rightarrow>
             if lo_validators lo (id_index (le_codec E) parent_id) \<noteq> None \<and>
                md_access parent > Slate_read_only then (None, lo)
             else if element_offset > md_size parent then (None, lo)
             else if value_size > md_size parent then (None, lo)
             else if element_offset + value_size > md_size parent then (None, lo)
             else if (md_offset parent + element_offset) AND (alignment - 1) \<noteq> 0 then (None, lo)
             else
               (case add_element_and_build_id E path
                       \<lparr>md_type = type_id, md_shard = md_shard parent,
                        md_offset = cast_off (le_width E) (md_offset parent + element_offset),
                        md_size = cast_off (le_width E) value_size,
                        md_access = md_access parent, md_subsystem = subsystem,
                        md_is_view = True\<rparr> None lo of
                  (None, lo') \<Rightarrow> (None, lo')
                | (Some view_id, lo') \<Rightarrow>
                    (Some (if \<not> id_can_write (le_codec E) parent_id
                           then id_ro (le_codec E) view_id else view_id), lo'))))"

definition finalize :: "('id, 'pm) layout_env \<Rightarrow> ('pm, 'v) layout \<Rightarrow> ('pm, 'v) layout" where
  "finalize E lo =
     lo\<lparr>lo_shards := (\<lambda>s. if s < le_num_shards E
                          then (lo_shards lo s)\<lparr>sh_free := [], sh_init := abuf_new\<rparr>
                          else lo_shards lo s),
        lo_elements := pm_empty (le_paths E)\<rparr>"

section \<open>Facts about the parameters\<close>

lemma codec_okD:
  assumes "codec_ok c" and "id_buildup c wr v s off i = Some eid"
  shows "id_index c eid = i" and "id_can_write c eid = wr" and "id_has_validator c eid = v"
  using assms unfolding codec_ok_def by blast+

lemma codec_ok_ro:
  assumes "codec_ok c"
  shows "id_index c (id_ro c eid) = id_index c eid" and "\<not> id_can_write c (id_ro c eid)"
    and "id_has_validator c (id_ro c eid) = id_has_validator c eid"
    and "id_is_valid c (id_ro c eid) = id_is_valid c eid"
  using assms unfolding codec_ok_def by blast+

lemma path_map_find:
  assumes "path_map_ok m ok" and "ok s"
  shows "pm_find m p s = Some i \<longleftrightarrow> (\<exists>md. pm_at m i s = Some (p, md))"
  using assms unfolding path_map_ok_def by blast

lemma path_map_insert:
  assumes "path_map_ok m ok" and "ok s" and "pm_insert m p md s = (b, i, s')"
  shows "ok s'" and "b \<longleftrightarrow> pm_find m p s = None" and "\<not> b \<Longrightarrow> s' = s"
    and "b \<Longrightarrow> pm_at m i s = None"
    and "b \<Longrightarrow> pm_at m j s' = (if j = i then Some (p, md) else pm_at m j s)"
  using assms unfolding path_map_ok_def by blast+

section \<open>Registration\<close>

lemma add_element_SomeD:
  assumes "add_element_and_build_id E path md validator lo = (Some eid, lo')"
    and "path_map_ok (le_paths E) ok" and "ok (lo_elements lo)" and "codec_ok (le_codec E)"
  obtains idx where "id_index (le_codec E) eid = idx" and "id_is_valid (le_codec E) eid"
    and "id_can_write (le_codec E) eid \<longleftrightarrow> md_shard md \<noteq> le_static E"
    and "id_has_validator (le_codec E) eid \<longleftrightarrow> validator \<noteq> None"
    and "pm_at (le_paths E) idx (lo_elements lo) = None"
    and "\<And>j. pm_at (le_paths E) j (lo_elements lo') =
           (if j = idx then Some (path, md) else pm_at (le_paths E) j (lo_elements lo))"
    and "ok (lo_elements lo')" and "pm_find (le_paths E) path (lo_elements lo) = None"
    and "lo_shards lo' = lo_shards lo" and "lo_policy lo' = lo_policy lo"
    and "lo_validators lo' = (case validator of None \<Rightarrow> lo_validators lo
                              | Some v \<Rightarrow> (lo_validators lo)(idx \<mapsto> v))"
proof -
  obtain b idx pm' where ins: "pm_insert (le_paths E) path md (lo_elements lo) = (b, idx, pm')"
    by (metis prod_cases3)
  have b: "b" using assms(1) ins by (auto simp: add_element_and_build_id_def split: if_splits)
  obtain i where id: "id_buildup (le_codec E) (md_shard md \<noteq> le_static E) (validator \<noteq> None)
      (md_shard md) (md_offset md) idx = Some i" and valid: "id_is_valid (le_codec E) i" and i: "i = eid"
    and lo': "lo' = lo\<lparr>lo_elements := pm', lo_validators := (case validator of None \<Rightarrow> lo_validators lo
        | Some v \<Rightarrow> (lo_validators lo)(idx \<mapsto> v))\<rparr>"
    using assms(1) ins b
    by (cases validator)
       (auto simp: add_element_and_build_id_def Let_def split: if_splits option.splits)
  note pm = path_map_insert [OF assms(2,3) ins]
  show thesis
    using that [of idx] codec_okD [OF assms(4) id] valid pm b by (auto simp: lo' i)
qed

section \<open>The layout invariant\<close>

text \<open>
  \<open>live s\<close> are the blocks shard \<open>s\<close> has handed out. Every element that owns memory has one of
  them, no two owners overlap, every view lies inside an owner of its shard with the same
  access policy, no policy exceeds the maximum of its shard, and validators belong to
  registered elements. No element is empty.
\<close>

definition md_block :: "metadata \<Rightarrow> block" where
  "md_block md = (md_size md, md_offset md)"

definition inside_block :: "block \<Rightarrow> block \<Rightarrow> bool" where
  "inside_block a b \<longleftrightarrow> snd b \<le> snd a \<and> snd a + fst a \<le> snd b + fst b"

definition layout_inv ::
  "('id, 'pm) layout_env \<Rightarrow> ('pm \<Rightarrow> bool) \<Rightarrow> (nat \<Rightarrow> block list) \<Rightarrow> ('pm, 'v) layout \<Rightarrow> bool" where
  "layout_inv E ok live lo \<longleftrightarrow>
     ok (lo_elements lo) \<and>
     (\<forall>s. shard_inv (le_width E) (lo_shards lo s) (live s)) \<and>
     (\<forall>i p md. pm_at (le_paths E) i (lo_elements lo) = Some (p, md) \<longrightarrow>
        0 < md_size md \<and> md_access md \<le> lo_policy lo (md_shard md) \<and>
        (\<not> md_is_view md \<longrightarrow> md_block md \<in> set (live (md_shard md))) \<and>
        (md_is_view md \<longrightarrow> (\<exists>j q own. pm_at (le_paths E) j (lo_elements lo) = Some (q, own) \<and>
            \<not> md_is_view own \<and> md_shard own = md_shard md \<and> md_access own = md_access md \<and>
            inside_block (md_block md) (md_block own)))) \<and>
     (\<forall>i j p q a b. i \<noteq> j \<and> pm_at (le_paths E) i (lo_elements lo) = Some (p, a) \<and>
        pm_at (le_paths E) j (lo_elements lo) = Some (q, b) \<and>
        \<not> md_is_view a \<and> \<not> md_is_view b \<and> md_shard a = md_shard b \<longrightarrow>
        disjoint_blocks (md_block a) (md_block b)) \<and>
     (\<forall>i. lo_validators lo i \<noteq> None \<longrightarrow> pm_at (le_paths E) i (lo_elements lo) \<noteq> None)"

lemma layout_invD:
  assumes "layout_inv E ok live lo"
  shows "ok (lo_elements lo)"
    and "shard_inv (le_width E) (lo_shards lo s) (live s)"
    and "pm_at (le_paths E) i (lo_elements lo) = Some (p, md) \<Longrightarrow> md_access md \<le> lo_policy lo (md_shard md)"
    and "pm_at (le_paths E) i (lo_elements lo) = Some (p, md) \<Longrightarrow> \<not> md_is_view md \<Longrightarrow>
      md_block md \<in> set (live (md_shard md))"
    and "pm_at (le_paths E) i (lo_elements lo) = Some (p, md) \<Longrightarrow> md_is_view md \<Longrightarrow>
      \<exists>j q own. pm_at (le_paths E) j (lo_elements lo) = Some (q, own) \<and>
        \<not> md_is_view own \<and> md_shard own = md_shard md \<and> md_access own = md_access md \<and>
        inside_block (md_block md) (md_block own)"
    and "i \<noteq> j \<Longrightarrow> pm_at (le_paths E) i (lo_elements lo) = Some (p, a) \<Longrightarrow>
      pm_at (le_paths E) j (lo_elements lo) = Some (q, b) \<Longrightarrow> \<not> md_is_view a \<Longrightarrow> \<not> md_is_view b \<Longrightarrow>
      md_shard a = md_shard b \<Longrightarrow> disjoint_blocks (md_block a) (md_block b)"
    and "lo_validators lo i \<noteq> None \<Longrightarrow> pm_at (le_paths E) i (lo_elements lo) \<noteq> None"
    and "pm_at (le_paths E) i (lo_elements lo) = Some (p, md) \<Longrightarrow> 0 < md_size md"
  using assms unfolding layout_inv_def by blast+

lemma shard_inv_empty: "shard_inv w empty_shard []"
  by (simp add: shard_inv_def empty_shard_def)

lemma layout_inv_new:
  assumes "path_map_ok (le_paths E) ok"
  shows "layout_inv E ok (\<lambda>_. []) (layout_new E)"
  using assms by (simp add: layout_inv_def layout_new_def path_map_ok_def shard_inv_empty)

lemma disjoint_blocks_sym: "disjoint_blocks a b \<Longrightarrow> disjoint_blocks b a"
  by (auto simp: disjoint_blocks_def)

text \<open>The data of a successful \<open>allocate_element\<close>, unfolded once for all properties.\<close>

lemma allocate_element_SomeD:
  assumes alloc: "allocate_element E heap path type_id vs alignment shard policy validator sub lo =
      (Some (eid, sh, off), lo')"
    and inv: "layout_inv E ok live lo" and maps: "path_map_ok (le_paths E) ok"
    and codec: "codec_ok (le_codec E)" and w: "wide_enough (le_width E)" and vs: "vs < size_max"
  obtains idx md where "md = \<lparr>md_type = type_id, md_shard = shard, md_offset = off, md_size = vs,
        md_access = policy, md_subsystem = sub, md_is_view = False\<rparr>"
    and "sh = shard" and "shard < le_num_shards E" and "policy \<le> lo_policy lo shard"
    and "alignment dvd off" and "id_index (le_codec E) eid = idx" and "id_is_valid (le_codec E) eid"
    and "id_can_write (le_codec E) eid \<longleftrightarrow> shard \<noteq> le_static E"
    and "id_has_validator (le_codec E) eid \<longleftrightarrow> validator \<noteq> None"
    and "pm_at (le_paths E) idx (lo_elements lo) = None"
    and "\<And>j. pm_at (le_paths E) j (lo_elements lo') =
           (if j = idx then Some (path, md) else pm_at (le_paths E) j (lo_elements lo))"
    and "ok (lo_elements lo')" and "pm_find (le_paths E) path (lo_elements lo) = None"
    and "\<And>s. shard_inv (le_width E) (lo_shards lo' s) ((live(shard := (vs, off) # live shard)) s)"
    and "\<forall>b\<in>set (live shard). disjoint_blocks (vs, off) b"
    and "lo_policy lo' = lo_policy lo"
    and "lo_validators lo' = (case validator of None \<Rightarrow> lo_validators lo
                              | Some v \<Rightarrow> (lo_validators lo)(idx \<mapsto> v))"
proof -
  have ok: "alignment_ok alignment vs"
    using alloc vs by (auto simp: allocate_element_def alignment_ok_def split: if_splits)
  have guards: "shard < le_num_shards E" "policy \<le> lo_policy lo shard"
    using alloc by (auto simp: allocate_element_def split: if_splits)
  obtain o' s1 where blk: "alloc_block (le_width E) heap vs alignment (lo_shards lo shard) = (Some o', s1)"
    using alloc by (auto simp: allocate_element_def split: if_splits prod.splits option.splits)
  note fresh = alloc_block_SomeD [OF layout_invD(2) [OF inv, of shard] w ok blk]
  have "o' \<le> max_offset (le_width E)" using fresh(2,4) by (auto simp: shard_inv_def)
  then have cast: "cast_off (le_width E) o' = o'" "cast_off (le_width E) vs = vs"
    using fresh(3) by (simp_all add: cast_off_small)
  define lo1 where "lo1 = lo\<lparr>lo_shards := (lo_shards lo)(shard := s1)\<rparr>"
  define md where "md = \<lparr>md_type = type_id, md_shard = shard, md_offset = o', md_size = vs,
        md_access = policy, md_subsystem = sub, md_is_view = False\<rparr>"
  have add: "add_element_and_build_id E path md validator lo1 = (Some eid, lo')"
    and out: "sh = shard" "off = o'"
    using alloc blk
    by (auto simp: allocate_element_def Let_def cast lo1_def md_def split: if_splits prod.splits option.splits)
  have ok1: "ok (lo_elements lo1)" using layout_invD(1) [OF inv] by (simp add: lo1_def)
  have lo1_same: "lo_elements lo1 = lo_elements lo" "lo_validators lo1 = lo_validators lo"
    "lo_policy lo1 = lo_policy lo" "lo_shards lo1 = (lo_shards lo)(shard := s1)" "md_shard md = shard"
    by (simp_all add: lo1_def md_def)
  obtain idx where reg: "id_index (le_codec E) eid = idx" "id_is_valid (le_codec E) eid"
    "id_can_write (le_codec E) eid \<longleftrightarrow> shard \<noteq> le_static E"
    "id_has_validator (le_codec E) eid \<longleftrightarrow> validator \<noteq> None"
    "pm_at (le_paths E) idx (lo_elements lo) = None"
    "\<And>j. pm_at (le_paths E) j (lo_elements lo') =
       (if j = idx then Some (path, md) else pm_at (le_paths E) j (lo_elements lo))"
    "ok (lo_elements lo')" "pm_find (le_paths E) path (lo_elements lo) = None"
    "lo_shards lo' = (lo_shards lo)(shard := s1)" "lo_policy lo' = lo_policy lo"
    "lo_validators lo' = (case validator of None \<Rightarrow> lo_validators lo
        | Some v \<Rightarrow> (lo_validators lo)(idx \<mapsto> v))"
    by (rule add_element_SomeD [OF add maps ok1 codec, unfolded lo1_same]) blast
  have "shard_inv (le_width E) (lo_shards lo' s) ((live(shard := (vs, off) # live shard)) s)" for s
    using layout_invD(2) [OF inv, of s] fresh(4) by (simp add: reg(9) out)
  then show thesis
    using that [of md idx] guards fresh reg out by (simp add: md_def)
qed

lemma create_view_SomeD:
  assumes view: "create_view_element E pid ptype eoff path type_id vs alignment sub lo = (Some eid, lo')"
    and inv: "layout_inv E ok live lo" and maps: "path_map_ok (le_paths E) ok"
    and codec: "codec_ok (le_codec E)"
  obtains idx md pidx ppath parent where
    "md = \<lparr>md_type = type_id, md_shard = md_shard parent,
       md_offset = cast_off (le_width E) (md_offset parent + eoff),
       md_size = cast_off (le_width E) vs, md_access = md_access parent, md_subsystem = sub,
       md_is_view = True\<rparr>"
    and "pidx = id_index (le_codec E) pid"
    and "pm_at (le_paths E) pidx (lo_elements lo) = Some (ppath, parent)"
    and "md_type parent = ptype" and "0 < vs" and "eoff + vs \<le> md_size parent" and "pow2_check alignment"
    and "(md_offset parent + eoff) AND (alignment - 1) = 0"
    and "lo_validators lo pidx = None \<or> md_access parent \<le> Slate_read_only"
    and "id_index (le_codec E) eid = idx" and "id_is_valid (le_codec E) eid"
    and "id_can_write (le_codec E) eid \<longleftrightarrow> md_shard parent \<noteq> le_static E \<and> id_can_write (le_codec E) pid"
    and "\<not> id_has_validator (le_codec E) eid"
    and "pm_at (le_paths E) idx (lo_elements lo) = None"
    and "\<And>j. pm_at (le_paths E) j (lo_elements lo') =
           (if j = idx then Some (path, md) else pm_at (le_paths E) j (lo_elements lo))"
    and "ok (lo_elements lo')" and "pm_find (le_paths E) path (lo_elements lo) = None"
    and "lo_shards lo' = lo_shards lo" and "lo_policy lo' = lo_policy lo"
    and "lo_validators lo' = lo_validators lo"
proof -
  obtain ppath parent where get: "get_element E pid ptype lo = Some (ppath, parent)"
    using view by (auto simp: create_view_element_def split: if_splits option.splits)
  define md where "md = \<lparr>md_type = type_id, md_shard = md_shard parent,
       md_offset = cast_off (le_width E) (md_offset parent + eoff),
       md_size = cast_off (le_width E) vs, md_access = md_access parent, md_subsystem = sub,
       md_is_view = True\<rparr>"
  have guards: "0 < vs" "eoff + vs \<le> md_size parent" "pow2_check alignment"
    "(md_offset parent + eoff) AND (alignment - 1) = 0"
    "lo_validators lo (id_index (le_codec E) pid) = None \<or> md_access parent \<le> Slate_read_only"
    using view by (auto simp: create_view_element_def get not_less split: if_splits)
  have parent: "pm_at (le_paths E) (id_index (le_codec E) pid) (lo_elements lo) = Some (ppath, parent)"
    "md_type parent = ptype"
    using get by (auto simp: get_element_def split: if_splits option.splits)
  obtain raw where add: "add_element_and_build_id E path md None lo = (Some raw, lo')"
    and eid: "eid = (if \<not> id_can_write (le_codec E) pid then id_ro (le_codec E) raw else raw)"
    using view by (auto simp: create_view_element_def get md_def split: if_splits option.splits prod.splits)
  show thesis
  proof (rule add_element_SomeD [OF add maps layout_invD(1) [OF inv] codec])
    fix idx
    assume reg: "id_index (le_codec E) raw = idx" "id_is_valid (le_codec E) raw"
      "id_can_write (le_codec E) raw \<longleftrightarrow> md_shard md \<noteq> le_static E"
      "id_has_validator (le_codec E) raw \<longleftrightarrow> (None :: 'c option) \<noteq> None"
      "pm_at (le_paths E) idx (lo_elements lo) = None"
      "\<And>j. pm_at (le_paths E) j (lo_elements lo') =
           (if j = idx then Some (path, md) else pm_at (le_paths E) j (lo_elements lo))"
      "ok (lo_elements lo')" "pm_find (le_paths E) path (lo_elements lo) = None"
      "lo_shards lo' = lo_shards lo" "lo_policy lo' = lo_policy lo"
      "lo_validators lo' = (case (None :: 'c option) of None \<Rightarrow> lo_validators lo
                              | Some v \<Rightarrow> (lo_validators lo)(idx \<mapsto> v))"
    have shard: "md_shard md = md_shard parent" by (simp add: md_def)
    have "id_index (le_codec E) eid = idx" "id_is_valid (le_codec E) eid"
      "\<not> id_has_validator (le_codec E) eid"
      "id_can_write (le_codec E) eid \<longleftrightarrow> md_shard parent \<noteq> le_static E \<and> id_can_write (le_codec E) pid"
      using reg(1-4) codec_ok_ro [OF codec, of raw] by (auto simp: eid shard)
    then show thesis
      using that [of md parent "id_index (le_codec E) pid" ppath idx] guards parent reg(5-11)
      by (simp add: md_def)
  qed
qed

text \<open>
  What both operations do to the invariant: one new entry is registered, and blocks are only
  added to \<open>live\<close>.
\<close>

lemma layout_inv_register:
  assumes inv: "layout_inv E ok live lo"
    and fresh: "pm_at (le_paths E) idx (lo_elements lo) = None"
    and at: "\<And>j. pm_at (le_paths E) j (lo_elements lo') =
           (if j = idx then Some (path, md) else pm_at (le_paths E) j (lo_elements lo))"
    and ok: "ok (lo_elements lo')"
    and shards: "\<And>s. shard_inv (le_width E) (lo_shards lo' s) (live' s)"
    and grows: "\<And>s. set (live s) \<subseteq> set (live' s)"
    and policy: "lo_policy lo' = lo_policy lo" "md_access md \<le> lo_policy lo (md_shard md)" "0 < md_size md"
    and vals: "\<And>i. lo_validators lo' i \<noteq> None \<Longrightarrow> i = idx \<or> lo_validators lo i \<noteq> None"
    and owner: "\<not> md_is_view md \<Longrightarrow> md_block md \<in> set (live' (md_shard md)) \<and>
          (\<forall>b\<in>set (live (md_shard md)). disjoint_blocks (md_block md) b)"
    and view: "md_is_view md \<Longrightarrow> \<exists>j q own. pm_at (le_paths E) j (lo_elements lo) = Some (q, own) \<and>
        \<not> md_is_view own \<and> md_shard own = md_shard md \<and> md_access own = md_access md \<and>
        inside_block (md_block md) (md_block own)"
  shows "layout_inv E ok live' lo'"
proof -
  have old: "j \<noteq> idx" if "pm_at (le_paths E) j (lo_elements lo) = Some x" for j x
    using that fresh by auto
  have keep: "\<exists>j q own. pm_at (le_paths E) j (lo_elements lo') = Some (q, own) \<and> P own"
    if "\<exists>j q own. pm_at (le_paths E) j (lo_elements lo) = Some (q, own) \<and> P own" for P
    using that old by (metis at)
  have entry: "0 < md_size m \<and> md_access m \<le> lo_policy lo' (md_shard m) \<and>
        (\<not> md_is_view m \<longrightarrow> md_block m \<in> set (live' (md_shard m))) \<and>
        (md_is_view m \<longrightarrow> (\<exists>j q own. pm_at (le_paths E) j (lo_elements lo') = Some (q, own) \<and>
            \<not> md_is_view own \<and> md_shard own = md_shard m \<and> md_access own = md_access m \<and>
            inside_block (md_block m) (md_block own)))"
    if "pm_at (le_paths E) i (lo_elements lo') = Some (p, m)" for i p m
  proof (cases "i = idx")
    case True
    then have "m = md" using that by (simp add: at)
    then show ?thesis using policy owner keep [OF view] by auto
  next
    case False
    then have o: "pm_at (le_paths E) i (lo_elements lo) = Some (p, m)" using that by (simp add: at)
    show ?thesis
      using layout_invD(3) [OF inv o] layout_invD(8) [OF inv o] layout_invD(4) [OF inv o] keep [OF layout_invD(5) [OF inv o]] grows
      by (auto simp: policy)
  qed
  have apart: "disjoint_blocks (md_block a) (md_block b)"
    if ij: "i \<noteq> j" and i: "pm_at (le_paths E) i (lo_elements lo') = Some (p, a)"
      and j: "pm_at (le_paths E) j (lo_elements lo') = Some (q, b)"
      and own: "\<not> md_is_view a" "\<not> md_is_view b" and same: "md_shard a = md_shard b" for i j p q a b
  proof -
    consider "i = idx" | "j = idx" "i \<noteq> idx" | "i \<noteq> idx" "j \<noteq> idx" by blast
    then show ?thesis
    proof cases
      case 1
      then have "a = md" "pm_at (le_paths E) j (lo_elements lo) = Some (q, b)"
        using i j ij by (auto simp: at)
      then show ?thesis using owner own same layout_invD(4) [OF inv, of j q b] by auto
    next
      case 2
      then have "b = md" "pm_at (le_paths E) i (lo_elements lo) = Some (p, a)"
        using i j by (auto simp: at)
      then show ?thesis
        using owner own same layout_invD(4) [OF inv, of i p a] by (auto intro: disjoint_blocks_sym)
    next
      case 3
      then show ?thesis using i j layout_invD(6) [OF inv ij _ _ own same] by (simp add: at)
    qed
  qed
  have vals': "pm_at (le_paths E) i (lo_elements lo') \<noteq> None" if "lo_validators lo' i \<noteq> None" for i
    using vals [OF that] layout_invD(7) [OF inv, of i] by (auto simp: at)
  show ?thesis
    unfolding layout_inv_def using ok shards entry apart vals' by blast
qed

lemma block_in_shard:
  assumes "shard_inv w sh live" and "(n, off) \<in> set live" and "0 < n"
  shows "off + n \<le> sh_size sh"
proof -
  have "in_block (n, off) (off + n - 1)" using assms(3) by (auto simp: in_block_def)
  then have "0 < cover live (off + n - 1)" using assms(2) by (rule cover_ge_in_block [rotated])
  moreover have "cover live (off + n - 1) \<le> (if off + n - 1 < sh_size sh then 1 else 0)"
    using assms(1) unfolding shard_inv_def by (metis le_add1)
  ultimately show ?thesis using assms(3) by (simp split: if_splits)
qed

lemma element_in_shard:
  assumes inv: "layout_inv E ok live lo"
    and at: "pm_at (le_paths E) i (lo_elements lo) = Some (p, md)"
  shows "md_offset md + md_size md \<le> sh_size (lo_shards lo (md_shard md))"
proof (cases "md_is_view md")
  case False
  then show ?thesis
    using block_in_shard [OF layout_invD(2) [OF inv]] layout_invD(4,8) [OF inv at] by (simp add: md_block_def)
next
  case True
  then obtain j q own where own: "pm_at (le_paths E) j (lo_elements lo) = Some (q, own)"
    "\<not> md_is_view own" "md_shard own = md_shard md" "inside_block (md_block md) (md_block own)"
    using layout_invD(5) [OF inv at] by blast
  have "md_offset own + md_size own \<le> sh_size (lo_shards lo (md_shard own))"
    using block_in_shard [OF layout_invD(2) [OF inv]] layout_invD(4,8) [OF inv own(1)] own(2)
    by (simp add: md_block_def)
  then show ?thesis using own(3,4) by (simp add: inside_block_def md_block_def)
qed

lemma inside_block_trans: "inside_block a b \<Longrightarrow> inside_block b c \<Longrightarrow> inside_block a c"
  by (simp add: inside_block_def)


lemma inside_block_refl: "inside_block a a"
  by (simp add: inside_block_def)

text \<open>Every element lies inside the block of an owner: itself, or the owner of the view.\<close>

lemma owner_of:
  assumes "layout_inv E ok live lo" and "pm_at (le_paths E) i (lo_elements lo) = Some (p, md)"
  shows "\<exists>j q own. pm_at (le_paths E) j (lo_elements lo) = Some (q, own) \<and> \<not> md_is_view own \<and>
    md_shard own = md_shard md \<and> md_access own = md_access md \<and> inside_block (md_block md) (md_block own)"
  using assms layout_invD(5) [OF assms] inside_block_refl by blast

lemma view_block:
  assumes inv: "layout_inv E ok live lo"
    and at: "pm_at (le_paths E) i (lo_elements lo) = Some (p, parent)"
    and fit: "eoff + vs \<le> md_size parent"
  shows "cast_off (le_width E) (md_offset parent + eoff) = md_offset parent + eoff"
    and "cast_off (le_width E) vs = vs"
    and "inside_block (vs, md_offset parent + eoff) (md_block parent)"
proof -
  have "md_offset parent + md_size parent \<le> max_offset (le_width E)"
    using element_in_shard [OF inv at] layout_invD(2) [OF inv, of "md_shard parent"]
    by (auto simp: shard_inv_def)
  then show "cast_off (le_width E) (md_offset parent + eoff) = md_offset parent + eoff"
    "cast_off (le_width E) vs = vs" using fit by (simp_all add: cast_off_small)
  show "inside_block (vs, md_offset parent + eoff) (md_block parent)"
    using fit by (simp add: inside_block_def md_block_def)
qed

lemma allocate_element_inv:
  assumes "allocate_element E heap path type_id vs alignment shard policy validator sub lo =
      (Some (eid, sh, off), lo')"
    and inv: "layout_inv E ok live lo" and "path_map_ok (le_paths E) ok"
    and "codec_ok (le_codec E)" and "wide_enough (le_width E)" and "vs < size_max"
  shows "layout_inv E ok (live(shard := (vs, off) # live shard)) lo'"
proof (rule allocate_element_SomeD [OF assms])
  fix idx md
  assume md: "md = \<lparr>md_type = type_id, md_shard = shard, md_offset = off, md_size = vs,
        md_access = policy, md_subsystem = sub, md_is_view = False\<rparr>"
    and a: "pm_at (le_paths E) idx (lo_elements lo) = None"
    "\<And>j. pm_at (le_paths E) j (lo_elements lo') =
           (if j = idx then Some (path, md) else pm_at (le_paths E) j (lo_elements lo))"
    "ok (lo_elements lo')"
    "\<And>s. shard_inv (le_width E) (lo_shards lo' s) ((live(shard := (vs, off) # live shard)) s)"
    and apart: "\<forall>b\<in>set (live shard). disjoint_blocks (vs, off) b" and pol: "policy \<le> lo_policy lo shard"
    and rest: "lo_policy lo' = lo_policy lo"
      "lo_validators lo' = (case validator of None \<Rightarrow> lo_validators lo
                              | Some v \<Rightarrow> (lo_validators lo)(idx \<mapsto> v))"
  have "0 < vs" using assms(1) by (auto simp: allocate_element_def split: if_splits)
  then show ?thesis
    using a apart pol rest
    by (intro layout_inv_register [OF inv, where idx = idx and md = md and path = path])
       (auto simp: md md_block_def split: option.splits if_splits)
qed

lemma create_view_inv:
  assumes "create_view_element E pid ptype eoff path type_id vs alignment sub lo = (Some eid, lo')"
    and inv: "layout_inv E ok live lo" and "path_map_ok (le_paths E) ok"
    and "codec_ok (le_codec E)"
  shows "layout_inv E ok live lo'"
proof (rule create_view_SomeD [OF assms])
  fix idx md pidx ppath parent
  assume md: "md = \<lparr>md_type = type_id, md_shard = md_shard parent,
       md_offset = cast_off (le_width E) (md_offset parent + eoff),
       md_size = cast_off (le_width E) vs, md_access = md_access parent, md_subsystem = sub,
       md_is_view = True\<rparr>"
    and parent: "pm_at (le_paths E) pidx (lo_elements lo) = Some (ppath, parent)"
    and fit: "0 < vs" "eoff + vs \<le> md_size parent"
    and a: "pm_at (le_paths E) idx (lo_elements lo) = None"
      "\<And>j. pm_at (le_paths E) j (lo_elements lo') =
           (if j = idx then Some (path, md) else pm_at (le_paths E) j (lo_elements lo))"
      "ok (lo_elements lo')"
    and rest: "lo_shards lo' = lo_shards lo" "lo_policy lo' = lo_policy lo"
      "lo_validators lo' = lo_validators lo"
  note blk = view_block [OF inv parent fit(2)]
  have md': "md_block md = (vs, md_offset parent + eoff)" "md_size md = vs" "md_is_view md"
    "md_access md = md_access parent" "md_shard md = md_shard parent"
    by (simp_all add: md md_block_def blk)
  have own: "\<exists>j q own. pm_at (le_paths E) j (lo_elements lo) = Some (q, own) \<and>
        \<not> md_is_view own \<and> md_shard own = md_shard md \<and> md_access own = md_access md \<and>
        inside_block (md_block md) (md_block own)"
    using owner_of [OF inv parent] inside_block_trans [OF blk(3)] by (metis md')
  show ?thesis
    using a rest layout_invD(2,3) [OF inv] parent fit own
    by (intro layout_inv_register [OF inv, where idx = idx and md = md and path = path])
       (auto simp: md')
qed

lemma get_by_path_iff:
  assumes "path_map_ok (le_paths E) ok" and "ok (lo_elements lo)"
  shows "get_element_by_path E path lo = Some md \<longleftrightarrow> (\<exists>i. pm_at (le_paths E) i (lo_elements lo) = Some (path, md))"
proof (cases "pm_find (le_paths E) path (lo_elements lo)")
  case None
  then have "\<not> (\<exists>i md. pm_at (le_paths E) i (lo_elements lo) = Some (path, md))"
    using path_map_find [OF assms, of path] by auto
  then show ?thesis using None by (simp add: get_element_by_path_def)
next
  case (Some i)
  then obtain m where m: "pm_at (le_paths E) i (lo_elements lo) = Some (path, m)"
    using path_map_find [OF assms, of path] by auto
  have "j = i" if "pm_at (le_paths E) j (lo_elements lo) = Some (path, n)" for j n
  proof -
    have "pm_find (le_paths E) path (lo_elements lo) = Some j"
      using path_map_find [OF assms, of path j] that by blast
    then show ?thesis using Some by simp
  qed
  then have "(\<exists>j. pm_at (le_paths E) j (lo_elements lo) = Some (path, md)) \<longleftrightarrow> m = md"
    using m by (metis option.inject prod.inject)
  then show ?thesis by (simp add: get_element_by_path_def Some m)
qed

lemma get_by_path_None_iff:
  assumes "path_map_ok (le_paths E) ok" and "ok (lo_elements lo)"
  shows "get_element_by_path E path lo = None \<longleftrightarrow> pm_find (le_paths E) path (lo_elements lo) = None"
  using path_map_find [OF assms, of path] unfolding get_element_by_path_def
  by (auto split: option.splits)

text \<open>A registration is seen under its path and under no other.\<close>

lemma get_by_path_register:
  assumes maps: "path_map_ok (le_paths E) ok" and ok: "ok (lo_elements lo)" "ok (lo_elements lo')"
    and fresh: "pm_at (le_paths E) idx (lo_elements lo) = None"
    and new: "pm_find (le_paths E) path (lo_elements lo) = None"
    and at: "\<And>j. pm_at (le_paths E) j (lo_elements lo') =
           (if j = idx then Some (path, md) else pm_at (le_paths E) j (lo_elements lo))"
  shows "get_element_by_path E q lo' = (if q = path then Some md else get_element_by_path E q lo)"
proof (cases "q = path")
  case True
  then show ?thesis using get_by_path_iff [OF maps ok(2), of path md] at by auto
next
  case False
  have "get_element_by_path E q lo' = Some m \<longleftrightarrow> get_element_by_path E q lo = Some m" for m
    unfolding get_by_path_iff [OF maps ok(1)] get_by_path_iff [OF maps ok(2)]
    using fresh False by (metis at option.distinct(1) option.inject prod.inject)
  then show ?thesis using False by (metis not_None_eq)
qed

section \<open>A concrete instance\<close>

text \<open>
  Concrete parameters for the witnesses: the path map is a list of entries in the order of
  registration, an ID is the tuple of what was packed into it.
\<close>

primrec path_index :: "string \<Rightarrow> (string \<times> metadata) list \<Rightarrow> nat option" where
  "path_index p [] = None"
| "path_index p (e # es) = (if fst e = p then Some 0 else map_option Suc (path_index p es))"

definition list_paths :: "(string \<times> metadata) list path_map" where
  "list_paths =
     \<lparr>pm_empty = [],
      pm_insert = (\<lambda>p md es. case path_index p es of None \<Rightarrow> (True, length es, es @ [(p, md)])
                             | Some i \<Rightarrow> (False, i, es)),
      pm_find = path_index,
      pm_at = (\<lambda>i es. if i < length es then Some (es ! i) else None)\<rparr>"

type_synonym tuple_id = "bool \<times> bool \<times> nat \<times> nat \<times> nat"

definition tuple_codec :: "tuple_id id_codec" where
  "tuple_codec =
     \<lparr>id_buildup = (\<lambda>w v s off i. Some (w, v, s, off, i)), id_is_valid = (\<lambda>_. True),
      id_index = (\<lambda>(w, v, s, off, i). i), id_can_write = (\<lambda>(w, v, s, off, i). w),
      id_has_validator = (\<lambda>(w, v, s, off, i). v), id_ro = (\<lambda>(w, v, s, off, i). (False, v, s, off, i))\<rparr>"

definition sample_env :: "(tuple_id, (string \<times> metadata) list) layout_env" where
  "sample_env = \<lparr>le_width = 32, le_num_shards = 3, le_static = 2, le_type_invalid = 0,
     le_codec = tuple_codec, le_paths = list_paths, le_valid_path = (\<lambda>p. p \<noteq> [])\<rparr>"

lemma path_index_None: "path_index p es = None \<longleftrightarrow> p \<notin> fst ` set es"
  by (induction es) auto

lemma path_index_Some:
  assumes "distinct (map fst es)"
  shows "path_index p es = Some i \<longleftrightarrow> i < length es \<and> fst (es ! i) = p"
  using assms
proof (induction es arbitrary: i)
  case Nil
  then show ?case by simp
next
  case (Cons e es)
  then have "\<forall>n<length es. fst (es ! n) \<noteq> fst e" by (auto simp: image_iff) (metis nth_mem)
  then show ?case using Cons by (cases i) auto
qed

lemma list_paths_ok: "path_map_ok list_paths (\<lambda>es. distinct (map fst es))"
  unfolding path_map_ok_def
  by (auto simp: list_paths_def path_index_Some path_index_None nth_append less_Suc_eq
      split: option.splits intro: prod.collapse [symmetric])

lemma tuple_codec_ok: "codec_ok tuple_codec"
  by (auto simp: codec_ok_def tuple_codec_def)

lemma sample_env_ok:
  "path_map_ok (le_paths sample_env) (\<lambda>es. distinct (map fst es))" "codec_ok (le_codec sample_env)"
  "wide_enough (le_width sample_env)"
  by (simp_all add: sample_env_def list_paths_ok tuple_codec_ok wide_enough_32)

lemma sample_alloc_block:
  "alloc_block 32 (4096, []) 8 8 empty_shard =
     (Some 0, \<lparr>sh_size = 8, sh_free = [],
        sh_init = snd (ensure 4096 [] 8 8 abuf_new)\<rparr>)"
  by (simp add: alloc_block_def empty_shard_def abuf_new_def mm_take_def grow_def max_offset_def
      max_alignment_def align_up_def neg_size_def sub_size_def cast_off_def ensure_def
      alloc_buffer_def initial_total_def pow2_check_def place_def carve.simps Let_def)

definition sample_layout :: "nat option \<Rightarrow> ((string \<times> metadata) list, nat) layout" where
  "sample_layout v = (layout_new sample_env)\<lparr>
       lo_elements := [(''a'', \<lparr>md_type = 1, md_shard = 0, md_offset = 0, md_size = 8,
          md_access = Slate_read_only, md_subsystem = 5, md_is_view = False\<rparr>)],
       lo_validators := (case v of None \<Rightarrow> Map.empty | Some x \<Rightarrow> [0 \<mapsto> x]),
       lo_shards := (\<lambda>_. empty_shard)
          (0 := \<lparr>sh_size = 8, sh_free = [], sh_init = snd (ensure 4096 [] 8 8 abuf_new)\<rparr>)\<rparr>"

lemma sample_alloc:
  "allocate_element sample_env (4096, []) ''a'' 1 8 8 0 Slate_read_only v 5 (layout_new sample_env) =
    (Some ((True, v \<noteq> None, 0, 0, 0), 0, 0), sample_layout v)"
proof -
  have guards: "pow2_check 8" by (simp add: pow2_check_def neg_size_def)
  show ?thesis
    by (cases v)
       (simp_all add: allocate_element_def sample_alloc_block guards max_alignment_def sample_env_def
         layout_new_def sample_layout_def less_access_def add_element_and_build_id_def list_paths_def
         tuple_codec_def cast_off_def Let_def)
qed

lemma sample_inv:
  "layout_inv sample_env (\<lambda>es. distinct (map fst es)) ((\<lambda>_. [])(0 := [(8, 0)])) (sample_layout v)"
  using allocate_element_inv [OF sample_alloc layout_inv_new [OF sample_env_ok(1)] sample_env_ok, of v]
  by simp

lemma sample_view:
  "create_view_element sample_env (True, True, 0, 0, 0) 1 4 ''b'' 3 4 4 5 (sample_layout (Some 7)) =
    (Some (True, False, 0, 4, 1),
     (sample_layout (Some 7))\<lparr>
       lo_elements := [(''a'', \<lparr>md_type = 1, md_shard = 0, md_offset = 0, md_size = 8,
          md_access = Slate_read_only, md_subsystem = 5, md_is_view = False\<rparr>),
         (''b'', \<lparr>md_type = 3, md_shard = 0, md_offset = 4, md_size = 4,
          md_access = Slate_read_only, md_subsystem = 5, md_is_view = True\<rparr>)]\<rparr>)"
proof -
  have "pow2_check 4" by (simp add: pow2_check_def neg_size_def)
  then show ?thesis
    by (simp add: create_view_element_def max_alignment_def get_element_def sample_env_def sample_layout_def
         add_element_and_build_id_def list_paths_def tuple_codec_def cast_off_def less_access_def)
qed

section \<open>Properties\<close>

text \<open>
  C2: a registered element can be looked up. After a successful \<open>allocate_element\<close> the path, new
  until then, leads to metadata with exactly the type, shard, offset, size, policy and subsystem
  of the request, and so does the returned ID; every other path resolves as before. The ID is
  writable unless the shard is the static one, and it says whether there is a validator.
\<close>

theorem allocate_element_registers:
  assumes "allocate_element E heap path type_id vs alignment shard policy validator sub lo =
      (Some (eid, sh, off), lo')"
    and "layout_inv E ok live lo" and "path_map_ok (le_paths E) ok"
    and "codec_ok (le_codec E)" and "wide_enough (le_width E)" and "vs < size_max"
    and "type_id \<noteq> le_type_invalid E"
  shows "get_element_by_path E path lo = None \<and>
         (let md = \<lparr>md_type = type_id, md_shard = shard, md_offset = off, md_size = vs,
                    md_access = policy, md_subsystem = sub, md_is_view = False\<rparr>
          in get_element_by_path E path lo' = Some md \<and> get_element E eid type_id lo' = Some (path, md)) \<and>
         (\<forall>q. q \<noteq> path \<longrightarrow> get_element_by_path E q lo' = get_element_by_path E q lo) \<and>
         (id_can_write (le_codec E) eid \<longleftrightarrow> shard \<noteq> le_static E) \<and>
         (id_has_validator (le_codec E) eid \<longleftrightarrow> validator \<noteq> None) \<and>
         get_element_validator E eid lo' = validator"
proof (rule allocate_element_SomeD [OF assms(1-6)])
  fix idx md
  assume md: "md = \<lparr>md_type = type_id, md_shard = shard, md_offset = off, md_size = vs,
        md_access = policy, md_subsystem = sub, md_is_view = False\<rparr>"
    and ids: "id_index (le_codec E) eid = idx" "id_is_valid (le_codec E) eid"
    "id_can_write (le_codec E) eid \<longleftrightarrow> shard \<noteq> le_static E"
    "id_has_validator (le_codec E) eid \<longleftrightarrow> validator \<noteq> None"
    and fresh: "pm_at (le_paths E) idx (lo_elements lo) = None"
    and at: "\<And>j. pm_at (le_paths E) j (lo_elements lo') =
           (if j = idx then Some (path, md) else pm_at (le_paths E) j (lo_elements lo))"
    and ok': "ok (lo_elements lo')" and new: "pm_find (le_paths E) path (lo_elements lo) = None"
    and vals: "lo_validators lo' = (case validator of None \<Rightarrow> lo_validators lo
                              | Some v \<Rightarrow> (lo_validators lo)(idx \<mapsto> v))"
  note ok = layout_invD(1) [OF assms(2)]
  have "lo_validators lo idx = None" using layout_invD(7) [OF assms(2), of idx] fresh by blast
  then have validator: "get_element_validator E eid lo' = validator"
    by (simp add: get_element_validator_def ids(1) vals split: option.splits)
  have "get_element E eid type_id lo' = Some (path, md)"
    using assms(7) by (simp add: get_element_def ids at md)
  moreover have "get_element_by_path E path lo = None"
    using new get_by_path_None_iff [OF assms(3) ok] by blast
  ultimately show ?thesis
    using get_by_path_register [OF assms(3) ok ok' fresh new at] ids validator by (simp add: md)
qed

theorem allocate_element_registers_witness:
  "get_element sample_env (True, True, 0, 0, 0) 1 (sample_layout (Some 7)) =
     Some (''a'', \<lparr>md_type = 1, md_shard = 0, md_offset = 0, md_size = 8,
          md_access = Slate_read_only, md_subsystem = 5, md_is_view = False\<rparr>)"
proof -
  have "(1::nat) \<noteq> le_type_invalid sample_env" by (simp add: sample_env_def)
  from allocate_element_registers [OF sample_alloc layout_inv_new [OF sample_env_ok(1)] sample_env_ok _ this, of "Some 7"]
  show ?thesis by (simp add: Let_def)
qed








text \<open>
  C7: a view is a window into its parent. A successful \<open>create_view_element\<close> registers metadata
  whose bytes lie inside the parent's bytes, aligned, at the offset asked for and with the parent's
  shard and policy; it allocates nothing and preserves the layout invariant. Its ID is writable
  exactly if the parent ID it was made from is and the parent is not in the static shard. The ID
  never asks for validation, whatever the parent's does (\<open>view_drops_validator\<close>).
\<close>

theorem create_view_inside_parent:
  assumes "create_view_element E pid ptype eoff path type_id vs alignment sub lo = (Some eid, lo')"
    and "layout_inv E ok live lo" and "path_map_ok (le_paths E) ok" and "codec_ok (le_codec E)"
  shows "\<exists>ppath parent md. get_element E pid ptype lo = Some (ppath, parent) \<and>
           get_element_by_path E path lo' = Some md \<and> md_is_view md \<and>
           md_shard md = md_shard parent \<and> md_access md = md_access parent \<and>
           md_block md = (vs, md_offset parent + eoff) \<and> inside_block (md_block md) (md_block parent) \<and>
           (md_offset md) AND (alignment - 1) = 0 \<and>
           lo_shards lo' = lo_shards lo \<and> layout_inv E ok live lo' \<and>
           (id_can_write (le_codec E) eid \<longleftrightarrow> md_shard parent \<noteq> le_static E \<and> id_can_write (le_codec E) pid) \<and>
           \<not> id_has_validator (le_codec E) eid"
proof (rule create_view_SomeD [OF assms])
  fix idx md pidx ppath parent
  assume md: "md = \<lparr>md_type = type_id, md_shard = md_shard parent,
       md_offset = cast_off (le_width E) (md_offset parent + eoff),
       md_size = cast_off (le_width E) vs, md_access = md_access parent, md_subsystem = sub,
       md_is_view = True\<rparr>"
    and pidx: "pidx = id_index (le_codec E) pid"
    and parent: "pm_at (le_paths E) pidx (lo_elements lo) = Some (ppath, parent)"
    and fit: "eoff + vs \<le> md_size parent" and al: "(md_offset parent + eoff) AND (alignment - 1) = 0"
    and wr: "id_can_write (le_codec E) eid \<longleftrightarrow> md_shard parent \<noteq> le_static E \<and> id_can_write (le_codec E) pid"
    and fresh: "pm_at (le_paths E) idx (lo_elements lo) = None"
    and at: "\<And>j. pm_at (le_paths E) j (lo_elements lo') =
           (if j = idx then Some (path, md) else pm_at (le_paths E) j (lo_elements lo))"
    and ok': "ok (lo_elements lo')" and new: "pm_find (le_paths E) path (lo_elements lo) = None"
    and noval: "\<not> id_has_validator (le_codec E) eid"
    and shards: "lo_shards lo' = lo_shards lo"
  note blk = view_block [OF assms(2) parent fit]
  have get: "get_element E pid ptype lo = Some (ppath, parent)"
    using assms(1) parent pidx
    by (auto simp: create_view_element_def get_element_def split: if_splits option.splits)
  have path: "get_element_by_path E path lo' = Some md"
    using get_by_path_register [OF assms(3) layout_invD(1) [OF assms(2)] ok' fresh new at] by simp
  show ?thesis
    using get path blk al wr noval shards create_view_inv [OF assms]
    by (intro exI [of _ ppath] exI [of _ parent] exI [of _ md]) (simp add: md md_block_def)
qed

theorem create_view_inside_parent_witness:
  "\<exists>ppath parent md (lo' :: (_, nat) layout). get_element sample_env (True, True, 0, 0, 0) 1 (sample_layout (Some 7)) = Some (ppath, parent) \<and>
     get_element_by_path sample_env ''b'' lo' = Some md \<and> inside_block (md_block md) (md_block parent) \<and>
     md_block md = (4, md_offset parent + 4)"
  using create_view_inside_parent [OF sample_view sample_inv sample_env_ok(1,2)] by blast

text \<open>
  The rights of a looked-up ID. An ID that \<open>get_element_id\<close> returns belongs to an element
  of that path and type that is not private; the ID is writable exactly if the element's policy is
  \<open>slate_read_write\<close>, never if its shard allows reading only, and it carries the validator mark
  exactly if a validator is registered for it.
\<close>

theorem get_element_id_rights:
  assumes "get_element_id E path type_id lo = Some eid"
    and "layout_inv E ok live lo" and "path_map_ok (le_paths E) ok" and "codec_ok (le_codec E)"
  shows "\<exists>md. get_element_by_path E path lo = Some md \<and> md_type md = type_id \<and>
           md_access md \<noteq> Slate_private \<and>
           (id_can_write (le_codec E) eid \<longleftrightarrow> md_access md = Slate_read_write) \<and>
           (lo_policy lo (md_shard md) \<le> Slate_read_only \<longrightarrow> \<not> id_can_write (le_codec E) eid) \<and>
           (id_has_validator (le_codec E) eid \<longleftrightarrow> get_element_validator E eid lo \<noteq> None)"
proof -
  obtain md where md: "get_element_by_path E path lo = Some md" "md_type md = type_id"
    and build: "build_element_id E path md Slate_private lo = Some eid"
    using assms(1) by (auto simp: get_element_id_def get_element_id_elevated_def split: option.splits if_splits)
  obtain idx where at: "pm_at (le_paths E) idx (lo_elements lo) = Some (path, md)"
    using iffD1 [OF get_by_path_iff [OF assms(3) layout_invD(1) [OF assms(2)]] md(1)] by (rule exE)
  have find: "pm_find (le_paths E) path (lo_elements lo) = Some idx"
    using path_map_find [OF assms(3) layout_invD(1) [OF assms(2)]] at by blast
  have acc: "max (md_access md) Slate_private = md_access md"
    by (cases "md_access md") (simp_all add: max_def less_eq_access_def)
  have rights: "md_access md \<noteq> Slate_private \<and>
      id_buildup (le_codec E) (md_access md = Slate_read_write) (lo_validators lo idx \<noteq> None)
        (md_shard md) (md_offset md) idx = Some eid"
    using build by (auto simp: build_element_id_def find acc Let_def split: option.splits access.splits)
  have "\<not> (md_access md = Slate_read_write \<and> lo_policy lo (md_shard md) \<le> Slate_read_only)"
    using layout_invD(3) [OF assms(2) at]
    by (cases "lo_policy lo (md_shard md)") (auto simp: less_eq_access_def)
  then show ?thesis
    using md rights codec_okD [OF assms(4), of _ _ _ _ idx eid]
    by (auto simp: get_element_validator_def)
qed

theorem get_element_id_rights_witness:
  "\<exists>md. get_element_by_path sample_env ''a'' (sample_layout (Some 7)) = Some md \<and>
        md_access md \<noteq> Slate_private \<and> \<not> id_can_write tuple_codec (False, True, 0, 0, 0)"
proof -
  have "get_element_id sample_env ''a'' 1 (sample_layout (Some 7)) = Some (False, True, 0, 0, 0)"
    by (simp add: get_element_id_def get_element_id_elevated_def get_element_by_path_def build_element_id_def
        sample_env_def sample_layout_def tuple_codec_def list_paths_def max_def less_eq_access_def)
  from get_element_id_rights [OF this sample_inv sample_env_ok(1,2)]
  show ?thesis by (auto simp: tuple_codec_def)
qed

text \<open>
  A view loses the parent's validator. The guard of \<open>create_view_element\<close> refuses a parent
  with a validator only if its policy lets others write; the comment after it says that the
  parent cannot have a validator. It can: the creator of a read-only element with a
  validator holds a writable, validated ID, and the view made from that ID is writable and not
  validated, over the same bytes.
\<close>

theorem view_drops_validator:
  "case allocate_element sample_env (4096, []) ''a'' 1 8 8 0 Slate_read_only (Some (7::nat)) 5 (layout_new sample_env) of
     (None, _) \<Rightarrow> False
   | (Some (pid, _, _), lo) \<Rightarrow>
       id_can_write tuple_codec pid \<and> id_has_validator tuple_codec pid \<and>
       get_element_validator sample_env pid lo = Some 7 \<and>
       (case create_view_element sample_env pid 1 4 ''b'' 3 4 4 5 lo of
          (None, _) \<Rightarrow> False
        | (Some vid, lo') \<Rightarrow>
            id_can_write tuple_codec vid \<and> \<not> id_has_validator tuple_codec vid \<and>
            get_element_validator sample_env vid lo' = None \<and>
            get_element_by_path sample_env ''b'' lo' =
              Some \<lparr>md_type = 3, md_shard = 0, md_offset = 4, md_size = 4,
                    md_access = Slate_read_only, md_subsystem = 5, md_is_view = True\<rparr>)"
  by (simp add: sample_alloc sample_view del: One_nat_def)
     (simp add: tuple_codec_def get_element_validator_def get_element_by_path_def sample_env_def
       sample_layout_def list_paths_def)

end
