(* ===== verification/Symbol_Table.thy ===== *)
theory Symbol_Table
  imports Codon_Prelude
begin

text \<open>
  \<^verbatim>\<open>SymbolTable.cc\<close>: the two-way table between names and integers that every enumeration of
  the program is printed and parsed with. The two C++ maps are \<open>to_int_table\<close> and
  \<open>to_string_table\<close>; \<open>int\<close> and \<open>uint\<close> are 32-bit words, so the casts between them are the
  identity. A lookup returns an option, the bool and the out parameter of the source.

  \<^verbatim>\<open>string_to_int\<close>, \<^verbatim>\<open>string_to_uint\<close> and the file tokenizer (\<^verbatim>\<open>get_word\<close>,
  \<^verbatim>\<open>discard_whitespace\<close>, \<^verbatim>\<open>discard_line\<close>) are not in the repository and are parameters: the
  records \<open>number_parser\<close> and \<open>tokenizer\<close>. \<^verbatim>\<open>snprintf\<close> with \<^verbatim>\<open>%d\<close> is \<open>int_dec\<close>.
\<close>

type_synonym int32 = "32 word"

section \<open>Data\<close>

record number_parser =
  np_int :: "string \<Rightarrow> int32 option"
  np_uint :: "string \<Rightarrow> int32 option"

record symtab =
  to_int_table :: "string \<rightharpoonup> int32"
  to_string_table :: "int32 \<rightharpoonup> string"
  use_fallback :: bool
  default_int :: int32
  default_string :: string

definition symtab_new :: "bool \<Rightarrow> int32 \<Rightarrow> string \<Rightarrow> symtab" where
  "symtab_new fallback dint dstr =
     \<lparr>to_int_table = Map.empty, to_string_table = Map.empty, use_fallback = fallback,
      default_int = dint, default_string = dstr\<rparr>"

text \<open>\<^verbatim>\<open>std::map::insert\<close>: an existing key keeps its value.\<close>

definition map_insert :: "'k \<Rightarrow> 'a \<Rightarrow> ('k \<rightharpoonup> 'a) \<Rightarrow> bool \<times> ('k \<rightharpoonup> 'a)" where
  "map_insert k v m = (case m k of None \<Rightarrow> (True, m(k \<mapsto> v)) | Some _ \<Rightarrow> (False, m))"

section \<open>Adding\<close>

definition add :: "string \<Rightarrow> int32 \<Rightarrow> symtab \<Rightarrow> bool \<times> symtab" where
  "add s i t =
     (let (ps, ints) = map_insert s i (to_int_table t);
          (pi, strings) = map_insert i s (to_string_table t);
          t' = t\<lparr>to_int_table := ints, to_string_table := strings\<rparr>
      in if \<not> ps \<and> \<not> pi then (False, t') else (True, t'))"

definition internal_add :: "string \<Rightarrow> int32 \<Rightarrow> symtab \<Rightarrow> bool \<times> symtab" where
  "internal_add s i t = (True, snd (add s i t))"

text \<open>\<open>read\<close> of a table of entries.\<close>

fun read_table :: "(string \<times> int32) list \<Rightarrow> symtab \<Rightarrow> bool \<times> symtab" where
  "read_table [] t = (True, t)"
| "read_table ((s, i) # es) t =
     (case internal_add s i t of (ok, t') \<Rightarrow> if \<not> ok then (False, t') else read_table es t')"

definition symtab_of_table :: "(string \<times> int32) list \<Rightarrow> bool \<Rightarrow> int32 \<Rightarrow> string \<Rightarrow> symtab option" where
  "symtab_of_table es fallback dint dstr =
     (case read_table es (symtab_new fallback dint dstr) of (ok, t) \<Rightarrow> if ok then Some t else None)"

text \<open>
  \<open>read\<close> of a file. The tokenizer's \<open>get_word\<close> takes the line-crossing flag, the old content of
  the buffer and the stream, and returns whether it found a word, the buffer and the stream.
  The second call's result is ignored by the source, so the value buffer may still hold an old
  word. The loop ends when the stream does, and is \<open>None\<close> if it never does.
\<close>

record 'f tokenizer =
  tk_word :: "bool \<Rightarrow> string \<Rightarrow> 'f \<Rightarrow> bool \<times> string \<times> 'f"
  tk_skip_space :: "'f \<Rightarrow> 'f"
  tk_skip_line :: "'f \<Rightarrow> 'f"

definition parse_value :: "number_parser \<Rightarrow> string \<Rightarrow> int32 option" where
  "parse_value np s = (case np_int np s of Some v \<Rightarrow> Some v | None \<Rightarrow> np_uint np s)"

partial_function (option) read_file ::
  "number_parser \<Rightarrow> 'f tokenizer \<Rightarrow> string \<Rightarrow> string \<Rightarrow> 'f \<Rightarrow> symtab \<Rightarrow> (bool \<times> symtab) option" where
  "read_file np tk wbuf vbuf f t =
     (case tk_word tk True wbuf f of (found, wbuf', f1) \<Rightarrow>
        if \<not> found then Some (True, t)
        else
          let f2 = tk_skip_space tk f1 in
          if take 1 wbuf' = ''#'' then read_file np tk wbuf' vbuf (tk_skip_line tk f2) t
          else
            (case tk_word tk False vbuf f2 of (_, vbuf', f3) \<Rightarrow>
               (case parse_value np vbuf' of
                  None \<Rightarrow> Some (False, t)
                | Some v \<Rightarrow>
                    (case internal_add wbuf' v t of (ok, t') \<Rightarrow>
                       if \<not> ok then Some (False, t')
                       else read_file np tk wbuf' vbuf' f3 t'))))"

definition clear_reads :: "symtab \<Rightarrow> bool \<times> symtab" where
  "clear_reads t = (True, t\<lparr>to_int_table := Map.empty, to_string_table := Map.empty\<rparr>)"

definition copy_reads :: "symtab \<Rightarrow> symtab \<Rightarrow> bool \<times> symtab" where
  "copy_reads other t =
     (True, t\<lparr>to_int_table := to_int_table other, to_string_table := to_string_table other\<rparr>)"

section \<open>Looking up\<close>

definition raw_get_int :: "number_parser \<Rightarrow> symtab \<Rightarrow> string \<Rightarrow> bool \<Rightarrow> int32 option" where
  "raw_get_int np t s fallback =
     (case to_int_table t s of
        Some i \<Rightarrow> Some i
      | None \<Rightarrow>
          if fallback then
            (case np_int np s of
               Some i \<Rightarrow> Some i
             | None \<Rightarrow> (case np_uint np s of Some v \<Rightarrow> Some v | None \<Rightarrow> None))
          else None)"

text \<open>The overload of \<^verbatim>\<open>SymbolTable::raw_get\<close> for an unsigned result does not use the fallback.\<close>

definition raw_get_uint :: "symtab \<Rightarrow> string \<Rightarrow> int32 option" where
  "raw_get_uint t name = raw_get_int \<lparr>np_int = (\<lambda>_. None), np_uint = (\<lambda>_. None)\<rparr> t name False"

lemma raw_get_uint_table: "raw_get_uint t name = to_int_table t name"
  by (simp add: raw_get_uint_def raw_get_int_def split: option.splits)

definition digit :: "nat \<Rightarrow> char" where
  "digit d = char_of (48 + d)"

fun nat_dec :: "nat \<Rightarrow> string" where
  "nat_dec n = (if n < 10 then [digit n] else nat_dec (n div 10) @ [digit (n mod 10)])"

declare nat_dec.simps [simp del]

definition int_dec :: "int32 \<Rightarrow> string" where
  "int_dec i = (if sint i < 0 then CHR ''-'' # nat_dec (nat (- sint i)) else nat_dec (nat (sint i)))"

text \<open>The buffer has \<^verbatim>\<open>sizeof(int) * 3 + 1\<close> bytes and \<^verbatim>\<open>snprintf\<close> keeps one for the terminator.\<close>

definition dec_buffer :: nat where
  "dec_buffer = 4 * 3 + 1"

definition raw_get_string :: "symtab \<Rightarrow> int32 \<Rightarrow> bool \<Rightarrow> string option" where
  "raw_get_string t i fallback =
     (case to_string_table t i of
        Some s \<Rightarrow> Some s
      | None \<Rightarrow> if fallback then Some (take (dec_buffer - 1) (int_dec i)) else None)"

definition get_int_def :: "number_parser \<Rightarrow> symtab \<Rightarrow> string \<Rightarrow> int32 \<Rightarrow> int32" where
  "get_int_def np t s dflt = (case raw_get_int np t s (use_fallback t) of Some i \<Rightarrow> i | None \<Rightarrow> dflt)"

definition get_int :: "number_parser \<Rightarrow> symtab \<Rightarrow> string \<Rightarrow> int32" where
  "get_int np t s = get_int_def np t s (default_int t)"

definition get_string_def :: "symtab \<Rightarrow> int32 \<Rightarrow> string \<Rightarrow> string" where
  "get_string_def t i dflt = (case raw_get_string t i (use_fallback t) of Some s \<Rightarrow> s | None \<Rightarrow> dflt)"

definition get_string :: "symtab \<Rightarrow> int32 \<Rightarrow> string" where
  "get_string t i = get_string_def t i (default_string t)"

definition contains_int :: "symtab \<Rightarrow> int32 \<Rightarrow> bool" where
  "contains_int t i \<longleftrightarrow> to_string_table t i \<noteq> None"

definition contains_string :: "symtab \<Rightarrow> string \<Rightarrow> bool" where
  "contains_string t s \<longleftrightarrow> to_int_table t s \<noteq> None"

text \<open>\<^verbatim>\<open>operator==\<close> compares the integer-to-string direction only.\<close>

definition symtab_eq :: "symtab \<Rightarrow> symtab \<Rightarrow> bool" where
  "symtab_eq a b \<longleftrightarrow>
     to_string_table a = to_string_table b \<and> default_string a = default_string b \<and>
     default_int a = default_int b \<and> use_fallback a = use_fallback b"

definition symtab_empty :: "symtab \<Rightarrow> bool" where
  "symtab_empty t \<longleftrightarrow> dom (to_int_table t) = {} \<and> dom (to_string_table t) = {}"

section \<open>Lemmas\<close>

lemma map_insert_simps [simp]:
  "fst (map_insert k v m) \<longleftrightarrow> m k = None"
  "snd (map_insert k v m) = [k \<mapsto> v] ++ m"
  by (auto simp: map_insert_def map_add_def split: option.splits)

lemma add_tables [simp]:
  "to_int_table (snd (add s i t)) = [s \<mapsto> i] ++ to_int_table t"
  "to_string_table (snd (add s i t)) = [i \<mapsto> s] ++ to_string_table t"
  "use_fallback (snd (add s i t)) = use_fallback t"
  "default_int (snd (add s i t)) = default_int t"
  "default_string (snd (add s i t)) = default_string t"
  by (simp_all add: add_def Let_def split_beta)

lemma add_result: "fst (add s i t) \<longleftrightarrow> to_int_table t s = None \<or> to_string_table t i = None"
  by (auto simp: add_def Let_def split_beta)

lemma map_of_first: "[s \<mapsto> i] ++ m = (map_of [(s, i)] ++ m)"
  by simp

lemma read_table_tables:
  "to_int_table (snd (read_table es t)) = map_of es ++ to_int_table t \<and>
   to_string_table (snd (read_table es t)) = map_of (map prod.swap es) ++ to_string_table t"
proof (induction es t rule: read_table.induct)
  case (1 t)
  then show ?case by simp
next
  case (2 s i es t)
  have shift: "map_of ds ++ ([k \<mapsto> v] ++ m) = (map_of ds)(k \<mapsto> v) ++ m" for ds k and v :: 'c and m
    by (rule ext) (simp add: map_add_def split: option.splits)
  show ?case using 2 [of "True" "snd (add s i t)"]
    by (simp add: internal_add_def shift) (simp add: fun_upd_def)
qed

lemma read_table_rest:
  "fst (read_table es t) \<and> use_fallback (snd (read_table es t)) = use_fallback t \<and>
   default_int (snd (read_table es t)) = default_int t \<and>
   default_string (snd (read_table es t)) = default_string t"
  by (induction es t rule: read_table.induct) (simp_all add: internal_add_def)

lemma nat_dec_length: "0 < k \<Longrightarrow> n < 10 ^ k \<Longrightarrow> length (nat_dec n) \<le> k"
proof (induction k arbitrary: n)
  case 0
  then show ?case by simp
next
  case (Suc k)
  show ?case
  proof (cases "n < 10")
    case True
    then show ?thesis by (simp add: nat_dec.simps)
  next
    case False
    then have "0 < k" using Suc.prems by (cases k) auto
    moreover have "n div 10 < 10 ^ k" using Suc.prems by (simp add: less_mult_imp_div_less)
    ultimately have "length (nat_dec (n div 10)) \<le> k" by (rule Suc.IH)
    then show ?thesis using False by (subst nat_dec.simps) simp
  qed
qed

lemma int_dec_length: "length (int_dec i) \<le> 11"
proof -
  have "sint i < 2 ^ 31" "- (2 ^ 31) \<le> sint i"
    using sint_lt [of i] sint_ge [of i] by simp_all
  then have "nat (- sint i) < 10 ^ 10" "nat (sint i) < 10 ^ 10" by auto
  then have "length (nat_dec (nat (- sint i))) \<le> 10" "length (nat_dec (nat (sint i))) \<le> 10"
    by (simp_all add: nat_dec_length)
  then show ?thesis by (simp add: int_dec_def)
qed

text \<open>\<open>extends t t'\<close>: nothing that \<open>t\<close> maps has changed in \<open>t'\<close>.\<close>

definition extends :: "symtab \<Rightarrow> symtab \<Rightarrow> bool" where
  "extends t t' \<longleftrightarrow> to_int_table t \<subseteq>\<^sub>m to_int_table t' \<and> to_string_table t \<subseteq>\<^sub>m to_string_table t'"

lemma extends_refl [intro]: "extends t t"
  by (simp add: extends_def)

lemma extends_trans: "extends a b \<Longrightarrow> extends b c \<Longrightarrow> extends a c"
  by (auto simp: extends_def intro: map_le_trans)

lemma extends_add: "extends t (snd (internal_add s i t))"
  by (simp add: extends_def internal_add_def map_le_map_add)

lemma read_file_extends:
  assumes "read_file np tk wbuf vbuf f t = Some r"
  shows "extends t (snd r)"
proof (rule read_file.raw_induct [OF _ assms, where P = "\<lambda>np tk wbuf vbuf f t r. extends t (snd r)"])
  fix rec :: "number_parser \<Rightarrow> 'a tokenizer \<Rightarrow> string \<Rightarrow> string \<Rightarrow> 'a \<Rightarrow> symtab \<Rightarrow> (bool \<times> symtab) option"
  fix np and tk :: "'a tokenizer" and wbuf vbuf f t r
  assume IH: "\<And>np tk wbuf vbuf f t r. rec np tk wbuf vbuf f t = Some r \<Longrightarrow> extends t (snd r)"
  note step = extends_trans [OF extends_add IH]
  show "(case tk_word tk True wbuf f of (found, wbuf', f1) \<Rightarrow>
        if \<not> found then Some (True, t)
        else
          let f2 = tk_skip_space tk f1 in
          if take 1 wbuf' = ''#'' then rec np tk wbuf' vbuf (tk_skip_line tk f2) t
          else
            (case tk_word tk False vbuf f2 of (_, vbuf', f3) \<Rightarrow>
               (case parse_value np vbuf' of
                  None \<Rightarrow> Some (False, t)
                | Some v \<Rightarrow>
                    (case internal_add wbuf' v t of (ok, t') \<Rightarrow>
                       if \<not> ok then Some (False, t')
                       else rec np tk wbuf' vbuf' f3 t')))) = Some r \<Longrightarrow> extends t (snd r)"
    by (auto simp: Let_def split_beta extends_add split: if_splits option.splits intro: IH step)
qed

text \<open>A stream that the tokenizer uses up: every word found shortens it.\<close>

definition consumes :: "'f tokenizer \<Rightarrow> ('f \<Rightarrow> nat) \<Rightarrow> bool" where
  "consumes tk m \<longleftrightarrow>
     (\<forall>c b f. m (snd (snd (tk_word tk c b f))) \<le> m f \<and>
        (fst (tk_word tk c b f) \<longrightarrow> m (snd (snd (tk_word tk c b f))) < m f)) \<and>
     (\<forall>f. m (tk_skip_space tk f) \<le> m f \<and> m (tk_skip_line tk f) \<le> m f)"

lemma read_file_returns:
  assumes "consumes tk m"
  shows "\<exists>r. read_file np tk wbuf vbuf f t = Some r"
proof (induction "m f" arbitrary: f wbuf vbuf t rule: less_induct)
  case less
  obtain found w f1 where word: "tk_word tk True wbuf f = (found, w, f1)" by (metis prod_cases3)
  obtain b v f3 where val: "tk_word tk False vbuf (tk_skip_space tk f1) = (b, v, f3)" by (metis prod_cases3)
  have le: "m (tk_skip_line tk (tk_skip_space tk f1)) \<le> m f1" "m f3 \<le> m f1"
    using assms val unfolding consumes_def by (metis le_trans, metis le_trans snd_conv)
  have lt: "m f1 < m f" if found
    using assms word that unfolding consumes_def by (metis fst_conv snd_conv)
  show ?case
  proof (cases found)
    case False
    then show ?thesis by (subst read_file.simps) (auto simp: word)
  next
    case True
    then show ?thesis
      using less [of "tk_skip_line tk (tk_skip_space tk f1)"] less [of f3] le lt
      by (subst read_file.simps)
         (auto simp: word val Let_def internal_add_def split: option.splits)
  qed
qed

section \<open>Properties\<close>

text \<open>
  What a table of entries means. After \<open>read\<close> of a list of entries a name maps to the value
  of its first entry and a value to the name of its first entry; what the table mapped before
  is kept. The read always succeeds.
\<close>

theorem read_table_first_wins:
  "fst (read_table es t) \<and>
   to_int_table (snd (read_table es t)) s =
     (case to_int_table t s of Some i \<Rightarrow> Some i | None \<Rightarrow> map_of es s) \<and>
   to_string_table (snd (read_table es t)) i =
     (case to_string_table t i of Some n \<Rightarrow> Some n | None \<Rightarrow> map_of (map prod.swap es) i)"
  using read_table_tables [of es t] read_table_rest [of es t] by (simp add: map_add_def)

text \<open>
  C14: an enumeration survives printing and parsing. In a table built from entries with distinct
  names, every name parses to its value and the printed form of the value parses to the
  same value again; if the values are distinct too, the printed form is the name itself.
\<close>

theorem symtab_roundtrip:
  assumes "symtab_of_table es fallback dint dstr = Some t" and "distinct (map fst es)"
    and "(s, i) \<in> set es"
  shows "get_int np t s = i \<and> get_int np t (get_string t i) = i \<and>
         (distinct (map snd es) \<longrightarrow> get_string t i = s)"
proof -
  have t: "t = snd (read_table es (symtab_new fallback dint dstr))"
    using assms(1) by (auto simp: symtab_of_table_def split: prod.splits if_splits)
  have ints: "to_int_table t = map_of es" and strings: "to_string_table t = map_of (map prod.swap es)"
    using read_table_tables [of es "symtab_new fallback dint dstr"] by (simp_all add: t symtab_new_def)
  have parse: "get_int np t n = v" if "(n, v) \<in> set es" for n v
    using map_of_is_SomeI [OF assms(2) that] by (simp add: get_int_def get_int_def_def raw_get_int_def ints)
  have "i \<in> fst ` set (map prod.swap es)" using assms(3) by force
  then obtain n where n: "map_of (map prod.swap es) i = Some n"
    by (metis map_of_eq_None_iff not_None_eq)
  then have "(n, i) \<in> set es" using map_of_SomeD [OF n] by auto
  moreover have "get_string t i = n" by (simp add: get_string_def get_string_def_def raw_get_string_def strings n)
  moreover have "n = s" if "distinct (map snd es)"
  proof -
    have "distinct (map fst (map prod.swap es))" using that by (simp add: comp_def)
    moreover have "(i, s) \<in> set (map prod.swap es)" using assms(3) by force
    ultimately show ?thesis using n by simp
  qed
  ultimately show ?thesis using parse assms(3) by blast
qed

theorem symtab_roundtrip_witness:
  "\<exists>t. symtab_of_table [(''off'', 0), (''on'', 1), (''enabled'', 1)] False (-1) ''?'' = Some t \<and>
     get_int \<lparr>np_int = (\<lambda>_. None), np_uint = (\<lambda>_. None)\<rparr> t (get_string t 1) = 1"
proof -
  let ?es = "[(''off'', 0), (''on'', 1), (''enabled'', 1)] :: (string \<times> int32) list"
  obtain t where t: "symtab_of_table ?es False (-1) ''?'' = Some t"
    by (simp add: symtab_of_table_def internal_add_def)
  have "distinct (map fst ?es)" "(''on'', 1) \<in> set ?es" by simp_all
  from symtab_roundtrip [OF t this] t show ?thesis by blast
qed

text \<open>
  Printing an unknown value never fails and never truncates. With the fallback enabled every
  32-bit value prints as its full decimal form, which fits the buffer, and it parses back to
  the same value whenever the decimal form is not itself a name and the parser reads it.
\<close>

theorem fallback_prints_all:
  assumes "use_fallback t" and "to_string_table t i = None"
    and "to_int_table t (int_dec i) = None" and "np_int np (int_dec i) = Some i"
  shows "length (int_dec i) < dec_buffer \<and> raw_get_string t i True = Some (int_dec i) \<and>
         get_int np t (get_string t i) = i"
  using int_dec_length [of i] assms
  by (simp add: dec_buffer_def raw_get_string_def get_int_def get_int_def_def get_string_def get_string_def_def raw_get_int_def)

theorem fallback_prints_all_witness:
  "raw_get_string (symtab_new True 0 ''?'') (- 42) True = Some ''-42''"
proof -
  have "int_dec (- 42) = ''-42''"
    by code_simp
  then show ?thesis
    using fallback_prints_all [of "symtab_new True 0 ''?''" "- 42" "\<lparr>np_int = (\<lambda>_. Some (- 42)), np_uint = (\<lambda>_. None)\<rparr>"]
    by (simp add: symtab_new_def)
qed

text \<open>
  Reading a file terminates and never changes an entry. With a tokenizer that consumes the
  stream with every word, \<open>read\<close> returns, and whether it succeeds or stops at a value it cannot
  parse, every name and every value that was mapped before is mapped to the same thing after.
\<close>

theorem read_file_keeps_entries:
  assumes "consumes tk m"
  shows "\<exists>ok t'. read_file np tk wbuf vbuf f t = Some (ok, t') \<and>
           (\<forall>s i. to_int_table t s = Some i \<longrightarrow> to_int_table t' s = Some i) \<and>
           (\<forall>i s. to_string_table t i = Some s \<longrightarrow> to_string_table t' i = Some s)"
proof -
  obtain r where r: "read_file np tk wbuf vbuf f t = Some r" using read_file_returns [OF assms] by blast
  then show ?thesis
    using read_file_extends [OF r] by (cases r) (auto simp: extends_def map_le_def dom_def)
qed

definition list_tokenizer :: "string list tokenizer" where
  "list_tokenizer =
     \<lparr>tk_word = (\<lambda>_ old f. case f of [] \<Rightarrow> (False, old, []) | w # ws \<Rightarrow> (True, w, ws)),
      tk_skip_space = (\<lambda>f. f), tk_skip_line = (\<lambda>f. f)\<rparr>"

theorem read_file_keeps_entries_witness:
  "\<exists>ok t'. read_file \<lparr>np_int = (\<lambda>s. Some 3), np_uint = (\<lambda>_. None)\<rparr> list_tokenizer [] [] [''x'', ''3'']
      (snd (add ''y'' 4 (symtab_new False 0 []))) = Some (ok, t') \<and> to_int_table t' ''y'' = Some 4"
proof -
  let ?np = "\<lparr>np_int = (\<lambda>s. Some 3), np_uint = (\<lambda>_. None)\<rparr> :: number_parser"
  let ?t = "snd (add ''y'' 4 (symtab_new False 0 []))"
  have "consumes list_tokenizer length"
    by (auto simp: consumes_def list_tokenizer_def split: list.splits)
  from read_file_keeps_entries [OF this, of ?np "[]" "[]" "[''x'', ''3'']" ?t]
  obtain ok t' where "read_file ?np list_tokenizer [] [] [''x'', ''3''] ?t = Some (ok, t')"
    and keep: "\<forall>s i. to_int_table ?t s = Some i \<longrightarrow> to_int_table t' s = Some i"
    by (elim exE conjE)
  moreover have "to_int_table ?t ''y'' = Some 4" by (simp add: symtab_new_def)
  ultimately show ?thesis by blast
qed

text \<open>
  Equal tables need not agree. \<open>operator==\<close> leaves the name-to-integer direction out, on the
  ground that it is determined by the other. With an alias it is not: a table with two names
  for one value is equal to the table with the first name only, and parses the alias differently.
\<close>

theorem symtab_eq_misses_aliases:
  "let a = snd (read_table [(''on'', 1), (''enabled'', 1)] (symtab_new False (- 1) ''?''));
       b = snd (read_table [(''on'', 1)] (symtab_new False (- 1) ''?''))
   in symtab_eq a b \<and> get_int np a ''enabled'' = 1 \<and> get_int np b ''enabled'' = - 1"
  using read_table_tables [of "[(''on'', 1), (''enabled'', 1)]" "symtab_new False (- 1) ''?''"]
    read_table_rest [of "[(''on'', 1), (''enabled'', 1)]" "symtab_new False (- 1) ''?''"]
    read_table_tables [of "[(''on'', 1)]" "symtab_new False (- 1) ''?''"]
    read_table_rest [of "[(''on'', 1)]" "symtab_new False (- 1) ''?''"]
  by (simp add: Let_def symtab_eq_def get_int_def get_int_def_def raw_get_int_def symtab_new_def del: read_table.simps)

text \<open>
  Without aliases the comparison is right. Two tables read from entries with distinct names
  and distinct values that are equal by \<open>operator==\<close> parse every name alike.
\<close>

theorem symtab_eq_sound:
  assumes "symtab_of_table es fa ia sa = Some a" and "symtab_of_table ds fb ib sb = Some b"
    and "distinct (map fst es)" and "distinct (map snd es)"
    and "distinct (map fst ds)" and "distinct (map snd ds)" and "symtab_eq a b"
  shows "get_int np a s = get_int np b s \<and> get_string a i = get_string b i"
proof -
  have tables: "to_int_table t = map_of cs \<and> to_string_table t = map_of (map prod.swap cs)"
    if "symtab_of_table cs f dint dstr = Some t" for cs f dint dstr t
    using that read_table_tables [of cs "symtab_new f dint dstr"]
    by (auto simp: symtab_of_table_def symtab_new_def split: prod.splits if_splits)
  have pairs: "map_of cs n = Some v \<longleftrightarrow> map_of (map prod.swap cs) v = Some n"
    if "distinct (map fst cs)" "distinct (map snd cs)" for cs :: "(string \<times> int32) list" and n v
  proof -
    have "distinct (map fst (map prod.swap cs))" using that(2) by (simp add: comp_def)
    then have "map_of (map prod.swap cs) v = Some n \<longleftrightarrow> (v, n) \<in> set (map prod.swap cs)"
      by (metis map_of_SomeD map_of_is_SomeI)
    moreover have "map_of cs n = Some v \<longleftrightarrow> (n, v) \<in> set cs"
      using that(1) by (metis map_of_SomeD map_of_is_SomeI)
    ultimately show ?thesis by force
  qed
  have strings: "to_string_table a = to_string_table b" and rest: "use_fallback a = use_fallback b"
    "default_int a = default_int b" "default_string a = default_string b"
    using assms(7) by (simp_all add: symtab_eq_def)
  have "to_int_table a n = Some v \<longleftrightarrow> to_int_table b n = Some v" for n v
    using pairs [OF assms(3,4)] pairs [OF assms(5,6)] tables [OF assms(1)] tables [OF assms(2)] strings
    by simp
  then have "to_int_table a = to_int_table b" by (metis not_None_eq ext)
  then show ?thesis
    by (simp add: get_int_def get_int_def_def raw_get_int_def get_string_def get_string_def_def
        raw_get_string_def rest strings)
qed

theorem symtab_eq_sound_witness:
  "get_int \<lparr>np_int = (\<lambda>_. None), np_uint = (\<lambda>_. None)\<rparr>
     (the (symtab_of_table [(''a'', 1), (''b'', 2)] False 0 [])) ''b'' =
   get_int \<lparr>np_int = (\<lambda>_. None), np_uint = (\<lambda>_. None)\<rparr>
     (the (symtab_of_table [(''b'', 2), (''a'', 1)] False 0 [])) ''b''"
proof -
  have some: "symtab_of_table es False 0 [] = Some (the (symtab_of_table es False 0 []))" for es
    using read_table_rest [of es "symtab_new False 0 []"]
    by (auto simp: symtab_of_table_def split: prod.splits)
  have "symtab_eq (the (symtab_of_table [(''a'', 1), (''b'', 2)] False 0 []))
      (the (symtab_of_table [(''b'', 2), (''a'', 1)] False 0 []))"
    by (auto simp: symtab_eq_def symtab_of_table_def internal_add_def symtab_new_def map_add_def fun_eq_iff)
  then show ?thesis by (intro conjunct1 [OF symtab_eq_sound [OF some some]]) simp_all
qed

end
