(* ===== verification/Slate_Tokens.thy ===== *)
theory Slate_Tokens
  imports Codon_Prelude "HOL-Library.AList" "HOL-Library.Multiset"
begin

text \<open>
  \<^verbatim>\<open>vehicle/src/bullwinkle/all/slate_tokens.h\<close> and \<^verbatim>\<open>slate_tokens.cc\<close>: the tokens through
  which the program reads and writes Slate elements, and the accountant that finds tokens nobody
  bound to an element. \<open>acct\<close> holds the fields of \<^verbatim>\<open>SlateTokenAccountant\<close> and the file-level
  variables; \<open>tstate\<close> adds the live token objects, an association list from the object to
  its \<^verbatim>\<open>id\<close>. The size counters are 64-bit words.

  An operation that would fail an \<^verbatim>\<open>FswAssert\<close> is \<open>None\<close>. The ID type and its encoding
  (\<^verbatim>\<open>slate_id_is_valid\<close>, \<^verbatim>\<open>slate_id_build_invalid\<close>, \<^verbatim>\<open>slate_element_default\<close>) are not in the
  repository and are the parameter \<open>id_space\<close>. Stack frames are kept as their context string.
\<close>

section \<open>State\<close>

record 'id id_space =
  is_valid_id :: "'id \<Rightarrow> bool"
  invalid_id :: "nat \<Rightarrow> 'id"
  default_id :: 'id

definition id_space_ok :: "'id id_space \<Rightarrow> bool" where
  "id_space_ok I \<longleftrightarrow>
     (\<forall>a b. invalid_id I a = invalid_id I b \<longrightarrow> a = b) \<and>
     (\<forall>n. \<not> is_valid_id I (invalid_id I n) \<and> invalid_id I n \<noteq> default_id I) \<and>
     \<not> is_valid_id I (default_id I)"

record 'id acct =
  enabled :: bool
  auto_re_enable :: bool
  default_token_count :: "64 word"
  first_invalid :: nat
  next_invalid :: nat
  valid_id_count :: "64 word"
  id_frames :: "('id \<times> string) list"

record 'id tstate =
  acct :: "'id acct"
  tokens :: "(nat \<times> 'id) list"

definition acct_new :: "'id acct" where
  "acct_new = \<lparr>enabled = True, auto_re_enable = False, default_token_count = 0,
     first_invalid = 0, next_invalid = 0, valid_id_count = 0, id_frames = []\<rparr>"

section \<open>The accountant\<close>

definition generate_id :: "'id id_space \<Rightarrow> string \<Rightarrow> 'id acct \<Rightarrow> 'id \<times> 'id acct" where
  "generate_id I context a =
     (if \<not> enabled a then (default_id I, a)
      else
        let i = invalid_id I (next_invalid a)
        in (i, a\<lparr>next_invalid := next_invalid a + 1, id_frames := AList.update i context (id_frames a)\<rparr>))"

definition register_id :: "'id id_space \<Rightarrow> 'id \<Rightarrow> 'id acct \<Rightarrow> (bool \<times> 'id acct) option" where
  "register_id I i a =
     (if is_valid_id I i then Some (False, a)
      else if \<not> enabled a then Some (True, a)
      else
        let is_known_id = (map_of (id_frames a) i \<noteq> None);
            a' = a\<lparr>id_frames := AList.delete i (id_frames a)\<rparr>
        in if \<not> is_known_id then (if i = default_id I then Some (False, a') else None)
           else Some (True, a'\<lparr>valid_id_count := valid_id_count a' + 1\<rparr>))"

definition dismiss_id :: "'id id_space \<Rightarrow> 'id \<Rightarrow> 'id acct \<Rightarrow> (bool \<times> 'id acct) option" where
  "dismiss_id I i a =
     (case register_id I i a of
        None \<Rightarrow> None
      | Some (ok, a') \<Rightarrow> if \<not> ok then Some (False, a') else Some (True, a'))"

definition get_first_invalid_id :: "'id id_space \<Rightarrow> 'id acct \<Rightarrow> 'id" where
  "get_first_invalid_id I a = invalid_id I (first_invalid a)"

definition get_last_invalid_id :: "'id id_space \<Rightarrow> 'id acct \<Rightarrow> 'id" where
  "get_last_invalid_id I a = invalid_id I (next_invalid a)"

definition enable :: "'id acct \<Rightarrow> 'id acct option" where
  "enable a =
     (if \<not> (enabled a \<or> auto_re_enable a) then None
      else if auto_re_enable a then Some (a\<lparr>enabled := True\<rparr>) else Some a)"

definition check_for_uninitialized_tokens :: "'id acct \<Rightarrow> bool" where
  "check_for_uninitialized_tokens a \<longleftrightarrow>
     (if default_token_count a \<noteq> 0 then False
      else if valid_id_count a + of_nat (length (id_frames a)) \<noteq> of_nat (next_invalid a) - of_nat (first_invalid a)
      then False
      else id_frames a = [])"

definition acknowledge_and_disable :: "'id acct \<Rightarrow> bool \<times> 'id acct" where
  "acknowledge_and_disable a =
     (True, a\<lparr>enabled := False, first_invalid := next_invalid a, id_frames := [], valid_id_count := 0\<rparr>)"

definition set_auto_re_enable :: "'id acct \<Rightarrow> 'id acct" where
  "set_auto_re_enable a = a\<lparr>auto_re_enable := True\<rparr>"

definition force_enable :: "'id acct \<Rightarrow> 'id acct" where
  "force_enable a = a\<lparr>enabled := True\<rparr>"

section \<open>Token objects\<close>

text \<open>The constructor and destructor, on the accountant: the ID a new token holds.\<close>

definition construct_token :: "'id id_space \<Rightarrow> string \<Rightarrow> 'id acct \<Rightarrow> 'id \<times> 'id acct" where
  "construct_token I ctx a =
     (let (i, a') = (if enabled a then generate_id I ctx a else (default_id I, a))
      in (i, if i = default_id I then a'\<lparr>default_token_count := default_token_count a' + 1\<rparr> else a'))"

definition drop_token :: "'id id_space \<Rightarrow> 'id \<Rightarrow> 'id acct \<Rightarrow> 'id acct option" where
  "drop_token I i a =
     (case (if enabled a \<and> \<not> is_valid_id I i \<and> i \<noteq> default_id I then dismiss_id I i a else Some (True, a)) of
        None \<Rightarrow> None
      | Some (success, a') \<Rightarrow>
          if \<not> success then None
          else Some (if i = default_id I then a'\<lparr>default_token_count := default_token_count a' - 1\<rparr> else a'))"

definition token_new :: "'id id_space \<Rightarrow> string \<Rightarrow> nat \<Rightarrow> 'id tstate \<Rightarrow> 'id tstate option" where
  "token_new I ctx t s =
     (let (i, a) = construct_token I ctx (acct s) in Some (s\<lparr>acct := a, tokens := (t, i) # tokens s\<rparr>))"

text \<open>\<open>set\<close>, on the token's ID and the accountant: the new ID of the token.\<close>

definition set_id :: "'id id_space \<Rightarrow> string \<Rightarrow> 'id \<Rightarrow> 'id \<Rightarrow> 'id acct \<Rightarrow> ('id \<times> 'id acct) option" where
  "set_id I ctx old_id b_id a =
     (case
        (if enabled a then
           (case (if \<not> is_valid_id I old_id \<and> old_id \<noteq> default_id I then dismiss_id I old_id a
                  else Some (True, a)) of
              None \<Rightarrow> None
            | Some (success, a1) \<Rightarrow>
                if \<not> success then None
                else if \<not> is_valid_id I b_id then Some (generate_id I ctx a1)
                else Some (b_id, a1))
         else if \<not> is_valid_id I b_id
         then Some (default_id I, a\<lparr>default_token_count := default_token_count a + 1\<rparr>)
         else Some (b_id, a))
      of None \<Rightarrow> None
       | Some (i, a2) \<Rightarrow>
           Some (i, if old_id = default_id I
                    then a2\<lparr>default_token_count := default_token_count a2 - 1\<rparr> else a2))"

definition token_set :: "'id id_space \<Rightarrow> string \<Rightarrow> nat \<Rightarrow> nat \<Rightarrow> 'id tstate \<Rightarrow> 'id tstate option" where
  "token_set I ctx t b s =
     (case (map_of (tokens s) t, map_of (tokens s) b) of
        (Some old_id, Some b_id) \<Rightarrow>
          (case set_id I ctx old_id b_id (acct s) of
             None \<Rightarrow> None
           | Some (i, a) \<Rightarrow> Some (s\<lparr>acct := a, tokens := AList.update t i (tokens s)\<rparr>))
      | _ \<Rightarrow> None)"

definition token_copy :: "'id id_space \<Rightarrow> string \<Rightarrow> nat \<Rightarrow> nat \<Rightarrow> 'id tstate \<Rightarrow> 'id tstate option" where
  "token_copy I ctx t b s =
     (case map_of (tokens s) b of
        None \<Rightarrow> None
      | Some b_id \<Rightarrow>
          (case set_id I ctx (default_id I) b_id
                 ((acct s)\<lparr>default_token_count := default_token_count (acct s) + 1\<rparr>) of
             None \<Rightarrow> None
           | Some (i, a) \<Rightarrow> Some (s\<lparr>acct := a, tokens := (t, i) # tokens s\<rparr>)))"

definition token_destroy :: "'id id_space \<Rightarrow> nat \<Rightarrow> 'id tstate \<Rightarrow> 'id tstate option" where
  "token_destroy I t s =
     (case map_of (tokens s) t of
        None \<Rightarrow> None
      | Some i \<Rightarrow>
          map_option (\<lambda>a. s\<lparr>acct := a, tokens := AList.delete t (tokens s)\<rparr>) (drop_token I i (acct s)))"

text \<open>What binding a token does to it: the end of \<^verbatim>\<open>SlateBuilder::register_token\<close> and \<^verbatim>\<open>bind\<close>.\<close>

definition token_bind :: "'id id_space \<Rightarrow> nat \<Rightarrow> 'id \<Rightarrow> 'id tstate \<Rightarrow> (bool \<times> 'id tstate) option" where
  "token_bind I t element_id s =
     (case map_of (tokens s) t of
        None \<Rightarrow> None
      | Some i \<Rightarrow>
          (case register_id I i (acct s) of
             None \<Rightarrow> None
           | Some (ok, a) \<Rightarrow>
               if \<not> ok then Some (False, s\<lparr>acct := a\<rparr>)
               else Some (True, s\<lparr>acct := a, tokens := AList.update t element_id (tokens s)\<rparr>)))"

section \<open>Steps of the program\<close>

text \<open>
  Everything a program can do to its tokens. A new object has a name not in use; a binding step
  binds to a valid element. Binding is possible whether or not the accountant is enabled: the
  builder never asks. \<open>bind_leak\<close> is the number of counted tokens that a binding step takes out of
  the accountant's sight: \<open>register_id\<close> accepts a token with the default ID when tracking is off,
  the token then loses that ID, and \<^verbatim>\<open>default_token_count\<close> stays as it was. A step is labelled
  with that number; every other kind of step has the label 0.
\<close>

definition bind_leak :: "'id id_space \<Rightarrow> nat \<Rightarrow> 'id tstate \<Rightarrow> nat" where
  "bind_leak I t s = (if \<not> enabled (acct s) \<and> map_of (tokens s) t = Some (default_id I) then 1 else 0)"

inductive token_step :: "'id id_space \<Rightarrow> 'id tstate \<Rightarrow> nat \<Rightarrow> 'id tstate \<Rightarrow> bool" for I where
  new: "t \<notin> fst ` set (tokens s) \<Longrightarrow> token_new I ctx t s = Some s' \<Longrightarrow> token_step I s 0 s'"
| copy: "t \<notin> fst ` set (tokens s) \<Longrightarrow> token_copy I ctx t b s = Some s' \<Longrightarrow> token_step I s 0 s'"
| assign: "token_set I ctx t b s = Some s' \<Longrightarrow> token_step I s 0 s'"
| destroy: "token_destroy I t s = Some s' \<Longrightarrow> token_step I s 0 s'"
| bind: "is_valid_id I e \<Longrightarrow> token_bind I t e s = Some (ok, s') \<Longrightarrow> token_step I s (bind_leak I t s) s'"
| disable: "token_step I s 0 (s\<lparr>acct := snd (acknowledge_and_disable (acct s))\<rparr>)"
| enable: "enable (acct s) = Some a \<Longrightarrow> token_step I s 0 (s\<lparr>acct := a\<rparr>)"
| auto: "token_step I s 0 (s\<lparr>acct := set_auto_re_enable (acct s)\<rparr>)"
| force: "token_step I s 0 (s\<lparr>acct := force_enable (acct s)\<rparr>)"

text \<open>The states the program can be in, with the labels of the steps to it summed up.\<close>

inductive token_reachable :: "'id id_space \<Rightarrow> nat \<Rightarrow> 'id tstate \<Rightarrow> bool" for I where
  init: "token_reachable I 0 \<lparr>acct = acct_new, tokens = []\<rparr>"
| step: "token_reachable I L s \<Longrightarrow> token_step I s l s' \<Longrightarrow> token_reachable I (L + l) s'"

section \<open>The invariant\<close>

text \<open>
  \<open>acct_inv I L a M\<close> relates the accountant to the multiset \<open>M\<close> of IDs of the live tokens: the
  default counter counts the tokens with the default ID and the \<open>L\<close> bound behind its back, and of the IDs generated since the last
  acknowledgement exactly those with a frame are held, each by one token.
\<close>

definition acct_inv :: "'id id_space \<Rightarrow> nat \<Rightarrow> 'id acct \<Rightarrow> 'id multiset \<Rightarrow> bool" where
  "acct_inv I L a M \<longleftrightarrow>
     distinct (map fst (id_frames a)) \<and> first_invalid a \<le> next_invalid a \<and>
     valid_id_count a + of_nat (length (id_frames a)) = of_nat (next_invalid a) - of_nat (first_invalid a) \<and>
     default_token_count a = of_nat (count M (default_id I) + L) \<and>
     (\<forall>i\<in>fst ` set (id_frames a). \<exists>n. first_invalid a \<le> n \<and> n < next_invalid a \<and> i = invalid_id I n) \<and>
     (\<forall>n. first_invalid a \<le> n \<longrightarrow>
        count M (invalid_id I n) = (if invalid_id I n \<in> fst ` set (id_frames a) then 1 else 0)) \<and>
     (\<not> enabled a \<longrightarrow> first_invalid a = next_invalid a)"

lemma id_spaceD:
  assumes "id_space_ok I"
  shows "invalid_id I a = invalid_id I b \<longleftrightarrow> a = b" and "\<not> is_valid_id I (invalid_id I n)"
    and "invalid_id I n \<noteq> default_id I" and "default_id I \<noteq> invalid_id I n"
    and "\<not> is_valid_id I (default_id I)"
  using assms unfolding id_space_ok_def by metis+

lemma alist_update_new: "k \<notin> fst ` set al \<Longrightarrow> AList.update k v al = al @ [(k, v)]"
  by (induction al) auto

lemma alist_update_mset:
  "map_of al k = Some old \<Longrightarrow> mset (map snd (AList.update k v al)) = mset (map snd al) - {#old#} + {#v#}"
proof (induction al)
  case Nil
  then show ?case by simp
next
  case (Cons p al)
  show ?case
  proof (cases "fst p = k")
    case True
    then show ?thesis using Cons.prems by (cases p) simp
  next
    case False
    then have "old \<in># mset (map snd al)" using Cons.prems
      by (cases p) (force dest: map_of_SomeD)
    then show ?thesis using Cons False by (cases p) (simp add: diff_union_swap2)
  qed
qed

lemma alist_delete_mset:
  "distinct (map fst al) \<Longrightarrow> map_of al k = Some old \<Longrightarrow>
   mset (map snd (AList.delete k al)) = mset (map snd al) - {#old#}"
proof (induction al)
  case Nil
  then show ?case by simp
next
  case (Cons p al)
  show ?case
  proof (cases "fst p = k")
    case True
    then have "AList.delete k al = al" using Cons.prems by (intro AList.delete_id) auto
    then show ?thesis using True Cons.prems by (cases p) (simp add: AList.delete_eq)
  next
    case False
    then have "old \<in># mset (map snd al)" using Cons.prems
      by (cases p) (force dest: map_of_SomeD)
    then show ?thesis using Cons False by (cases p) (auto simp: AList.delete_eq diff_union_swap2)
  qed
qed

lemma alist_delete_length:
  "distinct (map fst al) \<Longrightarrow> map_of al k = Some v \<Longrightarrow> length al = Suc (length (AList.delete k al))"
proof (induction al)
  case Nil
  then show ?case by simp
next
  case (Cons p al)
  show ?case
  proof (cases "fst p = k")
    case True
    then have "AList.delete k al = al" using Cons.prems by (intro AList.delete_id) auto
    then show ?thesis using True by (cases p) (simp add: AList.delete_eq)
  next
    case False
    then show ?thesis using Cons by (cases p) (auto simp: AList.delete_eq)
  qed
qed

lemma acct_invD:
  assumes "acct_inv I L a M"
  shows "distinct (map fst (id_frames a))" and "first_invalid a \<le> next_invalid a"
    and "valid_id_count a + of_nat (length (id_frames a)) = of_nat (next_invalid a) - of_nat (first_invalid a)"
    and "default_token_count a = of_nat (count M (default_id I) + L)"
    and "i \<in> fst ` set (id_frames a) \<Longrightarrow> \<exists>n. first_invalid a \<le> n \<and> n < next_invalid a \<and> i = invalid_id I n"
    and "first_invalid a \<le> n \<Longrightarrow>
        count M (invalid_id I n) = (if invalid_id I n \<in> fst ` set (id_frames a) then 1 else 0)"
    and "\<not> enabled a \<Longrightarrow> first_invalid a = next_invalid a"
  using assms unfolding acct_inv_def by blast+

lemma acct_inv_generate:
  assumes "id_space_ok I" and inv: "acct_inv I L a M" and "enabled a" and "generate_id I ctx a = (i, a')"
  shows "acct_inv I L a' (add_mset i M)" and "i \<noteq> default_id I" and "\<not> is_valid_id I i" and "enabled a'"
proof -
  note ids = id_spaceD [OF assms(1)]
  have i: "i = invalid_id I (next_invalid a)"
    and a': "a' = a\<lparr>next_invalid := next_invalid a + 1, id_frames := AList.update i ctx (id_frames a)\<rparr>"
    using assms(3,4) by (auto simp: generate_id_def Let_def)
  have fresh: "i \<notin> fst ` set (id_frames a)"
    using acct_invD(5) [OF inv, of i] by (auto simp: i ids(1))
  have frames: "id_frames a' = id_frames a @ [(i, ctx)]" by (simp add: a' alist_update_new [OF fresh])
  have keys: "\<exists>n. first_invalid a \<le> n \<and> n < next_invalid a + 1 \<and> j = invalid_id I n"
    if "j \<in> fst ` set (id_frames a')" for j
  proof (cases "j = i")
    case True
    then show ?thesis using acct_invD(2) [OF inv] i by (intro exI [of _ "next_invalid a"]) simp
  next
    case False
    then have "j \<in> fst ` set (id_frames a)" using that by (auto simp: frames)
    then show ?thesis using acct_invD(5) [OF inv, of j] less_SucI by fastforce
  qed
  have counts: "count (add_mset i M) (invalid_id I n) = (if invalid_id I n \<in> fst ` set (id_frames a') then 1 else 0)"
    if "first_invalid a \<le> n" for n
    using acct_invD(6) [OF inv that] fresh by (auto simp: frames i ids(1))
  have total: "valid_id_count a' + of_nat (length (id_frames a')) = of_nat (next_invalid a') - of_nat (first_invalid a')"
    using acct_invD(3) [OF inv] by (simp add: frames) (simp add: a' algebra_simps)
  show "acct_inv I L a' (add_mset i M)"
    unfolding acct_inv_def
  proof (intro conjI ballI allI impI)
    show "distinct (map fst (id_frames a'))" using acct_invD(1) [OF inv] fresh by (simp add: frames)
    show "default_token_count a' = of_nat (count (add_mset i M) (default_id I) + L)"
      using acct_invD(4) [OF inv] by (simp add: a' i ids)
  qed (use keys counts total acct_invD(2) [OF inv] assms(3) in \<open>simp_all add: a'\<close>)
  show "i \<noteq> default_id I" "\<not> is_valid_id I i" "enabled a'"
    using ids assms(3) by (simp_all add: i a')
qed

lemma acct_inv_dismiss:
  assumes "id_space_ok I" and inv: "acct_inv I L a M" and "enabled a" and "i \<in># M"
    and reg: "register_id I i a = Some (True, a')"
  shows "acct_inv I L a' (M - {#i#})" and "enabled a'" and "i \<noteq> default_id I"
proof -
  note ids = id_spaceD [OF assms(1)]
  obtain c where known: "map_of (id_frames a) i = Some c"
    and a': "a' = a\<lparr>id_frames := AList.delete i (id_frames a), valid_id_count := valid_id_count a + 1\<rparr>"
    using reg assms(3) by (auto simp: register_id_def Let_def split: if_splits)
  have key: "i \<in> fst ` set (id_frames a)" using known by (force dest: map_of_SomeD)
  then obtain k where k: "first_invalid a \<le> k" "i = invalid_id I k" using acct_invD(5) [OF inv] by blast
  have keys: "fst ` set (id_frames a') = fst ` set (id_frames a) - {i}"
    by (auto simp: a' AList.delete_eq)
  have len: "length (id_frames a) = Suc (length (id_frames a'))"
    using alist_delete_length [OF acct_invD(1) [OF inv] known] by (simp add: a')
  have counts: "count (M - {#i#}) (invalid_id I n) = (if invalid_id I n \<in> fst ` set (id_frames a') then 1 else 0)"
    if "first_invalid a \<le> n" for n
    using acct_invD(6) [OF inv that] key by (auto simp: keys k(2) ids(1))
  have total: "valid_id_count a' + of_nat (length (id_frames a')) = of_nat (next_invalid a') - of_nat (first_invalid a')"
    using acct_invD(3) [OF inv] by (simp add: len) (simp add: a' algebra_simps)
  show "acct_inv I L a' (M - {#i#})"
    unfolding acct_inv_def
  proof (intro conjI ballI allI impI)
    show "distinct (map fst (id_frames a'))" using acct_invD(1) [OF inv] by (simp add: a' AList.distinct_delete)
    show "default_token_count a' = of_nat (count (M - {#i#}) (default_id I) + L)"
      using acct_invD(4) [OF inv] by (simp add: a' k(2) ids)
    show "\<exists>n. first_invalid a' \<le> n \<and> n < next_invalid a' \<and> j = invalid_id I n"
      if "j \<in> fst ` set (id_frames a')" for j
      using acct_invD(5) [OF inv, of j] that by (simp add: keys) (simp add: a')
  qed (use counts total acct_invD(2) [OF inv] assms(3) in \<open>simp_all add: a'\<close>)
  show "enabled a'" "i \<noteq> default_id I" using assms(3) ids by (simp_all add: a' k(2))
qed

text \<open>IDs the accountant does not follow: valid ones, and any once it is disabled.\<close>

lemma acct_inv_valid:
  assumes "id_space_ok I" and "acct_inv I L a M" and "is_valid_id I i"
  shows "acct_inv I L a (add_mset i M)" and "acct_inv I L a (M - {#i#})"
proof -
  have "i \<noteq> default_id I" "\<And>n. invalid_id I n \<noteq> i" using id_spaceD [OF assms(1)] assms(3) by auto
  then show "acct_inv I L a (add_mset i M)" "acct_inv I L a (M - {#i#})"
    using assms(2) unfolding acct_inv_def by auto
qed

lemma acct_inv_default:
  assumes "id_space_ok I" and "acct_inv I L a M"
  shows "acct_inv I L (a\<lparr>default_token_count := default_token_count a + 1\<rparr>) (add_mset (default_id I) M)"
    and "default_id I \<in># M \<Longrightarrow>
      acct_inv I L (a\<lparr>default_token_count := default_token_count a - 1\<rparr>) (M - {#default_id I#})"
proof -
  show "acct_inv I L (a\<lparr>default_token_count := default_token_count a + 1\<rparr>) (add_mset (default_id I) M)"
    using assms(2) id_spaceD [OF assms(1)] unfolding acct_inv_def by (auto simp: algebra_simps)
  assume "default_id I \<in># M"
  then have "of_nat (count M (default_id I) + L) - (1 :: 64 word) = of_nat (count M (default_id I) - 1 + L)"
    by (cases "count M (default_id I)") (simp_all flip: not_in_iff)
  then show "acct_inv I L (a\<lparr>default_token_count := default_token_count a - 1\<rparr>) (M - {#default_id I#})"
    using assms(2) id_spaceD [OF assms(1)] unfolding acct_inv_def by auto
qed

lemma acct_inv_disabled:
  assumes "id_space_ok I" and inv: "acct_inv I L a M" and "\<not> enabled a" and "i \<noteq> default_id I"
  shows "acct_inv I L a (M - {#i#})"
proof -
  have empty: "id_frames a = []"
    using acct_invD(5) [OF inv, of "fst (hd (id_frames a))"] acct_invD(7) [OF inv assms(3)]
    by (cases "id_frames a") auto
  then have zero: "count M (invalid_id I n) = 0" if "first_invalid a \<le> n" for n
    using acct_invD(6) [OF inv that] by simp
  show ?thesis
    using inv assms(4) zero unfolding acct_inv_def by (auto simp: empty)
qed

lemma set_id_inv:
  assumes I: "id_space_ok I" and inv: "acct_inv I L a M" and old: "old_id \<in># M"
    and set: "set_id I ctx old_id b_id a = Some (i, a')"
  shows "acct_inv I L a' (add_mset i (M - {#old_id#}))"
proof -
  note ids = id_spaceD [OF I]
  have swap: "add_mset i M - {#old_id#} = add_mset i (M - {#old_id#})" for i
    using old by (rule diff_union_swap2)
  have gain: "acct_inv I L c' (add_mset j N)"
    if "acct_inv I L c N" "enabled c"
      "(if \<not> is_valid_id I b_id then Some (generate_id I ctx c) else Some (b_id, c)) = Some (j, c')" for c c' j N
    using that acct_inv_generate [OF I that(1,2)] acct_inv_valid [OF I that(1)]
    by (cases "generate_id I ctx c") (auto split: if_splits)
  show ?thesis
  proof (cases "enabled a")
    case True
    show ?thesis
    proof (cases "\<not> is_valid_id I old_id \<and> old_id \<noteq> default_id I")
      case rel: True
      obtain a1 where a1: "register_id I old_id a = Some (True, a1)"
        and got: "(if \<not> is_valid_id I b_id then Some (generate_id I ctx a1) else Some (b_id, a1)) = Some (i, a')"
        using set True rel
        by (auto simp: set_id_def dismiss_id_def split: option.splits prod.splits if_splits)
      note d = acct_inv_dismiss [OF I inv True old a1]
      show ?thesis using gain [OF d(1,2) got] .
    next
      case False
      obtain a2 where got: "(if \<not> is_valid_id I b_id then Some (generate_id I ctx a) else Some (b_id, a)) = Some (i, a2)"
        and a': "a' = (if old_id = default_id I
            then a2\<lparr>default_token_count := default_token_count a2 - 1\<rparr> else a2)"
        using set True False by (auto simp: set_id_def split: option.splits prod.splits if_splits)
      have more: "acct_inv I L a2 (add_mset i M)" using gain [OF inv True got] .
      have "acct_inv I L a' (add_mset i M - {#old_id#})"
        using acct_inv_default(2) [OF I more] acct_inv_valid(2) [OF I more, of old_id] False old
        by (auto simp: a')
      then show ?thesis by (simp add: swap)
    qed
  next
    case False
    obtain a2 where got: "(if \<not> is_valid_id I b_id
          then Some (default_id I, a\<lparr>default_token_count := default_token_count a + 1\<rparr>)
          else Some (b_id, a)) = Some (i, a2)"
      and a': "a' = (if old_id = default_id I
            then a2\<lparr>default_token_count := default_token_count a2 - 1\<rparr> else a2)"
      using set False by (auto simp: set_id_def split: option.splits prod.splits if_splits)
    have more: "acct_inv I L a2 (add_mset i M)" "\<not> enabled a2"
      using acct_inv_default(1) [OF I inv] acct_inv_valid(1) [OF I inv] got False by (auto split: if_splits)
    have "acct_inv I L a' (add_mset i M - {#old_id#})"
      using acct_inv_default(2) [OF I more(1)] acct_inv_disabled [OF I more, of old_id] old by (auto simp: a')
    then show ?thesis by (simp add: swap)
  qed
qed

definition token_inv :: "'id id_space \<Rightarrow> nat \<Rightarrow> 'id tstate \<Rightarrow> bool" where
  "token_inv I L s \<longleftrightarrow> distinct (map fst (tokens s)) \<and> acct_inv I L (acct s) (mset (map snd (tokens s)))"

lemma token_inv_update:
  assumes "token_inv I L s" and "map_of (tokens s) t = Some old"
    and "acct_inv I L a (add_mset i (mset (map snd (tokens s)) - {#old#}))"
  shows "token_inv I L (s\<lparr>acct := a, tokens := AList.update t i (tokens s)\<rparr>)"
  using assms alist_update_mset [OF assms(2), of i]
  by (simp add: token_inv_def AList.distinct_update)

lemma token_in: "map_of (tokens s) t = Some i \<Longrightarrow> i \<in># mset (map snd (tokens s))"
  by (force dest: map_of_SomeD)

lemma token_inv_new:
  assumes I: "id_space_ok I" and inv: "token_inv I L s" and "t \<notin> fst ` set (tokens s)"
    and new: "token_new I ctx t s = Some s'"
  shows "token_inv I L s'"
proof (cases "enabled (acct s)")
  case True
  obtain i a where gen: "generate_id I ctx (acct s) = (i, a)" by fastforce
  have "acct_inv I L (acct s) (mset (map snd (tokens s)))" using inv by (simp add: token_inv_def)
  note g = acct_inv_generate [OF I this True gen]
  show ?thesis using new True gen g inv assms(3) by (auto simp: token_new_def construct_token_def token_inv_def)
next
  case False
  then show ?thesis
    using new inv assms(3) acct_inv_default(1) [OF I, of L "acct s"]
    by (auto simp: token_new_def construct_token_def token_inv_def)
qed

lemma token_inv_copy:
  assumes I: "id_space_ok I" and inv: "token_inv I L s" and "t \<notin> fst ` set (tokens s)"
    and copy: "token_copy I ctx t b s = Some s'"
  shows "token_inv I L s'"
proof -
  let ?a = "(acct s)\<lparr>default_token_count := default_token_count (acct s) + 1\<rparr>"
  obtain b_id i a where set: "set_id I ctx (default_id I) b_id ?a = Some (i, a)"
    and s': "s' = s\<lparr>acct := a, tokens := (t, i) # tokens s\<rparr>"
    using copy by (auto simp: token_copy_def split: option.splits)
  have "acct_inv I L ?a (add_mset (default_id I) (mset (map snd (tokens s))))"
    using acct_inv_default(1) [OF I] inv by (simp add: token_inv_def)
  from set_id_inv [OF I this _ set]
  show ?thesis using inv assms(3) by (simp add: s' token_inv_def)
qed

lemma token_inv_set:
  assumes I: "id_space_ok I" and inv: "token_inv I L s" and set: "token_set I ctx t b s = Some s'"
  shows "token_inv I L s'"
proof -
  obtain old b_id i a where ids: "map_of (tokens s) t = Some old"
    and si: "set_id I ctx old b_id (acct s) = Some (i, a)"
    and s': "s' = s\<lparr>acct := a, tokens := AList.update t i (tokens s)\<rparr>"
    using set by (auto simp: token_set_def split: option.splits)
  have "acct_inv I L (acct s) (mset (map snd (tokens s)))" using inv by (simp add: token_inv_def)
  from token_inv_update [OF inv ids set_id_inv [OF I this token_in [OF ids] si]]
  show ?thesis by (simp add: s')
qed

lemma token_inv_destroy:
  assumes I: "id_space_ok I" and inv: "token_inv I L s" and d: "token_destroy I t s = Some s'"
  shows "token_inv I L s'"
proof -
  obtain i where i: "map_of (tokens s) t = Some i"
    using d by (auto simp: token_destroy_def drop_token_def split: option.splits)
  have dist: "distinct (map fst (tokens s))" and acc: "acct_inv I L (acct s) (mset (map snd (tokens s)))"
    using inv by (simp_all add: token_inv_def)
  note M = alist_delete_mset [OF dist i]
  have dist': "distinct (map fst (AList.delete t (tokens s)))" using dist by (rule AList.distinct_delete)
  consider (known) "enabled (acct s)" "\<not> is_valid_id I i" "i \<noteq> default_id I"
    | (dflt) "i = default_id I" | (valid) "is_valid_id I i" "i \<noteq> default_id I"
    | (off) "\<not> enabled (acct s)" "i \<noteq> default_id I" by blast
  then show ?thesis
  proof cases
    case known
    obtain a where reg: "register_id I i (acct s) = Some (True, a)"
      and s': "s' = s\<lparr>acct := a, tokens := AList.delete t (tokens s)\<rparr>"
      using d known i by (auto simp: token_destroy_def drop_token_def dismiss_id_def split: option.splits prod.splits if_splits)
    show ?thesis
      using acct_inv_dismiss(1) [OF I acc known(1) token_in [OF i] reg] dist' M
      by (simp add: s' token_inv_def)
  next
    case dflt
    then show ?thesis
      using d i acct_inv_default(2) [OF I acc] token_in [OF i] dist' M
      by (auto simp: token_destroy_def drop_token_def token_inv_def split: if_splits)
  next
    case valid
    then show ?thesis
      using d i acct_inv_valid(2) [OF I acc valid(1)] dist' M
      by (auto simp: token_destroy_def drop_token_def token_inv_def split: if_splits)
  next
    case off
    then show ?thesis
      using d i acct_inv_disabled [OF I acc off] dist' M
      by (auto simp: token_destroy_def drop_token_def token_inv_def split: if_splits)
  qed
qed

lemma acct_inv_register_False:
  assumes "acct_inv I L a M" and "register_id I i a = Some (False, a')"
  shows "acct_inv I L a' M"
proof -
  have "a' = a"
  proof (cases "is_valid_id I i")
    case True
    then show ?thesis using assms(2) by (simp add: register_id_def)
  next
    case False
    then have "map_of (id_frames a) i = None" "a' = a\<lparr>id_frames := AList.delete i (id_frames a)\<rparr>"
      using assms(2) by (auto simp: register_id_def Let_def split: if_splits)
    then show ?thesis by (simp add: map_of_eq_None_iff)
  qed
  then show ?thesis using assms(1) by simp
qed

text \<open>Taking a token with the default ID away while the counter stands still: one more leak.\<close>

lemma acct_inv_leak:
  assumes "id_space_ok I" and inv: "acct_inv I L a M" and "default_id I \<in># M"
  shows "acct_inv I (L + 1) a (M - {#default_id I#})"
proof -
  have "count M (default_id I) + L = count (M - {#default_id I#}) (default_id I) + (L + 1)"
    using assms(3) by simp
  then have "default_token_count a = of_nat (count (M - {#default_id I#}) (default_id I) + (L + 1))"
    using acct_invD(4) [OF inv] by metis
  moreover have "count (M - {#default_id I#}) (invalid_id I n) = count M (invalid_id I n)" for n
    using id_spaceD [OF assms(1)] by simp
  ultimately show ?thesis using inv unfolding acct_inv_def by metis
qed

lemma token_inv_bind:
  assumes I: "id_space_ok I" and inv: "token_inv I L s"
    and e: "is_valid_id I e" and b: "token_bind I t e s = Some (ok, s')"
  shows "token_inv I (L + bind_leak I t s) s'"
proof -
  have acc: "acct_inv I L (acct s) (mset (map snd (tokens s)))" using inv by (simp add: token_inv_def)
  obtain i where i: "map_of (tokens s) t = Some i"
    using b by (auto simp: token_bind_def split: option.splits)
  obtain a where reg: "register_id I i (acct s) = Some (ok, a)"
    and s': "s' = (if ok then s\<lparr>acct := a, tokens := AList.update t e (tokens s)\<rparr> else s\<lparr>acct := a\<rparr>)"
    using b i by (auto simp: token_bind_def split: option.splits if_splits)
  show ?thesis
  proof (cases ok)
    case False
    then have reg': "register_id I i (acct s) = Some (False, a)" using reg by simp
    then have "bind_leak I t s = 0"
      using id_spaceD(5) [OF I] i by (auto simp: register_id_def bind_leak_def split: if_splits)
    then show ?thesis using acct_inv_register_False [OF acc reg'] inv False by (simp add: s' token_inv_def)
  next
    case True
    then have reg': "register_id I i (acct s) = Some (True, a)" using reg by simp
    have rest: "acct_inv I (L + bind_leak I t s) a (mset (map snd (tokens s)) - {#i#})"
    proof (cases "enabled (acct s)")
      case on: True
      then show ?thesis using acct_inv_dismiss(1) [OF I acc on token_in [OF i] reg'] by (simp add: bind_leak_def)
    next
      case off: False
      then have "a = acct s" using reg' by (auto simp: register_id_def split: if_splits)
      then show ?thesis
        using off i acct_inv_leak [OF I acc] acct_inv_disabled [OF I acc off, of i] token_in [OF i]
        by (cases "i = default_id I") (simp_all add: bind_leak_def)
    qed
    have "distinct (map fst (AList.update t e (tokens s)))"
      using inv by (simp add: token_inv_def AList.distinct_update)
    then show ?thesis
      using acct_inv_valid(1) [OF I rest e] alist_update_mset [OF i, of e] by (simp add: s' True token_inv_def)
  qed
qed

lemma acct_inv_disable:
  assumes "id_space_ok I" and inv: "acct_inv I L a M"
  shows "acct_inv I L (snd (acknowledge_and_disable a)) M"
proof -
  have "invalid_id I n \<notin> fst ` set (id_frames a)" if "next_invalid a \<le> n" for n
    using acct_invD(5) [OF inv, of "invalid_id I n"] that id_spaceD(1) [OF assms(1)] by auto
  then have "count M (invalid_id I n) = 0" if "next_invalid a \<le> n" for n
    using acct_invD(6) [OF inv, of n] acct_invD(2) [OF inv] that by (meson le_trans)
  then show ?thesis
    using inv unfolding acct_inv_def by (auto simp: acknowledge_and_disable_def)
qed

lemma acct_inv_flags: "acct_inv I L a M \<Longrightarrow> acct_inv I L (a\<lparr>enabled := True\<rparr>) M"
  by (simp add: acct_inv_def)

lemma token_inv_step:
  assumes I: "id_space_ok I" and inv: "token_inv I L s" and step: "token_step I s l s'"
  shows "token_inv I (L + l) s'"
proof -
  have acc: "acct_inv I L (acct s) (mset (map snd (tokens s)))" using inv by (simp add: token_inv_def)
  show ?thesis
    using step
  proof cases
    case disable
    then show ?thesis using inv acct_inv_disable [OF I acc] by (simp add: token_inv_def)
  next
    case (enable a)
    then have "a = acct s \<or> a = (acct s)\<lparr>enabled := True\<rparr>" by (auto simp: enable_def split: if_splits)
    then show ?thesis using enable(1,2) inv acct_inv_flags [OF acc] by (auto simp: token_inv_def)
  next
    case auto
    then show ?thesis using inv by (simp add: token_inv_def acct_inv_def set_auto_re_enable_def)
  next
    case force
    then show ?thesis using inv by (simp add: token_inv_def acct_inv_def force_enable_def)
  qed (use I inv token_inv_new token_inv_copy token_inv_set token_inv_destroy token_inv_bind in \<open>metis add_0_right\<close>)+
qed

lemma token_inv_reachable:
  assumes "id_space_ok I" and "token_reachable I L s"
  shows "token_inv I L s"
  using assms(2)
proof (induction rule: token_reachable.induct)
  case init
  show ?case by (simp add: token_inv_def acct_inv_def acct_new_def)
next
  case (step L s l s')
  then show ?case using token_inv_step [OF assms(1)] by blast
qed

lemma count_holders: "length (filter (\<lambda>p. snd p = d) ts) = count (mset (map snd ts)) d"
  by (induction ts) auto

section \<open>Properties\<close>

text \<open>
  C4: the leak counter is exact, up to the tokens bound while tracking is off. In every state
  the program can reach, \<^verbatim>\<open>default_token_count\<close> is the number of live token objects that hold
  the default ID plus the number of tokens with the default ID that were bound while the accountant
  was disabled (\<open>L\<close>, the source never takes those out of the counter). The other counters are exact:
  the IDs registered plus the frames kept are the IDs generated since the last acknowledgement, and
  of each ID generated since then exactly one live token holds it if the ID has a frame and none
  otherwise.
\<close>

theorem token_counters_exact:
  assumes "id_space_ok I" and "token_reachable I L s"
  shows "default_token_count (acct s) =
           of_nat (length (filter (\<lambda>p. snd p = default_id I) (tokens s)) + L) \<and>
         valid_id_count (acct s) + of_nat (length (id_frames (acct s))) =
           of_nat (next_invalid (acct s)) - of_nat (first_invalid (acct s)) \<and>
         (\<forall>n\<ge>first_invalid (acct s).
            length (filter (\<lambda>p. snd p = invalid_id I n) (tokens s)) =
              (if map_of (id_frames (acct s)) (invalid_id I n) = None then 0 else 1))"
proof -
  have acc: "acct_inv I L (acct s) (mset (map snd (tokens s)))"
    using token_inv_reachable [OF assms] by (simp add: token_inv_def)
  show ?thesis
    unfolding count_holders map_of_eq_None_iff
    using acct_invD(3,4) [OF acc] acct_invD(6) [OF acc] by simp
qed

definition nat_ids :: "nat id_space" where
  "nat_ids = \<lparr>is_valid_id = (\<lambda>i. even i \<and> i \<noteq> 0), invalid_id = (\<lambda>n. 2 * n + 1), default_id = 0\<rparr>"

lemma nat_ids_ok: "id_space_ok nat_ids"
  by (auto simp: id_space_ok_def nat_ids_def)

text \<open>
  A run with all of it: token 7 is made, tracking is acknowledged and switched off, token 8 is made
  with the default ID and bound to the element 4 while it is off.
\<close>

definition seven :: "nat tstate" where
  "seven = \<lparr>acct = acct_new\<lparr>next_invalid := 1, id_frames := [(1, ''f'')]\<rparr>, tokens = [(7, 1)]\<rparr>"

definition leaked :: "nat tstate" where
  "leaked = \<lparr>acct = acct_new\<lparr>enabled := False, default_token_count := 1, first_invalid := 1, next_invalid := 1\<rparr>,
     tokens = [(8, 4), (7, 1)]\<rparr>"

lemma seven_reachable: "token_reachable nat_ids 0 seven"
  using token_reachable.step [OF token_reachable.init token_step.new [of 7 _ nat_ids "''f''" seven]]
  by (simp add: token_new_def construct_token_def generate_id_def acct_new_def nat_ids_def seven_def)

lemma leaked_reachable: "token_reachable nat_ids 1 leaked"
proof -
  let ?off = "seven\<lparr>acct := snd (acknowledge_and_disable (acct seven))\<rparr>"
  let ?two = "\<lparr>acct = acct leaked, tokens = [(8, 0), (7, 1)]\<rparr>"
  have off: "token_reachable nat_ids 0 ?off"
    using token_reachable.step [OF seven_reachable token_step.disable] by simp
  have "token_new nat_ids [] 8 ?off = Some ?two"
    by (simp add: token_new_def construct_token_def acknowledge_and_disable_def seven_def leaked_def
        acct_new_def nat_ids_def)
  moreover have "8 \<notin> fst ` set (tokens ?off)" by (simp add: seven_def)
  ultimately have two: "token_reachable nat_ids 0 ?two"
    using token_reachable.step [OF off token_step.new] by fastforce
  have "token_bind nat_ids 8 4 ?two = Some (True, leaked)"
    by (simp add: token_bind_def register_id_def nat_ids_def leaked_def acct_new_def)
  moreover have "is_valid_id nat_ids 4" by (simp add: nat_ids_def)
  ultimately have "token_reachable nat_ids (0 + bind_leak nat_ids 8 ?two) leaked"
    using token_reachable.step [OF two token_step.bind] by blast
  then show ?thesis by (simp add: bind_leak_def leaked_def acct_new_def nat_ids_def)
qed

theorem token_counters_exact_witness:
  "default_token_count (acct leaked) = of_nat (length (filter (\<lambda>p. snd p = 0) (tokens leaked)) + 1)"
  using token_counters_exact [OF nat_ids_ok leaked_reachable] by (simp add: nat_ids_def)

text \<open>
  The accountant reports exactly the unbound tokens, and the leaks. As long as live tokens and
  leaks together are fewer than \<open>2 ^ 64\<close>, \<open>check_for_uninitialized_tokens\<close> succeeds in a reachable
  state if and only if no token was ever bound with the default ID while tracking was off, no live
  token holds the default ID and none holds an ID generated since the last acknowledgement.
\<close>

lemma uninitialized_check_exact:
  assumes "id_space_ok I" and "token_reachable I L s" and "length (tokens s) + L < 2 ^ 64"
  shows "check_for_uninitialized_tokens (acct s) \<longleftrightarrow>
         L = 0 \<and>
         (\<forall>(t, i)\<in>set (tokens s). i \<noteq> default_id I \<and>
            (\<forall>n. first_invalid (acct s) \<le> n \<and> n < next_invalid (acct s) \<longrightarrow> i \<noteq> invalid_id I n))"
proof -
  let ?M = "mset (map snd (tokens s))" and ?keys = "fst ` set (id_frames (acct s))"
  have acc: "acct_inv I L (acct s) ?M"
    using token_inv_reachable [OF assms(1,2)] by (simp add: token_inv_def)
  have "count ?M (default_id I) \<le> length (tokens s)" by (metis count_le_size size_mset length_map)
  then have "count ?M (default_id I) + L < 2 ^ 64" using assms(3) by simp
  then have "of_nat (count ?M (default_id I) + L) = (0 :: 64 word) \<longleftrightarrow> count ?M (default_id I) + L = 0"
    unfolding word_of_nat_eq_0_iff by (auto dest: nat_dvd_not_less)
  then have dflt: "default_token_count (acct s) = 0 \<longleftrightarrow> L = 0 \<and> default_id I \<notin># ?M"
    using acct_invD(4) [OF acc] not_in_iff [of "default_id I" ?M] by auto
  have held: "j \<in> ?keys \<longleftrightarrow>
      j \<in># ?M \<and> (\<exists>n. first_invalid (acct s) \<le> n \<and> n < next_invalid (acct s) \<and> j = invalid_id I n)" for j
    using acct_invD(5) [OF acc, of j] acct_invD(6) [OF acc]
    by (metis count_greater_zero_iff less_irrefl not_in_iff zero_less_one)
  have "id_frames (acct s) = [] \<longleftrightarrow>
      (\<forall>j\<in>#?M. \<forall>n. first_invalid (acct s) \<le> n \<and> n < next_invalid (acct s) \<longrightarrow> j \<noteq> invalid_id I n)"
    using held by (metis image_is_empty all_not_in_conv set_empty)
  then show ?thesis
    using dflt acct_invD(3) [OF acc]
    by (auto simp: check_for_uninitialized_tokens_def) force+
qed

lemma seven_not_initialized: "\<not> check_for_uninitialized_tokens (acct seven)"
  using uninitialized_check_exact [OF nat_ids_ok seven_reachable] by (auto simp: nat_ids_def seven_def acct_new_def)

text \<open>
  Binding a token while tracking is off loses count. A token made after
  \<open>acknowledge_and_disable\<close> holds the default ID and is counted; \<open>register_id\<close> then lets it be
  bound without a look at the counter, and its destruction no longer decrements it: no token is
  alive, and one leaked token is reported for ever.
\<close>

theorem bind_while_disabled_leaks:
  "let s0 = \<lparr>acct = snd (acknowledge_and_disable acct_new), tokens = []\<rparr> in
   (case token_new nat_ids [] 7 s0 of None \<Rightarrow> False | Some s1 \<Rightarrow>
    (case token_bind nat_ids 7 4 s1 of None \<Rightarrow> False | Some (ok, s2) \<Rightarrow>
     (case token_destroy nat_ids 7 s2 of None \<Rightarrow> False | Some s3 \<Rightarrow>
        ok \<and> tokens s3 = [] \<and> default_token_count (acct s3) = 1 \<and>
        \<not> check_for_uninitialized_tokens (acct s3))))"
  by (simp add: acknowledge_and_disable_def acct_new_def token_new_def construct_token_def token_bind_def token_destroy_def drop_token_def
      register_id_def nat_ids_def check_for_uninitialized_tokens_def)

end
