(* ===== verification/Slate_Builder.thy ===== *)
theory Slate_Builder
  imports Slate_Layout Slate_Tokens Symbol_Table
begin

text \<open>
  \<^verbatim>\<open>vehicle/src/bullwinkle/all/SlateBuilder.h\<close> and \<^verbatim>\<open>SlateBuilder.cc\<close>: the view a subsystem
  has of the Slate while it is built. A builder is rooted at a subtree, has permissions, and
  has masked paths it may not touch; sub-slates restrict these further.

  What the builder calls and the repository does not contain is the record \<open>builder_env\<close>: the
  store behind the handle (\<^verbatim>\<open>SlateBuilderStoreInterface\<close>) over a state \<open>'w\<close>, whose layout is
  the one of \<open>Slate_Layout\<close>; the path functions \<^verbatim>\<open>slate_join_path\<close> and \<^verbatim>\<open>slate_rel_path\<close>; the
  permission operations; the enum registry; the validators. A failed \<^verbatim>\<open>FswAssert\<close> is \<open>None\<close>.
\<close>

section \<open>Data\<close>

record path_ops =
  join_path :: "string \<Rightarrow> string \<Rightarrow> string"
  rel_path :: "string \<Rightarrow> string \<Rightarrow> string option"

record 'q perm_ops =
  po_superset :: "'q \<Rightarrow> 'q \<Rightarrow> bool"
  po_take_subset :: "'q \<Rightarrow> 'q \<Rightarrow> 'q"
  po_can_read :: "'q \<Rightarrow> bool"
  po_can_write :: "'q \<Rightarrow> bool"
  po_can_create :: "'q \<Rightarrow> nat \<Rightarrow> bool"

text \<open>What \<^verbatim>\<open>slate_info<T>\<close> says of a type, for an initial value of it.\<close>

record 'x type_info =
  ti_type :: nat
  ti_valid :: bool
  ti_size :: "'x \<Rightarrow> nat"
  ti_align :: nat
  ti_default :: 'x

record ('q, 'e) builder =
  b_subtree :: string
  b_masks :: "string list"
  b_perm :: 'q
  b_subsystem :: nat
  b_enum_path :: string
  b_enum :: "'e option"

record ('id, 'pm, 'v, 'x, 'q, 'e, 'w) builder_env =
  be_layout_env :: "('id, 'pm) layout_env"
  be_ids :: "'id id_space"
  be_paths :: path_ops
  be_perms :: "'q perm_ops"
  sa_built :: "'w \<Rightarrow> bool"
  sa_is_super :: "('q, 'e) builder \<Rightarrow> 'w \<Rightarrow> bool"
  sa_is_peer :: "('q, 'e) builder \<Rightarrow> ('q, 'e) builder \<Rightarrow> bool"
  sa_layout :: "'w \<Rightarrow> ('pm, 'v) layout"
  sa_entries :: "'w \<Rightarrow> (string \<times> metadata) list"
  sa_allocate :: "string \<Rightarrow> nat \<Rightarrow> nat \<Rightarrow> nat \<Rightarrow> nat \<Rightarrow> access \<Rightarrow> 'v option \<Rightarrow> nat \<Rightarrow> 'w \<Rightarrow>
                  ('id \<times> (nat \<times> nat) option) option \<times> 'w"
  sa_view :: "'id \<Rightarrow> nat \<Rightarrow> nat \<Rightarrow> string \<Rightarrow> nat \<Rightarrow> nat \<Rightarrow> nat \<Rightarrow> nat \<Rightarrow> 'w \<Rightarrow> 'id option \<times> 'w"
  sa_get_id :: "string \<Rightarrow> nat \<Rightarrow> 'w \<Rightarrow> 'id option"
  sa_bind_read :: "string \<Rightarrow> nat \<Rightarrow> 'w \<Rightarrow> 'id option \<times> 'w"
  sa_bind_write :: "string \<Rightarrow> nat \<Rightarrow> 'w \<Rightarrow> 'id option \<times> 'w"
  sa_construct :: "nat \<times> nat \<Rightarrow> 'x \<Rightarrow> 'w \<Rightarrow> bool \<times> 'w"
  va_usable :: "'v \<Rightarrow> bool"
  va_typed :: "'v \<Rightarrow> nat \<Rightarrow> bool"
  va_validate :: "'v \<Rightarrow> 'x \<Rightarrow> nat \<times> nat \<Rightarrow> 'w \<Rightarrow> bool \<times> 'w"
  er_register :: "'e \<Rightarrow> string \<Rightarrow> symtab \<Rightarrow> string \<Rightarrow> string \<Rightarrow> 'w \<Rightarrow> bool \<times> 'w"
  er_get :: "'e \<Rightarrow> string \<Rightarrow> 'w \<Rightarrow> (string \<times> symtab) option"

text \<open>The access of a token type: the flags of \<^verbatim>\<open>SlateAccessToken\<close>; reading is always there.\<close>

record token_kind =
  tk_write :: bool
  tk_validate :: bool

type_synonym ('id, 'w) bstate = "'w \<times> 'id acct"

section \<open>Paths and masks\<close>

definition full_path_of :: "('id, 'pm, 'v, 'x, 'q, 'e, 'w) builder_env \<Rightarrow> ('q, 'e) builder \<Rightarrow> string \<Rightarrow> string" where
  "full_path_of E b path = join_path (be_paths E) (b_subtree b) path"

definition require_permitted_path ::
  "('id, 'pm, 'v, 'x, 'q, 'e, 'w) builder_env \<Rightarrow> ('q, 'e) builder \<Rightarrow> string \<Rightarrow> bool" where
  "require_permitted_path E b full \<longleftrightarrow> list_all (\<lambda>m. rel_path (be_paths E) m full = None) (b_masks b)"

definition is_permitted_path ::
  "('id, 'pm, 'v, 'x, 'q, 'e, 'w) builder_env \<Rightarrow> ('q, 'e) builder \<Rightarrow> string \<Rightarrow> bool" where
  "is_permitted_path E b full \<longleftrightarrow> list_all (\<lambda>m. rel_path (be_paths E) m full = None) (b_masks b)"

definition sub_slate ::
  "('id, 'pm, 'v, 'x, 'q, 'e, 'w) builder_env \<Rightarrow> string \<Rightarrow> string list \<Rightarrow> 'q \<Rightarrow> nat \<Rightarrow>
   ('q, 'e) builder \<Rightarrow> ('q, 'e) builder option" where
  "sub_slate E rel_subtree rel_masks permission subsystem b =
     (if \<not> po_superset (be_perms E) (b_perm b) permission then None
      else if \<not> list_all (\<lambda>m. rel_path (be_paths E) m rel_subtree = None) (b_masks b) then None
      else
        let new_subtree = join_path (be_paths E) (b_subtree b) rel_subtree;
            new_masks = map (join_path (be_paths E) new_subtree) rel_masks @
                        filter (\<lambda>m. rel_path (be_paths E) new_subtree m \<noteq> None) (b_masks b)
        in Some \<lparr>b_subtree = new_subtree, b_masks = new_masks,
                 b_perm = po_take_subset (be_perms E) (b_perm b) permission,
                 b_subsystem = subsystem,
                 b_enum_path = (case b_enum b of None \<Rightarrow> []
                                | Some _ \<Rightarrow> join_path (be_paths E) (b_enum_path b) rel_subtree),
                 b_enum = b_enum b\<rparr>)"

text \<open>The overload the combiner calls: same permissions, subsystem, and no new masks.\<close>

definition sub_slate_at ::
  "('id, 'pm, 'v, 'x, 'q, 'e, 'w) builder_env \<Rightarrow> string \<Rightarrow> ('q, 'e) builder \<Rightarrow> ('q, 'e) builder option" where
  "sub_slate_at E rel_subtree b = sub_slate E rel_subtree [] (b_perm b) (b_subsystem b) b"

definition sub_slate_masked ::
  "('id, 'pm, 'v, 'x, 'q, 'e, 'w) builder_env \<Rightarrow> string \<Rightarrow> string list \<Rightarrow> ('q, 'e) builder \<Rightarrow> ('q, 'e) builder option" where
  "sub_slate_masked E rel_subtree rel_masks b = sub_slate E rel_subtree rel_masks (b_perm b) (b_subsystem b) b"

definition sub_slate_restricted ::
  "('id, 'pm, 'v, 'x, 'q, 'e, 'w) builder_env \<Rightarrow> string \<Rightarrow> 'q \<Rightarrow> ('q, 'e) builder \<Rightarrow> ('q, 'e) builder option" where
  "sub_slate_restricted E rel_subtree permission b = sub_slate E rel_subtree [] permission (b_subsystem b) b"

definition sub_slate_subsystem ::
  "('id, 'pm, 'v, 'x, 'q, 'e, 'w) builder_env \<Rightarrow> string \<Rightarrow> nat \<Rightarrow> ('q, 'e) builder \<Rightarrow> ('q, 'e) builder option" where
  "sub_slate_subsystem E rel_subtree subsystem b = sub_slate E rel_subtree [] (b_perm b) subsystem b"

section \<open>Enum registry\<close>

definition add_enum_registry :: "'e \<Rightarrow> ('q, 'e) builder \<Rightarrow> bool \<times> ('q, 'e) builder" where
  "add_enum_registry e b = (if b_enum b \<noteq> None then (False, b) else (True, b\<lparr>b_enum := Some e\<rparr>))"

definition add_enum_registry_at :: "'e \<Rightarrow> string \<Rightarrow> ('q, 'e) builder \<Rightarrow> bool \<times> ('q, 'e) builder" where
  "add_enum_registry_at e relative b =
     (case add_enum_registry e (b\<lparr>b_enum_path := relative\<rparr>) of
        (ok, b') \<Rightarrow> if \<not> ok then (False, b') else (True, b'))"

definition has_enum_registry :: "('q, 'e) builder \<Rightarrow> bool" where
  "has_enum_registry b \<longleftrightarrow> b_enum b \<noteq> None"

definition register_enum ::
  "('id, 'pm, 'v, 'x, 'q, 'e, 'w) builder_env \<Rightarrow> ('q, 'e) builder \<Rightarrow> string \<Rightarrow> string \<Rightarrow> symtab \<Rightarrow> string \<Rightarrow>
   'w \<Rightarrow> bool \<times> 'w" where
  "register_enum E b path enum_name table strip w =
     (case b_enum b of
        None \<Rightarrow> (False, w)
      | Some e \<Rightarrow>
          (case er_register E e enum_name table (join_path (be_paths E) (b_enum_path b) path) strip w of
             (ok, w') \<Rightarrow> if \<not> ok then (False, w') else (True, w')))"

text \<open>\<open>Some None\<close>: the lookup works and there is no enum.\<close>

definition get_element_enum ::
  "('id, 'pm, 'v, 'x, 'q, 'e, 'w) builder_env \<Rightarrow> ('q, 'e) builder \<Rightarrow> string \<Rightarrow> 'w \<Rightarrow> (string \<times> symtab) option option" where
  "get_element_enum E b path w =
     (case b_enum b of
        None \<Rightarrow> None
      | Some e \<Rightarrow> Some (er_get E e (join_path (be_paths E) (b_enum_path b) path) w))"

section \<open>Queries\<close>

definition builder_get_element_id ::
  "('id, 'pm, 'v, 'x, 'q, 'e, 'w) builder_env \<Rightarrow> ('q, 'e) builder \<Rightarrow> string \<Rightarrow> nat \<Rightarrow> 'w \<Rightarrow> 'id option" where
  "builder_get_element_id E b path type_id w =
     (let full = full_path_of E b path in
      if \<not> require_permitted_path E b full then None else sa_get_id E full type_id w)"

definition builder_get_element_type ::
  "('id, 'pm, 'v, 'x, 'q, 'e, 'w) builder_env \<Rightarrow> ('q, 'e) builder \<Rightarrow> string \<Rightarrow> 'w \<Rightarrow> nat option" where
  "builder_get_element_type E b path w =
     (let full = full_path_of E b path in
      if \<not> require_permitted_path E b full then None
      else get_element_type (be_layout_env E) full (sa_layout E w))"

definition builder_path_exists ::
  "('id, 'pm, 'v, 'x, 'q, 'e, 'w) builder_env \<Rightarrow> ('q, 'e) builder \<Rightarrow> string \<Rightarrow> 'w \<Rightarrow> bool" where
  "builder_path_exists E b path w \<longleftrightarrow>
     (let full = full_path_of E b path in
      if \<not> is_permitted_path E b full then False else path_exists (be_layout_env E) full (sa_layout E w))"

definition builder_element_exists ::
  "('id, 'pm, 'v, 'x, 'q, 'e, 'w) builder_env \<Rightarrow> ('q, 'e) builder \<Rightarrow> string \<Rightarrow> nat \<Rightarrow> 'w \<Rightarrow> bool" where
  "builder_element_exists E b path type_id w \<longleftrightarrow>
     (let full = full_path_of E b path in
      if \<not> is_permitted_path E b full then False
      else element_exists (be_layout_env E) full type_id (sa_layout E w))"

definition builder_first_element_path ::
  "('id, 'pm, 'v, 'x, 'q, 'e, 'w) builder_env \<Rightarrow> 'id \<Rightarrow> nat \<Rightarrow> 'w \<Rightarrow> string option" where
  "builder_first_element_path E eid type_id w =
     get_first_element_path (be_layout_env E) eid type_id (sa_layout E w)"

definition get_absolute_path ::
  "('id, 'pm, 'v, 'x, 'q, 'e, 'w) builder_env \<Rightarrow> ('q, 'e) builder \<Rightarrow> string \<Rightarrow> string" where
  "get_absolute_path E b relative = join_path (be_paths E) (b_subtree b) relative"

definition get_relative_path ::
  "('id, 'pm, 'v, 'x, 'q, 'e, 'w) builder_env \<Rightarrow> ('q, 'e) builder \<Rightarrow> string \<Rightarrow> string option" where
  "get_relative_path E b absolute = rel_path (be_paths E) (b_subtree b) absolute"

definition builder_initial_value ::
  "('id, 'pm, 'v, 'x, 'q, 'e, 'w) builder_env \<Rightarrow> 'id \<Rightarrow> nat \<Rightarrow> 'w \<Rightarrow> byte list option" where
  "builder_initial_value E eid type_id w =
     (if sa_built E w then None
      else
        (case get_element_initial_memory (be_layout_env E) eid type_id (sa_layout E w) of
           None \<Rightarrow> None
         | Some bytes \<Rightarrow> if bytes = [] then None else Some bytes))"

definition is_peer ::
  "('id, 'pm, 'v, 'x, 'q, 'e, 'w) builder_env \<Rightarrow> ('q, 'e) builder \<Rightarrow> ('q, 'e) builder \<Rightarrow> bool" where
  "is_peer E b c \<longleftrightarrow> sa_is_peer E b c"

section \<open>Creating and binding\<close>

definition create_element ::
  "('id, 'pm, 'v, 'x, 'q, 'e, 'w) builder_env \<Rightarrow> ('q, 'e) builder \<Rightarrow> 'x type_info \<Rightarrow> string \<Rightarrow> 'x \<Rightarrow>
   nat \<Rightarrow> access \<Rightarrow> 'v option \<Rightarrow> 'w \<Rightarrow> 'id option \<times> 'w" where
  "create_element E b ti path initial shard access validator w =
     (if sa_built E w then (None, w)
      else if \<not> po_can_create (be_perms E) (b_perm b) shard then (None, w)
      else
        let full = full_path_of E b path in
        if \<not> require_permitted_path E b full then (None, w)
        else if \<not> ti_valid ti then (None, w)
        else
          (case sa_allocate E full (ti_type ti) (ti_size ti initial) (ti_align ti) shard access validator
                  (b_subsystem b) w of
             (None, w1) \<Rightarrow> (None, w1)
           | (Some (_, None), w1) \<Rightarrow> (None, w1)
           | (Some (eid, Some mem), w1) \<Rightarrow>
               if \<not> is_valid_id (be_ids E) eid then (None, w1)
               else
                 (case sa_construct E mem initial w1 of
                    (False, w2) \<Rightarrow> (None, w2)
                  | (True, w2) \<Rightarrow>
                      (case validator of
                         None \<Rightarrow> (Some eid, w2)
                       | Some v \<Rightarrow>
                           if \<not> va_usable E v then (None, w2)
                           else if \<not> va_typed E v (ti_type ti) then (None, w2)
                           else
                             (case va_validate E v initial mem w2 of
                                (False, w3) \<Rightarrow> (None, w3)
                              | (True, w3) \<Rightarrow> (Some eid, w3))))))"

definition create_read_only_element ::
  "('id, 'pm, 'v, 'x, 'q, 'e, 'w) builder_env \<Rightarrow> ('q, 'e) builder \<Rightarrow> 'x type_info \<Rightarrow> string \<Rightarrow> 'x \<Rightarrow>
   nat \<Rightarrow> 'w \<Rightarrow> bool \<times> 'w" where
  "create_read_only_element E b ti path initial shard w =
     (case create_element E b ti path initial shard Slate_read_only None w of
        (None, w') \<Rightarrow> (False, w')
      | (Some _, w') \<Rightarrow> (True, w'))"

text \<open>\<open>register_token\<close> gives success, the token's ID and the accountant.\<close>

definition register_token ::
  "('id, 'pm, 'v, 'x, 'q, 'e, 'w) builder_env \<Rightarrow> token_kind \<Rightarrow> 'id \<Rightarrow> 'v option \<Rightarrow> 'id \<Rightarrow> 'id acct \<Rightarrow>
   (bool \<times> 'id \<times> 'id acct) option" where
  "register_token E kind eid validator tok a =
     (let codec = le_codec (be_layout_env E);
          new_id = (if tk_write kind then eid else id_ro codec eid)
      in if \<not> is_valid_id (be_ids E) eid then Some (False, tok, a)
         else if tk_write kind \<and> \<not> id_can_write codec eid then Some (False, tok, a)
         else if tk_write kind \<and> (tk_validate kind \<longleftrightarrow> validator = None) then Some (False, tok, a)
         else if \<not> tk_write kind \<and> id_can_write codec new_id then Some (False, tok, a)
         else
           (case register_id (be_ids E) tok a of
              None \<Rightarrow> None
            | Some (ok, a') \<Rightarrow> if \<not> ok then Some (False, tok, a') else Some (True, new_id, a')))"

definition create ::
  "('id, 'pm, 'v, 'x, 'q, 'e, 'w) builder_env \<Rightarrow> ('q, 'e) builder \<Rightarrow> token_kind \<Rightarrow> 'x type_info \<Rightarrow> string \<Rightarrow>
   'x \<Rightarrow> nat \<Rightarrow> access \<Rightarrow> 'v option \<Rightarrow> 'id \<Rightarrow> ('id, 'w) bstate \<Rightarrow> (bool \<times> 'id \<times> ('id, 'w) bstate) option" where
  "create E b kind ti path initial shard access validator tok st =
     (if is_valid_id (be_ids E) tok then Some (False, tok, st)
      else
        (case create_element E b ti path initial shard access validator (fst st) of
           (None, w) \<Rightarrow> Some (False, tok, (w, snd st))
         | (Some eid, w) \<Rightarrow>
             (case register_token E kind eid validator tok (snd st) of
                None \<Rightarrow> None
              | Some (ok, tok', a) \<Rightarrow> Some (ok, tok', (w, a)))))"

text \<open>The overloads of \<open>create\<close> without a validator, a policy, or an initial value.\<close>

definition create_plain ::
  "('id, 'pm, 'v, 'x, 'q, 'e, 'w) builder_env \<Rightarrow> ('q, 'e) builder \<Rightarrow> token_kind \<Rightarrow> 'x type_info \<Rightarrow> string \<Rightarrow>
   'x \<Rightarrow> nat \<Rightarrow> access \<Rightarrow> 'id \<Rightarrow> ('id, 'w) bstate \<Rightarrow> (bool \<times> 'id \<times> ('id, 'w) bstate) option" where
  "create_plain E b kind ti path initial shard access tok st =
     create E b kind ti path initial shard access None tok st"

definition create_private ::
  "('id, 'pm, 'v, 'x, 'q, 'e, 'w) builder_env \<Rightarrow> ('q, 'e) builder \<Rightarrow> token_kind \<Rightarrow> 'x type_info \<Rightarrow> string \<Rightarrow>
   'x \<Rightarrow> nat \<Rightarrow> 'id \<Rightarrow> ('id, 'w) bstate \<Rightarrow> (bool \<times> 'id \<times> ('id, 'w) bstate) option" where
  "create_private E b kind ti path initial shard tok st =
     create E b kind ti path initial shard Slate_private None tok st"

definition create_default ::
  "('id, 'pm, 'v, 'x, 'q, 'e, 'w) builder_env \<Rightarrow> ('q, 'e) builder \<Rightarrow> token_kind \<Rightarrow> 'x type_info \<Rightarrow> string \<Rightarrow>
   nat \<Rightarrow> 'id \<Rightarrow> ('id, 'w) bstate \<Rightarrow> (bool \<times> 'id \<times> ('id, 'w) bstate) option" where
  "create_default E b kind ti path shard tok st =
     create E b kind ti path (ti_default ti) shard Slate_private None tok st"

definition create_default_access ::
  "('id, 'pm, 'v, 'x, 'q, 'e, 'w) builder_env \<Rightarrow> ('q, 'e) builder \<Rightarrow> token_kind \<Rightarrow> 'x type_info \<Rightarrow> string \<Rightarrow>
   nat \<Rightarrow> access \<Rightarrow> 'id \<Rightarrow> ('id, 'w) bstate \<Rightarrow> (bool \<times> 'id \<times> ('id, 'w) bstate) option" where
  "create_default_access E b kind ti path shard access tok st =
     create E b kind ti path (ti_default ti) shard access None tok st"

definition bind ::
  "('id, 'pm, 'v, 'x, 'q, 'e, 'w) builder_env \<Rightarrow> ('q, 'e) builder \<Rightarrow> token_kind \<Rightarrow> 'x type_info \<Rightarrow> string \<Rightarrow>
   'id \<Rightarrow> ('id, 'w) bstate \<Rightarrow> (bool \<times> 'id \<times> ('id, 'w) bstate) option" where
  "bind E b kind ti path tok st =
     (let full = full_path_of E b path;
          codec = le_codec (be_layout_env E);
          finish = (\<lambda>eid w.
            (case register_id (be_ids E) tok (snd st) of
               None \<Rightarrow> None
             | Some (ok, a) \<Rightarrow> if \<not> ok then Some (False, tok, (w, a)) else Some (True, eid, (w, a))))
      in if sa_built E (fst st) then Some (False, tok, st)
         else if \<not> po_can_read (be_perms E) (b_perm b) then Some (False, tok, st)
         else if tk_write kind \<and> \<not> po_can_write (be_perms E) (b_perm b) then Some (False, tok, st)
         else if is_valid_id (be_ids E) tok then Some (False, tok, st)
         else if \<not> require_permitted_path E b full then Some (False, tok, st)
         else if tk_write kind then
           (case sa_bind_write E full (ti_type ti) (fst st) of
              (None, w) \<Rightarrow> Some (False, tok, (w, snd st))
            | (Some eid, w) \<Rightarrow>
                if tk_validate kind \<noteq> id_has_validator codec eid then Some (False, tok, (w, snd st))
                else finish eid w)
         else
           (case sa_bind_read E full (ti_type ti) (fst st) of
              (None, w) \<Rightarrow> Some (False, tok, (w, snd st))
            | (Some eid, w) \<Rightarrow> finish eid w))"

definition create_view ::
  "('id, 'pm, 'v, 'x, 'q, 'e, 'w) builder_env \<Rightarrow> ('q, 'e) builder \<Rightarrow> 'x type_info \<Rightarrow> 'id \<Rightarrow> nat \<Rightarrow> string \<Rightarrow>
   nat \<Rightarrow> 'w \<Rightarrow> 'id option \<times> 'w" where
  "create_view E b ti parent_id parent_type path element_offset w =
     (if \<not> is_valid_id (be_ids E) parent_id then (None, w)
      else if sa_built E w then (None, w)
      else
        let full = full_path_of E b path in
        if \<not> require_permitted_path E b full then (None, w)
        else if \<not> ti_valid ti then (None, w)
        else sa_view E parent_id parent_type element_offset full (ti_type ti)
               (ti_size ti (ti_default ti)) (ti_align ti) (b_subsystem b) w)"

definition create_view_token ::
  "('id, 'pm, 'v, 'x, 'q, 'e, 'w) builder_env \<Rightarrow> ('q, 'e) builder \<Rightarrow> token_kind \<Rightarrow> 'x type_info \<Rightarrow> 'id \<Rightarrow> nat \<Rightarrow>
   string \<Rightarrow> nat \<Rightarrow> 'id \<Rightarrow> ('id, 'w) bstate \<Rightarrow> (bool \<times> 'id \<times> ('id, 'w) bstate) option" where
  "create_view_token E b kind ti parent_id parent_type path element_offset tok st =
     (case create_view E b ti parent_id parent_type path element_offset (fst st) of
        (None, w) \<Rightarrow> Some (False, tok, (w, snd st))
      | (Some view_id, w) \<Rightarrow>
          (case register_token E kind view_id None tok (snd st) of
             None \<Rightarrow> None
           | Some (ok, tok', a) \<Rightarrow> Some (ok, tok', (w, a))))"

section \<open>The elements of a builder\<close>

fun path_set_loop ::
  "('id, 'pm, 'v, 'x, 'q, 'e, 'w) builder_env \<Rightarrow> ('q, 'e) builder \<Rightarrow> 'w \<Rightarrow> (string \<times> metadata) list \<Rightarrow>
   (string \<times> nat \<times> 'id) list option" where
  "path_set_loop E b w [] = Some []"
| "path_set_loop E b w ((path, md) # es) =
     (let access = (if sa_is_super E b w then Slate_read_write else md_access md) in
      if access = Slate_private then path_set_loop E b w es
      else
        (case rel_path (be_paths E) (b_subtree b) path of
           None \<Rightarrow> path_set_loop E b w es
         | Some r \<Rightarrow>
             (case build_element_id (be_layout_env E) path md access (sa_layout E w) of
                None \<Rightarrow> None
              | Some eid \<Rightarrow> map_option (Cons (r, md_type md, eid)) (path_set_loop E b w es))))"

definition compute_path_set ::
  "('id, 'pm, 'v, 'x, 'q, 'e, 'w) builder_env \<Rightarrow> ('q, 'e) builder \<Rightarrow> 'w \<Rightarrow> (string \<times> nat \<times> 'id) list option" where
  "compute_path_set E b w = path_set_loop E b w (sa_entries E w)"

fun insert_names :: "string list \<Rightarrow> string list \<Rightarrow> string list option" where
  "insert_names names [] = Some names"
| "insert_names names (p # ps) = (if p \<in> set names then None else insert_names (p # names) ps)"

text \<open>Each builder comes with the state of its store.\<close>

fun names_loop ::
  "('id, 'pm, 'v, 'x, 'q, 'e, 'w) builder_env \<Rightarrow> string list \<Rightarrow> (('q, 'e) builder \<times> 'w) list \<Rightarrow> bool" where
  "names_loop E names [] \<longleftrightarrow> True"
| "names_loop E names ((b, w) # bs) \<longleftrightarrow>
     (if \<not> sa_built E w then False
      else if \<not> sa_is_super E b w then False
      else
        (case compute_path_set E b w of
           None \<Rightarrow> False
         | Some elems \<Rightarrow>
             (case insert_names names (map fst elems) of
                None \<Rightarrow> False
              | Some names' \<Rightarrow> names_loop E names' bs)))"

definition names_distinct ::
  "('id, 'pm, 'v, 'x, 'q, 'e, 'w) builder_env \<Rightarrow> (('q, 'e) builder \<times> 'w) list \<Rightarrow> bool" where
  "names_distinct E builders \<longleftrightarrow> (if builders = [] then False else names_loop E [] builders)"

section \<open>Laws of the path and permission functions\<close>

text \<open>
  \<open>under P a b\<close>: the path \<open>b\<close> is \<open>a\<close> or lies below it. The laws are those of a tree of paths.
\<close>

definition under :: "path_ops \<Rightarrow> string \<Rightarrow> string \<Rightarrow> bool" where
  "under P a b \<longleftrightarrow> rel_path P a b \<noteq> None"



lemma permitted_iff: "require_permitted_path E b full \<longleftrightarrow> (\<forall>m\<in>set (b_masks b). \<not> under (be_paths E) m full)"
  by (auto simp: require_permitted_path_def under_def list_all_iff)

lemma is_permitted_eq: "is_permitted_path E b full = require_permitted_path E b full"
  by (simp add: is_permitted_path_def require_permitted_path_def)


lemma insert_names_Some:
  "insert_names names ps = Some names' \<longleftrightarrow>
   distinct ps \<and> set ps \<inter> set names = {} \<and> names' = rev ps @ names"
  by (induction ps arbitrary: names) auto

lemma insert_names_cases:
  "insert_names names ps =
     (if distinct ps \<and> set ps \<inter> set names = {} then Some (rev ps @ names) else None)"
  using insert_names_Some [of names ps] by (metis not_None_eq)

lemma names_loop_iff:
  "names_loop E names bs \<longleftrightarrow>
     (\<forall>(b, w)\<in>set bs. sa_built E w \<and> sa_is_super E b w) \<and>
     (\<exists>pss. map (\<lambda>(b, w). compute_path_set E b w) bs = map Some pss \<and>
        distinct (concat (map (map fst) pss)) \<and> set (concat (map (map fst) pss)) \<inter> set names = {})"
proof (induction E names bs rule: names_loop.induct)
  case (1 E names)
  then show ?case by simp
next
  case (2 E names b w bs)
  have split: "(\<exists>pss. map f (x # xs) = map Some pss \<and> Q pss) \<longleftrightarrow>
      (\<exists>elems pss. f x = Some elems \<and> map f xs = map Some pss \<and> Q (elems # pss))" for f x xs Q
    by (auto simp: Cons_eq_map_conv)
  show ?case
  proof (cases "compute_path_set E b w")
    case None
    then show ?thesis by (auto simp: Cons_eq_map_conv)
  next
    case (Some elems)
    have IH: "distinct (map fst elems) \<and> set (map fst elems) \<inter> set names = {} \<Longrightarrow>
        sa_built E w \<Longrightarrow> sa_is_super E b w \<Longrightarrow>
        names_loop E (rev (map fst elems) @ names) bs \<longleftrightarrow>
         (\<forall>(b, w)\<in>set bs. sa_built E w \<and> sa_is_super E b w) \<and>
         (\<exists>pss. map (\<lambda>(b, w). compute_path_set E b w) bs = map Some pss \<and>
            distinct (concat (map (map fst) pss)) \<and>
            set (concat (map (map fst) pss)) \<inter> set (rev (map fst elems) @ names) = {})"
      using 2 Some by (simp add: insert_names_cases)
    have "names_loop E names ((b, w) # bs) \<longleftrightarrow>
        sa_built E w \<and> sa_is_super E b w \<and> distinct (map fst elems) \<and> set (map fst elems) \<inter> set names = {} \<and>
        names_loop E (rev (map fst elems) @ names) bs"
      by (auto simp: Some insert_names_cases)
    also have "\<dots> \<longleftrightarrow> sa_built E w \<and> sa_is_super E b w \<and> (\<forall>(b, w)\<in>set bs. sa_built E w \<and> sa_is_super E b w) \<and>
        (\<exists>pss. map (\<lambda>(b, w). compute_path_set E b w) bs = map Some pss \<and>
          distinct (concat (map (map fst) (elems # pss))) \<and>
          set (concat (map (map fst) (elems # pss))) \<inter> set names = {})" (is "?l \<longleftrightarrow> ?r")
    proof
      assume l: ?l
      then obtain pss where "map (\<lambda>(b, w). compute_path_set E b w) bs = map Some pss"
        "distinct (concat (map (map fst) pss))"
        "set (concat (map (map fst) pss)) \<inter> set (rev (map fst elems) @ names) = {}" using IH by blast
      then show ?r using l IH by (intro conjI exI [of _ pss]) auto
    next
      assume r: ?r
      then obtain pss where "map (\<lambda>(b, w). compute_path_set E b w) bs = map Some pss"
        "distinct (map fst elems @ concat (map (map fst) pss))"
        "set (map fst elems @ concat (map (map fst) pss)) \<inter> set names = {}" by auto
      then show ?l using r IH by (intro conjI) auto
    qed
    finally show ?thesis
      unfolding split by (simp add: Some)
  qed
qed

lemma register_token_True:
  assumes "register_token E kind eid validator tok a = Some (True, tok', a')"
  shows "is_valid_id (be_ids E) eid"
    and "tok' = (if tk_write kind then eid else id_ro (le_codec (be_layout_env E)) eid)"
    and "tk_write kind \<Longrightarrow> id_can_write (le_codec (be_layout_env E)) tok' \<and> (tk_validate kind \<longleftrightarrow> validator \<noteq> None)"
    and "\<not> tk_write kind \<Longrightarrow> \<not> id_can_write (le_codec (be_layout_env E)) tok'"
    and "register_id (be_ids E) tok a = Some (True, a')"
  using assms by (auto simp: register_token_def Let_def split: if_splits option.splits)

section \<open>A concrete instance\<close>

text \<open>Paths joined with a dot, permissions as sets of rights; the store is the state itself.\<close>

definition dot_paths :: path_ops where
  "dot_paths =
     \<lparr>join_path = (\<lambda>a b. if a = [] then b else if b = [] then a else a @ ''.'' @ b),
      rel_path = (\<lambda>a p. if a = [] then Some p
                        else if p = a then Some []
                        else if take (length a + 1) p = a @ ''.'' then Some (drop (length a + 1) p)
                        else None)\<rparr>"

definition set_perms :: "string set perm_ops" where
  "set_perms = \<lparr>po_superset = (\<lambda>p q. q \<subseteq> p), po_take_subset = (\<lambda>p q. p \<inter> q),
     po_can_read = (\<lambda>p. ''r'' \<in> p), po_can_write = (\<lambda>p. ''w'' \<in> p), po_can_create = (\<lambda>p _. ''c'' \<in> p)\<rparr>"




type_synonym demo_layout = "((string \<times> metadata) list, nat) layout"

definition demo_env ::
  "(tuple_id, (string \<times> metadata) list, nat, nat, string set, unit, demo_layout) builder_env" where
  "demo_env =
     \<lparr>be_layout_env = sample_env,
      be_ids = \<lparr>is_valid_id = (\<lambda>(_, _, _, _, i). i < 100), invalid_id = (\<lambda>n. (False, False, 0, 0, n + 101)),
                default_id = (False, False, 0, 0, 100)\<rparr>,
      be_paths = dot_paths, be_perms = set_perms, sa_built = (\<lambda>_. False), sa_is_super = (\<lambda>_ _. True), sa_is_peer = (\<lambda>_ _. True),
      sa_layout = (\<lambda>w. w), sa_entries = lo_elements,
      sa_allocate = (\<lambda>p t sz al sh acc v sub w.
        case allocate_element sample_env (4096, []) p t sz al sh acc v sub w of
          (None, w') \<Rightarrow> (None, w') | (Some (eid, s, off), w') \<Rightarrow> (Some (eid, Some (s, off)), w')),
      sa_view = (\<lambda>pid pt off p t sz al sub w. create_view_element sample_env pid pt off p t sz al sub w),
      sa_get_id = get_element_id sample_env,
      sa_bind_read = (\<lambda>p t w. (get_element_id sample_env p t w, w)),
      sa_bind_write = (\<lambda>p t w. (get_element_id sample_env p t w, w)),
      sa_construct = (\<lambda>_ _ w. (True, w)), va_usable = (\<lambda>_. True), va_typed = (\<lambda>_ _. True),
      va_validate = (\<lambda>_ _ _ w. (True, w)), er_register = (\<lambda>_ _ _ _ _ w. (True, w)), er_get = (\<lambda>_ _ _. None)\<rparr>"

definition demo_builder :: "(string set, unit) builder" where
  "demo_builder = \<lparr>b_subtree = [], b_masks = [], b_perm = {''r'', ''w'', ''c''}, b_subsystem = 1,
     b_enum_path = [], b_enum = None\<rparr>"

section \<open>Properties\<close>

text \<open>
  C11: a masked path cannot be touched. If the full path of an element lies at or below a masked
  path, the builder neither sees, creates nor binds the element nor makes a view there, and
  none of these attempts changes the store or the accountant.
\<close>

theorem masked_path_untouchable:
  assumes "m \<in> set (b_masks b)" and "under (be_paths E) m (full_path_of E b path)"
  shows "builder_get_element_id E b path type_id w = None \<and> \<not> builder_path_exists E b path w \<and>
         \<not> builder_element_exists E b path type_id w \<and>
         create_element E b ti path initial shard access validator w = (None, w) \<and>
         bind E b kind ti path tok (w, a) = Some (False, tok, (w, a)) \<and>
         create_view E b ti parent_id parent_type path off w = (None, w)"
proof -
  have "\<not> require_permitted_path E b (full_path_of E b path)"
    using assms by (auto simp: permitted_iff)
  then show ?thesis
    by (simp add: builder_get_element_id_def builder_path_exists_def builder_element_exists_def
        is_permitted_eq create_element_def bind_def create_view_def Let_def)
qed

theorem masked_path_untouchable_witness:
  "builder_get_element_id demo_env (demo_builder\<lparr>b_masks := [''a'']\<rparr>) ''a.b'' 1 (layout_new sample_env) = None"
proof -
  have "under (be_paths demo_env) ''a'' (full_path_of demo_env (demo_builder\<lparr>b_masks := [''a'']\<rparr>) ''a.b'')"
    by (simp add: demo_env_def under_def full_path_of_def dot_paths_def demo_builder_def)
  from masked_path_untouchable [OF _ this] show ?thesis by simp
qed




text \<open>
  A mask can be left behind. \<open>sub_slate\<close> compares the masked paths, which are kept
  fully qualified, with the relative path of the new sub-slate. Below the top of the tree a
  sub-slate may therefore be rooted inside a masked subtree, and as the mask lies outside the new
  root it is dropped: the masked element becomes visible.
\<close>

theorem sub_slate_escapes_mask:
  "case sub_slate_masked demo_env ''a'' [''b''] demo_builder of
     None \<Rightarrow> False
   | Some b1 \<Rightarrow>
       b_masks b1 = [''a.b''] \<and>
       \<not> require_permitted_path demo_env b1 (full_path_of demo_env b1 ''b.x.y'') \<and>
       (case sub_slate_at demo_env ''b.x'' b1 of
          None \<Rightarrow> False
        | Some b2 \<Rightarrow>
            full_path_of demo_env b2 ''y'' = full_path_of demo_env b1 ''b.x.y'' \<and>
            require_permitted_path demo_env b2 (full_path_of demo_env b2 ''y''))"
  by (simp add: sub_slate_masked_def sub_slate_at_def sub_slate_def demo_env_def demo_builder_def
      dot_paths_def set_perms_def full_path_of_def require_permitted_path_def)

text \<open>
  A token's type tells its rights. After a successful \<open>create\<close> a write token holds a
  writable ID and a read token one that is not; a write token expects validation exactly if
  the element was created with a validator; the token's old ID was invalid and is released by
  the accountant.
\<close>

theorem created_token_rights:
  assumes "create E b kind ti path initial shard access validator tok (w, a) = Some (True, tok', (w', a'))"
  shows "(tk_write kind \<longleftrightarrow> id_can_write (le_codec (be_layout_env E)) tok') \<and>
         (tk_write kind \<longrightarrow> (tk_validate kind \<longleftrightarrow> validator \<noteq> None)) \<and>
         \<not> is_valid_id (be_ids E) tok \<and> register_id (be_ids E) tok a = Some (True, a') \<and>
         require_permitted_path E b (full_path_of E b path) \<and>
         po_can_create (be_perms E) (b_perm b) shard"
proof -
  obtain eid w1 where el: "create_element E b ti path initial shard access validator w = (Some eid, w1)"
    and reg: "register_token E kind eid validator tok a = Some (True, tok', a')"
    and tok: "\<not> is_valid_id (be_ids E) tok"
    using assms by (auto simp: create_def split: if_splits option.splits prod.splits)
  have "require_permitted_path E b (full_path_of E b path)" "po_can_create (be_perms E) (b_perm b) shard"
    using el by (auto simp: create_element_def Let_def split: if_splits)
  then show ?thesis using register_token_True [OF reg] tok by auto
qed

definition demo_type :: "nat type_info" where
  "demo_type = \<lparr>ti_type = 1, ti_valid = True, ti_size = (\<lambda>_. 8), ti_align = 8, ti_default = 0\<rparr>"

definition demo_acct :: "tuple_id acct" where
  "demo_acct = acct_new\<lparr>next_invalid := 1, id_frames := [((False, False, 0, 0, 101), [])]\<rparr>"

theorem created_token_rights_witness:
  "id_can_write tuple_codec (True, False, 0, 0, 0) \<and> po_can_create set_perms {''r'', ''w'', ''c''} 0"
proof -
  let ?b = "demo_builder\<lparr>b_subsystem := 5\<rparr>"
  have "create_element demo_env ?b demo_type ''a'' 0 0 Slate_read_only None (layout_new sample_env) =
      (Some (True, False, 0, 0, 0), sample_layout None)"
    using sample_alloc [of None]
    by (simp add: create_element_def demo_env_def demo_builder_def demo_type_def set_perms_def
        full_path_of_def require_permitted_path_def dot_paths_def)
  moreover have "register_token demo_env \<lparr>tk_write = True, tk_validate = False\<rparr> (True, False, 0, 0, 0)
      (None :: nat option) (False, False, 0, 0, 101) demo_acct =
      Some (True, (True, False, 0, 0, 0), demo_acct\<lparr>id_frames := [], valid_id_count := 1\<rparr>)"
    by (simp add: register_token_def demo_env_def sample_env_def tuple_codec_def register_id_def
        demo_acct_def acct_new_def)
  ultimately have "create demo_env ?b \<lparr>tk_write = True, tk_validate = False\<rparr> demo_type ''a'' 0 0
      Slate_read_only None (False, False, 0, 0, 101) (layout_new sample_env, demo_acct) =
      Some (True, (True, False, 0, 0, 0),
        (sample_layout None, demo_acct\<lparr>id_frames := [], valid_id_count := 1\<rparr>))"
    by (simp add: create_def) (simp add: demo_env_def)
  from created_token_rights [OF this]
  show ?thesis by (simp add: demo_env_def sample_env_def demo_builder_def)
qed

text \<open>
  The check for duplicate names is exact. \<open>names_distinct\<close> succeeds if and only if there is a
  builder, every builder is a built super-slate whose elements can be computed, and no
  relative element name occurs twice, within a builder or across builders.
\<close>

theorem names_distinct_iff:
  "names_distinct E builders \<longleftrightarrow>
     builders \<noteq> [] \<and> (\<forall>(b, w)\<in>set builders. sa_built E w \<and> sa_is_super E b w) \<and>
     (\<exists>sets. map (\<lambda>(b, w). compute_path_set E b w) builders = map Some sets \<and>
             distinct (concat (map (map fst) sets)))"
  by (simp add: names_distinct_def names_loop_iff)

theorem names_distinct_iff_witness:
  "names_distinct (demo_env\<lparr>sa_built := \<lambda>_. True\<rparr>) [(demo_builder, sample_layout None)] \<and>
   \<not> names_distinct (demo_env\<lparr>sa_built := \<lambda>_. True\<rparr>)
       [(demo_builder, sample_layout None), (demo_builder, sample_layout None)]"
proof -
  have "compute_path_set (demo_env\<lparr>sa_built := \<lambda>_. True\<rparr>) demo_builder (sample_layout None) =
      Some [(''a'', 1, (True, False, 0, 0, 0))]"
    by (simp add: compute_path_set_def demo_env_def demo_builder_def sample_layout_def sample_env_def
        dot_paths_def build_element_id_def list_paths_def tuple_codec_def max_def less_eq_access_def)
  then show ?thesis
    unfolding names_distinct_iff by (simp add: Cons_eq_map_conv) (simp add: demo_env_def)
qed

end
