(* ===== verification/Slate_Memory.thy ===== *)
theory Slate_Memory
  imports Aligned_Buffer
begin

text \<open>
  \<^verbatim>\<open>vehicle/src/bullwinkle/all/SlateMemory.h\<close>, \<^verbatim>\<open>Slate.h\<close> and \<^verbatim>\<open>Slate.cc\<close>: the run-time
  Slate. Every shard is a buffer of bytes; an element ID says where in which shard the element
  lives and whether it may be written. Loading decodes the bytes at the element's location,
  storing encodes into them, so elements that share bytes (a view and its parent) share
  their values in the model too. The debug-only assertions of the accessors have no effect.

  Parameters: \<^verbatim>\<open>slate_id_breakdown\<close> and the accessor of a validated element (\<open>mem_env\<close>), the type
  trait \<^verbatim>\<open>slate_info<T>\<close> with the comparisons of \<^verbatim>\<open>T\<close> and \<^verbatim>\<open>median3\<close> (\<open>vtype\<close>; one
  universe \<open>'x\<close> holds the values of all types), and the members of \<^verbatim>\<open>SlateMemory\<close> that are
  declared but not defined in the repository (\<open>mem_ops\<close>).
\<close>

section \<open>Data\<close>

record 'x vtype =
  vt_size :: nat
  vt_enc :: "'x \<Rightarrow> byte list"
  vt_dec :: "byte list \<Rightarrow> 'x"
  vt_copy :: "'x \<Rightarrow> 'x \<Rightarrow> bool \<times> 'x"
  vt_eq :: "'x \<Rightarrow> 'x \<Rightarrow> bool"
  vt_less :: "'x \<Rightarrow> 'x \<Rightarrow> bool"
  vt_median3 :: "'x \<Rightarrow> 'x \<Rightarrow> 'x \<Rightarrow> 'x"

record ('id, 'v, 'x) mem_env =
  me_breakdown :: "'id \<Rightarrow> bool \<times> bool \<times> nat \<times> nat"
  me_accessor_store :: "'v option \<Rightarrow> 'x \<Rightarrow> 'x \<Rightarrow> bool \<times> 'x"

record ('id, 'v) slate_mem =
  sm_tables :: "nat \<Rightarrow> abuf"
  sm_validator :: "'id \<Rightarrow> 'v option"

section \<open>Element access\<close>

definition load_element_r :: "('id, 'v, 'x) mem_env \<Rightarrow> 'id \<Rightarrow> nat \<times> nat" where
  "load_element_r E eid = (case me_breakdown E eid of (_, _, shard, offset) \<Rightarrow> (shard, offset))"

definition load_element_rw :: "('id, 'v, 'x) mem_env \<Rightarrow> 'id \<Rightarrow> nat \<times> nat" where
  "load_element_rw E eid = (case me_breakdown E eid of (_, _, shard, offset) \<Rightarrow> (shard, offset))"

definition load_element_rwv :: "('id, 'v, 'x) mem_env \<Rightarrow> 'id \<Rightarrow> ('id, 'v) slate_mem \<Rightarrow> (nat \<times> nat) \<times> 'v option" where
  "load_element_rwv E eid M =
     (case me_breakdown E eid of (_, _, shard, offset) \<Rightarrow> ((shard, offset), sm_validator M eid))"

text \<open>What the pointers are used for: reading a value at a location, and writing one.\<close>

definition read_at :: "'x vtype \<Rightarrow> nat \<times> nat \<Rightarrow> ('id, 'v) slate_mem \<Rightarrow> 'x" where
  "read_at ty l M = vt_dec ty (take (vt_size ty) (drop (snd l) (ab_mem (sm_tables M (fst l)))))"

definition write_at :: "'x vtype \<Rightarrow> nat \<times> nat \<Rightarrow> 'x \<Rightarrow> ('id, 'v) slate_mem \<Rightarrow> ('id, 'v) slate_mem" where
  "write_at ty l x M =
     M\<lparr>sm_tables := (sm_tables M)(fst l := poke (snd l) (vt_enc ty x) (sm_tables M (fst l)))\<rparr>"

definition load :: "('id, 'v, 'x) mem_env \<Rightarrow> 'x vtype \<Rightarrow> 'id \<Rightarrow> ('id, 'v) slate_mem \<Rightarrow> 'x" where
  "load E ty eid M = read_at ty (load_element_r E eid) M"

text \<open>Assignment through the reference that \<open>load\<close> of a write token returns.\<close>

definition assign :: "('id, 'v, 'x) mem_env \<Rightarrow> 'x vtype \<Rightarrow> 'id \<Rightarrow> 'x \<Rightarrow> ('id, 'v) slate_mem \<Rightarrow> ('id, 'v) slate_mem" where
  "assign E ty eid x M = write_at ty (load_element_rw E eid) x M"

definition store :: "('id, 'v, 'x) mem_env \<Rightarrow> 'x vtype \<Rightarrow> 'id \<Rightarrow> 'x \<Rightarrow> ('id, 'v) slate_mem \<Rightarrow> bool \<times> ('id, 'v) slate_mem" where
  "store E ty eid value M =
     (case me_breakdown E eid of (may_write, has_validator, shard, offset) \<Rightarrow>
        if \<not> may_write then (False, M)
        else if \<not> has_validator then
          (case vt_copy ty value (read_at ty (load_element_rw E eid) M) of
             (ok, x) \<Rightarrow> (ok, write_at ty (load_element_rw E eid) x M))
        else
          (case load_element_rwv E eid M of (l, validator) \<Rightarrow>
             (case me_accessor_store E validator value (read_at ty l M) of
                (ok, x) \<Rightarrow> (ok, write_at ty l x M))))"

definition latch_min :: "('id, 'v, 'x) mem_env \<Rightarrow> 'x vtype \<Rightarrow> 'id \<Rightarrow> 'x \<Rightarrow> ('id, 'v) slate_mem \<Rightarrow> ('id, 'v) slate_mem" where
  "latch_min E ty eid value M =
     (let val = read_at ty (load_element_rw E eid) M in
      if vt_less ty value val then write_at ty (load_element_rw E eid) value M else M)"

definition latch_min_sentinel ::
  "('id, 'v, 'x) mem_env \<Rightarrow> 'x vtype \<Rightarrow> 'id \<Rightarrow> 'x \<Rightarrow> 'x \<Rightarrow> ('id, 'v) slate_mem \<Rightarrow> ('id, 'v) slate_mem" where
  "latch_min_sentinel E ty eid value sentinel M =
     (let val = read_at ty (load_element_rw E eid) M in
      if vt_less ty value val \<or> vt_eq ty sentinel val
      then write_at ty (load_element_rw E eid) value M else M)"

definition latch_max :: "('id, 'v, 'x) mem_env \<Rightarrow> 'x vtype \<Rightarrow> 'id \<Rightarrow> 'x \<Rightarrow> ('id, 'v) slate_mem \<Rightarrow> ('id, 'v) slate_mem" where
  "latch_max E ty eid value M =
     (let val = read_at ty (load_element_rw E eid) M in
      if vt_less ty val value then write_at ty (load_element_rw E eid) value M else M)"

definition latch_max_sentinel ::
  "('id, 'v, 'x) mem_env \<Rightarrow> 'x vtype \<Rightarrow> 'id \<Rightarrow> 'x \<Rightarrow> 'x \<Rightarrow> ('id, 'v) slate_mem \<Rightarrow> ('id, 'v) slate_mem" where
  "latch_max_sentinel E ty eid value sentinel M =
     (let val = read_at ty (load_element_rw E eid) M in
      if vt_less ty val value \<or> vt_eq ty sentinel val
      then write_at ty (load_element_rw E eid) value M else M)"

section \<open>The Slate handle\<close>

text \<open>
  \<open>Slate\<close> is a handle to a memory, possibly none, with the last seen count of leaked tokens.
  \<open>'m\<close> is the state of the memory object behind it.
\<close>

record ('m, 'd) mem_ops =
  mo_roll_frame :: "'m \<Rightarrow> bool \<times> 'm"
  mo_is_built :: "'m \<Rightarrow> bool"
  mo_get_shard :: "nat \<Rightarrow> 'm \<Rightarrow> byte list option"
  mo_set_shard :: "nat \<Rightarrow> byte list \<Rightarrow> 'm \<Rightarrow> bool \<times> 'm"
  mo_shard_empty :: "nat \<Rightarrow> 'm \<Rightarrow> bool"
  mo_layout_hash :: "nat \<Rightarrow> 'm \<Rightarrow> (64 word \<times> 64 word) option"
  mo_deltas :: "nat \<Rightarrow> byte list \<Rightarrow> byte list \<Rightarrow> 'd list \<Rightarrow> nat \<Rightarrow> 'm \<Rightarrow> 'd list option"
  mo_digest :: "byte list \<Rightarrow> 64 word \<times> 64 word \<Rightarrow> 64 word \<times> 64 word"

record 'm slate_handle =
  sl_memory :: "'m option"
  sl_last_count :: "64 word"

definition slate_new :: "'m \<Rightarrow> 'm slate_handle" where
  "slate_new m = \<lparr>sl_memory = Some m, sl_last_count = 0\<rparr>"

text \<open>\<open>roll_frame\<close> also says whether it warned that tokens leaked since the last frame.\<close>

definition roll_frame :: "('m, 'd) mem_ops \<Rightarrow> 64 word \<Rightarrow> 'm slate_handle \<Rightarrow> bool \<times> bool \<times> 'm slate_handle" where
  "roll_frame Ops default_count s =
     (case sl_memory s of
        None \<Rightarrow> (False, False, s)
      | Some m \<Rightarrow>
          (case mo_roll_frame Ops m of
             (False, m') \<Rightarrow> (False, False, s\<lparr>sl_memory := Some m'\<rparr>)
           | (True, m') \<Rightarrow>
               (True, sl_last_count s < default_count,
                s\<lparr>sl_memory := Some m', sl_last_count := default_count\<rparr>)))"

definition get_shard_memory :: "('m, 'd) mem_ops \<Rightarrow> nat \<Rightarrow> 'm slate_handle \<Rightarrow> byte list option" where
  "get_shard_memory Ops shard s = (case sl_memory s of None \<Rightarrow> None | Some m \<Rightarrow> mo_get_shard Ops shard m)"

definition set_shard_memory :: "('m, 'd) mem_ops \<Rightarrow> nat \<Rightarrow> byte list \<Rightarrow> 'm slate_handle \<Rightarrow> bool \<times> 'm slate_handle" where
  "set_shard_memory Ops shard bytes s =
     (case sl_memory s of
        None \<Rightarrow> (False, s)
      | Some m \<Rightarrow> (case mo_set_shard Ops shard bytes m of (ok, m') \<Rightarrow> (ok, s\<lparr>sl_memory := Some m'\<rparr>)))"

definition compute_hash :: "('m, 'd) mem_ops \<Rightarrow> nat \<Rightarrow> 'm slate_handle \<Rightarrow> 64 word option" where
  "compute_hash Ops shard s =
     (case sl_memory s of
        None \<Rightarrow> None
      | Some m \<Rightarrow>
          if mo_shard_empty Ops shard m then Some 0
          else
            (case mo_get_shard Ops shard m of
               None \<Rightarrow> None
             | Some bytes \<Rightarrow>
                 (case mo_layout_hash Ops shard m of
                    None \<Rightarrow> None
                  | Some seed \<Rightarrow>
                      if bytes = [] then None
                      else (case mo_digest Ops bytes seed of (h0, h1) \<Rightarrow> Some (h0 XOR h1)))))"

text \<open>\<open>compute_deltas\<close> fails on an empty shard if the caller's list is not empty.\<close>

definition compute_deltas ::
  "('m, 'd) mem_ops \<Rightarrow> nat \<Rightarrow> byte list \<Rightarrow> byte list \<Rightarrow> 'd list \<Rightarrow> nat \<Rightarrow> 'm slate_handle \<Rightarrow> 'd list option" where
  "compute_deltas Ops shard mem1 mem2 deltas max_deltas s =
     (case sl_memory s of
        None \<Rightarrow> None
      | Some m \<Rightarrow>
          if mo_shard_empty Ops shard m \<and> length mem1 = 0 \<and> length mem2 = 0
          then (if deltas = [] then Some [] else None)
          else mo_deltas Ops shard mem1 mem2 deltas max_deltas m)"

section \<open>The interface of element storage\<close>

text \<open>
  A cell is a location with the type it is accessed as. What clients of the Slate rely on: a
  value written can be read back, and cells that share no byte do not influence each other.
\<close>

locale cell_store =
  fixes rd :: "'k \<Rightarrow> 'm \<Rightarrow> 'x"
    and wr :: "'k \<Rightarrow> 'x \<Rightarrow> 'm \<Rightarrow> 'm"
    and fits :: "'k \<Rightarrow> 'm \<Rightarrow> bool"
    and good :: "'k \<Rightarrow> 'x \<Rightarrow> bool"
    and sep :: "'k \<Rightarrow> 'k \<Rightarrow> bool"
  assumes rd_wr: "fits k m \<Longrightarrow> good k x \<Longrightarrow> rd k (wr k x m) = x"
    and rd_wr_sep: "sep k j \<Longrightarrow> fits k m \<Longrightarrow> good k x \<Longrightarrow> rd j (wr k x m) = rd j m"
    and fits_wr: "fits k m \<Longrightarrow> good k x \<Longrightarrow> fits j (wr k x m) = fits j m"
begin

definition write_all :: "('k \<times> 'x) list \<Rightarrow> 'm \<Rightarrow> 'm" where
  "write_all ws m = fold (\<lambda>(k, x). wr k x) ws m"

lemma write_all_Cons: "write_all ((k, x) # ws) m = write_all ws (wr k x m)"
  by (simp add: write_all_def)

lemma write_all_fits:
  "\<forall>(k, x)\<in>set ws. fits k m \<and> good k x \<Longrightarrow> fits j (write_all ws m) = fits j m"
proof (induction ws arbitrary: m)
  case Nil
  then show ?case by (simp add: write_all_def)
next
  case (Cons w ws)
  then show ?case by (cases w) (auto simp: write_all_Cons fits_wr)
qed

lemma write_all_other:
  "\<forall>(k, x)\<in>set ws. fits k m \<and> good k x \<and> sep k j \<Longrightarrow> rd j (write_all ws m) = rd j m"
proof (induction ws arbitrary: m)
  case Nil
  then show ?case by (simp add: write_all_def)
next
  case (Cons w ws)
  obtain k x where w: "w = (k, x)" by (cases w)
  have "\<forall>(k', x')\<in>set ws. fits k' (wr k x m) \<and> good k' x' \<and> sep k' j"
    using Cons.prems by (auto simp: w fits_wr)
  then show ?case using Cons by (simp add: w write_all_Cons rd_wr_sep)
qed

lemma write_all_reads:
  "\<forall>(k, x)\<in>set ws. fits k m \<and> good k x \<Longrightarrow> sorted_wrt (\<lambda>a b. sep (fst b) (fst a)) ws \<Longrightarrow>
   (k, x) \<in> set ws \<Longrightarrow> rd k (write_all ws m) = x"
proof (induction ws arbitrary: m)
  case Nil
  then show ?case by simp
next
  case (Cons w ws)
  obtain h y where w: "w = (h, y)" by (cases w)
  have rest: "\<forall>(k', x')\<in>set ws. fits k' (wr h y m) \<and> good k' x'"
    using Cons.prems(1) by (auto simp: w fits_wr)
  show ?case
  proof (cases "(k, x) \<in> set ws")
    case True
    then show ?thesis using Cons.IH [OF rest] Cons.prems(2) by (simp add: w write_all_Cons)
  next
    case False
    then have kx: "k = h" "x = y" using Cons.prems(3) by (auto simp: w)
    have "\<forall>(k', x')\<in>set ws. fits k' (wr h y m) \<and> good k' x' \<and> sep k' h"
      using rest Cons.prems(2) by (auto simp: w)
    from write_all_other [OF this]
    show ?thesis using Cons.prems(1) by (simp add: w write_all_Cons kx rd_wr)
  qed
qed

text \<open>
  A run of writes whose values are computed as it goes, from cells the run does not touch, is the
  run of the values computed at the start.
\<close>

lemma chain_write_all:
  assumes "\<forall>k\<in>K. rd k n = rd k m" and "\<forall>a\<in>set xs. fits (at a) n \<and> good (at a) (v a m)"
    and "\<forall>a\<in>set xs. \<forall>k\<in>K. sep (at a) k"
    and "\<And>a n. a \<in> set xs \<Longrightarrow> \<forall>k\<in>K. rd k n = rd k m \<Longrightarrow> v a n = v a m"
  shows "fold (\<lambda>a n. wr (at a) (v a n) n) xs n = write_all (map (\<lambda>a. (at a, v a m)) xs) n"
  using assms
proof (induction xs arbitrary: n)
  case Nil
  show ?case by (simp add: write_all_def)
next
  case (Cons a xs)
  let ?n = "wr (at a) (v a m) n"
  have a: "v a n = v a m" using Cons.prems(4) [of a n] Cons.prems(1) by simp
  have here: "fits (at a) n" "good (at a) (v a m)" using Cons.prems(2) by simp_all
  have "\<forall>k\<in>K. rd k ?n = rd k m"
  proof
    fix k
    assume k: "k \<in> K"
    then have "sep (at a) k" using Cons.prems(3) by simp
    from rd_wr_sep [OF this here] show "rd k ?n = rd k m" using Cons.prems(1) k by simp
  qed
  moreover have "\<forall>b\<in>set xs. fits (at b) ?n \<and> good (at b) (v b m)"
    using Cons.prems(2) fits_wr [OF here] by simp
  moreover have "\<forall>a\<in>set xs. \<forall>k\<in>K. sep (at a) k" using Cons.prems(3) by simp
  moreover have "\<And>b n. b \<in> set xs \<Longrightarrow> \<forall>k\<in>K. rd k n = rd k m \<Longrightarrow> v b n = v b m"
    by (rule Cons.prems(4)) simp_all
  ultimately have "fold (\<lambda>a n. wr (at a) (v a n) n) xs ?n = write_all (map (\<lambda>a. (at a, v a m)) xs) ?n"
    by (rule Cons.IH)
  then show ?case by (simp add: a write_all_Cons)
qed

end

section \<open>Cells of the shards\<close>

type_synonym 'x cell = "(nat \<times> nat) \<times> 'x vtype"

definition cell_fits :: "'x cell \<Rightarrow> ('id, 'v) slate_mem \<Rightarrow> bool" where
  "cell_fits k M \<longleftrightarrow>
     snd (fst k) + vt_size (snd k) \<le> length (ab_mem (sm_tables M (fst (fst k))))"

definition cell_good :: "'x cell \<Rightarrow> 'x \<Rightarrow> bool" where
  "cell_good k x \<longleftrightarrow> length (vt_enc (snd k) x) = vt_size (snd k) \<and> vt_dec (snd k) (vt_enc (snd k) x) = x"

definition cell_sep :: "'x cell \<Rightarrow> 'x cell \<Rightarrow> bool" where
  "cell_sep k j \<longleftrightarrow> fst (fst k) \<noteq> fst (fst j) \<or>
     snd (fst k) + vt_size (snd k) \<le> snd (fst j) \<or> snd (fst j) + vt_size (snd j) \<le> snd (fst k)"

definition read_cell :: "'x cell \<Rightarrow> ('id, 'v) slate_mem \<Rightarrow> 'x" where
  "read_cell k M = read_at (snd k) (fst k) M"

definition write_cell :: "'x cell \<Rightarrow> 'x \<Rightarrow> ('id, 'v) slate_mem \<Rightarrow> ('id, 'v) slate_mem" where
  "write_cell k x M = write_at (snd k) (fst k) x M"

definition cell_of :: "('id, 'v, 'x) mem_env \<Rightarrow> 'x vtype \<Rightarrow> 'id \<Rightarrow> 'x cell" where
  "cell_of E ty eid = (load_element_r E eid, ty)"

lemma poke_bytes:
  assumes "off + length bytes \<le> length (ab_mem b)"
  shows "length (ab_mem (poke off bytes b)) = length (ab_mem b)"
    and "take (length bytes) (drop off (ab_mem (poke off bytes b))) = bytes"
    and "at + n \<le> off \<or> off + length bytes \<le> at \<Longrightarrow>
      take n (drop at (ab_mem (poke off bytes b))) = take n (drop at (ab_mem b))"
proof -
  show "length (ab_mem (poke off bytes b)) = length (ab_mem b)"
    "take (length bytes) (drop off (ab_mem (poke off bytes b))) = bytes"
    using assms by (simp_all add: poke_def)
  have len: "length (take off (ab_mem b)) = off" using assms by simp
  assume "at + n \<le> off \<or> off + length bytes \<le> at"
  then show "take n (drop at (ab_mem (poke off bytes b))) = take n (drop at (ab_mem b))"
  proof
    assume "at + n \<le> off"
    then show ?thesis using assms by (simp add: poke_def take_drop) 
  next
    assume at: "off + length bytes \<le> at"
    then have "drop at (ab_mem (poke off bytes b)) = drop at (ab_mem b)"
      using assms by (simp add: poke_def)
    then show ?thesis by simp
  qed
qed

interpretation cells: cell_store read_cell write_cell cell_fits cell_good cell_sep
proof
  fix k j :: "'x cell" and m :: "('id, 'v) slate_mem" and x :: 'x
  assume fits: "cell_fits k m" and good: "cell_good k x"
  let ?b = "sm_tables m (fst (fst k))" and ?bytes = "vt_enc (snd k) x"
  have room: "snd (fst k) + length ?bytes \<le> length (ab_mem ?b)"
    using fits good by (simp add: cell_fits_def cell_good_def)
  note poke = poke_bytes [OF room]
  show "read_cell k (write_cell k x m) = x"
    using good poke(2) by (simp add: read_cell_def write_cell_def read_at_def write_at_def cell_good_def)
  show "cell_fits j (write_cell k x m) = cell_fits j m"
    using poke(1) by (simp add: cell_fits_def write_cell_def write_at_def)
  assume "cell_sep k j"
  then show "read_cell j (write_cell k x m) = read_cell j m"
    using good poke(3) by (auto simp: cell_sep_def read_cell_def write_cell_def read_at_def write_at_def cell_good_def)
qed

lemma load_cell: "load E ty eid M = read_cell (cell_of E ty eid) M"
  by (simp add: load_def read_cell_def cell_of_def)

lemma rw_same: "load_element_rw E eid = load_element_r E eid"
  by (simp add: load_element_rw_def load_element_r_def)

lemma assign_cell: "assign E ty eid x M = write_cell (cell_of E ty eid) x M"
  by (simp add: assign_def write_cell_def cell_of_def rw_same)

lemma latch_min_cell:
  "latch_min E ty eid v M =
     (if vt_less ty v (load E ty eid M) then write_cell (cell_of E ty eid) v M else M)"
  by (simp add: latch_min_def load_def write_cell_def cell_of_def rw_same)

lemma store_plain:
  assumes "me_breakdown E eid = (True, False, l)" and "vt_copy ty v (load E ty eid M) = (ok, x)"
  shows "store E ty eid v M = (ok, write_cell (cell_of E ty eid) x M)"
  using assms by (cases l) (simp add: store_def load_def write_cell_def cell_of_def rw_same)

text \<open>A type of one byte, and IDs that are what they break down to, for the witnesses.\<close>

definition byte_type :: "nat vtype" where
  "byte_type = \<lparr>vt_size = 1, vt_enc = (\<lambda>n. [of_nat n]), vt_dec = (\<lambda>bs. unat (hd bs)),
     vt_copy = (\<lambda>v _. (True, v)), vt_eq = (=), vt_less = (<),
     vt_median3 = (\<lambda>a b c. max (min a b) (min (max a b) c))\<rparr>"

definition plain_env :: "(bool \<times> bool \<times> nat \<times> nat, unit, 'x) mem_env" where
  "plain_env = \<lparr>me_breakdown = (\<lambda>i. i), me_accessor_store = (\<lambda>_ v _. (True, v))\<rparr>"

definition plain_mem :: "byte list \<Rightarrow> (bool \<times> bool \<times> nat \<times> nat, unit) slate_mem" where
  "plain_mem bytes = \<lparr>sm_tables = (\<lambda>_. abuf_new\<lparr>ab_mem := bytes\<rparr>), sm_validator = (\<lambda>_. None)\<rparr>"

lemma byte_good: "cell_good (l, byte_type) n \<longleftrightarrow> n < 256"
  by (auto simp: cell_good_def byte_type_def unat_of_nat)

section \<open>Properties\<close>

text \<open>
  What storing does to one value, by itself: the type's copy for an element without validator, the
  accessor's store with the validator of the ID otherwise; whether it is accepted, and what is left
  in the element.
\<close>

definition store_outcome :: "('id, 'v, 'x) mem_env \<Rightarrow> 'x vtype \<Rightarrow> 'id \<Rightarrow> 'x \<Rightarrow> ('id, 'v) slate_mem \<Rightarrow> bool \<times> 'x" where
  "store_outcome E ty eid v M =
     (if fst (snd (me_breakdown E eid)) then me_accessor_store E (sm_validator M eid) v (load E ty eid M)
      else vt_copy ty v (load E ty eid M))"

lemma store_cell:
  assumes "me_breakdown E eid = (True, has_validator, l)"
  shows "store E ty eid v M =
         (fst (store_outcome E ty eid v M), write_cell (cell_of E ty eid) (snd (store_outcome E ty eid v M)) M)"
  using assms
  by (cases l) (simp add: store_def store_outcome_def load_def load_element_rwv_def load_element_r_def
      load_element_rw_def write_cell_def cell_of_def split: prod.splits)

text \<open>
  C13: a store is seen by the next load of the element, and by nothing else. For a writable element
  whose bytes lie in its shard, with or without validator, \<open>store\<close> answers what the type's copy or
  the validator answers, and loading the element then gives exactly the value that these leave in
  it, accepted or not (the value stored, if the copy keeps it); an element sharing no byte with it
  loads as before, whatever its type, and the validators stay. A store through an ID without the
  write right fails and changes nothing. The value left must be one the type can encode.
\<close>

theorem store_then_load:
  assumes "me_breakdown E eid = (may_write, has_validator, l)"
    and "cell_fits (cell_of E ty eid) M" and "cell_good (cell_of E ty eid) (snd (store_outcome E ty eid v M))"
    and "store E ty eid v M = (ok, M')"
  shows "(\<not> may_write \<longrightarrow> \<not> ok \<and> M' = M) \<and>
         (may_write \<longrightarrow> (ok, load E ty eid M') = store_outcome E ty eid v M) \<and>
         (cell_sep (cell_of E ty eid) (cell_of E ty' other) \<longrightarrow> load E ty' other M' = load E ty' other M) \<and>
         sm_validator M' = sm_validator M"
proof (cases may_write)
  case True
  then have "ok = fst (store_outcome E ty eid v M)"
    and M': "M' = write_cell (cell_of E ty eid) (snd (store_outcome E ty eid v M)) M"
    using store_cell [of E eid has_validator l ty v M] assms(1,4) by simp_all
  moreover have "sm_validator M' = sm_validator M" by (simp add: M' write_cell_def write_at_def)
  ultimately show ?thesis
    using True cells.rd_wr [OF assms(2,3)] cells.rd_wr_sep [OF _ assms(2,3)] by (simp add: load_cell)
next
  case False
  then have "ok = False \<and> M' = M" using assms(1,4) by (cases l) (simp add: store_def)
  then show ?thesis using False by simp
qed

text \<open>An element with a validator that refuses what is above 100 and clips it.\<close>

definition clip_env :: "(bool \<times> bool \<times> nat \<times> nat, unit, nat) mem_env" where
  "clip_env = plain_env\<lparr>me_accessor_store := (\<lambda>_ v _. (v \<le> 100, min v 100))\<rparr>"

theorem store_then_load_witness:
  "(fst (store clip_env byte_type (True, True, 0, 2) 200 (plain_mem [1, 2, 3])),
    load clip_env byte_type (True, True, 0, 2)
     (snd (store clip_env byte_type (True, True, 0, 2) 200 (plain_mem [1, 2, 3])))) = (False, 100)"
proof -
  let ?id = "(True, True, 0, 2) :: bool \<times> bool \<times> nat \<times> nat" and ?M = "plain_mem [1, 2, 3]"
  have id: "me_breakdown clip_env ?id = ?id" by (simp add: plain_env_def clip_env_def)
  have fits: "cell_fits (cell_of clip_env byte_type ?id) ?M"
    by (simp add: cell_fits_def cell_of_def load_element_r_def id plain_mem_def byte_type_def)
  have out: "store_outcome clip_env byte_type ?id 200 ?M = (False, 100)"
    by (simp add: store_outcome_def id) (simp add: clip_env_def)
  then have good: "cell_good (cell_of clip_env byte_type ?id) (snd (store_outcome clip_env byte_type ?id 200 ?M))"
    by (simp add: cell_of_def byte_good)
  show ?thesis
    using store_then_load [OF id fits good, of "fst (store clip_env byte_type ?id 200 ?M)"
        "snd (store clip_env byte_type ?id 200 ?M)"] by (simp add: out)
qed

text \<open>
  \<open>latch_min\<close> keeps a running minimum. Latching values one after the other into an element
  leaves the least of them and the initial value there.
\<close>

theorem latch_min_running_minimum:
  assumes "vt_less ty = (\<lambda>a b. key a < (key b :: int))" and "cell_fits (cell_of E ty eid) M"
    and "list_all (cell_good (cell_of E ty eid)) vs"
  shows "key (load E ty eid (fold (latch_min E ty eid) vs M)) =
         Min (insert (key (load E ty eid M)) (key ` set vs))"
  using assms(2,3)
proof (induction vs arbitrary: M)
  case Nil
  then show ?case by simp
next
  case (Cons v vs)
  let ?M = "latch_min E ty eid v M"
  have good: "cell_good (cell_of E ty eid) v" using Cons.prems by simp
  have fits: "cell_fits (cell_of E ty eid) ?M"
    using Cons.prems(1) cells.fits_wr [OF Cons.prems(1) good] by (simp add: latch_min_cell)
  have val: "key (load E ty eid ?M) = min (key v) (key (load E ty eid M))"
    using cells.rd_wr [OF Cons.prems(1) good] by (simp add: latch_min_cell assms(1) load_cell)
  have "Min (insert (min (key v) (key (load E ty eid M))) (key ` set vs)) =
      Min (insert (key (load E ty eid M)) (insert (key v) (key ` set vs)))"
    by (cases "vs = []") (simp_all add: Min_insert2 min.assoc min.left_commute min.commute)
  then show ?case using Cons.IH [OF fits] Cons.prems(2) by (simp add: val)
qed

theorem latch_min_running_minimum_witness:
  "int (load plain_env byte_type (True, False, 0, 0)
     (fold (latch_min plain_env byte_type (True, False, 0, 0)) [9, 4, 6] (plain_mem [5]))) = 4"
proof -
  have less: "vt_less byte_type = (\<lambda>a b. int a < int b)" by (auto simp: byte_type_def fun_eq_iff)
  have fits: "cell_fits (cell_of plain_env byte_type (True, False, 0, 0)) (plain_mem [5])"
    by (simp add: cell_fits_def cell_of_def load_element_r_def plain_env_def plain_mem_def byte_type_def)
  have good: "list_all (cell_good (cell_of plain_env byte_type (True, False, 0, 0))) [9, 4, 6]"
    by (simp add: cell_of_def byte_good)
  have start: "load plain_env byte_type (True, False, 0, 0) (plain_mem [5]) = 5"
    by (simp add: load_def read_at_def load_element_r_def plain_env_def plain_mem_def byte_type_def)
  show ?thesis using latch_min_running_minimum [OF less fits good] by (simp add: start)
qed

end
