(* ===== verification/Slate_Combiner.thy ===== *)
theory Slate_Combiner
  imports Slate_Memory Slate_Builder
begin

text \<open>
  \<^verbatim>\<open>vehicle/src/bullwinkle/all/SlateCombiner.cc\<close>: combines the elements of up to three
  redundant sources into one set of outputs. A source takes part while its freshness element
  keeps changing; the outputs are the copy, maximum or median of the sources that do, or a copy of
  one selected source.

  The run-time part works on \<open>Slate_Memory\<close>, the initialization on \<open>Slate_Builder\<close>. Values are
  the datatype \<open>value\<close>, floating point ones as bit patterns; how a type is laid out and compared,
  and \<^verbatim>\<open>median3\<close>, which is not in the repository, come with the \<open>vtype\<close> of each element
  type. Also parameters: \<^verbatim>\<open>sharer_invalid_sequence_number\<close>, the name of ignored elements, and
  what the configuration reader returns. A failed \<^verbatim>\<open>FswAssert\<close> is \<open>None\<close>.
\<close>

section \<open>Data\<close>

datatype elem_type = T_bool | T_int8 | T_int16 | T_int32 | T_int64
  | T_uint8 | T_uint16 | T_uint32 | T_uint64 | T_float | T_double

datatype "value" = V_bool bool | V_int8 "8 word" | V_int16 "16 word" | V_int32 "32 word"
  | V_int64 "64 word" | V_uint8 "8 word" | V_uint16 "16 word" | V_uint32 "32 word"
  | V_uint64 "64 word" | V_float "32 word" | V_double "64 word"

fun the_bool :: "value \<Rightarrow> bool" where
  "the_bool (V_bool b) = b"
| "the_bool _ = False"

fun the_int64 :: "value \<Rightarrow> 64 word" where
  "the_int64 (V_int64 w) = w"
| "the_int64 _ = 0"

fun the_uint8 :: "value \<Rightarrow> 8 word" where
  "the_uint8 (V_uint8 w) = w"
| "the_uint8 _ = 0"

definition num_sources_max :: nat where
  "num_sources_max = 3"

definition seq_default :: "64 word" where
  "seq_default = 0x8000000000000000"

record ('id, 'v) combiner_env =
  ce_mem :: "('id, 'v, value) mem_env"
  ce_vtype :: "elem_type \<Rightarrow> value vtype"
  ce_invalid_seq :: "64 word"

record 'id source =
  fresh_tok :: 'id
  fresh_last_tok :: 'id
  fresh_age_tok :: 'id
  connected_tok :: 'id

text \<open>A bin's function pointers are set together; \<open>bin_type\<close> is the type they are instances for.\<close>

record 'id element_bin =
  bin_ids :: "'id list"
  bin_type :: "elem_type option"

record 'id combiner =
  is_init :: bool
  downselect :: bool
  num_sources :: nat
  stale_threshold :: "8 word"
  bins :: "'id element_bin list"
  sources :: "'id source list"
  combined_connected_tok :: 'id

definition combiner_new :: "'id \<Rightarrow> 'id combiner" where
  "combiner_new no_id = \<lparr>is_init = False, downselect = False, num_sources = 0, stale_threshold = 1,
     bins = [], sources = [], combined_connected_tok = no_id\<rparr>"

section \<open>Freshness\<close>

text \<open>
  One cycle of one source: from the freshness value read, the last one and the age to the new last
  value and age.
\<close>

definition updated_this_cycle :: "64 word \<Rightarrow> 64 word \<Rightarrow> 64 word \<Rightarrow> 64 word \<Rightarrow> bool" where
  "updated_this_cycle invalid_seq accepted fresh fresh_last \<longleftrightarrow>
     (if fresh \<noteq> 0 \<and> fresh \<noteq> seq_default then
        (if accepted = invalid_seq then fresh \<noteq> fresh_last else fresh = accepted)
      else False)"

definition fresh_step ::
  "64 word \<Rightarrow> 64 word \<Rightarrow> 8 word \<Rightarrow> 64 word \<Rightarrow> 64 word \<times> 8 word \<Rightarrow> 64 word \<times> 8 word" where
  "fresh_step invalid_seq accepted threshold fresh s =
     (case s of (fresh_last, fresh_age) \<Rightarrow>
        if updated_this_cycle invalid_seq accepted fresh fresh_last then (fresh, 0)
        else if fresh_age < threshold then (fresh_last, fresh_age + 1)
        else (fresh_last, fresh_age))"

definition load_i64 :: "('id, 'v) combiner_env \<Rightarrow> 'id \<Rightarrow> ('id, 'v) slate_mem \<Rightarrow> 64 word" where
  "load_i64 E t M = the_int64 (load (ce_mem E) (ce_vtype E T_int64) t M)"

definition load_u8 :: "('id, 'v) combiner_env \<Rightarrow> 'id \<Rightarrow> ('id, 'v) slate_mem \<Rightarrow> 8 word" where
  "load_u8 E t M = the_uint8 (load (ce_mem E) (ce_vtype E T_uint8) t M)"

definition load_flag :: "('id, 'v) combiner_env \<Rightarrow> 'id \<Rightarrow> ('id, 'v) slate_mem \<Rightarrow> bool" where
  "load_flag E t M = the_bool (load (ce_mem E) (ce_vtype E T_bool) t M)"

definition set_i64 :: "('id, 'v) combiner_env \<Rightarrow> 'id \<Rightarrow> 64 word \<Rightarrow> ('id, 'v) slate_mem \<Rightarrow> ('id, 'v) slate_mem" where
  "set_i64 E t w M = assign (ce_mem E) (ce_vtype E T_int64) t (V_int64 w) M"

definition set_u8 :: "('id, 'v) combiner_env \<Rightarrow> 'id \<Rightarrow> 8 word \<Rightarrow> ('id, 'v) slate_mem \<Rightarrow> ('id, 'v) slate_mem" where
  "set_u8 E t w M = assign (ce_mem E) (ce_vtype E T_uint8) t (V_uint8 w) M"

definition set_flag :: "('id, 'v) combiner_env \<Rightarrow> 'id \<Rightarrow> bool \<Rightarrow> ('id, 'v) slate_mem \<Rightarrow> ('id, 'v) slate_mem" where
  "set_flag E t b M = assign (ce_mem E) (ce_vtype E T_bool) t (V_bool b) M"

text \<open>The loop body over the sources: the memory after it and whether the source is connected.\<close>

definition update_source ::
  "('id, 'v) combiner_env \<Rightarrow> 64 word \<Rightarrow> 8 word \<Rightarrow> 'id \<Rightarrow> 'id source \<Rightarrow> ('id, 'v) slate_mem \<Rightarrow>
   bool \<times> ('id, 'v) slate_mem" where
  "update_source E accepted threshold combined s M =
     (let fresh = load_i64 E (fresh_tok s) M;
          M1 = set_flag E (connected_tok s) False M;
          fresh_last = load_i64 E (fresh_last_tok s) M1;
          updated = updated_this_cycle (ce_invalid_seq E) accepted fresh fresh_last;
          M2 = (if updated then
                  set_u8 E (fresh_age_tok s) 0 (set_i64 E (fresh_last_tok s) fresh M1)
                else if load_u8 E (fresh_age_tok s) M1 < threshold then
                  set_u8 E (fresh_age_tok s) (load_u8 E (fresh_age_tok s) M1 + 1) M1
                else M1)
      in if load_u8 E (fresh_age_tok s) M2 < threshold
         then (True, set_flag E combined True (set_flag E (connected_tok s) True M2))
         else (False, M2))"

text \<open>The indices of the connected sources, 1-based.\<close>

fun update_sources ::
  "('id, 'v) combiner_env \<Rightarrow> 64 word \<Rightarrow> 8 word \<Rightarrow> 'id \<Rightarrow> nat \<Rightarrow> 'id source list \<Rightarrow> ('id, 'v) slate_mem \<Rightarrow>
   nat list \<times> ('id, 'v) slate_mem" where
  "update_sources E accepted threshold combined i [] M = ([], M)"
| "update_sources E accepted threshold combined i (s # ss) M =
     (case update_source E accepted threshold combined s M of (connected, M1) \<Rightarrow>
        (case update_sources E accepted threshold combined (i + 1) ss M1 of (indices, M2) \<Rightarrow>
           (if connected then (i + 1) # indices else indices, M2)))"

section \<open>Combining\<close>

text \<open>The start of every group of IDs in a bin: an output followed by one input per source.\<close>

definition strides :: "nat \<Rightarrow> nat \<Rightarrow> nat list" where
  "strides n stride = filter (\<lambda>i. i mod stride = 0) [0..<n]"

definition load_as :: "('id, 'v) combiner_env \<Rightarrow> elem_type \<Rightarrow> 'id \<Rightarrow> ('id, 'v) slate_mem \<Rightarrow> value" where
  "load_as E t eid M = load (ce_mem E) (ce_vtype E t) eid M"

definition store_as ::
  "('id, 'v) combiner_env \<Rightarrow> elem_type \<Rightarrow> 'id \<Rightarrow> value \<Rightarrow> ('id, 'v) slate_mem \<Rightarrow> bool \<times> ('id, 'v) slate_mem" where
  "store_as E t eid v M = store (ce_mem E) (ce_vtype E t) eid v M"

definition bin_eq ::
  "('id, 'v) combiner_env \<Rightarrow> 'id combiner \<Rightarrow> elem_type \<Rightarrow> nat \<Rightarrow> nat \<Rightarrow> 'id list \<Rightarrow> bool \<Rightarrow>
   ('id, 'v) slate_mem \<Rightarrow> bool \<times> bool" where
  "bin_eq E C t src1 src2 ids result M =
     (if \<not> is_init C then (False, result)
      else (True,
        fold (\<lambda>i r. r \<and> vt_eq (ce_vtype E t) (load_as E t (ids ! (i + src1)) M) (load_as E t (ids ! (i + src2)) M))
          (strides (length ids) (num_sources C + 1)) result))"

text \<open>The loop shared by the three operations: each output gets a value made of its inputs.\<close>

definition bin_apply ::
  "('id, 'v) combiner_env \<Rightarrow> elem_type \<Rightarrow> nat \<Rightarrow> (nat \<Rightarrow> ('id, 'v) slate_mem \<Rightarrow> value) \<Rightarrow> 'id list \<Rightarrow>
   ('id, 'v) slate_mem \<Rightarrow> bool \<times> ('id, 'v) slate_mem" where
  "bin_apply E t stride val ids M =
     fold (\<lambda>i (success, M). case store_as E t (ids ! i) (val i M) M of (ok, M') \<Rightarrow> (success \<and> ok, M'))
       (strides (length ids) stride) (True, M)"

definition bin_copy ::
  "('id, 'v) combiner_env \<Rightarrow> 'id combiner \<Rightarrow> elem_type \<Rightarrow> nat \<Rightarrow> 'id list \<Rightarrow> ('id, 'v) slate_mem \<Rightarrow>
   bool \<times> ('id, 'v) slate_mem" where
  "bin_copy E C t src ids M =
     (if \<not> is_init C then (False, M)
      else bin_apply E t (num_sources C + 1) (\<lambda>i M. load_as E t (ids ! (i + src)) M) ids M)"

definition std_max :: "value vtype \<Rightarrow> value \<Rightarrow> value \<Rightarrow> value" where
  "std_max ty a b = (if vt_less ty a b then b else a)"

definition bin_max ::
  "('id, 'v) combiner_env \<Rightarrow> 'id combiner \<Rightarrow> elem_type \<Rightarrow> nat \<Rightarrow> nat \<Rightarrow> 'id list \<Rightarrow> ('id, 'v) slate_mem \<Rightarrow>
   bool \<times> ('id, 'v) slate_mem" where
  "bin_max E C t src1 src2 ids M =
     (if \<not> is_init C then (False, M)
      else bin_apply E t (num_sources C + 1)
        (\<lambda>i M. std_max (ce_vtype E t) (load_as E t (ids ! (i + src1)) M) (load_as E t (ids ! (i + src2)) M)) ids M)"

definition bin_median ::
  "('id, 'v) combiner_env \<Rightarrow> 'id combiner \<Rightarrow> elem_type \<Rightarrow> 'id list \<Rightarrow> ('id, 'v) slate_mem \<Rightarrow>
   bool \<times> ('id, 'v) slate_mem" where
  "bin_median E C t ids M =
     (if \<not> is_init C then (False, M)
      else if num_sources C \<noteq> 3 then (False, M)
      else bin_apply E t (num_sources_max + 1)
        (\<lambda>i M. vt_median3 (ce_vtype E t) (load_as E t (ids ! (i + 1)) M) (load_as E t (ids ! (i + 2)) M)
                 (load_as E t (ids ! (i + 3)) M)) ids M)"

text \<open>\<open>for_bins f\<close>: the loops over the bins, with the assertions on the pointer and the result.\<close>

fun for_bins ::
  "(elem_type \<Rightarrow> 'id list \<Rightarrow> 's \<Rightarrow> bool \<times> 's) \<Rightarrow> 'id element_bin list \<Rightarrow> 's \<Rightarrow> 's option" where
  "for_bins f [] s = Some s"
| "for_bins f (b # bs) s =
     (case bin_type b of
        None \<Rightarrow> None
      | Some t \<Rightarrow> (case f t (bin_ids b) s of (ok, s') \<Rightarrow> if \<not> ok then None else for_bins f bs s'))"

text \<open>The source selection of downselect mode, on the indices of the connected sources.\<close>

definition downselect_indices ::
  "('id, 'v) combiner_env \<Rightarrow> 'id combiner \<Rightarrow> nat list \<Rightarrow> ('id, 'v) slate_mem \<Rightarrow> nat list option" where
  "downselect_indices E C indices M =
     (if length indices = 1 \<or> length indices = 2 then Some (take 1 indices)
      else if length indices = 3 then
        (case for_bins (\<lambda>t ids b_eq_c. bin_eq E C t 2 3 ids b_eq_c M) (bins C) True of
           None \<Rightarrow> None
         | Some b_eq_c \<Rightarrow> Some [if b_eq_c then 2 else 1])
      else Some indices)"

definition validate_and_combine ::
  "('id, 'v) combiner_env \<Rightarrow> 64 word \<Rightarrow> 'id combiner \<Rightarrow> ('id, 'v) slate_mem \<Rightarrow> (bool \<times> ('id, 'v) slate_mem) option" where
  "validate_and_combine E accepted C M =
     (if \<not> is_init C then Some (False, M)
      else if \<not> length (sources C) \<le> num_sources_max then None
      else
        let M0 = set_flag E (combined_connected_tok C) False M in
        (case update_sources E accepted (stale_threshold C) (combined_connected_tok C) 0 (sources C) M0 of
           (connected, M1) \<Rightarrow>
             (case (if downselect C then downselect_indices E C connected M1 else Some connected) of
                None \<Rightarrow> None
              | Some indices \<Rightarrow>
                  map_option (Pair True)
                    (if length indices = 1 then
                       for_bins (\<lambda>t ids M. bin_copy E C t (indices ! 0) ids M) (bins C) M1
                     else if length indices = 2 then
                       for_bins (\<lambda>t ids M. bin_max E C t (indices ! 0) (indices ! 1) ids M) (bins C) M1
                     else if length indices = 3 then
                       for_bins (\<lambda>t ids M. bin_median E C t ids M) (bins C) M1
                     else Some M1))))"

definition combine ::
  "('id, 'v) combiner_env \<Rightarrow> 'id combiner \<Rightarrow> ('id, 'v) slate_mem \<Rightarrow> (bool \<times> ('id, 'v) slate_mem) option" where
  "combine E C M =
     (if \<not> is_init C then Some (False, M)
      else
        (case validate_and_combine E (ce_invalid_seq E) C M of
           None \<Rightarrow> None
         | Some (ok, M') \<Rightarrow> if \<not> ok then Some (False, M') else Some (True, M')))"

section \<open>Freshness as a function of the values\<close>

text \<open>
  The control cells of the combiner and what is required of their placement: they lie in their
  shards and share no byte with each other or with a freshness element.
\<close>

definition c64 :: "('id, 'v) combiner_env \<Rightarrow> 'id \<Rightarrow> value cell" where
  "c64 E t = cell_of (ce_mem E) (ce_vtype E T_int64) t"

definition c8 :: "('id, 'v) combiner_env \<Rightarrow> 'id \<Rightarrow> value cell" where
  "c8 E t = cell_of (ce_mem E) (ce_vtype E T_uint8) t"

definition cB :: "('id, 'v) combiner_env \<Rightarrow> 'id \<Rightarrow> value cell" where
  "cB E t = cell_of (ce_mem E) (ce_vtype E T_bool) t"

definition source_cells :: "('id, 'v) combiner_env \<Rightarrow> 'id source \<Rightarrow> value cell list" where
  "source_cells E s = [cB E (connected_tok s), c64 E (fresh_last_tok s), c8 E (fresh_age_tok s)]"

definition control_cells :: "('id, 'v) combiner_env \<Rightarrow> 'id \<Rightarrow> 'id source list \<Rightarrow> value cell list" where
  "control_cells E comb ss = cB E comb # concat (map (source_cells E) ss)"

definition control_types_ok :: "('id, 'v) combiner_env \<Rightarrow> bool" where
  "control_types_ok E \<longleftrightarrow>
     (\<forall>l w. cell_good (l, ce_vtype E T_int64) (V_int64 w)) \<and>
     (\<forall>l w. cell_good (l, ce_vtype E T_uint8) (V_uint8 w)) \<and>
     (\<forall>l b. cell_good (l, ce_vtype E T_bool) (V_bool b))"

definition sources_ok :: "('id, 'v) combiner_env \<Rightarrow> 'id \<Rightarrow> 'id source list \<Rightarrow> ('id, 'v) slate_mem \<Rightarrow> bool" where
  "sources_ok E comb ss M \<longleftrightarrow>
     control_types_ok E \<and> list_all (\<lambda>k. cell_fits k M) (control_cells E comb ss) \<and>
     sorted_wrt cell_sep (control_cells E comb ss) \<and>
     list_all (\<lambda>s. list_all (\<lambda>k. cell_sep k (c64 E (fresh_tok s))) (control_cells E comb ss)) ss"

lemma cell_sep_sym: "cell_sep a b \<longleftrightarrow> cell_sep b a"
  by (auto simp: cell_sep_def)

lemma control_access:
  "load_i64 E t M = the_int64 (read_cell (c64 E t) M)"
  "load_u8 E t M = the_uint8 (read_cell (c8 E t) M)"
  "load_flag E t M = the_bool (read_cell (cB E t) M)"
  "set_i64 E t w M = write_cell (c64 E t) (V_int64 w) M"
  "set_u8 E t a M = write_cell (c8 E t) (V_uint8 a) M"
  "set_flag E t b M = write_cell (cB E t) (V_bool b) M"
  by (simp_all add: load_i64_def load_u8_def load_flag_def set_i64_def set_u8_def set_flag_def
      load_cell assign_cell c64_def c8_def cB_def)

lemma control_good:
  assumes "control_types_ok E"
  shows "cell_good (c64 E t) (V_int64 w)" and "cell_good (c8 E t) (V_uint8 a)" and "cell_good (cB E t) (V_bool b)"
  using assms unfolding control_types_ok_def c64_def c8_def cB_def cell_of_def by blast+

lemmas cell_rules = cells.rd_wr cells.rd_wr_sep cells.fits_wr

lemma update_source_effect:
  assumes ok: "sources_ok E comb [s] M" and upd: "update_source E accepted thr comb s M = (c, M')"
    and step: "fresh_step (ce_invalid_seq E) accepted thr (load_i64 E (fresh_tok s) M)
        (load_i64 E (fresh_last_tok s) M, load_u8 E (fresh_age_tok s) M) = (l', a')"
  shows "c \<longleftrightarrow> a' < thr" and "load_i64 E (fresh_last_tok s) M' = l'" and "load_u8 E (fresh_age_tok s) M' = a'"
    and "load_flag E (connected_tok s) M' = c"
    and "load_flag E comb M' \<longleftrightarrow> c \<or> load_flag E comb M"
    and "list_all (\<lambda>j. cell_sep j k) (control_cells E comb [s]) \<Longrightarrow> read_cell k M' = read_cell k M"
    and "cell_fits (k :: value cell) M' = cell_fits k M"
proof -
  let ?l = "c64 E (fresh_last_tok s)" and ?a = "c8 E (fresh_age_tok s)" and ?n = "cB E (connected_tok s)"
    and ?b = "cB E comb"
  have sep: "cell_sep ?b ?n" "cell_sep ?b ?l" "cell_sep ?b ?a" "cell_sep ?n ?l" "cell_sep ?n ?a" "cell_sep ?l ?a"
    and fits: "cell_fits ?b M" "cell_fits ?n M" "cell_fits ?l M" "cell_fits ?a M"
    and types: "control_types_ok E"
    using ok by (simp_all add: sources_ok_def control_cells_def source_cells_def)
  have sep2: "cell_sep ?n ?b" "cell_sep ?l ?b" "cell_sep ?a ?b" "cell_sep ?l ?n" "cell_sep ?a ?n" "cell_sep ?a ?l"
    using sep cell_sep_sym by blast+
  note rules = cell_rules control_good [OF types] fits sep sep2
  show "c \<longleftrightarrow> a' < thr" "load_i64 E (fresh_last_tok s) M' = l'" "load_u8 E (fresh_age_tok s) M' = a'"
    "load_flag E (connected_tok s) M' = c" "load_flag E comb M' \<longleftrightarrow> c \<or> load_flag E comb M"
    using upd step
    by (auto simp: update_source_def fresh_step_def Let_def control_access rules split: if_splits)
  show "cell_fits (k :: value cell) M' = cell_fits k M"
    using upd by (auto simp: update_source_def Let_def control_access rules split: if_splits)
  assume "list_all (\<lambda>j. cell_sep j k) (control_cells E comb [s])"
  then have "cell_sep ?b k" "cell_sep ?n k" "cell_sep ?l k" "cell_sep ?a k"
    by (simp_all add: control_cells_def source_cells_def)
  then show "read_cell k M' = read_cell k M"
    using upd by (auto simp: update_source_def Let_def control_access rules split: if_splits)
qed

text \<open>What the cycle makes of a source, in terms of the values before the cycle.\<close>

definition source_result ::
  "('id, 'v) combiner_env \<Rightarrow> 64 word \<Rightarrow> 8 word \<Rightarrow> ('id, 'v) slate_mem \<Rightarrow> 'id source \<Rightarrow> 64 word \<times> 8 word" where
  "source_result E accepted thr M s =
     fresh_step (ce_invalid_seq E) accepted thr (load_i64 E (fresh_tok s) M)
       (load_i64 E (fresh_last_tok s) M, load_u8 E (fresh_age_tok s) M)"

definition source_fresh ::
  "('id, 'v) combiner_env \<Rightarrow> 64 word \<Rightarrow> 8 word \<Rightarrow> ('id, 'v) slate_mem \<Rightarrow> 'id source \<Rightarrow> bool" where
  "source_fresh E accepted thr M s \<longleftrightarrow> snd (source_result E accepted thr M s) < thr"

fun numbered :: "('s \<Rightarrow> bool) \<Rightarrow> nat \<Rightarrow> 's list \<Rightarrow> nat list" where
  "numbered P i [] = []"
| "numbered P i (s # ss) = (if P s then (i + 1) # numbered P (i + 1) ss else numbered P (i + 1) ss)"

lemma numbered_cong: "(\<And>s. s \<in> set ss \<Longrightarrow> P s = Q s) \<Longrightarrow> numbered P i ss = numbered Q i ss"
  by (induction ss arbitrary: i) auto

lemma sources_ok_split:
  assumes "sources_ok E comb (s # ss) M"
  shows "sources_ok E comb [s] M"
    and "(\<And>k :: value cell. cell_fits k M' = cell_fits k M) \<Longrightarrow> sources_ok E comb ss M'"
    and "k \<in> set (concat (map (source_cells E) ss)) \<Longrightarrow> list_all (\<lambda>j. cell_sep j k) (control_cells E comb [s])"
    and "t \<in> set ss \<Longrightarrow> list_all (\<lambda>j. cell_sep j (c64 E (fresh_tok t))) (control_cells E comb [s])"
    and "k \<in> set (source_cells E s) \<Longrightarrow> list_all (\<lambda>j. cell_sep j k) (control_cells E comb ss)"
proof -
  let ?rest = "concat (map (source_cells E) ss)" and ?b = "cB E comb"
  have types: "control_types_ok E"
    and fits: "list_all (\<lambda>k. cell_fits k M) (?b # source_cells E s @ ?rest)"
    and fresh: "list_all (\<lambda>t. list_all (\<lambda>k. cell_sep k (c64 E (fresh_tok t))) (?b # source_cells E s @ ?rest)) (s # ss)"
    and sorted: "sorted_wrt cell_sep (?b # source_cells E s @ ?rest)"
    using assms by (simp_all add: sources_ok_def control_cells_def)
  have comb: "cell_sep ?b k" if "k \<in> set (source_cells E s @ ?rest)" for k
    using sorted that by simp
  have across: "cell_sep j k" if "j \<in> set (source_cells E s)" "k \<in> set ?rest" for j k
    using sorted that by (simp only: sorted_wrt.simps sorted_wrt_append)
  show "sources_ok E comb [s] M"
    using types fits fresh sorted by (simp add: sources_ok_def control_cells_def sorted_wrt_append)
  show "sources_ok E comb ss M'" if same: "\<And>k :: value cell. cell_fits k M' = cell_fits k M"
  proof -
    have "list_all (\<lambda>k. cell_fits k M') (?b # ?rest)" unfolding same using fits by simp
    moreover have "list_all (\<lambda>t. list_all (\<lambda>k. cell_sep k (c64 E (fresh_tok t))) (?b # ?rest)) ss"
      using fresh by (auto simp: list_all_iff)
    ultimately show ?thesis
      using types sorted by (simp add: sources_ok_def control_cells_def sorted_wrt_append)
  qed
  show "list_all (\<lambda>j. cell_sep j k) (control_cells E comb [s])" if "k \<in> set ?rest"
    using comb [of k] across [OF _ that] that by (auto simp: control_cells_def list_all_iff simp del: split_paired_All)
  show "list_all (\<lambda>j. cell_sep j (c64 E (fresh_tok t))) (control_cells E comb [s])" if "t \<in> set ss"
    using fresh that by (simp add: control_cells_def list_all_iff)
  show "list_all (\<lambda>j. cell_sep j k) (control_cells E comb ss)" if k: "k \<in> set (source_cells E s)"
  proof -
    have "cell_sep j k" if "j \<in> set ?rest" for j
      using across [OF k that] cell_sep_sym by blast
    moreover have "cell_sep ?b k" using comb k by simp
    ultimately show ?thesis by (simp add: control_cells_def list.pred_set)
  qed
qed

lemma update_sources_effect:
  assumes "sources_ok E comb ss M" and "update_sources E accepted thr comb i ss M = (idx, M')"
  shows "idx = numbered (source_fresh E accepted thr M) i ss \<and>
    (\<forall>s\<in>set ss. (load_i64 E (fresh_last_tok s) M', load_u8 E (fresh_age_tok s) M') = source_result E accepted thr M s \<and>
        (load_flag E (connected_tok s) M' \<longleftrightarrow> source_fresh E accepted thr M s)) \<and>
    (load_flag E comb M' \<longleftrightarrow> load_flag E comb M \<or> (\<exists>s\<in>set ss. source_fresh E accepted thr M s)) \<and>
    (\<forall>k. list_all (\<lambda>j. cell_sep j k) (control_cells E comb ss) \<longrightarrow> read_cell k M' = read_cell k M) \<and>
    (\<forall>k :: value cell. cell_fits k M' = cell_fits k M)"
  using assms
proof (induction ss arbitrary: i idx M)
  case Nil
  then show ?case by simp
next
  case (Cons s ss)
  obtain c M1 where one: "update_source E accepted thr comb s M = (c, M1)" by fastforce
  obtain idx2 where rest: "update_sources E accepted thr comb (i + 1) ss M1 = (idx2, M')"
    and idx: "idx = (if c then (i + 1) # idx2 else idx2)"
    using Cons.prems(2) one by (auto split: prod.splits)
  note sp = sources_ok_split [OF Cons.prems(1)]
  obtain l' a' where res: "source_result E accepted thr M s = (l', a')" by fastforce
  note head = update_source_effect [OF sp(1) one res [unfolded source_result_def]]
  have ok1: "sources_ok E comb ss M1" by (rule sp(2)) (rule head(7))
  have same: "source_result E accepted thr M1 t = source_result E accepted thr M t" if t: "t \<in> set ss" for t
  proof -
    have "read_cell (c64 E (fresh_last_tok t)) M1 = read_cell (c64 E (fresh_last_tok t)) M"
      "read_cell (c8 E (fresh_age_tok t)) M1 = read_cell (c8 E (fresh_age_tok t)) M"
      by (rule head(6), rule sp(3), use t in \<open>force simp: source_cells_def\<close>)+
    moreover have "read_cell (c64 E (fresh_tok t)) M1 = read_cell (c64 E (fresh_tok t)) M"
      by (rule head(6), rule sp(4), rule t)
    ultimately show ?thesis by (simp add: source_result_def control_access)
  qed
  then have fresh: "source_fresh E accepted thr M1 t = source_fresh E accepted thr M t" if "t \<in> set ss" for t
    using that by (simp add: source_fresh_def)
  note IH = Cons.IH [OF ok1 rest]
  have keep: "read_cell k M' = read_cell k M1" if "k \<in> set (source_cells E s)" for k
    using IH sp(5) [OF that] by blast
  have c: "c \<longleftrightarrow> source_fresh E accepted thr M s" using head(1) by (simp add: source_fresh_def res)
  have hd_vals: "(load_i64 E (fresh_last_tok s) M', load_u8 E (fresh_age_tok s) M') = source_result E accepted thr M s"
    "load_flag E (connected_tok s) M' \<longleftrightarrow> source_fresh E accepted thr M s"
    using head(2-4) keep by (simp_all add: control_access source_cells_def res c)
  have idx': "idx = numbered (source_fresh E accepted thr M) i (s # ss)"
    using IH numbered_cong [OF fresh, where ss = ss] c by (simp add: idx)
  have others: "read_cell k M' = read_cell k M"
    if "list_all (\<lambda>j. cell_sep j k) (control_cells E comb (s # ss))" for k
  proof -
    have "list_all (\<lambda>j. cell_sep j k) (control_cells E comb [s])" "list_all (\<lambda>j. cell_sep j k) (control_cells E comb ss)"
      using that by (simp_all add: control_cells_def)
    then show ?thesis using head(6) IH by metis
  qed
  have comb: "load_flag E comb M' \<longleftrightarrow> load_flag E comb M \<or> (\<exists>t\<in>set (s # ss). source_fresh E accepted thr M t)"
    using IH head(5) fresh by (auto simp: c)
  have vals: "(load_i64 E (fresh_last_tok t) M', load_u8 E (fresh_age_tok t) M') = source_result E accepted thr M t \<and>
        (load_flag E (connected_tok t) M' \<longleftrightarrow> source_fresh E accepted thr M t)" if "t \<in> set (s # ss)" for t
  proof (cases "t \<in> set ss")
    case True
    then show ?thesis using IH same [OF True] fresh [OF True] by simp
  next
    case False
    then show ?thesis using that hd_vals by simp
  qed
  have sizes: "cell_fits k M' = cell_fits k M" for k :: "value cell"
    using IH head(7) [of k] by blast
  show ?case
    using idx' vals comb others sizes by blast
qed

section \<open>Outputs\<close>

text \<open>
  The output slots of the bins: the type, the IDs of the bin and the start of a group. A plain
  type copies its values as they are and can encode what it decodes; its median is one of the
  three values.
\<close>

type_synonym 'id slot = "elem_type \<times> 'id list \<times> nat"

definition out_cell :: "('id, 'v) combiner_env \<Rightarrow> 'id slot \<Rightarrow> value cell" where
  "out_cell E a = (case a of (t, ids, i) \<Rightarrow> cell_of (ce_mem E) (ce_vtype E t) (ids ! i))"

definition in_cell :: "('id, 'v) combiner_env \<Rightarrow> 'id slot \<Rightarrow> nat \<Rightarrow> value cell" where
  "in_cell E a src = (case a of (t, ids, i) \<Rightarrow> cell_of (ce_mem E) (ce_vtype E t) (ids ! (i + src)))"

definition bin_slots :: "nat \<Rightarrow> 'id element_bin \<Rightarrow> 'id slot list" where
  "bin_slots stride b =
     (case bin_type b of
        None \<Rightarrow> []
      | Some t \<Rightarrow> map (\<lambda>i. (t, bin_ids b, i)) (strides (length (bin_ids b)) stride))"

definition slots :: "'id combiner \<Rightarrow> 'id slot list" where
  "slots C = concat (map (bin_slots (num_sources C + 1)) (bins C))"

definition plain_type :: "value vtype \<Rightarrow> bool" where
  "plain_type ty \<longleftrightarrow>
     (\<forall>v d. vt_copy ty v d = (True, v)) \<and>
     (\<forall>bs. length bs = vt_size ty \<longrightarrow>
        length (vt_enc ty (vt_dec ty bs)) = vt_size ty \<and> vt_dec ty (vt_enc ty (vt_dec ty bs)) = vt_dec ty bs) \<and>
     (\<forall>a b c. vt_median3 ty a b c \<in> {a, b, c})"

definition slot_ok :: "('id, 'v) combiner_env \<Rightarrow> 'id slot \<Rightarrow> bool" where
  "slot_ok E a \<longleftrightarrow> (case a of (t, ids, i) \<Rightarrow>
     plain_type (ce_vtype E t) \<and> (\<exists>l. me_breakdown (ce_mem E) (ids ! i) = (True, False, l)))"

text \<open>The value of a slot when the sources \<open>indices\<close> are used.\<close>

definition slot_value :: "('id, 'v) combiner_env \<Rightarrow> nat list \<Rightarrow> 'id slot \<Rightarrow> ('id, 'v) slate_mem \<Rightarrow> value" where
  "slot_value E indices a M =
     (let ty = ce_vtype E (fst a); val = (\<lambda>src. read_cell (in_cell E a src) M) in
      if length indices = 1 then val (indices ! 0)
      else if length indices = 2 then std_max ty (val (indices ! 0)) (val (indices ! 1))
      else vt_median3 ty (val 1) (val 2) (val 3))"

lemma store_slot:
  assumes "slot_ok E (t, ids, i)"
  shows "store_as E t (ids ! i) v M = (True, write_cell (out_cell E (t, ids, i)) v M)"
proof -
  obtain l where "me_breakdown (ce_mem E) (ids ! i) = (True, False, l)"
    "\<forall>v d. vt_copy (ce_vtype E t) v d = (True, v)"
    using assms by (auto simp: slot_ok_def plain_type_def)
  then show ?thesis
    using store_plain [of "ce_mem E" "ids ! i" l "ce_vtype E t" v M True v] by (simp add: store_as_def out_cell_def)
qed

lemma load_slot: "load_as E t (ids ! (i + src)) M = read_cell (in_cell E (t, ids, i) src) M"
  by (simp add: load_as_def load_cell in_cell_def)

lemma bin_apply_slots:
  assumes "\<forall>i\<in>set (strides (length ids) st). slot_ok E (t, ids, i)"
  shows "bin_apply E t st val ids M =
    (True, fold (\<lambda>i N. write_cell (out_cell E (t, ids, i)) (val i N) N) (strides (length ids) st) M)"
proof -
  have "fold (\<lambda>i (success, M). case store_as E t (ids ! i) (val i M) M of (ok, M') \<Rightarrow> (success \<and> ok, M')) is (True, N) =
      (True, fold (\<lambda>i N. write_cell (out_cell E (t, ids, i)) (val i N) N) is N)"
    if "\<forall>i\<in>set is. slot_ok E (t, ids, i)" for "is" N
    using that by (induction "is" arbitrary: N) (simp_all add: store_slot)
  then show ?thesis using assms by (simp add: bin_apply_def)
qed

lemma for_bins_slots:
  assumes "\<And>b t M. b \<in> set bs \<Longrightarrow> bin_type b = Some t \<Longrightarrow> f t (bin_ids b) M =
      (True, fold (\<lambda>i N. write_cell (out_cell E (t, bin_ids b, i)) (val (t, bin_ids b, i) N) N)
               (strides (length (bin_ids b)) st) M)"
    and "\<forall>b\<in>set bs. bin_type b \<noteq> None"
  shows "for_bins f bs M =
    Some (fold (\<lambda>a N. write_cell (out_cell E a) (val a N) N) (concat (map (bin_slots st) bs)) M)"
  using assms
proof (induction bs arbitrary: M)
  case Nil
  then show ?case by simp
next
  case (Cons b bs)
  obtain t where t: "bin_type b = Some t" using Cons.prems(2) by auto
  have "fold (\<lambda>a N. write_cell (out_cell E a) (val a N) N) (bin_slots st b) M =
      fold (\<lambda>i N. write_cell (out_cell E (t, bin_ids b, i)) (val (t, bin_ids b, i) N) N)
        (strides (length (bin_ids b)) st) M"
    by (simp add: bin_slots_def t fold_map comp_def)
  then show ?case using Cons t by simp
qed

text \<open>The sources that are used, of those connected.\<close>

definition inputs_agree :: "('id, 'v) combiner_env \<Rightarrow> 'id combiner \<Rightarrow> nat \<Rightarrow> nat \<Rightarrow> ('id, 'v) slate_mem \<Rightarrow> bool" where
  "inputs_agree E C src1 src2 M \<longleftrightarrow>
     list_all (\<lambda>a. vt_eq (ce_vtype E (fst a)) (read_cell (in_cell E a src1) M) (read_cell (in_cell E a src2) M)) (slots C)"

definition selected :: "('id, 'v) combiner_env \<Rightarrow> 'id combiner \<Rightarrow> nat list \<Rightarrow> ('id, 'v) slate_mem \<Rightarrow> nat list" where
  "selected E C connected M =
     (if \<not> downselect C then connected
      else if length connected = 3 then [if inputs_agree E C 2 3 M then 2 else 1]
      else take 1 connected)"

text \<open>What is required of the placement of the elements.\<close>

definition combiner_ok :: "('id, 'v) combiner_env \<Rightarrow> 'id combiner \<Rightarrow> ('id, 'v) slate_mem \<Rightarrow> bool" where
  "combiner_ok E C M \<longleftrightarrow>
     is_init C \<and> length (sources C) = num_sources C \<and> num_sources C \<le> num_sources_max \<and>
     sources_ok E (combined_connected_tok C) (sources C) M \<and>
     list_all (\<lambda>b. bin_type b \<noteq> None) (bins C) \<and> list_all (slot_ok E) (slots C) \<and>
     list_all (\<lambda>a. cell_fits (out_cell E a) M) (slots C) \<and>
     sorted_wrt (\<lambda>a b. cell_sep (out_cell E a) (out_cell E b)) (slots C) \<and>
     (\<forall>b\<in>set (slots C). \<forall>src\<in>{1..num_sources C}. cell_fits (in_cell E b src) M \<and>
        (\<forall>a\<in>set (slots C). cell_sep (out_cell E a) (in_cell E b src)) \<and>
        (\<forall>c\<in>set (control_cells E (combined_connected_tok C) (sources C)). cell_sep c (in_cell E b src))) \<and>
     (\<forall>a\<in>set (slots C). \<forall>c\<in>set (control_cells E (combined_connected_tok C) (sources C)). cell_sep c (out_cell E a))"

lemma numbered_bounds: "j \<in> set (numbered P i ss) \<Longrightarrow> i < j \<and> j \<le> i + length ss"
  by (induction ss arbitrary: i) (fastforce split: if_splits)+

lemma numbered_mem: "j \<in> set (numbered P i ss) \<longleftrightarrow> (\<exists>k<length ss. j = i + k + 1 \<and> P (ss ! k))"
proof (induction ss arbitrary: i)
  case Nil
  then show ?case by simp
next
  case (Cons s ss)
  have "(\<exists>k<length (s # ss). j = i + k + 1 \<and> P ((s # ss) ! k)) \<longleftrightarrow>
      (j = i + 1 \<and> P s) \<or> (\<exists>k<length ss. j = i + 1 + k + 1 \<and> P (ss ! k))"
    by (simp add: Ex_less_Suc2)
  then show ?case by (simp add: Cons.IH)
qed

lemma numbered_length: "length (numbered P i ss) \<le> length ss"
  by (induction ss arbitrary: i) (auto simp: le_SucI)

lemma numbered_empty: "numbered P i ss = [] \<longleftrightarrow> (\<forall>s\<in>set ss. \<not> P s)"
  by (induction ss arbitrary: i) auto

lemma bin_eq_slots:
  assumes "is_init C" and "bin_type b = Some t"
  shows "bin_eq E C t s1 s2 (bin_ids b) r M =
    (True, r \<and> list_all (\<lambda>a. vt_eq (ce_vtype E (fst a)) (read_cell (in_cell E a s1) M) (read_cell (in_cell E a s2) M))
                (bin_slots (num_sources C + 1) b))"
proof -
  have "fold (\<lambda>i r. r \<and> Q i) is r \<longleftrightarrow> r \<and> list_all Q is" for Q and "is" :: "nat list" and r
    by (induction "is" arbitrary: r) auto
  then show ?thesis
    using assms by (simp add: bin_eq_def bin_slots_def load_slot list.pred_map comp_def)
qed

lemma downselect_selected:
  assumes "is_init C" and "list_all (\<lambda>b. bin_type b \<noteq> None) (bins C)" and "length connected \<le> 3" and "downselect C"
  shows "downselect_indices E C connected M = Some (selected E C connected M)"
proof -
  have "for_bins (\<lambda>t ids b_eq_c. bin_eq E C t 2 3 ids b_eq_c M) bs r =
      Some (r \<and> list_all (\<lambda>a. vt_eq (ce_vtype E (fst a)) (read_cell (in_cell E a 2) M) (read_cell (in_cell E a 3) M))
                  (concat (map (bin_slots (num_sources C + 1)) bs)))"
    if "list_all (\<lambda>b. bin_type b \<noteq> None) bs" for bs r
    using that by (induction bs arbitrary: r) (auto simp: bin_eq_slots [OF assms(1)])
  from this [OF assms(2), of True]
  have all: "for_bins (\<lambda>t ids b_eq_c. bin_eq E C t 2 3 ids b_eq_c M) (bins C) True = Some (inputs_agree E C 2 3 M)"
    by (simp add: inputs_agree_def slots_def)
  have "length connected = 0 \<or> length connected = 1 \<or> length connected = 2 \<or> length connected = 3"
    using assms(3) by linarith
  then show ?thesis
    using assms(4) all by (auto simp: downselect_indices_def selected_def)
qed

text \<open>The loops over the bins, as one run over all slots.\<close>

definition run_slots :: "('id, 'v) combiner_env \<Rightarrow> nat list \<Rightarrow> 'id combiner \<Rightarrow> ('id, 'v) slate_mem \<Rightarrow> ('id, 'v) slate_mem" where
  "run_slots E indices C M = fold (\<lambda>a N. write_cell (out_cell E a) (slot_value E indices a N) N) (slots C) M"

lemma bins_run:
  assumes init: "is_init C" and types: "list_all (\<lambda>b. bin_type b \<noteq> None) (bins C)"
    and slots: "list_all (slot_ok E) (slots C)"
  shows "length indices = 1 \<Longrightarrow>
      for_bins (\<lambda>t ids M. bin_copy E C t (indices ! 0) ids M) (bins C) M = Some (run_slots E indices C M)"
    and "length indices = 2 \<Longrightarrow>
      for_bins (\<lambda>t ids M. bin_max E C t (indices ! 0) (indices ! 1) ids M) (bins C) M = Some (run_slots E indices C M)"
    and "length indices = 3 \<Longrightarrow> num_sources C = 3 \<Longrightarrow>
      for_bins (\<lambda>t ids M. bin_median E C t ids M) (bins C) M = Some (run_slots E indices C M)"
proof -
  have ok: "\<forall>i\<in>set (strides (length (bin_ids b)) (num_sources C + 1)). slot_ok E (t, bin_ids b, i)"
    if "b \<in> set (bins C)" "bin_type b = Some t" for b t
    using slots that by (auto simp: list_all_iff slots_def bin_slots_def)
  have ty: "\<forall>b\<in>set (bins C). bin_type b \<noteq> None" using types by (simp add: list_all_iff)
  note apply_slots = bin_apply_slots [OF ok]
  show "for_bins (\<lambda>t ids M. bin_copy E C t (indices ! 0) ids M) (bins C) M = Some (run_slots E indices C M)"
    if "length indices = 1"
    unfolding run_slots_def slots_def
    by (rule for_bins_slots [OF _ ty])
       (simp add: bin_copy_def init apply_slots load_slot slot_value_def that del: One_nat_def)
  show "for_bins (\<lambda>t ids M. bin_max E C t (indices ! 0) (indices ! 1) ids M) (bins C) M = Some (run_slots E indices C M)"
    if "length indices = 2"
    unfolding run_slots_def slots_def
    by (rule for_bins_slots [OF _ ty])
       (simp add: bin_max_def init apply_slots load_slot slot_value_def that del: One_nat_def)
  have median: "bin_median E C t ids M = bin_apply E t 4
      (\<lambda>i M. vt_median3 (ce_vtype E t) (read_cell (in_cell E (t, ids, i) 1) M)
        (read_cell (in_cell E (t, ids, i) 2) M) (read_cell (in_cell E (t, ids, i) 3) M)) ids M"
    if "num_sources C = 3" for t ids M
    unfolding bin_median_def load_slot using init that by (simp add: num_sources_max_def)
  show "for_bins (\<lambda>t ids M. bin_median E C t ids M) (bins C) M = Some (run_slots E indices C M)"
    if len: "length indices = 3" and n: "num_sources C = 3"
    unfolding run_slots_def slots_def
    using apply_slots
    by (intro for_bins_slots [OF _ ty]) (simp add: median [OF n] slot_value_def len n)
qed

text \<open>The values written are values the output can hold.\<close>

lemma read_good:
  assumes "plain_type ty" and "cell_fits (l, ty) M"
  shows "cell_good (l', ty) (read_cell (l, ty) M)"
proof -
  have "length (take (vt_size ty) (drop (snd l) (ab_mem (sm_tables M (fst l))))) = vt_size ty"
    using assms(2) by (simp add: cell_fits_def)
  then show ?thesis
    using assms(1) by (simp add: cell_good_def read_cell_def read_at_def plain_type_def)
qed

lemma slot_value_good:
  assumes a: "slot_ok E a" and fits: "\<forall>src\<in>{1..n}. cell_fits (in_cell E a src) M"
    and idx: "set indices \<subseteq> {1..n}" "length indices = 1 \<or> length indices = 2 \<or> length indices = 3 \<and> n = 3"
  shows "cell_good (out_cell E a) (slot_value E indices a M)"
proof -
  obtain t ids i where a': "a = (t, ids, i)" by (cases a)
  have plain: "plain_type (ce_vtype E t)" using a by (simp add: a' slot_ok_def)
  have val: "cell_good (out_cell E a) (read_cell (in_cell E a src) M)" if "src \<in> {1..n}" for src
  proof -
    have "cell_fits (load_element_r (ce_mem E) (ids ! (i + src)), ce_vtype E t) M"
      using fits that by (simp add: a' in_cell_def cell_of_def)
    from read_good [OF plain this] show ?thesis by (simp add: a' in_cell_def out_cell_def cell_of_def)
  qed
  have med: "vt_median3 (ce_vtype E t) x y z \<in> {x, y, z}" for x y z
    using plain by (simp add: plain_type_def)
  consider (one) "length indices = 1" | (two) "length indices = 2" | (three) "length indices = 3" "n = 3"
    using idx(2) by blast
  then show ?thesis
  proof cases
    case one
    then have "indices ! 0 \<in> set indices" by simp
    then have "indices ! 0 \<in> {1..n}" using idx(1) by blast
    then show ?thesis using val one by (simp add: slot_value_def)
  next
    case two
    then have "indices ! 0 \<in> set indices" "indices ! 1 \<in> set indices" by simp_all
    then have "indices ! 0 \<in> {1..n}" "indices ! 1 \<in> {1..n}" using idx(1) by blast+
    then show ?thesis using val two by (simp add: slot_value_def std_max_def)
  next
    case three
    then have "cell_good (out_cell E a) (read_cell (in_cell E a 1) M)"
      "cell_good (out_cell E a) (read_cell (in_cell E a 2) M)" "cell_good (out_cell E a) (read_cell (in_cell E a 3) M)"
      using val by auto
    then show ?thesis
      using med [of "read_cell (in_cell E a 1) M" "read_cell (in_cell E a 2) M" "read_cell (in_cell E a 3) M"]
      by (auto simp: slot_value_def three a')
  qed
qed

text \<open>The whole of \<open>validate_and_combine\<close>, in terms of the values before the call.\<close>

lemma run_slots_effect:
  assumes ok: "list_all (slot_ok E) (slots C)" and fits: "list_all (\<lambda>a. cell_fits (out_cell E a) M) (slots C)"
    and sorted: "sorted_wrt (\<lambda>a b. cell_sep (out_cell E a) (out_cell E b)) (slots C)"
    and ins: "\<forall>b\<in>set (slots C). \<forall>src\<in>{1..num_sources C}. cell_fits (in_cell E b src) M \<and>
        (\<forall>a\<in>set (slots C). cell_sep (out_cell E a) (in_cell E b src))"
    and idx: "set indices \<subseteq> {1..num_sources C}"
      "length indices = 1 \<or> length indices = 2 \<or> length indices = 3 \<and> num_sources C = 3"
  shows "a \<in> set (slots C) \<Longrightarrow> read_cell (out_cell E a) (run_slots E indices C M) = slot_value E indices a M"
    and "\<forall>a\<in>set (slots C). cell_sep (out_cell E a) k \<Longrightarrow> read_cell k (run_slots E indices C M) = read_cell k M"
proof -
  let ?K = "{in_cell E b src | b src. b \<in> set (slots C) \<and> src \<in> {1..num_sources C}}"
  let ?ws = "map (\<lambda>a. (out_cell E a, slot_value E indices a M)) (slots C)"
  have good: "cell_good (out_cell E a) (slot_value E indices a M)" if "a \<in> set (slots C)" for a
    using ok ins that idx by (intro slot_value_good [of _ _ "num_sources C"]) (auto simp: list_all_iff)
  have vals: "slot_value E indices a N = slot_value E indices a M"
    if a: "a \<in> set (slots C)" and N: "\<forall>k\<in>?K. read_cell k N = read_cell k M" for a and N :: "('a, 'b) slate_mem"
  proof -
    have val: "read_cell (in_cell E a src) N = read_cell (in_cell E a src) M" if "src \<in> {1..num_sources C}" for src
      using N a that by blast
    have "indices ! j \<in> {1..num_sources C}" if "j < length indices" for j
      using idx(1) nth_mem [OF that] by blast
    then show ?thesis
      using idx(2) val by (auto simp: slot_value_def)
  qed
  have run: "run_slots E indices C M = cells.write_all ?ws M"
    unfolding run_slots_def
  proof (rule cells.chain_write_all [where K = ?K])
    show "\<forall>k\<in>?K. read_cell k M = read_cell k M" by simp
    show "\<forall>a\<in>set (slots C). cell_fits (out_cell E a) M \<and> cell_good (out_cell E a) (slot_value E indices a M)"
      using fits good by (simp add: list_all_iff)
    show "\<forall>a\<in>set (slots C). \<forall>k\<in>?K. cell_sep (out_cell E a) k" using ins by blast
  qed (rule vals)
  have w: "\<forall>(k, x)\<in>set ?ws. cell_fits k M \<and> cell_good k x"
    using fits good by (auto simp: list_all_iff)
  have "sorted_wrt (\<lambda>a b. cell_sep (out_cell E b) (out_cell E a)) (slots C)"
    using sorted by (rule sorted_wrt_mono_rel [rotated]) (simp only: cell_sep_sym)
  then have pair: "sorted_wrt (\<lambda>a b. cell_sep (fst b) (fst a)) ?ws" by (simp add: sorted_wrt_map)
  show "read_cell (out_cell E a) (run_slots E indices C M) = slot_value E indices a M" if a: "a \<in> set (slots C)"
  proof -
    have "(out_cell E a, slot_value E indices a M) \<in> set ?ws" using a by simp
    from cells.write_all_reads [OF w pair this] show ?thesis by (simp only: run)
  qed
  show "read_cell k (run_slots E indices C M) = read_cell k M"
    if sep: "\<forall>a\<in>set (slots C). cell_sep (out_cell E a) k"
  proof -
    have "\<forall>(j, x)\<in>set ?ws. cell_fits j M \<and> cell_good j x \<and> cell_sep j k"
      using w sep by auto
    from cells.write_all_other [OF this] show ?thesis by (simp only: run)
  qed
qed

lemma selected_bounds:
  assumes "conn = numbered P 0 ss" and "length ss = num_sources C" and "num_sources C \<le> 3"
  shows "set (selected E C conn M) \<subseteq> {1..num_sources C}"
    and "selected E C conn M = [] \<longleftrightarrow> conn = []"
    and "selected E C conn M \<noteq> [] \<Longrightarrow> length (selected E C conn M) = 1 \<or> length (selected E C conn M) = 2 \<or>
        length (selected E C conn M) = 3 \<and> num_sources C = 3"
proof -
  have bounds: "set conn \<subseteq> {1..num_sources C}"
    using numbered_bounds [of _ P 0 ss] assms(1,2) by (auto simp: Suc_le_eq)
  have len: "length conn \<le> num_sources C" using numbered_length [of P 0 ss] assms(1,2) by simp
  show "set (selected E C conn M) \<subseteq> {1..num_sources C}"
    using bounds len assms(3) set_take_subset [of 1 conn] by (auto simp: selected_def)
  show "selected E C conn M = [] \<longleftrightarrow> conn = []" by (auto simp: selected_def)
  assume "selected E C conn M \<noteq> []"
  then have "conn \<noteq> []" by (auto simp: selected_def split: if_splits)
  then have "length conn = 1 \<or> length conn = 2 \<or> length conn = 3 \<and> num_sources C = 3"
    using len assms(3) by (cases "length conn") auto
  then show "length (selected E C conn M) = 1 \<or> length (selected E C conn M) = 2 \<or>
        length (selected E C conn M) = 3 \<and> num_sources C = 3"
    by (auto simp: selected_def)
qed

text \<open>Two memories that agree on the inputs select the same sources and give the same values.\<close>

lemma same_inputs:
  assumes agree: "\<forall>b\<in>set (slots C). \<forall>src\<in>{1..num_sources C}. read_cell (in_cell E b src) N = read_cell (in_cell E b src) M"
  shows "length conn \<le> num_sources C \<Longrightarrow> selected E C conn N = selected E C conn M"
    and "a \<in> set (slots C) \<Longrightarrow> set idx \<subseteq> {1..num_sources C} \<Longrightarrow>
      length idx = 1 \<or> length idx = 2 \<or> length idx = 3 \<and> num_sources C = 3 \<Longrightarrow>
      slot_value E idx a N = slot_value E idx a M"
proof -
  show "selected E C conn N = selected E C conn M" if "length conn \<le> num_sources C"
  proof (cases "length conn = 3")
    case True
    then have "inputs_agree E C 2 3 N = inputs_agree E C 2 3 M"
      using agree that unfolding inputs_agree_def by (intro list.pred_cong) auto
    then show ?thesis by (simp add: selected_def)
  next
    case False
    then show ?thesis by (simp add: selected_def)
  qed
  assume a: "a \<in> set (slots C)" and idx: "set idx \<subseteq> {1..num_sources C}"
    and len: "length idx = 1 \<or> length idx = 2 \<or> length idx = 3 \<and> num_sources C = 3"
  have val: "read_cell (in_cell E a src) N = read_cell (in_cell E a src) M" if "src \<in> {1..num_sources C}" for src
    using agree a that by blast
  have "idx ! j \<in> {1..num_sources C}" if "j < length idx" for j
    using idx nth_mem [OF that] by blast
  then show "slot_value E idx a N = slot_value E idx a M"
    using len val by (auto simp: slot_value_def)
qed

lemma start_cycle:
  assumes ok: "sources_ok E comb ss M"
  shows "sources_ok E comb ss (set_flag E comb False M)"
    and "\<not> load_flag E comb (set_flag E comb False M)"
    and "cell_sep (cB E comb) k \<Longrightarrow> read_cell k (set_flag E comb False M) = read_cell k M"
    and "cell_fits (j :: value cell) (set_flag E comb False M) = cell_fits j M"
    and "s \<in> set ss \<Longrightarrow> source_result E accepted thr (set_flag E comb False M) s = source_result E accepted thr M s"
proof -
  have types: "control_types_ok E" and fits: "cell_fits (cB E comb) M"
    using ok by (simp_all add: sources_ok_def control_cells_def)
  note good = control_good [OF types]
  show same: "cell_fits (j :: value cell) (set_flag E comb False M) = cell_fits j M" for j
    by (simp only: control_access cells.fits_wr [OF fits good(3)])
  then show "sources_ok E comb ss (set_flag E comb False M)"
    using ok by (simp add: sources_ok_def del: split_paired_All)
  show "\<not> load_flag E comb (set_flag E comb False M)"
    by (simp add: control_access cells.rd_wr [OF fits good(3)])
  show other: "cell_sep (cB E comb) k \<Longrightarrow> read_cell k (set_flag E comb False M) = read_cell k M" for k
    using cells.rd_wr_sep [OF _ fits good(3)] by (simp add: control_access)
  assume s: "s \<in> set ss"
  then have "cell_sep (cB E comb) (c64 E (fresh_tok s))" "cell_sep (cB E comb) (c64 E (fresh_last_tok s))"
    "cell_sep (cB E comb) (c8 E (fresh_age_tok s))"
    using ok by (auto simp: sources_ok_def control_cells_def list_all_iff source_cells_def)
  then show "source_result E accepted thr (set_flag E comb False M) s = source_result E accepted thr M s"
    by (simp add: source_result_def other control_access(1,2))
qed

lemma combine_effect:
  fixes accepted :: "64 word"
  assumes ok: "combiner_ok E C M"
  defines "ss \<equiv> sources C" and "comb \<equiv> combined_connected_tok C"
    and "fresh \<equiv> source_fresh E accepted (stale_threshold C) M"
    and "idx \<equiv> selected E C (numbered (source_fresh E accepted (stale_threshold C) M) 0 (sources C)) M"
  shows "\<exists>M'. validate_and_combine E accepted C M = Some (True, M') \<and>
    (\<forall>s\<in>set ss. (load_i64 E (fresh_last_tok s) M', load_u8 E (fresh_age_tok s) M') =
         source_result E accepted (stale_threshold C) M s \<and> (load_flag E (connected_tok s) M' \<longleftrightarrow> fresh s)) \<and>
    (load_flag E comb M' \<longleftrightarrow> (\<exists>s\<in>set ss. fresh s)) \<and>
    (\<forall>a\<in>set (slots C). read_cell (out_cell E a) M' =
       (if idx = [] then read_cell (out_cell E a) M else slot_value E idx a M))"
proof -
  let ?M0 = "set_flag E comb False M" and ?conn = "numbered fresh 0 ss"
  obtain conn M1 where upd: "update_sources E accepted (stale_threshold C) comb 0 ss ?M0 = (conn, M1)" by fastforce
  have src: "sources_ok E comb ss M" and n: "length ss = num_sources C" "num_sources C \<le> 3"
    and init: "is_init C" and types: "list_all (\<lambda>b. bin_type b \<noteq> None) (bins C)"
    and slot: "list_all (slot_ok E) (slots C)"
    and out_fits: "list_all (\<lambda>a. cell_fits (out_cell E a) M) (slots C)"
    and sorted: "sorted_wrt (\<lambda>a b. cell_sep (out_cell E a) (out_cell E b)) (slots C)"
    and ins: "\<forall>b\<in>set (slots C). \<forall>src\<in>{1..num_sources C}. cell_fits (in_cell E b src) M \<and>
        (\<forall>a\<in>set (slots C). cell_sep (out_cell E a) (in_cell E b src)) \<and>
        (\<forall>c\<in>set (control_cells E comb ss). cell_sep c (in_cell E b src))"
    and outs: "\<forall>a\<in>set (slots C). \<forall>c\<in>set (control_cells E comb ss). cell_sep c (out_cell E a)"
    using ok unfolding combiner_ok_def ss_def comb_def num_sources_max_def by blast+
  note start = start_cycle [OF src]
  have res: "source_result E accepted (stale_threshold C) ?M0 s = source_result E accepted (stale_threshold C) M s"
    if "s \<in> set ss" for s using start(5) [OF that] .
  then have fr: "source_fresh E accepted (stale_threshold C) ?M0 s = fresh s" if "s \<in> set ss" for s
    using that by (simp add: source_fresh_def fresh_def)
  note eff = update_sources_effect [OF start(1) upd]
  have conn: "conn = ?conn" using eff numbered_cong [OF fr] by simp
  have unchanged: "read_cell k M1 = read_cell k M" if "\<forall>c\<in>set (control_cells E comb ss). cell_sep c k" for k
  proof -
    have "read_cell k M1 = read_cell k ?M0" using eff that by (simp add: list_all_iff del: split_paired_All)
    also have "\<dots> = read_cell k M" using start(3) that by (simp add: control_cells_def)
    finally show ?thesis .
  qed
  have sizes: "cell_fits k M1 = cell_fits k M" for k :: "value cell"
    using eff start(4) [of k] by blast
  have agree: "\<forall>b\<in>set (slots C). \<forall>src\<in>{1..num_sources C}. read_cell (in_cell E b src) M1 = read_cell (in_cell E b src) M"
    using unchanged ins by blast
  have clen: "length ?conn \<le> num_sources C" using numbered_length [of fresh 0 ss] n by simp
  have sel: "(if downselect C then downselect_indices E C conn M1 else Some conn) = Some idx"
  proof (cases "downselect C")
    case True
    have "downselect_indices E C conn M1 = Some (selected E C conn M1)"
      using downselect_selected [OF init types _ True, of conn] clen n(2) by (simp add: conn)
    then show ?thesis
      using same_inputs(1) [OF agree clen] True by (simp add: conn idx_def fresh_def ss_def)
  next
    case False
    then show ?thesis by (simp add: conn idx_def selected_def fresh_def ss_def)
  qed
  note b = selected_bounds [of ?conn fresh ss C E M, OF refl n]
  have idx: "idx = selected E C ?conn M" by (simp add: idx_def fresh_def ss_def)
  have control: "(\<forall>s\<in>set ss. (load_i64 E (fresh_last_tok s) M1, load_u8 E (fresh_age_tok s) M1) =
         source_result E accepted (stale_threshold C) M s \<and> (load_flag E (connected_tok s) M1 \<longleftrightarrow> fresh s)) \<and>
    (load_flag E comb M1 \<longleftrightarrow> (\<exists>s\<in>set ss. fresh s))"
    using eff res fr start(2) by simp
  have start_eq: "validate_and_combine E accepted C M =
      map_option (Pair True)
        (if length idx = 1 then for_bins (\<lambda>t ids M. bin_copy E C t (idx ! 0) ids M) (bins C) M1
         else if length idx = 2 then for_bins (\<lambda>t ids M. bin_max E C t (idx ! 0) (idx ! 1) ids M) (bins C) M1
         else if length idx = 3 then for_bins (\<lambda>t ids M. bin_median E C t ids M) (bins C) M1
         else Some M1)"
    using upd sel init n by (simp add: validate_and_combine_def ss_def comb_def num_sources_max_def Let_def)
  show ?thesis
  proof (cases "idx = []")
    case True
    have "validate_and_combine E accepted C M = Some (True, M1)" by (simp add: start_eq True)
    moreover have "\<forall>a\<in>set (slots C). read_cell (out_cell E a) M1 = read_cell (out_cell E a) M"
      using unchanged outs by blast
    ultimately show ?thesis using control True by auto
  next
    case False
    let ?M' = "run_slots E idx C M1"
    have len: "length idx = 1 \<or> length idx = 2 \<or> length idx = 3 \<and> num_sources C = 3" and sub: "set idx \<subseteq> {1..num_sources C}"
      using b(1,3) False by (simp_all add: idx)
    have ins1: "\<forall>b\<in>set (slots C). \<forall>src\<in>{1..num_sources C}. cell_fits (in_cell E b src) M1 \<and>
        (\<forall>a\<in>set (slots C). cell_sep (out_cell E a) (in_cell E b src))"
      unfolding sizes using ins by blast
    have fits1: "list_all (\<lambda>a. cell_fits (out_cell E a) M1) (slots C)" unfolding sizes by (rule out_fits)
    note run = run_slots_effect [OF slot fits1 sorted ins1 sub len]
    have result: "validate_and_combine E accepted C M = Some (True, ?M')"
      using len bins_run [OF init types slot] by (auto simp: start_eq)
    have keep: "read_cell c ?M' = read_cell c M1" if "c \<in> set (control_cells E comb ss)" for c
      using run(2) [of c] outs that cell_sep_sym by blast
    have "(\<forall>s\<in>set ss. (load_i64 E (fresh_last_tok s) ?M', load_u8 E (fresh_age_tok s) ?M') =
         source_result E accepted (stale_threshold C) M s \<and> (load_flag E (connected_tok s) ?M' \<longleftrightarrow> fresh s)) \<and>
      (load_flag E comb ?M' \<longleftrightarrow> (\<exists>s\<in>set ss. fresh s))"
    proof -
      have "read_cell c ?M' = read_cell c M1" if "s \<in> set ss" "c \<in> set (source_cells E s)" for c s
        by (rule keep) (use that in \<open>auto simp: control_cells_def\<close>)
      then have "read_cell (c64 E (fresh_last_tok s)) ?M' = read_cell (c64 E (fresh_last_tok s)) M1"
        "read_cell (c8 E (fresh_age_tok s)) ?M' = read_cell (c8 E (fresh_age_tok s)) M1"
        "read_cell (cB E (connected_tok s)) ?M' = read_cell (cB E (connected_tok s)) M1" if "s \<in> set ss" for s
        using that by (simp_all add: source_cells_def)
      moreover have "read_cell (cB E comb) ?M' = read_cell (cB E comb) M1"
        using keep by (simp add: control_cells_def)
      ultimately show ?thesis using control by (simp add: control_access)
    qed
    moreover have "read_cell (out_cell E a) ?M' = slot_value E idx a M" if "a \<in> set (slots C)" for a
      using run(1) [OF that] same_inputs(2) [OF agree that sub len] by simp
    ultimately show ?thesis using result False by auto
  qed
qed

section \<open>A concrete combiner\<close>

text \<open>
  Three sources with one 8-bit element, every element in a shard of its own: an ID is a shard
  number. Integers are stored with the least significant byte first.
\<close>

definition enc64 :: "64 word \<Rightarrow> byte list" where
  "enc64 w = map (\<lambda>k. ucast (drop_bit (8 * k) w)) [0..<8]"

definition dec64 :: "byte list \<Rightarrow> 64 word" where
  "dec64 bs = fold (\<lambda>k w. w OR push_bit (8 * k) (ucast (bs ! k))) [0..<8] 0"

lemma dec_enc64: "dec64 (enc64 w) = w"
proof (rule bit_word_eqI)
  fix n assume "n < LENGTH(64)"
  then have n: "n < 64" by simp
  have fold_bit: "bit (fold (\<lambda>k v. v OR g k) ks v) n \<longleftrightarrow> bit v n \<or> (\<exists>k\<in>set ks. bit (g k) n)"
    for g :: "nat \<Rightarrow> 64 word" and ks v
    by (induction ks arbitrary: v) (auto simp: bit_simps)
  have piece: "bit (push_bit (8 * k) (ucast (enc64 w ! k) :: 64 word)) n \<longleftrightarrow> n div 8 = k \<and> bit w n"
    if "k < 8" for k
  proof -
    have "bit (push_bit (8 * k) (ucast (enc64 w ! k) :: 64 word)) n \<longleftrightarrow> 8 * k \<le> n \<and> n - 8 * k < 8 \<and> bit w n"
      using that n by (auto simp: enc64_def bit_simps)
    moreover have "8 * k \<le> n \<and> n - 8 * k < 8 \<longleftrightarrow> n div 8 = k" by auto
    ultimately show ?thesis by auto
  qed
  have "bit (dec64 (enc64 w)) n \<longleftrightarrow> (\<exists>k\<in>{0..<8}. n div 8 = k \<and> bit w n)"
    unfolding dec64_def fold_bit using piece by auto
  also have "\<dots> \<longleftrightarrow> bit w n" using n by auto
  finally show "bit (dec64 (enc64 w)) n \<longleftrightarrow> bit w n" .
qed

definition u8_less :: "value \<Rightarrow> value \<Rightarrow> bool" where
  "u8_less a b \<longleftrightarrow> the_uint8 a < the_uint8 b"

definition middle :: "value \<Rightarrow> value \<Rightarrow> value \<Rightarrow> value" where
  "middle a b c = (if a = b \<or> a = c then a else if b = c then b
                   else if u8_less a b
                   then (if u8_less b c then b else if u8_less a c then c else a)
                   else (if u8_less a c then a else if u8_less b c then c else b))"

definition demo_vtype :: "elem_type \<Rightarrow> value vtype" where
  "demo_vtype t =
     (if t = T_int64
      then \<lparr>vt_size = 8, vt_enc = (\<lambda>v. enc64 (the_int64 v)), vt_dec = (\<lambda>bs. V_int64 (dec64 bs)),
            vt_copy = (\<lambda>v _. (True, v)), vt_eq = (=), vt_less = u8_less, vt_median3 = middle\<rparr>
      else if t = T_bool
      then \<lparr>vt_size = 1, vt_enc = (\<lambda>v. [if the_bool v then 1 else 0]), vt_dec = (\<lambda>bs. V_bool (hd bs \<noteq> 0)),
            vt_copy = (\<lambda>v _. (True, v)), vt_eq = (=), vt_less = u8_less, vt_median3 = middle\<rparr>
      else \<lparr>vt_size = 1, vt_enc = (\<lambda>v. [the_uint8 v]), vt_dec = (\<lambda>bs. V_uint8 (hd bs)),
            vt_copy = (\<lambda>v _. (True, v)), vt_eq = (=), vt_less = u8_less, vt_median3 = middle\<rparr>)"

definition demo_combiner_env :: "(nat, unit) combiner_env" where
  "demo_combiner_env =
     \<lparr>ce_mem = \<lparr>me_breakdown = (\<lambda>i. (True, False, i, 0)), me_accessor_store = (\<lambda>_ v _. (True, v))\<rparr>,
      ce_vtype = demo_vtype, ce_invalid_seq = - 1\<rparr>"

definition demo_combiner :: "bool \<Rightarrow> nat combiner" where
  "demo_combiner down =
     \<lparr>is_init = True, downselect = down, num_sources = 3, stale_threshold = 2,
      bins = [\<lparr>bin_ids = [50, 60, 61, 62], bin_type = Some T_uint8\<rparr>],
      sources = [\<lparr>fresh_tok = 10, fresh_last_tok = 20, fresh_age_tok = 30, connected_tok = 40\<rparr>,
                 \<lparr>fresh_tok = 11, fresh_last_tok = 21, fresh_age_tok = 31, connected_tok = 41\<rparr>,
                 \<lparr>fresh_tok = 12, fresh_last_tok = 22, fresh_age_tok = 32, connected_tok = 42\<rparr>],
      combined_connected_tok = 0\<rparr>"

text \<open>All freshness elements read 5 and were last 0; the inputs are the given bytes.\<close>

definition demo_mem :: "byte \<Rightarrow> byte \<Rightarrow> byte \<Rightarrow> (nat, unit) slate_mem" where
  "demo_mem a b c =
     \<lparr>sm_tables = (\<lambda>s. abuf_new\<lparr>ab_mem :=
        (if s \<in> {10, 11, 12} then enc64 5
         else [if s = 60 then a else if s = 61 then b else if s = 62 then c else 0, 0, 0, 0, 0, 0, 0, 0])\<rparr>),
      sm_validator = (\<lambda>_. None)\<rparr>"

lemma demo_types: "control_types_ok demo_combiner_env"
  by (simp add: control_types_ok_def cell_good_def demo_combiner_env_def demo_vtype_def dec_enc64)
     (simp add: enc64_def)

lemma demo_plain: "plain_type (demo_vtype T_uint8)"
  by (auto simp: plain_type_def demo_vtype_def middle_def length_Suc_conv)

lemma demo_slots: "slots (demo_combiner down) = [(T_uint8, [50, 60, 61, 62], 0)]"
  by (simp add: slots_def demo_combiner_def bin_slots_def strides_def upt_rec)

lemma demo_ok: "combiner_ok demo_combiner_env (demo_combiner down) (demo_mem a b c)"
proof -
  let ?E = demo_combiner_env and ?M = "demo_mem a b c"
  have cells: "c64 ?E i = ((i, 0), demo_vtype T_int64)" "c8 ?E i = ((i, 0), demo_vtype T_uint8)"
    "cB ?E i = ((i, 0), demo_vtype T_bool)"
    "out_cell ?E (T_uint8, [50, 60, 61, 62], 0) = ((50, 0), demo_vtype T_uint8)" for i
    by (simp_all add: c64_def c8_def cB_def out_cell_def cell_of_def load_element_r_def demo_combiner_env_def)
  have ins: "in_cell ?E (T_uint8, [50, 60, 61, 62], 0) src = ((59 + src, 0), demo_vtype T_uint8)"
    if "src \<in> {1..3}" for src
  proof -
    have "src = 1 \<or> src = 2 \<or> src = 3" using that by auto
    then show ?thesis by (auto simp: in_cell_def cell_of_def load_element_r_def demo_combiner_env_def)
  qed
  have size: "vt_size (demo_vtype t) \<le> 8" for t by (simp add: demo_vtype_def)
  have len: "length (ab_mem (sm_tables ?M s)) = 8" for s by (simp add: demo_mem_def enc64_def)
  have fits: "cell_fits ((s, 0), demo_vtype t) ?M" for s t
    using size [of t] by (simp add: cell_fits_def len)
  have sep: "i \<noteq> j \<Longrightarrow> cell_sep ((i, 0), t) ((j, 0), u)" for i j and t u :: "value vtype"
    by (simp add: cell_sep_def)
  have src: "sources_ok ?E (combined_connected_tok (demo_combiner down)) (sources (demo_combiner down)) ?M"
    by (simp add: sources_ok_def demo_types control_cells_def source_cells_def demo_combiner_def cells fits sep)
  have slot: "slot_ok ?E (T_uint8, [50, 60, 61, 62], 0)"
    using demo_plain by (simp add: slot_ok_def demo_combiner_env_def)
  have apart: "\<forall>c\<in>set (control_cells ?E (combined_connected_tok (demo_combiner down)) (sources (demo_combiner down))).
      cell_sep c ((s, 0), demo_vtype T_uint8)" if "50 \<le> s" for s
    using that by (simp add: control_cells_def source_cells_def demo_combiner_def cells sep)
  show ?thesis
    unfolding combiner_ok_def demo_slots
    using src slot apart
    by (simp add: ins cells fits sep num_sources_max_def demo_combiner_def)
qed

lemma demo_read64:
  "s \<in> {10, 11, 12} \<Longrightarrow> load_i64 demo_combiner_env s (demo_mem a b c) = 5"
  "s \<in> {20, 21, 22} \<Longrightarrow> load_i64 demo_combiner_env s (demo_mem a b c) = 0"
proof -
  have "dec64 [0, 0, 0, 0, 0, 0, 0, 0] = dec64 (enc64 0)" by (simp add: enc64_def upt_rec)
  then have zero: "dec64 [0, 0, 0, 0, 0, 0, 0, 0] = 0" by (simp add: dec_enc64)
  have five: "take 8 (enc64 5) = enc64 5" by (simp add: enc64_def)
  show "s \<in> {10, 11, 12} \<Longrightarrow> load_i64 demo_combiner_env s (demo_mem a b c) = 5"
    "s \<in> {20, 21, 22} \<Longrightarrow> load_i64 demo_combiner_env s (demo_mem a b c) = 0"
    by (auto simp: load_i64_def load_def read_at_def load_element_r_def demo_combiner_env_def demo_vtype_def
        demo_mem_def dec_enc64 zero five)
qed

lemma demo_read8: "load_u8 demo_combiner_env s (demo_mem a b c) = 0" if "s \<in> {30, 31, 32}"
  using that by (auto simp: load_u8_def load_def read_at_def load_element_r_def demo_combiner_env_def
      demo_vtype_def demo_mem_def)

lemma demo_fresh:
  assumes "s \<in> set (sources (demo_combiner down))"
  shows "source_result demo_combiner_env (- 1) 2 (demo_mem a b c) s = (5, 0)"
proof -
  have "fresh_tok s \<in> {10, 11, 12}" "fresh_last_tok s \<in> {20, 21, 22}" "fresh_age_tok s \<in> {30, 31, 32}"
    using assms by (auto simp: demo_combiner_def)
  then have vals: "load_i64 demo_combiner_env (fresh_tok s) (demo_mem a b c) = 5"
    "load_i64 demo_combiner_env (fresh_last_tok s) (demo_mem a b c) = 0"
    "load_u8 demo_combiner_env (fresh_age_tok s) (demo_mem a b c) = 0"
    by (simp_all only: demo_read64 demo_read8)
  have "ce_invalid_seq demo_combiner_env = - 1" by (simp add: demo_combiner_env_def)
  then show ?thesis
    by (simp add: source_result_def vals fresh_step_def updated_this_cycle_def seq_default_def)
qed

lemma demo_fields: "stale_threshold (demo_combiner d) = 2" "downselect (demo_combiner d) = d" "num_sources (demo_combiner d) = 3"
  by (simp_all add: demo_combiner_def)

lemma demo_connected:
  "numbered (source_fresh demo_combiner_env (- 1) 2 (demo_mem a b c)) 0 (sources (demo_combiner down)) = [1, 2, 3]"
  using demo_fresh [of _ down a b c] by (simp add: source_fresh_def demo_combiner_def)

lemma combine_slots:
  assumes "combiner_ok E C M"
  shows "\<exists>M'. validate_and_combine E accepted C M = Some (True, M') \<and>
    (let connected = numbered (source_fresh E accepted (stale_threshold C) M) 0 (sources C);
         indices = selected E C connected M
     in \<forall>a\<in>set (slots C). read_cell (out_cell E a) M' =
          (if connected = [] then read_cell (out_cell E a) M else slot_value E indices a M))"
proof -
  have "length (sources C) = num_sources C" "num_sources C \<le> 3"
    using assms by (simp_all add: combiner_ok_def num_sources_max_def)
  note b = selected_bounds(2) [OF refl this]
  show ?thesis using combine_effect [OF assms, of accepted] by (auto simp: Let_def b)
qed

lemma unat_word_below: "n \<le> unat (t :: 8 word) \<Longrightarrow> unat (of_nat n :: 8 word) = n"
  using unsigned_less [of t, where ?'a = nat] by (simp add: unat_of_nat)

section \<open>Properties\<close>

text \<open>
  C3: what a cycle computes. With elements placed apart, \<open>validate_and_combine\<close> succeeds and,
  from the values before the call: no output changes if no source is connected; otherwise
  every output is the copy, maximum or median of the inputs of the selected sources.
\<close>

theorem combine_outputs:
  assumes "combiner_ok E C M"
  shows "\<exists>M'. validate_and_combine E accepted C M = Some (True, M') \<and>
    (let connected = numbered (source_fresh E accepted (stale_threshold C) M) 0 (sources C);
         indices = selected E C connected M
     in \<forall>a\<in>set (slots C). read_cell (out_cell E a) M' =
          (if connected = [] then read_cell (out_cell E a) M else slot_value E indices a M))"
  using assms by (rule combine_slots)

theorem combine_outputs_witness:
  "\<exists>M'. validate_and_combine demo_combiner_env (- 1) (demo_combiner False) (demo_mem 7 9 200) = Some (True, M') \<and>
     read_cell (out_cell demo_combiner_env (T_uint8, [50, 60, 61, 62], 0)) M' = V_uint8 9"
proof -
  have "slot_value demo_combiner_env [1, 2, 3] (T_uint8, [50, 60, 61, 62], 0) (demo_mem 7 9 200) = V_uint8 9"
    by (simp add: slot_value_def read_cell_def read_at_def in_cell_def cell_of_def load_element_r_def
        demo_combiner_env_def demo_vtype_def demo_mem_def middle_def u8_less_def)
  then show ?thesis
    using combine_outputs [OF demo_ok [of False 7 9 200], of "- 1"]
    by (simp add: Let_def demo_slots demo_connected selected_def demo_fields del: One_nat_def)
qed

text \<open>
  C9: connected means recently updated. After the cycle every source's stored freshness and age
  are those of \<open>fresh_step\<close> on the values before; the source is flagged connected exactly if that
  age is below the threshold, the combined flag says whether any source is, and no age
  exceeds the threshold if none did before.
\<close>

theorem combine_freshness:
  assumes "combiner_ok E C M"
  shows "\<exists>M'. validate_and_combine E accepted C M = Some (True, M') \<and>
    (\<forall>s\<in>set (sources C).
       (load_i64 E (fresh_last_tok s) M', load_u8 E (fresh_age_tok s) M') =
         fresh_step (ce_invalid_seq E) accepted (stale_threshold C) (load_i64 E (fresh_tok s) M)
           (load_i64 E (fresh_last_tok s) M, load_u8 E (fresh_age_tok s) M) \<and>
       (load_flag E (connected_tok s) M' \<longleftrightarrow> load_u8 E (fresh_age_tok s) M' < stale_threshold C) \<and>
       (load_u8 E (fresh_age_tok s) M \<le> stale_threshold C \<longrightarrow> load_u8 E (fresh_age_tok s) M' \<le> stale_threshold C)) \<and>
    (load_flag E (combined_connected_tok C) M' \<longleftrightarrow> (\<exists>s\<in>set (sources C). load_flag E (connected_tok s) M'))"
proof -
  obtain M' where run: "validate_and_combine E accepted C M = Some (True, M')"
    and vals: "\<forall>s\<in>set (sources C). (load_i64 E (fresh_last_tok s) M', load_u8 E (fresh_age_tok s) M') =
         source_result E accepted (stale_threshold C) M s \<and>
         (load_flag E (connected_tok s) M' \<longleftrightarrow> source_fresh E accepted (stale_threshold C) M s)"
    and comb: "load_flag E (combined_connected_tok C) M' \<longleftrightarrow>
        (\<exists>s\<in>set (sources C). source_fresh E accepted (stale_threshold C) M s)"
    using combine_effect [OF assms, of accepted] by blast
  have bound: "snd (fresh_step inv acc thr f (l, a)) \<le> thr" if "a \<le> thr" for inv acc thr f l a
    using that inc_le [of a thr] by (auto simp: fresh_step_def add.commute)
  have age: "load_u8 E (fresh_age_tok s) M' = snd (source_result E accepted (stale_threshold C) M s)"
    if "s \<in> set (sources C)" for s
    using vals that by (metis snd_conv)
  show ?thesis
    using run vals comb age bound by (auto simp: source_fresh_def source_result_def)
qed

theorem combine_freshness_witness:
  "\<exists>M'. validate_and_combine demo_combiner_env (- 1) (demo_combiner False) (demo_mem 7 9 200) = Some (True, M') \<and>
     load_u8 demo_combiner_env (fresh_age_tok (hd (sources (demo_combiner False)))) M' \<le> 2"
proof -
  have "load_u8 demo_combiner_env (fresh_age_tok s) (demo_mem 7 9 200) \<le> 2"
    if "s \<in> set (sources (demo_combiner False))" for s
    using that demo_read8 by (auto simp: demo_combiner_def)
  moreover have "stale_threshold (demo_combiner False) = 2" by (simp add: demo_combiner_def)
  moreover have "hd (sources (demo_combiner False)) \<in> set (sources (demo_combiner False))"
    by (simp add: demo_combiner_def)
  ultimately show ?thesis
    using combine_freshness [OF demo_ok [of False 7 9 200], of "- 1"] by metis
qed

text \<open>
  An element type whose \<open>\<^verbatim>\<open><\<close>\<close> is a total order (integers, bytes, bools; not floating-point values
  that may be NaN), given by the rank of each value, and for which \<^verbatim>\<open>median3\<close> does what its name
  says: its result has the middle rank of the three.
\<close>

definition ranked_type :: "value vtype \<Rightarrow> (value \<Rightarrow> 'k::linorder) \<Rightarrow> bool" where
  "ranked_type ty rank \<longleftrightarrow>
     (\<forall>x y. vt_less ty x y \<longleftrightarrow> rank x < rank y) \<and>
     (\<forall>x y z. rank (vt_median3 ty x y z) = sort [rank x, rank y, rank z] ! 1)"

lemma middle_between:
  fixes x y z :: "'k::linorder"
  shows "sort [x, y, z] ! 1 \<in> {min x y..max x y}" and "sort [x, y, z] ! 1 \<in> {min x z..max x z}"
    and "sort [x, y, z] ! 1 \<in> {min y z..max y z}"
  by (auto simp: min_def max_def)

lemma std_max_between:
  "ranked_type ty rank \<Longrightarrow> rank (std_max ty x y) \<in> {min (rank x) (rank y)..max (rank x) (rank y)}"
  by (auto simp: ranked_type_def std_max_def min_def max_def)

lemma median_between:
  assumes "ranked_type ty rank" and "i \<in> {1, 2, 3}" and "j \<in> {1, 2, 3}" and "i \<noteq> j"
  shows "rank (vt_median3 ty (val 1) (val 2) (val 3)) \<in>
         {min (rank (val i)) (rank (val j))..max (rank (val i)) (rank (val j))}"
proof -
  have "rank (vt_median3 ty (val 1) (val 2) (val 3)) = sort [rank (val 1), rank (val 2), rank (val 3)] ! 1"
    using assms(1) unfolding ranked_type_def by blast
  then show ?thesis
    using assms(2-4) middle_between [of "rank (val 1)" "rank (val 2)" "rank (val 3)"]
    by (elim insertE emptyE) (simp_all add: min.commute max.commute del: atLeastAtMost_iff)
qed

text \<open>
  C10: one faulty source is masked. In median mode, as long as two sources are connected, every
  output lies between the values these two have for it, whatever a third source does: be it
  disconnected (the output is then the larger of the two) or connected with any value at all (the
  median). In particular the output has their rank where the two agree. The order is the element
  type's own, which has to be total, and \<^verbatim>\<open>median3\<close> is the median for it.
\<close>

theorem median_masks_one_fault:
  assumes "combiner_ok E C M" and "\<not> downselect C"
    and "i \<in> {1..num_sources C}" and "j \<in> {1..num_sources C}" and "i \<noteq> j"
    and "source_fresh E accepted (stale_threshold C) M (sources C ! (i - 1))"
    and "source_fresh E accepted (stale_threshold C) M (sources C ! (j - 1))"
    and "a \<in> set (slots C)" and "ranked_type (ce_vtype E (fst a)) rank"
  shows "\<exists>M'. validate_and_combine E accepted C M = Some (True, M') \<and>
           rank (read_cell (out_cell E a) M') \<in>
             {min (rank (read_cell (in_cell E a i) M)) (rank (read_cell (in_cell E a j) M))..
              max (rank (read_cell (in_cell E a i) M)) (rank (read_cell (in_cell E a j) M))}"
proof -
  define conn where "conn = numbered (source_fresh E accepted (stale_threshold C) M) 0 (sources C)"
  define val where "val = (\<lambda>src. read_cell (in_cell E a src) M)"
  have n: "length (sources C) = num_sources C" "num_sources C \<le> 3"
    using assms(1) by (simp_all add: combiner_ok_def num_sources_max_def)
  have ij: "i \<in> {1, 2, 3}" "j \<in> {1, 2, 3}"
    using assms(3,4) n(2) unfolding atLeastAtMost_iff insert_iff empty_iff by presburger+
  have mem: "k \<in> set conn"
    if "k \<in> {1..num_sources C}" "source_fresh E accepted (stale_threshold C) M (sources C ! (k - 1))" for k
    unfolding conn_def numbered_mem using that n(1) by (intro exI [of _ "k - 1"]) auto
  have both: "i \<in> set conn" "j \<in> set conn" using mem assms(3,4,6,7) by simp_all
  have sel: "selected E C conn M = conn" using assms(2) by (simp add: selected_def)
  have "rank (slot_value E conn a M) \<in> {min (rank (val i)) (rank (val j))..max (rank (val i)) (rank (val j))}"
  proof (cases "length conn = 2")
    case True
    then obtain x y where conn: "conn = [x, y]" by (auto simp: length_Suc_conv numeral_2_eq_2)
    then have "(x = i \<and> y = j) \<or> (x = j \<and> y = i)" using both assms(5) by auto
    then show ?thesis
      using std_max_between [OF assms(9), of "val x" "val y"]
      by (auto simp: slot_value_def conn val_def min.commute max.commute)
  next
    case False
    have "length conn \<noteq> 1" using both assms(5) by (auto simp: length_Suc_conv)
    then have "slot_value E conn a M = vt_median3 (ce_vtype E (fst a)) (val 1) (val 2) (val 3)"
      using False by (simp add: slot_value_def val_def)
    then show ?thesis
      using median_between [OF assms(9) ij assms(5), of val] by simp
  qed
  moreover have "conn \<noteq> []" using both by auto
  moreover obtain M' where "validate_and_combine E accepted C M = Some (True, M')"
    "read_cell (out_cell E a) M' = (if conn = [] then read_cell (out_cell E a) M else slot_value E conn a M)"
    using combine_slots [OF assms(1), of accepted] assms(8) by (auto simp: sel Let_def simp flip: conn_def)
  ultimately show ?thesis by (auto simp: val_def)
qed

lemma demo_ranked: "ranked_type (demo_vtype T_uint8) (\<lambda>v. unat (the_uint8 v))"
  by (auto simp: ranked_type_def demo_vtype_def u8_less_def middle_def word_less_nat_alt)

theorem median_masks_one_fault_witness:
  "\<exists>M'. validate_and_combine demo_combiner_env (- 1) (demo_combiner False) (demo_mem 7 200 9) = Some (True, M') \<and>
     unat (the_uint8 (read_cell (out_cell demo_combiner_env (T_uint8, [50, 60, 61, 62], 0)) M')) \<in> {7..9}"
proof -
  have fresh: "source_fresh demo_combiner_env (- 1) (stale_threshold (demo_combiner False)) (demo_mem 7 200 9) s"
    if "s \<in> set (sources (demo_combiner False))" for s
    using demo_fresh [OF that] by (simp add: source_fresh_def demo_fields)
  have vals: "read_cell (in_cell demo_combiner_env (T_uint8, [50, 60, 61, 62], 0) 1) (demo_mem 7 200 9) = V_uint8 7"
    "read_cell (in_cell demo_combiner_env (T_uint8, [50, 60, 61, 62], 0) 3) (demo_mem 7 200 9) = V_uint8 9"
    by (simp_all add: read_cell_def read_at_def in_cell_def cell_of_def load_element_r_def
        demo_combiner_env_def demo_vtype_def demo_mem_def)
  have ranked: "ranked_type (ce_vtype demo_combiner_env (fst (T_uint8, [50, 60, 61, 62], 0))) (\<lambda>v. unat (the_uint8 v))"
    using demo_ranked by (simp add: demo_combiner_env_def)
  have "length (sources (demo_combiner False)) = 3" by (simp add: demo_combiner_def)
  then show ?thesis
    using median_masks_one_fault [OF demo_ok [of False 7 200 9] _ _ _ _ fresh fresh _ ranked, where i = 1 and j = 3]
    by (simp add: demo_fields demo_slots vals vals(1) [unfolded One_nat_def])
qed

text \<open>
  Downselect never mixes sources. In downselect mode either no source is connected and no
  output changes, or there is one connected source of which every output is the copy. If
  all three are connected that source is the second exactly when the second and third agree
  on every element, and else the first.
\<close>

theorem downselect_copies_one_source:
  assumes "combiner_ok E C M" and "downselect C"
  shows "\<exists>M'. validate_and_combine E accepted C M = Some (True, M') \<and>
    ((\<forall>s\<in>set (sources C). \<not> source_fresh E accepted (stale_threshold C) M s) \<and> (\<forall>a\<in>set (slots C). read_cell (out_cell E a) M' = read_cell (out_cell E a) M) \<or>
     (\<exists>k<length (sources C). source_fresh E accepted (stale_threshold C) M (sources C ! k) \<and>
        (\<forall>a\<in>set (slots C). read_cell (out_cell E a) M' = read_cell (in_cell E a (k + 1)) M) \<and>
        (length (sources C) = 3 \<and> (\<forall>s\<in>set (sources C). source_fresh E accepted (stale_threshold C) M s) \<longrightarrow>
           k = (if inputs_agree E C 2 3 M then 1 else 0))))"
proof -
  let ?fresh = "source_fresh E accepted (stale_threshold C) M"
  let ?conn = "numbered ?fresh 0 (sources C)" and ?idx = "selected E C (numbered ?fresh 0 (sources C)) M"
  have n: "length (sources C) = num_sources C" "num_sources C \<le> 3"
    using assms(1) by (simp_all add: combiner_ok_def num_sources_max_def)
  obtain M' where run: "validate_and_combine E accepted C M = Some (True, M')"
    and out: "\<forall>a\<in>set (slots C). read_cell (out_cell E a) M' =
        (if ?conn = [] then read_cell (out_cell E a) M else slot_value E ?idx a M)"
    using combine_slots [OF assms(1), of accepted] unfolding Let_def by blast
  show ?thesis
  proof (cases "?conn = []")
    case True
    then have "\<forall>s\<in>set (sources C). \<not> ?fresh s" by (simp add: numbered_empty)
    then show ?thesis using run out True by auto
  next
    case False
    define j where "j = (if length ?conn = 3 then (if inputs_agree E C 2 3 M then 2 else 1) else hd ?conn)"
    have idx: "?idx = [j]" using False assms(2) by (cases ?conn) (auto simp: selected_def j_def)
    have all: "?conn = [1, 2, 3]" if "length ?conn = 3"
    proof -
      have three: "length (sources C) = 3" using numbered_length [of ?fresh 0 "sources C"] that n by simp
      then obtain s1 s2 s3 where ss: "sources C = [s1, s2, s3]"
        by (metis (no_types) length_0_conv length_Suc_conv numeral_3_eq_3)
      show ?thesis using that by (auto simp: ss split: if_splits)
    qed
    have "j \<in> set ?conn"
    proof (cases "length ?conn = 3")
      case True
      then show ?thesis using all by (simp add: j_def)
    next
      case False
      then show ?thesis using \<open>?conn \<noteq> []\<close> by (simp add: j_def)
    qed
    then obtain k where k: "k < length (sources C)" "j = k + 1" "?fresh (sources C ! k)"
      by (auto simp: numbered_mem)
    have copy: "\<forall>a\<in>set (slots C). read_cell (out_cell E a) M' = read_cell (in_cell E a (k + 1)) M"
      using out False by (simp add: idx slot_value_def k(2))
    have "k = (if inputs_agree E C 2 3 M then 1 else 0)"
      if every: "length (sources C) = 3" "\<forall>s\<in>set (sources C). ?fresh s"
    proof -
      obtain s1 s2 s3 where ss: "sources C = [s1, s2, s3]"
        using every(1) by (metis (no_types) length_0_conv length_Suc_conv numeral_3_eq_3)
      have "length ?conn = 3" using every(2) by (simp add: ss)
      then show ?thesis using k(2) by (simp add: j_def numeral_2_eq_2 split: if_splits)
    qed
    then show ?thesis using run k(1,3) copy by blast
  qed
qed

theorem downselect_copies_one_source_witness:
  "\<exists>M'. validate_and_combine demo_combiner_env (- 1) (demo_combiner True) (demo_mem 7 9 9) = Some (True, M')"
  using downselect_copies_one_source [OF demo_ok [of True 7 9 9], of "- 1"] by (simp add: demo_fields) blast

text \<open>
  A silent source drops out in time. A source that has just updated and whose freshness
  element then stays the same is connected for the next cycles as long as their number is below
  the threshold, and not from then on.
\<close>

theorem silent_source_drops_out:
  "snd ((fresh_step seq seq threshold f ^^ n) (f, 0)) < threshold \<longleftrightarrow> n < unat threshold"
proof -
  have step: "fresh_step seq seq threshold f (f, a) = (f, if a < threshold then a + 1 else a)" for a
    by (simp add: fresh_step_def updated_this_cycle_def)
  have "(fresh_step seq seq threshold f ^^ n) (f, 0) = (f, of_nat (min n (unat threshold)))"
  proof (induction n)
    case 0
    show ?case by simp
  next
    case (Suc n)
    let ?m = "min n (unat threshold)"
    have m: "unat (of_nat ?m :: 8 word) = ?m"
      by (rule unat_word_below [of _ threshold]) simp
    have "(of_nat ?m :: 8 word) < threshold \<longleftrightarrow> n < unat threshold"
      by (auto simp: word_less_nat_alt m)
    then show ?case using Suc by (auto simp: step min_def)
  qed
  moreover have "unat (of_nat (min n (unat threshold)) :: 8 word) = min n (unat threshold)"
    by (rule unat_word_below [of _ threshold]) simp
  ultimately show ?thesis by (auto simp: word_less_nat_alt)
qed

end
