(* ===== verification/Element_Setup.thy ===== *)
theory Element_Setup
  imports Slate_Combiner
begin

text \<open>
  How a component sets up its elements: its \<^verbatim>\<open>init\<close> creates and binds one token after the other
  and returns at the first failure. A plan is the list of these calls, the tokens are a table from
  the member's name to the ID it holds. The element types are those of the combiner's values.
\<close>

section \<open>Plans\<close>

record ('id, 'pm, 'v, 'q, 'e, 'w) setup_env =
  su_builder :: "('id, 'pm, 'v, value, 'q, 'e, 'w) builder_env"
  su_types :: "elem_type \<Rightarrow> value type_info"
  su_sync :: nat
  su_nonsync :: nat

type_synonym 'id tok_table = "string \<Rightarrow> 'id"

text \<open>One constructor per overload of \<^verbatim>\<open>create\<close> in use, and \<^verbatim>\<open>bind\<close>.\<close>

datatype setup_op =
    Create_value string elem_type string "value" nat access
  | Create_default string elem_type string nat access
  | Create_private_value string elem_type string "value" nat
  | Create_private_default string elem_type string nat
  | Bind_read string elem_type string
  | Bind_write string elem_type string

fun op_token :: "setup_op \<Rightarrow> string" where
  "op_token (Create_value t _ _ _ _ _) = t"
| "op_token (Create_default t _ _ _ _) = t"
| "op_token (Create_private_value t _ _ _ _) = t"
| "op_token (Create_private_default t _ _ _) = t"
| "op_token (Bind_read t _ _) = t"
| "op_token (Bind_write t _ _) = t"

fun op_path :: "setup_op \<Rightarrow> string" where
  "op_path (Create_value _ _ p _ _ _) = p"
| "op_path (Create_default _ _ p _ _) = p"
| "op_path (Create_private_value _ _ p _ _) = p"
| "op_path (Create_private_default _ _ p _) = p"
| "op_path (Bind_read _ _ p) = p"
| "op_path (Bind_write _ _ p) = p"

definition read_kind :: token_kind where
  "read_kind = \<lparr>tk_write = False, tk_validate = False\<rparr>"

definition write_kind :: token_kind where
  "write_kind = \<lparr>tk_write = True, tk_validate = False\<rparr>"

fun run_op_id ::
  "('id, 'pm, 'v, 'q, 'e, 'w) setup_env \<Rightarrow> ('q, 'e) builder \<Rightarrow> setup_op \<Rightarrow> 'id \<Rightarrow> ('id, 'w) bstate \<Rightarrow>
   (bool \<times> 'id \<times> ('id, 'w) bstate) option" where
  "run_op_id U b (Create_value _ ty path v shard access) i st =
     create_plain (su_builder U) b write_kind (su_types U ty) path v shard access i st"
| "run_op_id U b (Create_default _ ty path shard access) i st =
     create_default_access (su_builder U) b write_kind (su_types U ty) path shard access i st"
| "run_op_id U b (Create_private_value _ ty path v shard) i st =
     create_private (su_builder U) b write_kind (su_types U ty) path v shard i st"
| "run_op_id U b (Create_private_default _ ty path shard) i st =
     create_default (su_builder U) b write_kind (su_types U ty) path shard i st"
| "run_op_id U b (Bind_read _ ty path) i st =
     bind (su_builder U) b read_kind (su_types U ty) path i st"
| "run_op_id U b (Bind_write _ ty path) i st =
     bind (su_builder U) b write_kind (su_types U ty) path i st"

definition run_op ::
  "('id, 'pm, 'v, 'q, 'e, 'w) setup_env \<Rightarrow> ('q, 'e) builder \<Rightarrow> setup_op \<Rightarrow> 'id tok_table \<times> ('id, 'w) bstate \<Rightarrow>
   (bool \<times> 'id tok_table \<times> ('id, 'w) bstate) option" where
  "run_op U b op s =
     map_option (\<lambda>(ok, i, st). (ok, (fst s)(op_token op := i), st)) (run_op_id U b op (fst s (op_token op)) (snd s))"

fun run_setup ::
  "('id, 'pm, 'v, 'q, 'e, 'w) setup_env \<Rightarrow> ('q, 'e) builder \<Rightarrow> setup_op list \<Rightarrow>
   'id tok_table \<times> ('id, 'w) bstate \<Rightarrow> (bool \<times> 'id tok_table \<times> ('id, 'w) bstate) option" where
  "run_setup U b [] s = Some (True, s)"
| "run_setup U b (op # ops) s =
     (case run_op U b op s of
        None \<Rightarrow> None
      | Some (ok, s') \<Rightarrow> if \<not> ok then Some (False, s') else run_setup U b ops s')"

section \<open>What a successful set-up has done\<close>

text \<open>Of the store only that it binds to valid IDs, and that taking the write bit keeps them valid.\<close>

definition setup_ok :: "('id, 'pm, 'v, 'q, 'e, 'w) setup_env \<Rightarrow> bool" where
  "setup_ok U \<longleftrightarrow>
     (let E = su_builder U in
        (\<forall>i. is_valid_id (be_ids E) i \<longrightarrow> is_valid_id (be_ids E) (id_ro (le_codec (be_layout_env E)) i)) \<and>
        (\<forall>path t w i w'. sa_bind_read E path t w = (Some i, w') \<longrightarrow> is_valid_id (be_ids E) i) \<and>
        (\<forall>path t w i w'. sa_bind_write E path t w = (Some i, w') \<longrightarrow> is_valid_id (be_ids E) i))"

lemma create_binds:
  assumes "create E b kind ti path v shard access validator i st = Some (True, j, st')"
    and "\<forall>i. is_valid_id (be_ids E) i \<longrightarrow> is_valid_id (be_ids E) (id_ro (le_codec (be_layout_env E)) i)"
  shows "\<not> is_valid_id (be_ids E) i \<and> is_valid_id (be_ids E) j \<and>
    require_permitted_path E b (full_path_of E b path)"
  using assms
  by (auto simp: create_def create_element_def register_token_def Let_def split: if_splits option.splits prod.splits)

lemma bind_binds:
  assumes "bind E b kind ti path i st = Some (True, j, st')"
    and "\<And>path t w i w'. sa_bind_read E path t w = (Some i, w') \<Longrightarrow> is_valid_id (be_ids E) i"
    and "\<And>path t w i w'. sa_bind_write E path t w = (Some i, w') \<Longrightarrow> is_valid_id (be_ids E) i"
  shows "\<not> is_valid_id (be_ids E) i \<and> is_valid_id (be_ids E) j \<and>
    require_permitted_path E b (full_path_of E b path)"
  using assms(1)
  by (auto simp: bind_def Let_def dest: assms(2,3) split: if_splits option.splits prod.splits)

lemmas create_overloads = create_plain_def create_default_access_def create_private_def create_default_def

lemma run_op_binds:
  assumes "setup_ok U" and "run_op U b op (toks, st) = Some (True, toks', st')"
  shows "\<not> is_valid_id (be_ids (su_builder U)) (toks (op_token op))"
    and "is_valid_id (be_ids (su_builder U)) (toks' (op_token op))"
    and "toks' = toks(op_token op := toks' (op_token op))"
    and "require_permitted_path (su_builder U) b (full_path_of (su_builder U) b (op_path op))"
proof -
  obtain i where i: "run_op_id U b op (toks (op_token op)) st = Some (True, i, st')" "toks' = toks(op_token op := i)"
    using assms(2) by (auto simp: run_op_def)
  have laws: "\<forall>i. is_valid_id (be_ids (su_builder U)) i \<longrightarrow>
      is_valid_id (be_ids (su_builder U)) (id_ro (le_codec (be_layout_env (su_builder U))) i)"
    "\<And>path t w i w'. sa_bind_read (su_builder U) path t w = (Some i, w') \<Longrightarrow> is_valid_id (be_ids (su_builder U)) i"
    "\<And>path t w i w'. sa_bind_write (su_builder U) path t w = (Some i, w') \<Longrightarrow> is_valid_id (be_ids (su_builder U)) i"
    using assms(1) unfolding setup_ok_def Let_def by blast+
  have "\<not> is_valid_id (be_ids (su_builder U)) (toks (op_token op)) \<and> is_valid_id (be_ids (su_builder U)) i \<and>
      require_permitted_path (su_builder U) b (full_path_of (su_builder U) b (op_path op))"
    using i(1)
    by (cases op) (auto simp: create_overloads dest!: create_binds [OF _ laws(1)] bind_binds [OF _ laws(2,3)])
  then show "\<not> is_valid_id (be_ids (su_builder U)) (toks (op_token op))"
    and "is_valid_id (be_ids (su_builder U)) (toks' (op_token op))"
    and "toks' = toks(op_token op := toks' (op_token op))"
    and "require_permitted_path (su_builder U) b (full_path_of (su_builder U) b (op_path op))"
    by (simp_all add: i(2))
qed

lemma run_setup_binds:
  assumes "setup_ok U"
  shows "run_setup U b ops (toks, st) = Some (True, toks', st') \<Longrightarrow>
    distinct (map op_token ops) \<and>
    (\<forall>t. if t \<in> op_token ` set ops
         then \<not> is_valid_id (be_ids (su_builder U)) (toks t) \<and> is_valid_id (be_ids (su_builder U)) (toks' t)
         else toks' t = toks t) \<and>
    (\<forall>op\<in>set ops. require_permitted_path (su_builder U) b (full_path_of (su_builder U) b (op_path op)))"
proof (induction ops arbitrary: toks st)
  case Nil
  then show ?case by simp
next
  case (Cons op ops)
  obtain toks1 st1 where step: "run_op U b op (toks, st) = Some (True, toks1, st1)"
    and rest: "run_setup U b ops (toks1, st1) = Some (True, toks', st')"
    using Cons.prems by (auto split: option.splits prod.splits if_splits)
  note one = run_op_binds [OF assms step]
  note IH = Cons.IH [OF rest]
  have fresh: "op_token op \<notin> op_token ` set ops" using IH one(2) by metis
  have other: "toks1 t = toks t" if "t \<noteq> op_token op" for t using one(3) that by (metis fun_upd_other)
  have "if t \<in> op_token ` set (op # ops)
        then \<not> is_valid_id (be_ids (su_builder U)) (toks t) \<and> is_valid_id (be_ids (su_builder U)) (toks' t)
        else toks' t = toks t" for t
  proof (cases "t = op_token op")
    case True
    then show ?thesis using IH one(1,2) fresh by (metis imageI list.set_intros(1))
  next
    case False
    then show ?thesis using IH other [OF False] by (metis image_insert insert_iff list.simps(15))
  qed
  then show ?case using IH one(4) fresh by (auto simp del: split_paired_All)
qed

section \<open>Tokens that stay unbound\<close>

text \<open>
  \<open>pending I a i\<close>: the accountant waits for the token with ID \<open>i\<close>. It goes on waiting as long as
  only other tokens are bound, copied to or destroyed.
\<close>

definition pending :: "'id id_space \<Rightarrow> 'id acct \<Rightarrow> 'id \<Rightarrow> bool" where
  "pending I a i \<longleftrightarrow> enabled a \<and> i \<in> fst ` set (id_frames a) \<and> (\<exists>n<next_invalid a. i = invalid_id I n)"

named_theorems pending_kept

lemma pending_invalid: "id_space_ok I \<Longrightarrow> pending I a i \<Longrightarrow> \<not> is_valid_id I i"
  using id_spaceD(2) [of I] by (auto simp: pending_def)

lemma pending_unready: "pending I a i \<Longrightarrow> \<not> check_for_uninitialized_tokens a"
  by (auto simp: pending_def check_for_uninitialized_tokens_def)

lemma pending_generate:
  assumes "id_space_ok I" and "enabled a" and "generate_id I ctx a = (j, a')"
  shows "pending I a' j" and "pending I a i \<Longrightarrow> pending I a' i \<and> j \<noteq> i" and "enabled a'"
  using assms id_spaceD(1) [OF assms(1)]
  by (auto simp: generate_id_def Let_def pending_def dom_map_of_conv_image_fst [symmetric] AList.update_conv')

lemma pending_register [pending_kept]:
  "register_id I j a = Some (ok, a') \<Longrightarrow> pending I a i \<Longrightarrow> j \<noteq> i \<Longrightarrow> pending I a' i"
  by (auto simp: register_id_def Let_def pending_def dom_map_of_conv_image_fst [symmetric] AList.delete_conv'
      split: if_splits)

lemma pending_count [pending_kept]:
  "pending I (a\<lparr>default_token_count := c\<rparr>) i \<longleftrightarrow> pending I a i"
  by (simp add: pending_def)

lemma pending_drop [pending_kept]:
  "drop_token I j a = Some a' \<Longrightarrow> pending I a i \<Longrightarrow> j \<noteq> i \<Longrightarrow> pending I a' i"
  by (auto simp: drop_token_def dismiss_id_def pending_count dest: pending_register
      split: option.splits prod.splits if_splits)

lemma pending_construct:
  assumes "id_space_ok I" and "enabled a" and "construct_token I ctx a = (j, a')"
  shows "pending I a' j" and "pending I a i \<Longrightarrow> pending I a' i \<and> j \<noteq> i" and "enabled a'"
proof -
  obtain a1 where g: "generate_id I ctx a = (j, a1)" using assms(2,3) by (auto simp: construct_token_def split: prod.splits)
  note p = pending_generate [OF assms(1,2) g]
  have "j \<noteq> default_id I" using p(1) id_spaceD(3) [OF assms(1)] by (auto simp: pending_def)
  then have "a' = a1" using assms(2,3) g by (auto simp: construct_token_def)
  then show "pending I a' j" "pending I a i \<Longrightarrow> pending I a' i \<and> j \<noteq> i" "enabled a'" using p by auto
qed

lemma pending_set [pending_kept]:
  assumes "id_space_ok I" and "set_id I ctx old b a = Some (j, a')" and "pending I a i" and "old \<noteq> i" and "is_valid_id I b"
  shows "pending I a' i"
  using assms
  by (auto simp: set_id_def dismiss_id_def pending_count dest: pending_register split: option.splits prod.splits if_splits)

lemma pending_create:
  assumes "create E b kind ti path v shard access validator j (w, a) = Some (ok, j', (w', a'))"
    and "pending (be_ids E) a i" and "j \<noteq> i"
  shows "pending (be_ids E) a' i"
  using assms
  by (auto simp: create_def register_token_def Let_def dest: pending_register
      split: option.splits prod.splits if_splits)

lemma pending_bind:
  assumes "bind E b kind ti path j (w, a) = Some (ok, j', (w', a'))"
    and "pending (be_ids E) a i" and "j \<noteq> i"
  shows "pending (be_ids E) a' i"
  using assms
  by (auto simp: bind_def Let_def dest: pending_register split: option.splits prod.splits if_splits)

lemma pending_run_op:
  assumes "run_op U b op (toks, (w, a)) = Some (ok, toks', (w', a'))"
    and "pending (be_ids (su_builder U)) a i" and "toks (op_token op) \<noteq> i"
  shows "pending (be_ids (su_builder U)) a' i"
proof -
  obtain j where "run_op_id U b op (toks (op_token op)) (w, a) = Some (ok, j, (w', a'))"
    using assms(1) by (auto simp: run_op_def)
  then show ?thesis
    using assms(2,3) by (cases op) (auto simp: create_overloads dest: pending_create pending_bind)
qed

lemma pending_run_setup:
  assumes "id_space_ok (be_ids (su_builder U))" and "setup_ok U"
  shows "run_setup U b ops (toks, (w, a)) = Some (True, toks', (w', a')) \<Longrightarrow>
    pending (be_ids (su_builder U)) a i \<Longrightarrow> \<forall>t\<in>op_token ` set ops. toks t \<noteq> i \<Longrightarrow>
    pending (be_ids (su_builder U)) a' i"
proof (induction ops arbitrary: toks w a)
  case Nil
  then show ?case by simp
next
  case (Cons op ops)
  obtain toks1 w1 a1 where one: "run_op U b op (toks, (w, a)) = Some (True, toks1, (w1, a1))"
    and rest: "run_setup U b ops (toks1, (w1, a1)) = Some (True, toks', (w', a'))"
    using Cons.prems(1) by (auto split: option.splits prod.splits if_splits)
  have p1: "pending (be_ids (su_builder U)) a1 i" using pending_run_op [OF one Cons.prems(2)] Cons.prems(3) by simp
  have "toks1 t \<noteq> i" if "t \<in> op_token ` set ops" for t
    using run_op_binds(2,3) [OF assms(2) one] pending_invalid [OF assms(1) p1] Cons.prems(3) that
    by (metis fun_upd_other image_insert insertCI list.simps(15))
  then show ?case using Cons.IH [OF rest p1] by blast
qed

section \<open>An instance\<close>

text \<open>A store that hands out fixed valid IDs.\<close>

definition demo_store_env :: "(nat, unit, unit, value, unit, unit, unit) builder_env" where
  "demo_store_env =
     \<lparr>be_layout_env = \<lparr>le_width = 32, le_num_shards = 3, le_static = 2, le_type_invalid = 0,
        le_codec = \<lparr>id_buildup = (\<lambda>_ _ _ _ i. Some i), id_is_valid = (\<lambda>_. True), id_index = (\<lambda>i. i),
          id_can_write = (\<lambda>_. True), id_has_validator = (\<lambda>_. False), id_ro = (\<lambda>i. i)\<rparr>,
        le_paths = \<lparr>pm_empty = (), pm_insert = (\<lambda>_ _ _. (False, 0, ())), pm_find = (\<lambda>_ _. None), pm_at = (\<lambda>_ _. None)\<rparr>,
        le_valid_path = (\<lambda>_. True)\<rparr>,
      be_ids = nat_ids, be_paths = dot_paths,
      be_perms = \<lparr>po_superset = (\<lambda>_ _. True), po_take_subset = (\<lambda>_ q. q), po_can_read = (\<lambda>_. True),
        po_can_write = (\<lambda>_. True), po_can_create = (\<lambda>_ _. True)\<rparr>,
      sa_built = (\<lambda>_. False), sa_is_super = (\<lambda>_ _. True), sa_is_peer = (\<lambda>_ _. True),
      sa_layout = (\<lambda>_. \<lparr>lo_elements = (), lo_validators = Map.empty, lo_policy = (\<lambda>_. Slate_read_write), lo_shards = (\<lambda>_. empty_shard)\<rparr>),
      sa_entries = (\<lambda>_. []), sa_allocate = (\<lambda>_ _ _ _ _ _ _ _ w. (Some (2, Some (0, 0)), w)),
      sa_view = (\<lambda>_ _ _ _ _ _ _ _ w. (None, w)), sa_get_id = (\<lambda>_ _ _. Some 4),
      sa_bind_read = (\<lambda>_ _ w. (Some 6, w)), sa_bind_write = (\<lambda>_ _ w. (Some 8, w)),
      sa_construct = (\<lambda>_ _ w. (True, w)), va_usable = (\<lambda>_. True), va_typed = (\<lambda>_ _. True),
      va_validate = (\<lambda>_ _ _ w. (True, w)), er_register = (\<lambda>_ _ _ _ _ w. (True, w)), er_get = (\<lambda>_ _ _. None)\<rparr>"

definition demo_setup :: "(nat, unit, unit, unit, unit, unit) setup_env" where
  "demo_setup = \<lparr>su_builder = demo_store_env,
     su_types = (\<lambda>_. \<lparr>ti_type = 1, ti_valid = True, ti_size = (\<lambda>_. 1), ti_align = 1, ti_default = V_uint8 0\<rparr>),
     su_sync = 0, su_nonsync = 1\<rparr>"

definition demo_root :: "(unit, unit) builder" where
  "demo_root = \<lparr>b_subtree = [], b_masks = [], b_perm = (), b_subsystem = 0, b_enum_path = [], b_enum = None\<rparr>"

lemma demo_setup_ok: "setup_ok demo_setup" "id_space_ok (be_ids (su_builder demo_setup))"
  using nat_ids_ok by (simp_all add: setup_ok_def demo_setup_def demo_store_env_def nat_ids_def)

end
