(* ===== verification/Combiner_Init.thy ===== *)
theory Combiner_Init
  imports Element_Setup
begin

text \<open>
  The initialization of \<^verbatim>\<open>SlateCombiner.cc\<close>: reading the configuration into bins of element IDs,
  checking that enumerated inputs agree, and setting up the tokens of the sources.

  A combiner object is the record of \<open>Slate_Combiner\<close> and the array behind its \<^verbatim>\<open>static_vector\<close> of
  sources, whose three entries are constructed with the object (\<^verbatim>\<open>static_vector.h\<close>). What
  \<^verbatim>\<open>read_config_str_v_v\<close> returns is part of the configuration entry.
\<close>

section \<open>Tokens of the sources\<close>

type_synonym 'id combiner_obj = "'id combiner \<times> 'id source list"

definition construct_source :: "'id id_space \<Rightarrow> string \<Rightarrow> 'id acct \<Rightarrow> 'id source \<times> 'id acct" where
  "construct_source I ctx a =
     (let (t1, a1) = construct_token I ctx a;
          (t2, a2) = construct_token I ctx a1;
          (t3, a3) = construct_token I ctx a2;
          (t4, a4) = construct_token I ctx a3
      in (\<lparr>fresh_tok = t1, fresh_last_tok = t2, fresh_age_tok = t3, connected_tok = t4\<rparr>, a4))"

fun construct_sources :: "'id id_space \<Rightarrow> string \<Rightarrow> nat \<Rightarrow> 'id acct \<Rightarrow> 'id source list \<times> 'id acct" where
  "construct_sources I ctx 0 a = ([], a)"
| "construct_sources I ctx (Suc n) a =
     (let (s, a1) = construct_source I ctx a; (ss, a2) = construct_sources I ctx n a1 in (s # ss, a2))"

definition construct_combiner :: "'id id_space \<Rightarrow> string \<Rightarrow> 'id acct \<Rightarrow> 'id combiner_obj \<times> 'id acct" where
  "construct_combiner I ctx a =
     (let (data, a1) = construct_sources I ctx num_sources_max a;
          (t, a2) = construct_token I ctx a1
      in ((combiner_new t, data), a2))"

text \<open>Member-wise assignment and destruction, the latter in reverse order.\<close>

definition assign_source ::
  "'id id_space \<Rightarrow> string \<Rightarrow> 'id source \<Rightarrow> 'id source \<Rightarrow> 'id acct \<Rightarrow> ('id source \<times> 'id acct) option" where
  "assign_source I ctx s v a =
     (case set_id I ctx (fresh_tok s) (fresh_tok v) a of None \<Rightarrow> None | Some (t1, a1) \<Rightarrow>
     (case set_id I ctx (fresh_last_tok s) (fresh_last_tok v) a1 of None \<Rightarrow> None | Some (t2, a2) \<Rightarrow>
     (case set_id I ctx (fresh_age_tok s) (fresh_age_tok v) a2 of None \<Rightarrow> None | Some (t3, a3) \<Rightarrow>
     (case set_id I ctx (connected_tok s) (connected_tok v) a3 of None \<Rightarrow> None | Some (t4, a4) \<Rightarrow>
        Some (\<lparr>fresh_tok = t1, fresh_last_tok = t2, fresh_age_tok = t3, connected_tok = t4\<rparr>, a4)))))"

definition drop_source :: "'id id_space \<Rightarrow> 'id source \<Rightarrow> 'id acct \<Rightarrow> 'id acct option" where
  "drop_source I s a =
     (case drop_token I (connected_tok s) a of None \<Rightarrow> None | Some a1 \<Rightarrow>
     (case drop_token I (fresh_age_tok s) a1 of None \<Rightarrow> None | Some a2 \<Rightarrow>
     (case drop_token I (fresh_last_tok s) a2 of None \<Rightarrow> None | Some a3 \<Rightarrow>
        drop_token I (fresh_tok s) a3)))"

definition push_source ::
  "'id id_space \<Rightarrow> string \<Rightarrow> 'id source \<Rightarrow> 'id combiner_obj \<Rightarrow> 'id acct \<Rightarrow> ('id combiner_obj \<times> 'id acct) option" where
  "push_source I ctx v obj a =
     (case obj of (C, data) \<Rightarrow>
        let n = length (sources C) in
        if \<not> n < num_sources_max then None
        else
          (case assign_source I ctx (data ! n) v a of
             None \<Rightarrow> None
           | Some (s, a') \<Rightarrow> Some ((C\<lparr>sources := sources C @ [s]\<rparr>, data[n := s]), a')))"

section \<open>Enumerated elements\<close>

record ('q, 'e) combiner_in =
  in_builder :: "('q, 'e) builder"
  in_name :: string

definition no_table :: symtab where
  "no_table = symtab_new False (- 1) ''<unknown>''"

definition enum_table :: "(string \<times> symtab) option \<Rightarrow> symtab" where
  "enum_table e = (case e of None \<Rightarrow> no_table | Some (_, t) \<Rightarrow> t)"

text \<open>The loop over the other inputs; \<open>None\<close> is the return inside it.\<close>

fun inputs_consistent ::
  "('id, 'pm, 'v, 'x, 'q, 'e, 'w) builder_env \<Rightarrow> bool \<Rightarrow> (string \<times> symtab) option \<Rightarrow> string \<Rightarrow> 'w \<Rightarrow>
   ('q, 'e) combiner_in list \<Rightarrow> bool \<Rightarrow> bool option" where
  "inputs_consistent E has_first enum_first path w [] ok = Some ok"
| "inputs_consistent E has_first enum_first path w (i # is) ok =
     (let has = has_enum_registry (in_builder i) in
      if has_first \<noteq> has then inputs_consistent E has_first enum_first path w is False
      else if has then
        (case get_element_enum E (in_builder i) path w of
           None \<Rightarrow> None
         | Some e \<Rightarrow>
             if (enum_first \<noteq> None) \<noteq> (e \<noteq> None) then inputs_consistent E has_first enum_first path w is False
             else if \<not> symtab_eq (enum_table enum_first) (enum_table e)
             then inputs_consistent E has_first enum_first path w is False
             else inputs_consistent E has_first enum_first path w is ok)
      else inputs_consistent E has_first enum_first path w is ok)"

definition register_output_enum ::
  "('id, 'pm, 'v, 'x, 'q, 'e, 'w) builder_env \<Rightarrow> ('q, 'e) combiner_in list \<Rightarrow> ('q, 'e) builder \<Rightarrow> string \<Rightarrow> bool \<Rightarrow>
   'w \<Rightarrow> bool \<times> 'w" where
  "register_output_enum E builders_in out path bind_outputs w =
     (if builders_in = [] then (False, w)
      else
        let first = in_builder (hd builders_in); has_first = has_enum_registry first in
        (case (if has_first then get_element_enum E first path w else Some None) of
           None \<Rightarrow> (False, w)
         | Some enum_first \<Rightarrow>
             (case inputs_consistent E has_first enum_first path w (tl builders_in) True of
                None \<Rightarrow> (False, w)
              | Some ok \<Rightarrow>
                  if \<not> ok then (False, w)
                  else if bind_outputs then
                    (if has_first \<noteq> has_enum_registry out then (False, w)
                     else if has_enum_registry out then
                       (case get_element_enum E out path w of
                          None \<Rightarrow> (False, w)
                        | Some e \<Rightarrow>
                            if (enum_first \<noteq> None) \<noteq> (e \<noteq> None) then (False, w)
                            else (symtab_eq (enum_table enum_first) (enum_table e), w))
                     else (True, w))
                  else
                    (case enum_first of
                       None \<Rightarrow> (True, w)
                     | Some (name, table) \<Rightarrow>
                         if \<not> has_enum_registry out then (False, w)
                         else register_enum E out path name table [] w))))"

section \<open>Elements\<close>

text \<open>The loop that binds the inputs: the IDs found before the first failure.\<close>

fun input_ids ::
  "('id, 'pm, 'v, 'x, 'q, 'e, 'w) builder_env \<Rightarrow> string \<Rightarrow> nat \<Rightarrow> 'w \<Rightarrow> ('q, 'e) combiner_in list \<Rightarrow> bool \<times> 'id list" where
  "input_ids E path type_id w [] = (True, [])"
| "input_ids E path type_id w (i # is) =
     (case builder_get_element_id E (in_builder i) path type_id w of
        None \<Rightarrow> (False, [])
      | Some eid \<Rightarrow> (case input_ids E path type_id w is of (ok, ids) \<Rightarrow> (ok, eid # ids)))"

definition output_id ::
  "('id, 'pm, 'v, 'q, 'e, 'w) setup_env \<Rightarrow> elem_type \<Rightarrow> ('q, 'e) builder \<Rightarrow> string \<Rightarrow> bool \<Rightarrow> access \<Rightarrow> 'w \<Rightarrow>
   'id option \<times> 'w" where
  "output_id U t out path bind_outputs access w =
     (let E = su_builder U; ti = su_types U t in
      if bind_outputs then
        (case builder_get_element_id E out path (ti_type ti) w of
           None \<Rightarrow> (None, w)
         | Some eid \<Rightarrow> if \<not> id_can_write (le_codec (be_layout_env E)) eid then (None, w) else (Some eid, w))
      else create_element E out ti path (ti_default ti) (su_sync U) access None w)"

definition init_element ::
  "('id, 'pm, 'v, 'q, 'e, 'w) setup_env \<Rightarrow> bool \<Rightarrow> elem_type \<Rightarrow> ('q, 'e) combiner_in list \<Rightarrow> ('q, 'e) builder \<Rightarrow>
   string \<Rightarrow> bool \<Rightarrow> 'id element_bin \<Rightarrow> access \<Rightarrow> 'w \<Rightarrow> bool \<times> 'id element_bin \<times> 'w" where
  "init_element U initialized t builders_in out path bind_outputs bin access w =
     (if initialized then (False, bin, w)
      else
        (case output_id U t out path bind_outputs access w of
           (None, w1) \<Rightarrow> (False, bin, w1)
         | (Some id_out, w1) \<Rightarrow>
             let bin1 = bin\<lparr>bin_ids := bin_ids bin @ [id_out]\<rparr> in
             (case register_output_enum (su_builder U) builders_in out path bind_outputs w1 of
                (False, w2) \<Rightarrow> (False, bin1, w2)
              | (True, w2) \<Rightarrow>
                  (case input_ids (su_builder U) path (ti_type (su_types U t)) w2 builders_in of (ok, ids) \<Rightarrow>
                     let bin2 = bin1\<lparr>bin_ids := bin_ids bin1 @ ids\<rparr> in
                     if \<not> ok then (False, bin2, w2) else (True, bin2\<lparr>bin_type := Some t\<rparr>, w2)))))"

definition elem_type_named :: "string \<Rightarrow> elem_type option" where
  "elem_type_named s =
     map_of [(''bool'', T_bool), (''int8'', T_int8), (''int16'', T_int16), (''int32'', T_int32),
       (''int64'', T_int64), (''uint8'', T_uint8), (''uint16'', T_uint16), (''uint32'', T_uint32),
       (''uint64'', T_uint64), (''float'', T_float), (''double'', T_double)] s"

section \<open>Configurations\<close>

record sharer_config =
  cfg_lines :: "string list list option"
  cfg_prefix :: string

record ('q, 'e) init_args =
  ia_fresh :: string
  ia_inputs :: "('q, 'e) combiner_in list"
  ia_out :: "('q, 'e) builder"
  ia_configs :: "sharer_config list"
  ia_bind_outputs :: bool
  ia_name :: string
  ia_access :: access
  ia_downselect :: bool
  ia_bind_metrics :: bool
  ia_threshold :: "8 word"
  ia_ignore :: string

text \<open>\<open>bin_select\<close>, the bins, \<open>initialization_ok\<close> and the store.\<close>

type_synonym ('id, 'w) config_state = "(string \<rightharpoonup> nat) \<times> 'id element_bin list \<times> bool \<times> 'w"

definition init_line ::
  "('id, 'pm, 'v, 'q, 'e, 'w) setup_env \<Rightarrow> bool \<Rightarrow> ('q, 'e) init_args \<Rightarrow> string \<Rightarrow> string \<Rightarrow>
   ('id, 'w) config_state \<Rightarrow> ('id, 'w) config_state" where
  "init_line U initialized A path type_name s =
     (case s of (select, bs, ok, w) \<Rightarrow>
        let ty = (if type_name = ''packed_bool'' then ''bool'' else type_name);
            (select1, bs1, i) = (case select ty of
                 Some i \<Rightarrow> (select, bs, i)
               | None \<Rightarrow> (select(ty \<mapsto> length bs), bs @ [\<lparr>bin_ids = [], bin_type = None\<rparr>], length bs))
        in (case elem_type_named ty of
              None \<Rightarrow> (select1, bs1, False, w)
            | Some t \<Rightarrow>
                (case init_element U initialized t (ia_inputs A) (ia_out A) path (ia_bind_outputs A) (bs1 ! i)
                        (ia_access A) w of
                   (done1, bin, w') \<Rightarrow> (select1, bs1[i := bin], done1 \<and> ok, w'))))"

fun init_lines ::
  "('id, 'pm, 'v, 'q, 'e, 'w) setup_env \<Rightarrow> bool \<Rightarrow> ('q, 'e) init_args \<Rightarrow> string \<Rightarrow> string list list \<Rightarrow>
   ('id, 'w) config_state \<Rightarrow> bool \<times> ('id, 'w) config_state" where
  "init_lines U initialized A prefix [] s = (True, s)"
| "init_lines U initialized A prefix (line # rest) s =
     (if \<not> length line \<ge> 2 then (False, s)
      else if line ! 0 = ia_ignore A then init_lines U initialized A prefix rest s
      else init_lines U initialized A prefix rest (init_line U initialized A (prefix @ line ! 0) (line ! 1) s))"

fun init_configs ::
  "('id, 'pm, 'v, 'q, 'e, 'w) setup_env \<Rightarrow> bool \<Rightarrow> ('q, 'e) init_args \<Rightarrow> sharer_config list \<Rightarrow>
   ('id, 'w) config_state \<Rightarrow> bool \<times> ('id, 'w) config_state" where
  "init_configs U initialized A [] s = (True, s)"
| "init_configs U initialized A (entry # entries) s =
     (case cfg_lines entry of
        None \<Rightarrow> (False, s)
      | Some lines \<Rightarrow>
          (case init_lines U initialized A (cfg_prefix entry) lines s of
             (False, s') \<Rightarrow> (False, s')
           | (True, s') \<Rightarrow> init_configs U initialized A entries s'))"

section \<open>Sources\<close>

definition source_table :: "'id source \<Rightarrow> 'id tok_table" where
  "source_table s t =
     (if t = ''fresh_tok'' then fresh_tok s else if t = ''fresh_last_tok'' then fresh_last_tok s
      else if t = ''fresh_age_tok'' then fresh_age_tok s else connected_tok s)"

definition source_of_table :: "'id tok_table \<Rightarrow> 'id source" where
  "source_of_table T = \<lparr>fresh_tok = T ''fresh_tok'', fresh_last_tok = T ''fresh_last_tok'',
     fresh_age_tok = T ''fresh_age_tok'', connected_tok = T ''connected_tok''\<rparr>"

definition source_plan :: "('id, 'pm, 'v, 'q, 'e, 'w) setup_env \<Rightarrow> string \<Rightarrow> 8 word \<Rightarrow> setup_op list" where
  "source_plan U name threshold =
     [Create_private_value ''fresh_last_tok'' T_int64 (name @ ''.fresh_last'') (V_int64 seq_default) (su_sync U),
      Create_private_value ''fresh_age_tok'' T_uint8 (name @ ''.fresh_age'') (V_uint8 threshold) (su_sync U),
      Create_value ''connected_tok'' T_bool (name @ ''.connected'') (V_bool False) (su_sync U) Slate_read_only]"

definition source_init ::
  "('id, 'pm, 'v, 'q, 'e, 'w) setup_env \<Rightarrow> ('q, 'e) builder \<Rightarrow> string \<Rightarrow> string \<Rightarrow> 8 word \<Rightarrow> ('q, 'e) builder \<Rightarrow>
   'id source \<Rightarrow> ('id, 'w) bstate \<Rightarrow> (bool \<times> 'id source \<times> ('id, 'w) bstate) option" where
  "source_init U source_builder name fresh threshold combiner_builder s st =
     (case run_setup U source_builder [Bind_read ''fresh_tok'' T_int64 fresh] (source_table s, st) of
        None \<Rightarrow> None
      | Some (ok, T, st1) \<Rightarrow>
          if \<not> ok then Some (False, source_of_table T, st1)
          else
            map_option (\<lambda>(ok, T, st2). (ok, source_of_table T, st2))
              (run_setup U combiner_builder (source_plan U name threshold) (T, st1)))"

text \<open>The loop body constructs a local source, initializes it, appends a copy and destroys it.\<close>

fun init_sources ::
  "('id, 'pm, 'v, 'q, 'e, 'w) setup_env \<Rightarrow> string \<Rightarrow> ('q, 'e) init_args \<Rightarrow> ('q, 'e) builder \<Rightarrow>
   ('q, 'e) combiner_in list \<Rightarrow> 'id combiner_obj \<times> ('id, 'w) bstate \<Rightarrow>
   (bool \<times> 'id combiner_obj \<times> ('id, 'w) bstate) option" where
  "init_sources U ctx A sub [] s = Some (True, s)"
| "init_sources U ctx A sub (i # is) (obj, (w, a)) =
     (let I = be_ids (su_builder U); (src, a1) = construct_source I ctx a in
      (case source_init U (in_builder i) (in_name i) (ia_fresh A) (stale_threshold (fst obj)) sub src (w, a1) of
         None \<Rightarrow> None
       | Some (False, src', (w', a2)) \<Rightarrow>
           map_option (\<lambda>a3. (False, obj, (w', a3))) (drop_source I src' a2)
       | Some (True, src', (w', a2)) \<Rightarrow>
           (case push_source I ctx src' obj a2 of
              None \<Rightarrow> None
            | Some (obj', a3) \<Rightarrow>
                (case drop_source I src' a3 of
                   None \<Rightarrow> None
                 | Some a4 \<Rightarrow> init_sources U ctx A sub is (obj', (w', a4))))))"

section \<open>The whole initialization\<close>

definition metrics_op :: "('id, 'pm, 'v, 'q, 'e, 'w) setup_env \<Rightarrow> bool \<Rightarrow> setup_op" where
  "metrics_op U bind_metrics =
     (if bind_metrics then Bind_write ''connected'' T_bool ''connected''
      else Create_value ''connected'' T_bool ''connected'' (V_bool False) (su_sync U) Slate_read_only)"

definition combiner_init ::
  "('id, 'pm, 'v, 'q, 'e, 'w) setup_env \<Rightarrow> string \<Rightarrow> ('q, 'e) init_args \<Rightarrow> 'id combiner_obj \<Rightarrow> ('id, 'w) bstate \<Rightarrow>
   (bool \<times> 'id combiner_obj \<times> ('id, 'w) bstate) option" where
  "combiner_init U ctx A obj st =
     (case obj of (C, data) \<Rightarrow>
      if is_init C then Some (False, obj, st)
      else if ia_inputs A = [] then Some (False, obj, st)
      else if length (ia_inputs A) > num_sources_max then Some (False, obj, st)
      else
        let C1 = C\<lparr>num_sources := length (ia_inputs A)\<rparr> in
        (case init_configs U (is_init C1) A (ia_configs A) (Map.empty, bins C1, True, fst st) of
           (returned, (_, bs, ok, w)) \<Rightarrow>
             let C2 = C1\<lparr>bins := bs\<rparr>; st2 = (w, snd st) in
             if \<not> returned then Some (False, (C2, data), st2)
             else if \<not> ok then Some (False, (C2, data), st2)
             else if ia_threshold A = 0 then Some (False, (C2, data), st2)
             else
               let C3 = C2\<lparr>stale_threshold := ia_threshold A\<rparr> in
               if \<not> list_all (\<lambda>i. is_peer (su_builder U) (in_builder i) (ia_out A)) (ia_inputs A)
               then Some (False, (C3, data), st2)
               else
                 (case sub_slate_at (su_builder U) (ia_name A) (ia_out A) of
                    None \<Rightarrow> None
                  | Some sub \<Rightarrow>
                      (case init_sources U ctx A sub (ia_inputs A) ((C3, data), st2) of
                         None \<Rightarrow> None
                       | Some (False, obj3, st3) \<Rightarrow> Some (False, obj3, st3)
                       | Some (True, (C4, data4), st4) \<Rightarrow>
                           (case run_setup U sub [metrics_op U (ia_bind_metrics A)]
                                   (\<lambda>_. combined_connected_tok C4, st4) of
                              None \<Rightarrow> None
                            | Some (ok, T, st5) \<Rightarrow>
                                let C5 = C4\<lparr>combined_connected_tok := T ''connected''\<rparr> in
                                if \<not> ok then Some (False, (C5, data4), st5)
                                else Some (True, (C5\<lparr>downselect := ia_downselect A, is_init := True\<rparr>, data4), st5))))))"

text \<open>The overload with one configuration key: default access, threshold and modes.\<close>

definition combiner_init_key ::
  "('id, 'pm, 'v, 'q, 'e, 'w) setup_env \<Rightarrow> string \<Rightarrow> string \<Rightarrow> ('q, 'e) combiner_in list \<Rightarrow> ('q, 'e) builder \<Rightarrow>
   string list list option \<Rightarrow> bool \<Rightarrow> string \<Rightarrow> string \<Rightarrow> 'id combiner_obj \<Rightarrow> ('id, 'w) bstate \<Rightarrow>
   (bool \<times> 'id combiner_obj \<times> ('id, 'w) bstate) option" where
  "combiner_init_key U ctx fresh inputs out config bind_outputs name ignore obj st =
     (if is_init (fst obj) then Some (False, obj, st)
      else combiner_init U ctx
        \<lparr>ia_fresh = fresh, ia_inputs = inputs, ia_out = out, ia_configs = [\<lparr>cfg_lines = config, cfg_prefix = []\<rparr>],
         ia_bind_outputs = bind_outputs, ia_name = name, ia_access = Slate_read_only, ia_downselect = False,
         ia_bind_metrics = False, ia_threshold = 1, ia_ignore = ignore\<rparr> obj st)"

section \<open>The shape of the bins\<close>

text \<open>
  While no element has failed: every bin holds whole groups of IDs of the type it is selected by, and
  the groups are as many as the elements read.
\<close>

definition bins_shape :: "nat \<Rightarrow> nat \<Rightarrow> (string \<rightharpoonup> nat) \<Rightarrow> 'id element_bin list \<Rightarrow> bool" where
  "bins_shape n elems select bs \<longleftrightarrow>
     (\<forall>ty i. select ty = Some i \<longleftrightarrow> (i < length bs \<and> (\<exists>t. elem_type_named ty = Some t \<and> bin_type (bs ! i) = Some t))) \<and>
     (\<forall>b\<in>set bs. bin_type b \<noteq> None \<and> (n + 1) dvd length (bin_ids b)) \<and>
     distinct (map bin_type bs) \<and>
     sum_list (map (length \<circ> bin_ids) bs) = (n + 1) * elems"

lemma elem_type_named_inj: "elem_type_named a = Some t \<Longrightarrow> elem_type_named b = Some t \<Longrightarrow> a = b"
  by (auto simp: elem_type_named_def split: if_splits)

lemma elem_type_named_onto: "\<exists>s. elem_type_named s = Some t"
proof -
  have "elem_type_named ((case t of T_bool \<Rightarrow> ''bool'' | T_int8 \<Rightarrow> ''int8'' | T_int16 \<Rightarrow> ''int16''
      | T_int32 \<Rightarrow> ''int32'' | T_int64 \<Rightarrow> ''int64'' | T_uint8 \<Rightarrow> ''uint8'' | T_uint16 \<Rightarrow> ''uint16''
      | T_uint32 \<Rightarrow> ''uint32'' | T_uint64 \<Rightarrow> ''uint64'' | T_float \<Rightarrow> ''float'' | T_double \<Rightarrow> ''double'')) = Some t"
    by (cases t) (simp_all add: elem_type_named_def)
  then show ?thesis by blast
qed

lemma input_ids_length: "input_ids E path ty w is = (True, ids) \<Longrightarrow> length ids = length is"
  by (induction "is" arbitrary: ids) (auto split: option.splits prod.splits)

lemma init_element_ok:
  assumes "init_element U initialized t ins out path bo bin access w = (True, bin', w')"
  shows "bin_type bin' = Some t" and "length (bin_ids bin') = length (bin_ids bin) + (length ins + 1)"
  using assms
  by (auto simp: init_element_def Let_def dest!: input_ids_length split: if_splits option.splits prod.splits bool.splits)

lemma sum_list_update_nat:
  fixes xs :: "nat list"
  shows "i < length xs \<Longrightarrow> sum_list (xs[i := v]) + xs ! i = sum_list xs + v"
  by (induction xs arbitrary: i) (auto split: nat.splits)

lemma bins_shape_new:
  assumes "bins_shape n e select bs" and "select ty = None" and "elem_type_named ty = Some t"
    and "bin_type b = Some t" and "length (bin_ids b) = n + 1"
  shows "bins_shape n (e + 1) (select(ty \<mapsto> length bs)) (bs @ [b])"
proof -
  have old: "\<And>ty i. select ty = Some i \<longleftrightarrow> (i < length bs \<and> (\<exists>t. elem_type_named ty = Some t \<and> bin_type (bs ! i) = Some t))"
    and each: "\<forall>b\<in>set bs. bin_type b \<noteq> None \<and> (n + 1) dvd length (bin_ids b)"
    and dist: "distinct (map bin_type bs)" and total: "sum_list (map (length \<circ> bin_ids) bs) = (n + 1) * e"
    using assms(1) by (simp_all add: bins_shape_def)
  have "bin_type (bs ! i) \<noteq> Some t" if "i < length bs" for i
    using old [of ty i] assms(2,3) that by auto
  then have new: "Some t \<notin> set (map bin_type bs)" unfolding set_map by (metis imageE in_set_conv_nth)
  have sel: "(select(ty \<mapsto> length bs)) ty' = Some i \<longleftrightarrow>
      (i < length (bs @ [b]) \<and> (\<exists>u. elem_type_named ty' = Some u \<and> bin_type ((bs @ [b]) ! i) = Some u))" for ty' i
  proof (cases "i < length bs")
    case True
    then show ?thesis
      using old [of ty' i] old [of ty i] assms(2) by (auto simp: nth_append)
  next
    case False
    then have "select ty' \<noteq> Some i" using old [of ty' i] by auto
    then have "(select(ty \<mapsto> length bs)) ty' = Some i \<longleftrightarrow> ty' = ty \<and> i = length bs" by auto
    moreover have "i < length (bs @ [b]) \<and> (\<exists>u. elem_type_named ty' = Some u \<and> bin_type ((bs @ [b]) ! i) = Some u)
        \<longleftrightarrow> i = length bs \<and> elem_type_named ty' = Some t"
      using False assms(4) by (cases "i = length bs") simp_all
    ultimately show ?thesis using elem_type_named_inj [OF assms(3)] assms(3) by blast
  qed
  show ?thesis
    unfolding bins_shape_def
  proof (intro conjI)
    show "\<forall>ty' i. (select(ty \<mapsto> length bs)) ty' = Some i \<longleftrightarrow>
        (i < length (bs @ [b]) \<and> (\<exists>u. elem_type_named ty' = Some u \<and> bin_type ((bs @ [b]) ! i) = Some u))"
      using sel by blast
    show "\<forall>c\<in>set (bs @ [b]). bin_type c \<noteq> None \<and> (n + 1) dvd length (bin_ids c)"
      using each assms(4,5) by simp
    show "distinct (map bin_type (bs @ [b]))" using dist new assms(4) by simp
    show "sum_list (map (length \<circ> bin_ids) (bs @ [b])) = (n + 1) * (e + 1)"
      using total assms(5) by simp
  qed
qed

lemma bins_shape_update:
  assumes "bins_shape n e select bs" and "select ty = Some i" and "elem_type_named ty = Some t"
    and "bin_type b = Some t" and "length (bin_ids b) = length (bin_ids (bs ! i)) + (n + 1)"
  shows "bins_shape n (e + 1) select (bs[i := b])"
proof -
  have i: "i < length bs" "bin_type (bs ! i) = Some t"
    using assms(1-3) by (auto simp: bins_shape_def)
  have types: "map bin_type (bs[i := b]) = map bin_type bs"
    using i assms(4) by (simp add: map_update list_update_same_conv)
  have ty: "bin_type (bs[i := b] ! j) = bin_type (bs ! j)" if "j < length bs" for j
    using that types by (metis length_list_update nth_map)
  have "(n + 1) dvd length (bin_ids (bs ! i))" using assms(1) i(1) by (simp add: bins_shape_def)
  then have dvd: "(n + 1) dvd length (bin_ids b)" by (simp only: assms(5) dvd_add dvd_refl)
  have "sum_list ((map (length \<circ> bin_ids) bs)[i := length (bin_ids b)]) + length (bin_ids (bs ! i)) =
      (n + 1) * e + length (bin_ids b)"
    using sum_list_update_nat [of i "map (length \<circ> bin_ids) bs"] i(1) assms(1) by (simp add: bins_shape_def)
  then have total: "sum_list (map (length \<circ> bin_ids) (bs[i := b])) = (n + 1) * (e + 1)"
    using assms(5) by (simp add: map_update)
  show ?thesis
    unfolding bins_shape_def types
  proof (intro conjI)
    show "\<forall>ty' j. select ty' = Some j \<longleftrightarrow>
        (j < length (bs[i := b]) \<and> (\<exists>u. elem_type_named ty' = Some u \<and> bin_type (bs[i := b] ! j) = Some u))"
      using assms(1) by (auto simp: bins_shape_def ty)
    show "\<forall>c\<in>set (bs[i := b]). bin_type c \<noteq> None \<and> (n + 1) dvd length (bin_ids c)"
    proof
      fix c
      assume "c \<in> set (bs[i := b])"
      then have "c = b \<or> c \<in> set bs" using set_update_subset_insert by fastforce
      then show "bin_type c \<noteq> None \<and> (n + 1) dvd length (bin_ids c)"
        using assms(1,4) dvd by (auto simp: bins_shape_def)
    qed
  qed (use assms(1) total in \<open>simp_all add: bins_shape_def\<close>)
qed


lemma init_line_shape:
  assumes "init_line U initialized A path ty (select, bs, ok, w) = (select', bs', True, w')"
    and "bins_shape (length (ia_inputs A)) e select bs"
  shows "ok \<and> bins_shape (length (ia_inputs A)) (e + 1) select' bs'"
proof -
  define nm where "nm = (if ty = ''packed_bool'' then ''bool'' else ty)"
  obtain t where t: "elem_type_named nm = Some t"
    using assms(1) by (auto simp: init_line_def Let_def nm_def split: option.splits prod.splits)
  show ?thesis
  proof (cases "select nm")
    case None
    obtain bin where bin: "init_element U initialized t (ia_inputs A) (ia_out A) path (ia_bind_outputs A)
        \<lparr>bin_ids = [], bin_type = None\<rparr> (ia_access A) w = (True, bin, w')"
      and res: "ok" "select' = select(nm \<mapsto> length bs)" "bs' = bs @ [bin]"
      using assms(1) t None by (auto simp: init_line_def Let_def nm_def [symmetric] split: prod.splits)
    have "length (bin_ids bin) = length (ia_inputs A) + 1"
      using init_element_ok(2) [OF bin] by simp
    then show ?thesis
      using bins_shape_new [OF assms(2) None t init_element_ok(1) [OF bin]] res by simp
  next
    case (Some i)
    obtain bin where bin: "init_element U initialized t (ia_inputs A) (ia_out A) path (ia_bind_outputs A)
        (bs ! i) (ia_access A) w = (True, bin, w')"
      and res: "ok" "select' = select" "bs' = bs[i := bin]"
      using assms(1) t Some by (auto simp: init_line_def Let_def nm_def [symmetric] split: prod.splits)
    show ?thesis
      using bins_shape_update [OF assms(2) Some t init_element_ok [OF bin]] res by simp
  qed
qed

lemma init_line_failed:
  "init_line U initialized A path ty (select, bs, False, w) = (select', bs', ok, w') \<Longrightarrow> \<not> ok"
  by (auto simp: init_line_def Let_def split: option.splits prod.splits)

lemma init_lines_failed:
  "init_lines U initialized A prefix lines (select, bs, False, w) = (r, select', bs', ok, w') \<Longrightarrow> \<not> ok"
proof (induction lines arbitrary: select bs w)
  case Nil
  then show ?case by simp
next
  case (Cons line rest)
  obtain s1 b1 ok1 w1 where one:
    "init_line U initialized A (prefix @ line ! 0) (line ! 1) (select, bs, False, w) = (s1, b1, ok1, w1)"
    by (metis prod_cases3)
  have "\<not> ok1" using init_line_failed [OF one] .
  then show ?case using Cons one by (auto split: if_splits)
qed

definition used_lines :: "string \<Rightarrow> string list list \<Rightarrow> nat" where
  "used_lines ignore lines = length (filter (\<lambda>l. l ! 0 \<noteq> ignore) lines)"

lemma init_lines_shape:
  assumes "init_lines U initialized A prefix lines (select, bs, ok, w) = (True, select', bs', True, w')"
    and "bins_shape (length (ia_inputs A)) e select bs"
  shows "ok \<and> bins_shape (length (ia_inputs A)) (e + used_lines (ia_ignore A) lines) select' bs'"
  using assms
proof (induction lines arbitrary: select bs ok w e)
  case Nil
  then show ?case by (simp add: used_lines_def)
next
  case (Cons line rest)
  show ?case
  proof (cases "line ! 0 = ia_ignore A")
    case True
    then have "init_lines U initialized A prefix rest (select, bs, ok, w) = (True, select', bs', True, w')"
      using Cons.prems(1) by (simp split: if_splits)
    from Cons.IH [OF this Cons.prems(2)] True show ?thesis by (simp add: used_lines_def)
  next
    case False
    obtain s1 b1 ok1 w1 where one:
      "init_line U initialized A (prefix @ line ! 0) (line ! 1) (select, bs, ok, w) = (s1, b1, ok1, w1)"
      by (metis prod_cases3)
    then have rest: "init_lines U initialized A prefix rest (s1, b1, ok1, w1) = (True, select', bs', True, w')"
      using Cons.prems(1) False by (auto split: if_splits)
    have ok1: "ok1" using init_lines_failed [of U initialized A prefix rest s1 b1 w1] rest by (cases ok1) auto
    have step: "ok \<and> bins_shape (length (ia_inputs A)) (e + 1) s1 b1"
      using init_line_shape [OF one [unfolded ok1 [THEN eqTrueI]] Cons.prems(2)] .
    show ?thesis
      using Cons.IH [OF rest, of "e + 1"] step False by (simp add: used_lines_def)
  qed
qed

lemma init_configs_failed:
  "init_configs U initialized A cs (select, bs, False, w) = (r, select', bs', ok, w') \<Longrightarrow> \<not> ok"
proof (induction cs arbitrary: select bs w)
  case Nil
  then show ?case by simp
next
  case (Cons c cs)
  show ?case
  proof (cases "cfg_lines c")
    case None
    then show ?thesis using Cons.prems by simp
  next
    case (Some lines)
    obtain r1 s1 b1 ok1 w1 where one:
      "init_lines U initialized A (cfg_prefix c) lines (select, bs, False, w) = (r1, s1, b1, ok1, w1)"
      by (metis prod_cases5)
    have "\<not> ok1" using init_lines_failed [OF one] .
    then show ?thesis using Cons one Some by (cases r1) auto
  qed
qed

lemma init_configs_shape:
  assumes "init_configs U initialized A cs (select, bs, ok, w) = (True, select', bs', True, w')"
    and "bins_shape (length (ia_inputs A)) e select bs"
  shows "ok \<and> bins_shape (length (ia_inputs A))
    (e + sum_list (map (\<lambda>c. used_lines (ia_ignore A) (the (cfg_lines c))) cs)) select' bs'"
  using assms
proof (induction cs arbitrary: select bs ok w e)
  case Nil
  then show ?case by simp
next
  case (Cons c cs)
  obtain lines where lines: "cfg_lines c = Some lines" using Cons.prems(1) by (cases "cfg_lines c") auto
  obtain s1 b1 ok1 w1 where one: "init_lines U initialized A (cfg_prefix c) lines (select, bs, ok, w) = (True, s1, b1, ok1, w1)"
    and rest: "init_configs U initialized A cs (s1, b1, ok1, w1) = (True, select', bs', True, w')"
    using Cons.prems(1) lines by (auto split: prod.splits bool.splits)
  have ok1: "ok1" using init_configs_failed [of U initialized A cs s1 b1 w1] rest by (cases ok1) auto
  have step: "ok \<and> bins_shape (length (ia_inputs A)) (e + used_lines (ia_ignore A) lines) s1 b1"
    using init_lines_shape [OF one [unfolded ok1 [THEN eqTrueI]] Cons.prems(2)] .
  show ?case using Cons.IH [OF rest, of "e + used_lines (ia_ignore A) lines"] step by (simp add: lines add.assoc)
qed

section \<open>The tokens after a successful initialization\<close>

definition source_bound :: "'id id_space \<Rightarrow> 'id source \<Rightarrow> bool" where
  "source_bound I s \<longleftrightarrow> is_valid_id I (fresh_tok s) \<and> is_valid_id I (fresh_last_tok s) \<and>
     is_valid_id I (fresh_age_tok s) \<and> is_valid_id I (connected_tok s)"

lemma set_id_valid: "set_id I ctx old b a = Some (i, a') \<Longrightarrow> is_valid_id I b \<Longrightarrow> i = b"
  by (auto simp: set_id_def split: option.splits prod.splits if_splits)

lemma assign_source_bound:
  assumes "assign_source I ctx s v a = Some (s', a')" and "source_bound I v"
  shows "s' = v"
  using assms
  by (auto simp: assign_source_def source_bound_def dest!: set_id_valid split: option.splits prod.splits)

lemma source_init_bound:
  assumes "setup_ok U" and "source_init U sb name fresh thr cb s st = Some (True, s', st')"
  shows "source_bound (be_ids (su_builder U)) s'"
proof -
  obtain T1 w1 a1 T2 w2 a2 where one: "run_setup U sb [Bind_read ''fresh_tok'' T_int64 fresh] (source_table s, st) = Some (True, T1, w1, a1)"
    and two: "run_setup U cb (source_plan U name thr) (T1, w1, a1) = Some (True, T2, w2, a2)" and s': "s' = source_of_table T2"
    using assms(2) by (auto simp: source_init_def split: option.splits prod.splits if_splits)
  have tokens: "op_token ` set (source_plan U name thr) = {''fresh_last_tok'', ''fresh_age_tok'', ''connected_tok''}"
    by (simp add: source_plan_def)
  note a = run_setup_binds [OF assms(1) one, THEN conjunct2, THEN conjunct1, rule_format]
  note b = run_setup_binds [OF assms(1) two, THEN conjunct2, THEN conjunct1, rule_format, unfolded tokens]
  have "is_valid_id (be_ids (su_builder U)) (T1 ''fresh_tok'')" using a [of "''fresh_tok''"] by simp
  then show ?thesis
    using b [of "''fresh_tok''"] b [of "''fresh_last_tok''"] b [of "''fresh_age_tok''"] b [of "''connected_tok''"]
    by (simp add: source_bound_def s' source_of_table_def)
qed

lemma init_sources_shape:
  assumes "setup_ok U" and "init_sources U ctx A sub is ((C, data), st) = Some (True, (C', data'), st')"
  shows "\<exists>ss. C' = C\<lparr>sources := sources C @ ss\<rparr> \<and> length ss = length is \<and>
           (\<forall>s\<in>set ss. source_bound (be_ids (su_builder U)) s)"
  using assms(2)
proof (induction "is" arbitrary: C data st)
  case Nil
  then show ?case by (intro exI [of _ "[]"]) simp
next
  case (Cons i "is")
  obtain w a where st: "st = (w, a)" by fastforce
  obtain src a1 where src: "construct_source (be_ids (su_builder U)) ctx a = (src, a1)" by fastforce
  obtain src' w2 a2 C1 data1 a3 a4 where
    init: "source_init U (in_builder i) (in_name i) (ia_fresh A) (stale_threshold C) sub src (w, a1) = Some (True, src', w2, a2)"
    and push: "push_source (be_ids (su_builder U)) ctx src' (C, data) a2 = Some ((C1, data1), a3)"
    and rest: "init_sources U ctx A sub is ((C1, data1), (w2, a4)) = Some (True, (C', data'), st')"
    using Cons.prems by (auto simp: st src Let_def split: option.splits prod.splits bool.splits)
  have C1: "C1 = C\<lparr>sources := sources C @ [src']\<rparr>"
    using push assign_source_bound [OF _ source_init_bound [OF assms(1) init]]
    by (auto simp: push_source_def Let_def split: option.splits if_splits)
  obtain ss where "C' = C1\<lparr>sources := sources C1 @ ss\<rparr>" "length ss = length is"
    "\<forall>s\<in>set ss. source_bound (be_ids (su_builder U)) s"
    using Cons.IH [OF rest] by blast
  then show ?case
    using source_init_bound [OF assms(1) init] by (intro exI [of _ "src' # ss"]) (simp add: C1)
qed

section \<open>Unused entries of the source array\<close>

definition source_ids :: "'id source \<Rightarrow> 'id set" where
  "source_ids s = {fresh_tok s, fresh_last_tok s, fresh_age_tok s, connected_tok s}"

lemma pending_construct_source:
  assumes "id_space_ok I" and "enabled a" and "construct_source I ctx a = (s, a')"
  shows "enabled a'" and "\<forall>j\<in>source_ids s. pending I a' j" and "pending I a i \<Longrightarrow> pending I a' i \<and> i \<notin> source_ids s"
proof -
  obtain t1 a1 t2 a2 t3 a3 t4 where
    t1: "construct_token I ctx a = (t1, a1)" and t2: "construct_token I ctx a1 = (t2, a2)" and
    t3: "construct_token I ctx a2 = (t3, a3)" and t4: "construct_token I ctx a3 = (t4, a')" and
    s: "s = \<lparr>fresh_tok = t1, fresh_last_tok = t2, fresh_age_tok = t3, connected_tok = t4\<rparr>"
    using assms(3) by (auto simp: construct_source_def Let_def split: prod.splits)
  note p1 = pending_construct [OF assms(1,2) t1]
  note p2 = pending_construct [OF assms(1) p1(3) t2]
  note p3 = pending_construct [OF assms(1) p2(3) t3]
  note p4 = pending_construct [OF assms(1) p3(3) t4]
  show "enabled a'" by (rule p4(3))
  show "\<forall>j\<in>source_ids s. pending I a' j" using p1(1) p2(1,2) p3(1,2) p4(1,2) by (simp add: source_ids_def s)
  show "pending I a i \<Longrightarrow> pending I a' i \<and> i \<notin> source_ids s"
    using p1(2) p2(2) p3(2) p4(2) by (auto simp: source_ids_def s)
qed

lemma pending_construct_sources:
  assumes "id_space_ok I" and "enabled a" and "construct_sources I ctx n a = (ss, a')"
  shows "enabled a' \<and> length ss = n \<and> (\<forall>s\<in>set ss. \<forall>j\<in>source_ids s. pending I a' j) \<and>
    sorted_wrt (\<lambda>s t. source_ids s \<inter> source_ids t = {}) ss \<and>
    (\<forall>i. pending I a i \<longrightarrow> pending I a' i \<and> (\<forall>s\<in>set ss. i \<notin> source_ids s))"
  using assms(2,3)
proof (induction n arbitrary: a ss)
  case 0
  then show ?case by simp
next
  case (Suc n)
  obtain s a1 ts where s: "construct_source I ctx a = (s, a1)" and ts: "construct_sources I ctx n a1 = (ts, a')"
    and ss: "ss = s # ts"
    using Suc.prems(2) by (auto simp: Let_def split: prod.splits)
  note p = pending_construct_source [OF assms(1) Suc.prems(1) s]
  show ?case using Suc.IH [OF p(1) ts] p(2,3) by (auto simp: ss)
qed

lemma pending_assign_source:
  assumes I: "id_space_ok I" and "assign_source I ctx s v a = Some (s', a')" and v: "source_bound I v"
    and p: "pending I a i" and "i \<notin> source_ids s"
  shows "pending I a' i"
proof -
  have ne: "fresh_tok s \<noteq> i" "fresh_last_tok s \<noteq> i" "fresh_age_tok s \<noteq> i" "connected_tok s \<noteq> i"
    using assms(5) by (auto simp: source_ids_def)
  have valid: "is_valid_id I (fresh_tok v)" "is_valid_id I (fresh_last_tok v)" "is_valid_id I (fresh_age_tok v)"
    "is_valid_id I (connected_tok v)" using v by (simp_all add: source_bound_def)
  obtain t1 a1 t2 a2 t3 a3 t4 where
    t: "set_id I ctx (fresh_tok s) (fresh_tok v) a = Some (t1, a1)"
    "set_id I ctx (fresh_last_tok s) (fresh_last_tok v) a1 = Some (t2, a2)"
    "set_id I ctx (fresh_age_tok s) (fresh_age_tok v) a2 = Some (t3, a3)"
    "set_id I ctx (connected_tok s) (connected_tok v) a3 = Some (t4, a')"
    using assms(2) by (auto simp: assign_source_def split: option.splits prod.splits)
  note p1 = pending_set [OF I t(1) p ne(1) valid(1)]
  note p2 = pending_set [OF I t(2) p1 ne(2) valid(2)]
  note p3 = pending_set [OF I t(3) p2 ne(3) valid(3)]
  show ?thesis by (rule pending_set [OF I t(4) p3 ne(4) valid(4)])
qed

lemma pending_drop_source:
  assumes "id_space_ok I" and "drop_source I s a = Some a'" and "source_bound I s" and "pending I a i"
  shows "pending I a' i"
  using assms pending_invalid [OF assms(1,4)]
  by (auto simp: drop_source_def source_bound_def elim!: pending_drop split: option.splits)

lemma pending_source_init:
  assumes I: "id_space_ok (be_ids (su_builder U))" and ok: "setup_ok U"
    and init: "source_init U sb name fresh thr cb s (w, a) = Some (True, s', (w', a'))"
    and p: "pending (be_ids (su_builder U)) a i" and "i \<notin> source_ids s"
  shows "pending (be_ids (su_builder U)) a' i"
proof -
  obtain T1 w1 a1 T2 where one: "run_setup U sb [Bind_read ''fresh_tok'' T_int64 fresh] (source_table s, (w, a)) = Some (True, T1, (w1, a1))"
    and two: "run_setup U cb (source_plan U name thr) (T1, (w1, a1)) = Some (True, T2, (w', a'))"
    using init by (auto simp: source_init_def split: option.splits prod.splits if_splits)
  have toks: "source_table s t \<noteq> i" for t using assms(5) by (auto simp: source_table_def source_ids_def)
  have p1: "pending (be_ids (su_builder U)) a1 i"
    using pending_run_setup [OF I ok one p] toks by blast
  have "T1 t \<noteq> i" for t
    using run_setup_binds [OF ok one] toks [of t] pending_invalid [OF I p1] by (metis (full_types))
  then show ?thesis using pending_run_setup [OF I ok two p1] by blast
qed

lemma pending_init_sources:
  assumes I: "id_space_ok (be_ids (su_builder U))" and ok: "setup_ok U"
  shows "init_sources U ctx A sub is ((C, data), (w, a)) = Some (True, (C', data'), (w', a')) \<Longrightarrow>
    pending (be_ids (su_builder U)) a i \<Longrightarrow> length (sources C) + length is \<le> k \<Longrightarrow>
    \<forall>n<k. i \<notin> source_ids (data ! n) \<Longrightarrow> i \<noteq> combined_connected_tok C \<Longrightarrow>
    pending (be_ids (su_builder U)) a' i \<and> i \<noteq> combined_connected_tok C'"
proof (induction "is" arbitrary: C data w a)
  case Nil
  then show ?case by simp
next
  case (Cons j "is")
  let ?I = "be_ids (su_builder U)"
  obtain src a1 where src: "construct_source ?I ctx a = (src, a1)" by fastforce
  obtain src' w2 a2 C1 data1 a3 a4 where
    init: "source_init U (in_builder j) (in_name j) (ia_fresh A) (stale_threshold C) sub src (w, a1) = Some (True, src', (w2, a2))"
    and push: "push_source ?I ctx src' (C, data) a2 = Some ((C1, data1), a3)"
    and drop: "drop_source ?I src' a3 = Some a4"
    and rest: "init_sources U ctx A sub is ((C1, data1), (w2, a4)) = Some (True, (C', data'), (w', a'))"
    using Cons.prems(1) by (auto simp: src Let_def split: option.splits prod.splits bool.splits)
  note bound = source_init_bound [OF ok init]
  have en: "enabled a" using Cons.prems(2) by (simp add: pending_def)
  have p1: "pending ?I a1 i" "i \<notin> source_ids src"
    using pending_construct_source(3) [OF I en src Cons.prems(2)] by auto
  have p2: "pending ?I a2 i" using pending_source_init [OF I ok init p1] .
  obtain s where asg: "assign_source ?I ctx (data ! length (sources C)) src' a2 = Some (s, a3)"
    and C1: "C1 = C\<lparr>sources := sources C @ [s]\<rparr>" and data1: "data1 = data[length (sources C) := s]"
    using push by (auto simp: push_source_def Let_def split: option.splits if_splits)
  have s: "s = src'" using assign_source_bound [OF asg bound] .
  have p3: "pending ?I a3 i"
    using pending_assign_source [OF I asg bound p2] Cons.prems(3,4) by simp
  have p4: "pending ?I a4 i" using pending_drop_source [OF I drop bound p3] .
  have "i \<notin> source_ids src'" using bound pending_invalid [OF I p4] by (auto simp: source_bound_def source_ids_def)
  then have "\<forall>n<k. i \<notin> source_ids (data1 ! n)"
    using Cons.prems(4) by (auto simp: data1 s nth_list_update) (metis nth_list_update_neq nth_list_update_eq list_update_beyond linorder_not_less)
  then show ?case using Cons.IH [OF rest p4] Cons.prems(3,5) by (simp add: C1)
qed

section \<open>An instance\<close>

definition demo_args :: "(unit, unit) init_args" where
  "demo_args = \<lparr>ia_fresh = ''n'', ia_inputs = [\<lparr>in_builder = demo_root, in_name = ''a''\<rparr>], ia_out = demo_root,
     ia_configs = [\<lparr>cfg_lines = Some [[''x'', ''uint8''], [''-'', ''pad''], [''y'', ''packed_bool''], [''z'', ''uint8'']],
       cfg_prefix = ''p.''\<rparr>],
     ia_bind_outputs = False, ia_name = ''c'', ia_access = Slate_read_only, ia_downselect = False,
     ia_bind_metrics = False, ia_threshold = 1, ia_ignore = ''-''\<rparr>"

definition demo_obj :: "nat combiner_obj" where
  "demo_obj = fst (construct_combiner nat_ids [] acct_new)"

definition demo_acct0 :: "nat acct" where
  "demo_acct0 = snd (construct_combiner nat_ids [] acct_new)"

lemma demo_init:
  "\<exists>C d a. combiner_init demo_setup [] demo_args demo_obj ((), demo_acct0) = Some (True, (C, d), ((), a)) \<and>
     bins C = [\<lparr>bin_ids = [2, 4, 2, 4], bin_type = Some T_uint8\<rparr>, \<lparr>bin_ids = [2, 4], bin_type = Some T_bool\<rparr>]"
proof -
  have "case combiner_init demo_setup [] demo_args demo_obj ((), demo_acct0) of
      Some (ok, (C, d), (w, a)) \<Rightarrow> ok \<and>
        bins C = [\<lparr>bin_ids = [2, 4, 2, 4], bin_type = Some T_uint8\<rparr>, \<lparr>bin_ids = [2, 4], bin_type = Some T_bool\<rparr>]
    | None \<Rightarrow> False"
    by code_simp
  then show ?thesis by (auto split: option.splits)
qed

definition demo_data :: "nat source list" where
  "demo_data = snd demo_obj"

lemma demo_new: "demo_obj = (combiner_new (25 :: nat), demo_data)"
proof -
  have "fst demo_obj = combiner_new (25 :: nat)" by code_simp
  then show ?thesis unfolding demo_data_def by (metis prod.collapse)
qed

text \<open>
  A failed initialization leaves its bins behind. If the caller tries again with a corrected
  configuration, the second call succeeds, but the bin of the type that was not supported is still
  there, without function pointers, and the next cycle runs into an assertion.
\<close>

lemma retried_init_keeps_bins:
  "(case combiner_init demo_setup [] (demo_args\<lparr>ia_configs := [\<lparr>cfg_lines = Some [[''x'', ''text'']], cfg_prefix = []\<rparr>]\<rparr>)
           demo_obj ((), demo_acct0) of
      Some (False, obj, st) \<Rightarrow>
        (case combiner_init demo_setup [] demo_args obj st of
           Some (True, (C, d), st') \<Rightarrow> is_init C \<and> bin_type (bins C ! 0) = None
         | _ \<Rightarrow> False)
    | _ \<Rightarrow> False)"
  by code_simp

section \<open>Properties\<close>

text \<open>
  C15: what a successful initialization of a newly constructed combiner leaves. As many sources as
  inputs, one to three, all their tokens bound, a threshold above zero, and one bin per type, each of
  whole groups of an output ID and one input ID per source; together the groups are as many as the
  configured elements. (A combiner whose first initialization failed keeps the bins of that attempt,
  \<open>retried_init_keeps_bins\<close>.)
\<close>

theorem combiner_init_shape:
  assumes "setup_ok U" and "combiner_init U ctx A (combiner_new t, data) st = Some (True, (C, data'), st')"
  shows "is_init C \<and> num_sources C = length (ia_inputs A) \<and> 1 \<le> num_sources C \<and> num_sources C \<le> 3 \<and>
    length (sources C) = num_sources C \<and> stale_threshold C = ia_threshold A \<and> stale_threshold C \<noteq> 0 \<and>
    (\<forall>s\<in>set (sources C). source_bound (be_ids (su_builder U)) s) \<and>
    is_valid_id (be_ids (su_builder U)) (combined_connected_tok C) \<and>
    (\<forall>b\<in>set (bins C). bin_type b \<noteq> None \<and> (num_sources C + 1) dvd length (bin_ids b)) \<and>
    distinct (map bin_type (bins C)) \<and>
    sum_list (map (length \<circ> bin_ids) (bins C)) =
      (num_sources C + 1) * sum_list (map (\<lambda>c. used_lines (ia_ignore A) (the (cfg_lines c))) (ia_configs A))"
proof -
  let ?n = "length (ia_inputs A)" and ?I = "be_ids (su_builder U)"
  obtain select bs w sub C4 data4 st4 T where
    n: "ia_inputs A \<noteq> []" "?n \<le> num_sources_max" and thr: "ia_threshold A \<noteq> 0"
    and cfg: "init_configs U False A (ia_configs A) (Map.empty, [], True, fst st) = (True, select, bs, True, w)"
    and srcs: "init_sources U ctx A sub (ia_inputs A)
        (((combiner_new t)\<lparr>num_sources := ?n, bins := bs, stale_threshold := ia_threshold A\<rparr>, data), (w, snd st)) =
        Some (True, (C4, data4), st4)"
    and met: "run_setup U sub [metrics_op U (ia_bind_metrics A)] (\<lambda>_. combined_connected_tok C4, st4) = Some (True, T, st')"
    and C: "C = C4\<lparr>combined_connected_tok := T ''connected'', downselect := ia_downselect A, is_init := True\<rparr>"
    using assms(2)
    by (auto simp: combiner_init_def Let_def combiner_new_def split: if_splits option.splits prod.splits bool.splits)
  obtain ss where ss: "C4 = (combiner_new t)\<lparr>num_sources := ?n, bins := bs, stale_threshold := ia_threshold A, sources := ss\<rparr>"
      "length ss = ?n" "\<forall>s\<in>set ss. source_bound ?I s"
    using init_sources_shape [OF assms(1) srcs] by (auto simp: combiner_new_def)
  have "bins_shape ?n 0 Map.empty []" by (simp add: bins_shape_def)
  from init_configs_shape [OF cfg this]
  have shape: "bins_shape ?n (sum_list (map (\<lambda>c. used_lines (ia_ignore A) (the (cfg_lines c))) (ia_configs A))) select bs"
    by simp
  have "op_token (metrics_op U (ia_bind_metrics A)) = ''connected''" by (simp add: metrics_op_def)
  then have "is_valid_id ?I (T ''connected'')"
    using run_setup_binds [OF assms(1) met] by (metis image_insert insertI1 list.simps(15))
  then show ?thesis
    using shape n thr ss by (simp add: C bins_shape_def num_sources_max_def Suc_le_eq)
qed

theorem combiner_init_shape_witness:
  "\<exists>C d a. combiner_init demo_setup [] demo_args demo_obj ((), demo_acct0) = Some (True, (C, d), ((), a)) \<and>
     length (sources C) = 1 \<and> sum_list (map (length \<circ> bin_ids) (bins C)) = 6"
proof -
  obtain C d a where run: "combiner_init demo_setup [] demo_args demo_obj ((), demo_acct0) = Some (True, (C, d), ((), a))"
    using demo_init by blast
  have "used_lines ''-'' [[''x'', ''uint8''], [''-'', ''pad''], [''y'', ''packed_bool''], [''z'', ''uint8'']] = 3"
    by (simp add: used_lines_def)
  then show ?thesis
    using combiner_init_shape [OF demo_setup_ok(1), of "[]" demo_args 25 demo_data "((), demo_acct0)"] run
    by (auto simp: demo_args_def demo_new)
qed

text \<open>
  A combiner of fewer than three sources blocks the build. All three entries of the source
  array are constructed with the object, and each registers four tokens; entries that no source is
  assigned to keep their unbound tokens, so the check before the build fails.
\<close>

theorem few_sources_block_build:
  assumes "id_space_ok (be_ids (su_builder U))" and "setup_ok U" and "enabled a0"
    and "construct_combiner (be_ids (su_builder U)) ctx a0 = (obj, a1)"
    and "combiner_init U ctx A obj (w, a1) = Some (True, obj', (w', a'))"
    and "length (ia_inputs A) < 3"
  shows "\<not> check_for_uninitialized_tokens a'"
proof -
  let ?I = "be_ids (su_builder U)"
  obtain data a01 t where data: "construct_sources ?I ctx num_sources_max a0 = (data, a01)"
    and t: "construct_token ?I ctx a01 = (t, a1)" and obj: "obj = (combiner_new t, data)"
    using assms(4) by (auto simp: construct_combiner_def Let_def split: prod.splits)
  note P = pending_construct_sources [OF assms(1,3) data]
  define i where "i = fresh_tok (data ! 2)"
  have len: "length data = 3" using P by (simp add: num_sources_max_def)
  have in2: "i \<in> source_ids (data ! 2)" by (simp add: i_def source_ids_def)
  have p0: "pending ?I a01 i" using P len in2 by (auto intro: nth_mem)
  have apart: "\<forall>n<2. i \<notin> source_ids (data ! n)"
    using P len in2 unfolding sorted_wrt_iff_nth_less by (auto simp: disjoint_iff)
  have p1: "pending ?I a1 i" "t \<noteq> i" using pending_construct [OF assms(1) _ t] P p0 by auto
  obtain select bs w1 sub C4 data4 w4 a4 T C where
    srcs: "init_sources U ctx A sub (ia_inputs A)
        (((combiner_new t)\<lparr>num_sources := length (ia_inputs A), bins := bs, stale_threshold := ia_threshold A\<rparr>, data), (w1, a1)) =
        Some (True, (C4, data4), (w4, a4))"
    and met: "run_setup U sub [metrics_op U (ia_bind_metrics A)] (\<lambda>_. combined_connected_tok C4, (w4, a4)) = Some (True, T, (w', a'))"
    using assms(5)
    by (auto simp: obj combiner_init_def Let_def combiner_new_def split: if_splits option.splits prod.splits bool.splits)
  have "pending ?I a4 i \<and> i \<noteq> combined_connected_tok C4"
    by (rule pending_init_sources [OF assms(1,2) srcs p1(1), of 2])
       (use assms(6) apart p1(2) in \<open>simp_all add: combiner_new_def\<close>)
  then have "pending ?I a' i" using pending_run_setup [OF assms(1,2) met, of i] by auto
  then show ?thesis by (rule pending_unready)
qed

theorem few_sources_block_build_witness:
  "\<exists>C d a. combiner_init demo_setup [] demo_args demo_obj ((), demo_acct0) = Some (True, (C, d), ((), a)) \<and>
     \<not> check_for_uninitialized_tokens a"
proof -
  obtain C d a where run: "combiner_init demo_setup [] demo_args demo_obj ((), demo_acct0) = Some (True, (C, d), ((), a))"
    using demo_init by blast
  have "be_ids (su_builder demo_setup) = nat_ids" by (simp add: demo_setup_def demo_store_env_def)
  then have new: "construct_combiner (be_ids (su_builder demo_setup)) [] acct_new = (demo_obj, demo_acct0)"
    by (simp add: demo_obj_def demo_acct0_def)
  have "\<not> check_for_uninitialized_tokens a"
    by (rule few_sources_block_build [OF demo_setup_ok(2,1) _ new run]) (simp_all add: acct_new_def demo_args_def)
  then show ?thesis using run by blast
qed

end
