(* ===== verification/Command_Queue.thy ===== *)
theory Command_Queue
  imports Element_Setup
begin

text \<open>
  \<^verbatim>\<open>CommandQueueClient.cc\<close>: trades the feedback of the vehicle for the next command of the ground
  queue and decides which commands are executed. The state of a client is the values of the
  elements its tokens are bound to. Parameters are the poller (\<^verbatim>\<open>GrpcPollerInterface\<close>), the two
  keystores, the number parser, the payload decoder and the handler of \<^verbatim>\<open>send_command_sig\<close>, over
  a state \<open>'w\<close> of their own.
\<close>

section \<open>Data\<close>

record client =
  cl_is_init :: bool
  target_entity :: string
  last_send_seq :: u32
  send_failed_seq :: u32
  returned_with_command :: u32
  accepted_seq :: u32
  rejected_seq :: u32
  last_request_accepted :: u32
  last_request_rejected :: u32
  wrong_signature_state :: u32
  seq_check_failed :: u32
  ephemeral_check_failed :: u32
  invalid_payload :: u32
  target_check_failed :: u32
  cl_enabled :: bool
  require_signed :: bool

record request =
  rq_target :: string
  rq_accepted :: u32
  rq_rejected :: u32
  rq_require_signed :: bool

text \<open>\<open>None\<close> is an absent field.\<close>

record ('raw, 'sig) response =
  rs_seq :: u32
  rs_payload :: "'raw option"
  rs_signed :: "'sig option"

record 'raw tbs =
  tbs_command_id :: string
  tbs_creation_id :: string
  tbs_target :: string
  tbs_payload :: 'raw

record ('raw, 'sig, 'sd, 'p) client_env =
  unwrap_outer :: "'sig \<Rightarrow> ('sd \<times> string) option"
  unwrap_inner :: "'sd \<Rightarrow> ('raw tbs \<times> string) option"
  parse_uint :: "string \<Rightarrow> u32 option"
  decode_payload :: "'raw \<Rightarrow> 'p option"

type_synonym ('p, 'w) emit = "u32 \<Rightarrow> 'p \<Rightarrow> 'w \<Rightarrow> bool \<times> bool \<times> 'w"

section \<open>Requests\<close>

definition client_new :: "string \<Rightarrow> client" where
  "client_new target = \<lparr>cl_is_init = False, target_entity = target, last_send_seq = 0, send_failed_seq = 0,
     returned_with_command = 0, accepted_seq = 0, rejected_seq = 0, last_request_accepted = 0,
     last_request_rejected = 0, wrong_signature_state = 0, seq_check_failed = 0,
     ephemeral_check_failed = 0, invalid_payload = 0, target_check_failed = 0, cl_enabled = False,
     require_signed = False\<rparr>"

definition pump_now :: "('w \<Rightarrow> 'w) \<Rightarrow> u32 \<Rightarrow> u32 \<Rightarrow> client \<Rightarrow> 'w \<Rightarrow> bool \<times> client \<times> 'w" where
  "pump_now force_retry accepted rejected c w =
     (if \<not> cl_is_init c then (False, c, w)
      else (True, c\<lparr>accepted_seq := accepted, rejected_seq := rejected\<rparr>, force_retry w))"

definition client_dispatch :: "(nano \<Rightarrow> 'w \<Rightarrow> nano \<times> 'w) \<Rightarrow> nano \<Rightarrow> client \<Rightarrow> 'w \<Rightarrow> nano \<times> 'w" where
  "client_dispatch poller_dispatch control_time c w =
     (if \<not> cl_enabled c then (nano_max, w) else poller_dispatch control_time w)"

definition build_request :: "client \<Rightarrow> request \<times> client" where
  "build_request c =
     (\<lparr>rq_target = target_entity c, rq_accepted = accepted_seq c,
       rq_rejected = max (rejected_seq c) (send_failed_seq c), rq_require_signed = require_signed c\<rparr>,
      c\<lparr>last_request_accepted := accepted_seq c, last_request_rejected := rejected_seq c\<rparr>)"

section \<open>Responses\<close>

text \<open>
  \<open>parsed_id\<close>: the number stays 0 where the parser fails. The checks of a signed command and of an unsigned one: \<open>Inl\<close> is the early return of false, with
  the counters as they are then, \<open>Inr\<close> the payload to send.
\<close>

definition parsed_id :: "('raw, 'sig, 'sd, 'p) client_env \<Rightarrow> string \<Rightarrow> u32" where
  "parsed_id K s = (case parse_uint K s of None \<Rightarrow> 0 | Some v \<Rightarrow> v)"

definition check_signed ::
  "('raw, 'sig, 'sd, 'p) client_env \<Rightarrow> ('raw, 'sig) response \<Rightarrow> client \<Rightarrow> client + 'p" where
  "check_signed K rs c =
     (case rs_signed rs of
        None \<Rightarrow> Inl (c\<lparr>wrong_signature_state := wrong_signature_state c + 1\<rparr>)
      | Some sc \<Rightarrow>
          (case unwrap_outer K sc of
             None \<Rightarrow> Inl c
           | Some (single_signed, outer_id) \<Rightarrow>
               (case unwrap_inner K single_signed of
                  None \<Rightarrow> Inl c
                | Some (t, inner_id) \<Rightarrow>
                    let command_id = parsed_id K (tbs_command_id t) in
                    if rs_seq rs \<noteq> command_id \<or>
                       (accepted_seq c > 0 \<and> command_id \<le> max (last_request_accepted c) (last_request_rejected c))
                    then Inl (c\<lparr>seq_check_failed := seq_check_failed c + 1\<rparr>)
                    else if (outer_id \<noteq> [] \<and> outer_id \<noteq> tbs_creation_id t) \<or>
                            (inner_id \<noteq> [] \<and> inner_id \<noteq> tbs_creation_id t)
                    then Inl (c\<lparr>ephemeral_check_failed := ephemeral_check_failed c + 1\<rparr>)
                    else if target_entity c \<noteq> tbs_target t
                    then Inl (c\<lparr>target_check_failed := target_check_failed c + 1\<rparr>)
                    else
                      (case decode_payload K (tbs_payload t) of
                         None \<Rightarrow> Inl (c\<lparr>invalid_payload := invalid_payload c + 1\<rparr>)
                       | Some p \<Rightarrow> Inr p))))"

definition check_unsigned ::
  "('raw, 'sig, 'sd, 'p) client_env \<Rightarrow> ('raw, 'sig) response \<Rightarrow> client \<Rightarrow> client + 'p" where
  "check_unsigned K rs c =
     (case rs_payload rs of
        None \<Rightarrow> Inl (c\<lparr>wrong_signature_state := wrong_signature_state c + 1\<rparr>)
      | Some raw \<Rightarrow>
          (case decode_payload K raw of
             None \<Rightarrow> Inl (c\<lparr>invalid_payload := invalid_payload c + 1\<rparr>)
           | Some p \<Rightarrow> Inr p))"

definition check_command ::
  "('raw, 'sig, 'sd, 'p) client_env \<Rightarrow> ('raw, 'sig) response \<Rightarrow> client \<Rightarrow> client + 'p" where
  "check_command K rs c = (if require_signed c then check_signed K rs c else check_unsigned K rs c)"

definition on_pump_response ::
  "('raw, 'sig, 'sd, 'p) client_env \<Rightarrow> ('p, 'w) emit \<Rightarrow> bool \<Rightarrow> ('raw, 'sig) response \<Rightarrow> client \<Rightarrow> 'w \<Rightarrow>
   bool \<times> client \<times> 'w" where
  "on_pump_response K emit status_ok rs c w =
     (if \<not> cl_is_init c then (False, c, w)
      else if \<not> status_ok then (True, c, w)
      else
        let c1 = c\<lparr>last_send_seq := rs_seq rs\<rparr> in
        if rs_payload rs = None \<and> rs_signed rs = None then (True, c1, w)
        else
          let c2 = c1\<lparr>returned_with_command := returned_with_command c1 + 1\<rparr> in
          if rs_seq rs = 0 then (False, c2, w)
          else
            (case check_command K rs c2 of
               Inl c3 \<Rightarrow> (False, c3, w)
             | Inr payload \<Rightarrow>
                 (case emit (rs_seq rs) payload w of
                    (False, issued, w') \<Rightarrow> (False, c2, w')
                  | (True, issued, w') \<Rightarrow>
                      (True, if \<not> issued then c2\<lparr>send_failed_seq := rs_seq rs\<rparr> else c2, w'))))"

section \<open>Initialization\<close>

definition client_plan :: "('id, 'pm, 'v, 'q, 'e, 'w) setup_env \<Rightarrow> setup_op list" where
  "client_plan U =
     (let zero = V_uint32 0; sync = su_sync U; counter = (\<lambda>tok path. Create_value tok T_uint32 path zero sync Slate_read_only)
      in [Create_default ''last_send_sequence_num'' T_uint32 ''last_send_sequence_num'' sync Slate_read_only,
          counter ''send_failed_sequence_num'' ''send_failed_sequence_num'',
          Create_default ''returned_with_command'' T_uint32 ''returned_with_payload'' sync Slate_read_only,
          counter ''last_request_accepted_seq_num'' ''last_request_accepted_seq_num'',
          counter ''last_request_rejected_seq_num'' ''last_request_rejected_seq_num'',
          counter ''accepted_sequence_number'' ''accepted_sequence_number'',
          counter ''rejected_sequence_number'' ''rejected_sequence_number_tok'',
          counter ''wrong_signature_state'' ''wrong_signature_state'',
          counter ''signed_seq_num_check_failed'' ''signed_seq_num_check_failed'',
          counter ''ephemeral_id_check_failed'' ''ephemeral_id_check_failed'',
          counter ''invalid_command_payload_encoding'' ''invalid_command_payload_encoding'',
          counter ''target_id_check_failed'' ''target_id_check_failed'',
          Bind_read ''enabled'' T_bool ''enabled'',
          Bind_read ''require_signed_command'' T_bool ''require_signed_command''])"

text \<open>
  \<open>keystore_init\<close> is the initialization of a keystore in a sub-slate, \<open>flow\<close> the telemetry flow,
  if there is one: whether it takes the element. The tokens are a table.
\<close>

definition client_init ::
  "('id, 'pm, 'v, 'q, 'e, 'w) setup_env \<Rightarrow> (('q, 'e) builder \<Rightarrow> ('id, 'w) bstate \<Rightarrow> bool \<times> ('id, 'w) bstate) \<Rightarrow>
   ('q, 'e) builder \<Rightarrow> bool \<Rightarrow> ('id \<Rightarrow> bool) option \<Rightarrow> client \<Rightarrow> 'id tok_table \<Rightarrow> ('id, 'w) bstate \<Rightarrow>
   (bool \<times> client \<times> 'id tok_table \<times> ('id, 'w) bstate) option" where
  "client_init U keystore_init b poller_set flow c toks st =
     (if cl_is_init c then Some (False, c, toks, st)
      else if \<not> poller_set then Some (False, c, toks, st)
      else
        (case sub_slate_at (su_builder U) ''operator_keystore'' b of
           None \<Rightarrow> None
         | Some operator_slate \<Rightarrow>
             (case keystore_init operator_slate st of
                (False, st1) \<Rightarrow> Some (False, c, toks, st1)
              | (True, st1) \<Rightarrow>
                  (case sub_slate_at (su_builder U) ''command_auth_keystore'' b of
                     None \<Rightarrow> None
                   | Some auth_slate \<Rightarrow>
                       (case keystore_init auth_slate st1 of
                          (False, st2) \<Rightarrow> Some (False, c, toks, st2)
                        | (True, st2) \<Rightarrow>
                            (case run_setup U b (client_plan U) (toks, st2) of
                               None \<Rightarrow> None
                             | Some (False, toks', st3) \<Rightarrow> Some (False, c, toks', st3)
                             | Some (True, toks', st3) \<Rightarrow>
                                 (case flow of
                                    None \<Rightarrow> Some (True, c\<lparr>cl_is_init := True\<rparr>, toks', st3)
                                  | Some takes \<Rightarrow>
                                      if \<not> takes (toks' ''last_send_sequence_num'') then Some (False, c, toks', st3)
                                      else if \<not> takes (toks' ''returned_with_command'') then Some (False, c, toks', st3)
                                      else Some (True, c\<lparr>cl_is_init := True\<rparr>, toks', st3))))))))"

section \<open>Runs of a client\<close>

text \<open>
  What can happen to a client: feedback of the vehicle, a request, a response of any content, and
  new values of the two settings it reads.
\<close>

datatype ('raw, 'sig) client_event =
    Feedback u32 u32
  | Request
  | Response bool "('raw, 'sig) response"
  | Settings bool bool

fun client_step ::
  "('raw, 'sig, 'sd, 'p) client_env \<Rightarrow> ('p, 'w) emit \<Rightarrow> ('w \<Rightarrow> 'w) \<Rightarrow> ('raw, 'sig) client_event \<Rightarrow>
   client \<times> 'w \<Rightarrow> client \<times> 'w" where
  "client_step K emit retry (Feedback accepted rejected) (c, w) = snd (pump_now retry accepted rejected c w)"
| "client_step K emit retry Request (c, w) = (snd (build_request c), w)"
| "client_step K emit retry (Response ok rs) (c, w) = snd (on_pump_response K emit ok rs c w)"
| "client_step K emit retry (Settings en req) (c, w) = (c\<lparr>cl_enabled := en, require_signed := req\<rparr>, w)"

definition client_run ::
  "('raw, 'sig, 'sd, 'p) client_env \<Rightarrow> ('p, 'w) emit \<Rightarrow> ('w \<Rightarrow> 'w) \<Rightarrow> ('raw, 'sig) client_event list \<Rightarrow>
   client \<times> 'w \<Rightarrow> client \<times> 'w" where
  "client_run K emit retry evs s = fold (client_step K emit retry) evs s"

text \<open>A handler that records what it is given and whether it issued it.\<close>

definition log_emit :: "(u32 \<Rightarrow> 'p \<Rightarrow> bool) \<Rightarrow> ('p, (u32 \<times> 'p) list) emit" where
  "log_emit issues seq p log = (True, issues seq p, log @ [(seq, p)])"

section \<open>Lemmas\<close>

lemma check_signed_Inr:
  assumes "check_signed K rs c = Inr p"
  shows "\<exists>sc sd outer t inner. rs_signed rs = Some sc \<and> unwrap_outer K sc = Some (sd, outer) \<and>
    unwrap_inner K sd = Some (t, inner) \<and>
    rs_seq rs = parsed_id K (tbs_command_id t) \<and>
    (accepted_seq c = 0 \<or> max (last_request_accepted c) (last_request_rejected c) < rs_seq rs) \<and>
    (outer = [] \<or> outer = tbs_creation_id t) \<and> (inner = [] \<or> inner = tbs_creation_id t) \<and>
    tbs_target t = target_entity c \<and> decode_payload K (tbs_payload t) = Some p"
  using assms
  by (auto simp: check_signed_def Let_def word_greater_zero_iff not_le split: option.splits prod.splits if_splits)

text \<open>What no rejected response changes.\<close>

definition same_settings :: "client \<Rightarrow> client \<Rightarrow> bool" where
  "same_settings c c' \<longleftrightarrow>
     accepted_seq c' = accepted_seq c \<and> last_request_accepted c' = last_request_accepted c \<and>
     rejected_seq c' = rejected_seq c \<and> last_request_rejected c' = last_request_rejected c \<and>
     require_signed c' = require_signed c \<and> cl_is_init c' = cl_is_init c \<and> target_entity c' = target_entity c"

lemma check_signed_fields: "check_signed K rs c = Inl c' \<Longrightarrow> same_settings c c'"
  by (simp add: check_signed_def Let_def split: option.splits prod.splits if_splits)
     (auto simp: same_settings_def)

lemma check_unsigned_fields: "check_unsigned K rs c = Inl c' \<Longrightarrow> same_settings c c'"
  by (auto simp: check_unsigned_def same_settings_def split: option.splits)

lemma check_command_fields: "check_command K rs c = Inl c' \<Longrightarrow> same_settings c c'"
  by (simp add: check_command_def check_signed_fields check_unsigned_fields split: if_splits)

text \<open>The client after the counters of a response that has a command.\<close>

definition with_command :: "('raw, 'sig) response \<Rightarrow> client \<Rightarrow> client" where
  "with_command rs c = c\<lparr>last_send_seq := rs_seq rs, returned_with_command := returned_with_command c + 1\<rparr>"

lemma with_command_fields: "same_settings c (with_command rs c)"
  by (simp add: with_command_def same_settings_def)

lemma with_command_simps [simp]:
  "require_signed (with_command rs c) = require_signed c" "target_entity (with_command rs c) = target_entity c"
  "accepted_seq (with_command rs c) = accepted_seq c" "rejected_seq (with_command rs c) = rejected_seq c"
  "last_request_accepted (with_command rs c) = last_request_accepted c"
  "last_request_rejected (with_command rs c) = last_request_rejected c"
  "cl_is_init (with_command rs c) = cl_is_init c"
  by (simp_all add: with_command_def)

lemma same_settings_trans: "same_settings a b \<Longrightarrow> same_settings b c \<Longrightarrow> same_settings a c"
  by (simp add: same_settings_def)

lemma response_cases:
  assumes "on_pump_response K emit ok rs c w = (r, c', w')"
  obtains (none) "w' = w" "same_settings c c'"
    | (rejected) d where "check_command K rs (with_command rs c) = Inl d" "r = False" "c' = d" "w' = w"
    | (sent) p b issued where "check_command K rs (with_command rs c) = Inr p" "rs_seq rs \<noteq> 0"
        "emit (rs_seq rs) p w = (b, issued, w')" "r = b"
        "c' = (if b \<and> \<not> issued then (with_command rs c)\<lparr>send_failed_seq := rs_seq rs\<rparr> else with_command rs c)"
proof -
  have c1: "same_settings c (c\<lparr>last_send_seq := rs_seq rs\<rparr>)" "same_settings c c" by (simp_all add: same_settings_def)
  consider (a) "\<not> cl_is_init c \<or> \<not> ok \<or> (rs_payload rs = None \<and> rs_signed rs = None) \<or> rs_seq rs = 0"
    | (b) "cl_is_init c" "ok" "\<not> (rs_payload rs = None \<and> rs_signed rs = None)" "rs_seq rs \<noteq> 0" by blast
  then show thesis
  proof cases
    case a
    then have "w' = w \<and> same_settings c c'"
      using assms c1 with_command_fields [of c rs]
      by (auto simp: on_pump_response_def with_command_def Let_def split: if_splits)
    then show thesis using none by blast
  next
    case b
    have counted: "c\<lparr>last_send_seq := rs_seq rs, returned_with_command :=
        returned_with_command (c\<lparr>last_send_seq := rs_seq rs\<rparr>) + 1\<rparr> = with_command rs c"
      by (simp add: with_command_def)
    from b have run: "(case check_command K rs (with_command rs c) of
        Inl c3 \<Rightarrow> (False, c3, w)
      | Inr payload \<Rightarrow> (case emit (rs_seq rs) payload w of
            (False, issued, w') \<Rightarrow> (False, with_command rs c, w')
          | (True, issued, w') \<Rightarrow> (True, if \<not> issued then (with_command rs c)\<lparr>send_failed_seq := rs_seq rs\<rparr>
                                   else with_command rs c, w'))) = (r, c', w')"
      using assms [unfolded on_pump_response_def Let_def counted] by (auto split: if_splits)
    show thesis
    proof (cases "check_command K rs (with_command rs c)")
      case (Inl d)
      then show thesis using run rejected by simp
    next
      case (Inr p)
      obtain b issued v where "emit (rs_seq rs) p w = (b, issued, v)" by (metis prod_cases3)
      then show thesis using run Inr b(4) sent [OF Inr b(4)] by (cases b) auto
    qed
  qed
qed

lemma response_fields:
  assumes "on_pump_response K emit ok rs c w = (r, c', w')"
  shows "same_settings c c'"
  using assms
proof (cases rule: response_cases)
  case (rejected d)
  then show ?thesis using check_command_fields same_settings_trans with_command_fields by metis
next
  case (sent p b issued)
  then show ?thesis using with_command_fields [of c rs] by (simp add: same_settings_def)
qed

lemma logged:
  assumes "on_pump_response K (log_emit issues) ok rs c log = (r, c', log')"
  shows "log' = log \<or> (\<exists>p. check_command K rs (with_command rs c) = Inr p \<and> log' = log @ [(rs_seq rs, p)])"
  using assms by (cases rule: response_cases) (auto simp: log_emit_def)

text \<open>
  Events under which the vehicle's feedback does not fall below \<open>s\<close> and signed commands stay
  required, and the state they keep.
\<close>

fun keeps_floor :: "u32 \<Rightarrow> ('raw, 'sig) client_event \<Rightarrow> bool" where
  "keeps_floor s (Feedback accepted _) \<longleftrightarrow> s \<le> accepted"
| "keeps_floor s (Settings _ req) \<longleftrightarrow> req"
| "keeps_floor s _ \<longleftrightarrow> True"

definition above_floor :: "u32 \<Rightarrow> client \<Rightarrow> bool" where
  "above_floor s c \<longleftrightarrow> require_signed c \<and> s \<le> accepted_seq c \<and> s \<le> last_request_accepted c"

lemma above_floor_step:
  assumes "0 < s" and "keeps_floor s ev" and "above_floor s c"
    and "client_step K (log_emit issues) (\<lambda>w. w) ev (c, log) = (c', log')"
  shows "above_floor s c' \<and> (\<exists>new. log' = log @ new \<and> (\<forall>e\<in>set new. s < fst e))"
proof (cases ev)
  case (Response ok rs)
  obtain r where run: "on_pump_response K (log_emit issues) ok rs c log = (r, c', log')"
    using assms(4) Response by (cases "on_pump_response K (log_emit issues) ok rs c log") auto
  have keep: "above_floor s c'"
    using response_fields [OF run] assms(3) by (simp add: above_floor_def same_settings_def)
  have "s < rs_seq rs" if "check_command K rs (with_command rs c) = Inr p" for p
  proof -
    have "check_signed K rs (with_command rs c) = Inr p"
      using that assms(3) by (simp add: check_command_def above_floor_def with_command_def)
    from check_signed_Inr [OF this]
    have "accepted_seq c = 0 \<or> max (last_request_accepted c) (last_request_rejected c) < rs_seq rs"
      by (auto simp: with_command_def)
    moreover have "accepted_seq c \<noteq> 0" using assms(1,3) by (auto simp: above_floor_def)
    ultimately show ?thesis using assms(3) by (auto simp: above_floor_def)
  qed
  then show ?thesis using logged [OF run] keep by fastforce
qed (use assms in \<open>auto simp: above_floor_def build_request_def pump_now_def split: if_splits\<close>)

lemma above_floor_run:
  assumes "0 < s"
  shows "\<forall>ev\<in>set evs. keeps_floor s ev \<Longrightarrow> above_floor s c \<Longrightarrow>
    client_run K (log_emit issues) (\<lambda>w. w) evs (c, log) = (c', log') \<Longrightarrow>
    \<exists>new. log' = log @ new \<and> (\<forall>e\<in>set new. s < fst e)"
proof (induction evs arbitrary: c log)
  case Nil
  then show ?case by (simp add: client_run_def)
next
  case (Cons ev evs)
  obtain c1 log1 where one: "client_step K (log_emit issues) (\<lambda>w. w) ev (c, log) = (c1, log1)" by fastforce
  then have rest: "client_run K (log_emit issues) (\<lambda>w. w) evs (c1, log1) = (c', log')"
    using Cons.prems(3) by (simp add: client_run_def)
  obtain new1 where "above_floor s c1" "log1 = log @ new1" "\<forall>e\<in>set new1. s < fst e"
    using above_floor_step [OF assms _ Cons.prems(2) one] Cons.prems(1) by auto
  then show ?case using Cons.IH [OF _ _ rest] Cons.prems(1) by fastforce
qed

section \<open>An instance\<close>

text \<open>Raw payloads are strings; a signature is valid if the outer and inner keys are 7 and 9.\<close>

definition demo_keys :: "(string, nat \<times> nat \<times> string tbs, nat \<times> string tbs, string) client_env" where
  "demo_keys = \<lparr>unwrap_outer = (\<lambda>(k, sd). if k = 7 then Some (sd, []) else None),
     unwrap_inner = (\<lambda>(k, t). if k = 9 then Some (t, []) else None),
     parse_uint = (\<lambda>s. if s = ''5'' then Some 5 else if s = ''6'' then Some 6 else None),
     decode_payload = (\<lambda>r. if r = [] then None else Some r)\<rparr>"

definition demo_response :: "u32 \<Rightarrow> string \<Rightarrow> (string, nat \<times> nat \<times> string tbs) response" where
  "demo_response seq num = \<lparr>rs_seq = seq, rs_payload = None, rs_signed = Some (7, 9,
     \<lparr>tbs_command_id = num, tbs_creation_id = [], tbs_target = ''sat'', tbs_payload = ''go''\<rparr>)\<rparr>"

definition demo_client :: "u32 \<Rightarrow> client" where
  "demo_client acc = (client_new ''sat'')\<lparr>cl_is_init := True, cl_enabled := True, require_signed := True,
     accepted_seq := acc, last_request_accepted := acc\<rparr>"

lemma demo_check:
  "check_command demo_keys (demo_response 6 ''6'') (with_command (demo_response 6 ''6'') (demo_client 5)) = Inr ''go''"
  "check_command demo_keys (demo_response 5 ''5'') (with_command (demo_response 5 ''5'') (demo_client 4)) = Inr ''go''"
  by (simp_all add: check_command_def check_signed_def demo_keys_def demo_response_def with_command_def
      demo_client_def client_new_def parsed_id_def Let_def)

section \<open>Properties\<close>

text \<open>
  C16: only authentic commands are executed. While signed commands are required, whatever a response
  contains, a command is handed on only if both signature layers unwrap, its ID is the sequence
  number of the response, is new with respect to the last request (unless nothing was ever
  accepted), the key IDs agree with the creation ID, it is meant for this vehicle, and its payload
  decodes; and then it is exactly that payload.
\<close>

theorem signed_command_authentic:
  assumes "require_signed c" and "on_pump_response K (log_emit issues) ok rs c log = (r, c', log')"
    and "log' \<noteq> log"
  shows "\<exists>sc sd outer t inner p. log' = log @ [(rs_seq rs, p)] \<and> rs_signed rs = Some sc \<and>
    unwrap_outer K sc = Some (sd, outer) \<and> unwrap_inner K sd = Some (t, inner) \<and>
    rs_seq rs = parsed_id K (tbs_command_id t) \<and>
    (accepted_seq c = 0 \<or> max (last_request_accepted c) (last_request_rejected c) < rs_seq rs) \<and>
    (outer = [] \<or> outer = tbs_creation_id t) \<and> (inner = [] \<or> inner = tbs_creation_id t) \<and>
    tbs_target t = target_entity c \<and> decode_payload K (tbs_payload t) = Some p"
proof -
  obtain p where chk: "check_command K rs (with_command rs c) = Inr p" and log: "log' = log @ [(rs_seq rs, p)]"
    using logged [OF assms(2)] assms(3) by blast
  have "check_signed K rs (with_command rs c) = Inr p"
    using chk assms(1) by (simp add: check_command_def with_command_def)
  from check_signed_Inr [OF this] log show ?thesis by (auto simp: with_command_def)
qed

theorem signed_command_authentic_witness:
  "\<exists>sc r c'. rs_signed (demo_response 6 ''6'') = Some sc \<and> unwrap_outer demo_keys sc \<noteq> None \<and>
     on_pump_response demo_keys (log_emit (\<lambda>_ _. True)) True (demo_response 6 ''6'') (demo_client 5) [] = (r, c', [(6, ''go'')])"
proof -
  have "snd (snd (on_pump_response demo_keys (log_emit (\<lambda>_ _. True)) True (demo_response 6 ''6'') (demo_client 5) [])) =
      [(6, ''go'')]"
    using demo_check(1)
    by (simp add: on_pump_response_def Let_def with_command_def log_emit_def demo_response_def demo_client_def)
  then obtain r c' where run: "on_pump_response demo_keys (log_emit (\<lambda>_ _. True)) True (demo_response 6 ''6'') (demo_client 5) [] =
      (r, c', [(6, ''go'')])"
    by (metis prod.collapse)
  have "require_signed (demo_client 5)" by (simp add: demo_client_def)
  from signed_command_authentic [OF this run] run show ?thesis by blast
qed

text \<open>
  C17: an accepted command is never executed again. Once the vehicle has reported that it accepted
  \<open>s\<close> and a request has carried that report, then as long as its reports do not fall below \<open>s\<close> and
  signed commands stay required, no sequence of events whatever, replayed responses included,
  makes the client hand on a command with a number up to \<open>s\<close>.
\<close>

theorem accepted_never_replayed:
  assumes "0 < s" and "require_signed c" and "s \<le> accepted_seq c" and "s \<le> last_request_accepted c"
    and "\<forall>ev\<in>set evs. keeps_floor s ev"
    and "client_run K (log_emit issues) (\<lambda>w. w) evs (c, log) = (c', log')"
  shows "\<exists>new. log' = log @ new \<and> (\<forall>e\<in>set new. s < fst e)"
  by (rule above_floor_run [OF assms(1,5) _ assms(6)]) (use assms(2-4) in \<open>simp add: above_floor_def\<close>)

theorem accepted_never_replayed_witness:
  "\<exists>c' log'. client_run demo_keys (log_emit (\<lambda>_ _. True)) (\<lambda>w. w)
     [Response True (demo_response 5 ''5''), Response True (demo_response 6 ''6''), Feedback 6 0] (demo_client 5, []) = (c', log') \<and>
     (5, ''go'') \<notin> set log'"
proof -
  obtain c' log' where run: "client_run demo_keys (log_emit (\<lambda>_ _. True)) (\<lambda>w. w)
     [Response True (demo_response 5 ''5''), Response True (demo_response 6 ''6''), Feedback 6 0] (demo_client 5, []) = (c', log')"
    by (metis prod.collapse)
  have "\<exists>new. log' = [] @ new \<and> (\<forall>e\<in>set new. (5 :: u32) < fst e)"
    by (rule accepted_never_replayed [OF _ _ _ _ _ run]) (simp_all add: demo_client_def)
  then show ?thesis using run by fastforce
qed

text \<open>
  A command that could not be sent is not protected. The next request reports it as rejected,
  but what is remembered for the check is the vehicle's own rejected number, so the same response
  is accepted a second time after that request.
\<close>

theorem failed_send_replayable:
  assumes "cl_is_init c" and "check_command K rs (with_command rs c) = Inr p" and "rs_seq rs \<noteq> 0"
    and "require_signed c" and "rejected_seq c < rs_seq rs" and "accepted_seq c < rs_seq rs"
  shows "\<exists>c'. client_run K (log_emit (\<lambda>_ _. False)) (\<lambda>w. w) [Response True rs, Request, Response True rs] (c, log) =
      (c', log @ [(rs_seq rs, p), (rs_seq rs, p)]) \<and>
    rq_rejected (fst (build_request (fst (client_run K (log_emit (\<lambda>_ _. False)) (\<lambda>w. w) [Response True rs] (c, log))))) = rs_seq rs"
proof -
  have chk: "check_signed K rs (with_command rs c) = Inr p"
    using assms(2,4) by (simp add: check_command_def)
  obtain sc sd outer t inner where f: "rs_signed rs = Some sc" "unwrap_outer K sc = Some (sd, outer)"
    "unwrap_inner K sd = Some (t, inner)" "rs_seq rs = parsed_id K (tbs_command_id t)"
    "outer = [] \<or> outer = tbs_creation_id t" "inner = [] \<or> inner = tbs_creation_id t"
    "tbs_target t = target_entity c" "decode_payload K (tbs_payload t) = Some p"
    using check_signed_Inr [OF chk] by auto
  have again: "check_command K rs (with_command rs d) = Inr p"
    if "require_signed d" "target_entity d = target_entity c" "max (last_request_accepted d) (last_request_rejected d) < rs_seq rs" for d
    using f that by (auto simp: check_command_def check_signed_def Let_def not_le [symmetric])
  define d where "d = (with_command rs c)\<lparr>send_failed_seq := rs_seq rs\<rparr>"
  have one: "client_step K (log_emit (\<lambda>_ _. False)) (\<lambda>w. w) (Response True rs) (e, l) =
      ((with_command rs e)\<lparr>send_failed_seq := rs_seq rs\<rparr>, l @ [(rs_seq rs, p)])"
    if "cl_is_init e" "check_command K rs (with_command rs e) = Inr p" for e l
    using that assms(3) f(1)
    by (simp add: on_pump_response_def Let_def with_command_def log_emit_def)
  have "check_command K rs (with_command rs (snd (build_request d))) = Inr p"
    by (rule again) (use assms(4-6) in \<open>simp_all add: d_def build_request_def with_command_def\<close>)
  moreover have newest: "max (rejected_seq c) (rs_seq rs) = rs_seq rs" by (rule max_absorb2 [OF less_imp_le [OF assms(5)]])
  ultimately show ?thesis
    using one [OF assms(1,2)] one [of "snd (build_request d)"] assms(1,5)
    by (simp add: client_run_def d_def [symmetric])
       (simp add: d_def build_request_def with_command_def newest)
qed

theorem failed_send_replayable_witness:
  "\<exists>c'. client_run demo_keys (log_emit (\<lambda>_ _. False)) (\<lambda>w. w)
     [Response True (demo_response 5 ''5''), Request, Response True (demo_response 5 ''5'')] (demo_client 4, []) =
     (c', [(5, ''go''), (5, ''go'')])"
  using failed_send_replayable [OF _ demo_check(2), of "[]"]
  by (simp add: demo_client_def client_new_def demo_response_def)

end
