(* ===== verification/Command_Relay.thy ===== *)
theory Command_Relay
  imports Command_Queue
begin

text \<open>
  \<^verbatim>\<open>CommandPump.cc\<close> and \<^verbatim>\<open>CommandSender.cc\<close>: the two ends around the queue client. The pump hands
  changed feedback of the vehicle to the client, the sender turns the commands the client hands on
  into framed messages for the channel of the addressed node. Parameters are the message and
  frame encoders, node names and channels.
\<close>

section \<open>The pump\<close>

record pump =
  pu_is_init :: bool
  last_accepted :: u32
  last_rejected :: u32

definition pump_new :: pump where
  "pump_new = \<lparr>pu_is_init = False, last_accepted = 0, last_rejected = 0\<rparr>"

definition pump_plan :: "('id, 'pm, 'v, 'q, 'e, 'w) setup_env \<Rightarrow> setup_op list" where
  "pump_plan U =
     [Create_value ''last_accepted_seq_num'' T_uint32 ''command_pump.last_accepted_seq_num'' (V_uint32 0) (su_nonsync U) Slate_read_only,
      Create_value ''last_rejected_seq_num'' T_uint32 ''command_pump.last_rejected_seq_num'' (V_uint32 0) (su_nonsync U) Slate_read_only]"

definition feedback_plan :: "setup_op list" where
  "feedback_plan =
     [Bind_read ''accepted_seq_num'' T_uint32 ''accepted_seq_num'', Bind_read ''rejected_seq_num'' T_uint32 ''rejected_seq_num'']"

definition pump_init ::
  "('id, 'pm, 'v, 'q, 'e, 'w) setup_env \<Rightarrow> ('q, 'e) builder \<Rightarrow> ('q, 'e) builder \<Rightarrow> pump \<Rightarrow> 'id tok_table \<Rightarrow>
   ('id, 'w) bstate \<Rightarrow> (bool \<times> pump \<times> 'id tok_table \<times> ('id, 'w) bstate) option" where
  "pump_init U feedback_builder b p toks st =
     (if pu_is_init p then Some (False, p, toks, st)
      else
        (case run_setup U feedback_builder feedback_plan (toks, st) of
           None \<Rightarrow> None
         | Some (False, toks1, st1) \<Rightarrow> Some (False, p, toks1, st1)
         | Some (True, toks1, st1) \<Rightarrow>
             (case run_setup U b (pump_plan U) (toks1, st1) of
                None \<Rightarrow> None
              | Some (False, toks2, st2) \<Rightarrow> Some (False, p, toks2, st2)
              | Some (True, toks2, st2) \<Rightarrow> Some (True, p\<lparr>pu_is_init := True\<rparr>, toks2, st2))))"

text \<open>The two arguments after the delegate are the values of the feedback elements.\<close>

definition pump_dispatch ::
  "(u32 \<Rightarrow> u32 \<Rightarrow> 'w \<Rightarrow> bool \<times> 'w) \<Rightarrow> u32 \<Rightarrow> u32 \<Rightarrow> pump \<Rightarrow> 'w \<Rightarrow> nano \<times> pump \<times> 'w" where
  "pump_dispatch start_pump accepted rejected p w =
     (if \<not> pu_is_init p then (nano_max, p, w)
      else if last_accepted p \<noteq> accepted \<or> last_rejected p \<noteq> rejected then
        (case start_pump accepted rejected w of
           (_, w') \<Rightarrow> (nano_max, p\<lparr>last_accepted := accepted, last_rejected := rejected\<rparr>, w'))
      else (nano_max, p, w))"

section \<open>The sender\<close>

record 'ch sender =
  se_is_init :: bool
  client_node_id :: nat
  relay_channels :: "string \<rightharpoonup> 'ch"
  metrics_writes :: u32
  translate_failed :: u32
  invalid_node :: u32
  write_failed :: u32

record ('p, 'm, 'f, 'ch, 'w) sender_env =
  node_id_of :: "string \<Rightarrow> nat option"
  write_message :: "'p \<Rightarrow> ('m \<times> string) option"
  prepare_transport :: "'m \<Rightarrow> 'm option"
  frame_message :: "'m \<Rightarrow> bool \<Rightarrow> nat \<Rightarrow> nat \<Rightarrow> u32 \<Rightarrow> 'f option"
  channel_write :: "'ch \<Rightarrow> 'f \<Rightarrow> 'w \<Rightarrow> bool \<times> 'w"

definition sender_new :: "nat \<Rightarrow> 'ch sender" where
  "sender_new unknown_node = \<lparr>se_is_init = False, client_node_id = unknown_node, relay_channels = Map.empty,
     metrics_writes = 0, translate_failed = 0, invalid_node = 0, write_failed = 0\<rparr>"

definition sender_plan :: "('id, 'pm, 'v, 'q, 'e, 'w) setup_env \<Rightarrow> setup_op list" where
  "sender_plan U =
     [Create_default ''metrics_writes'' T_uint32 ''metrics.writes'' (su_nonsync U) Slate_private,
      Create_default ''errors_translate_failed'' T_uint32 ''errors.translate_failed'' (su_nonsync U) Slate_read_only,
      Create_default ''errors_invalid_node'' T_uint32 ''errors.invalid_node'' (su_nonsync U) Slate_read_only,
      Create_default ''errors_write_failed'' T_uint32 ''errors.write_failed'' (su_nonsync U) Slate_read_only]"

text \<open>The map of channels as a list; \<open>None\<close> is a null handle.\<close>

definition sender_init ::
  "('p, 'm, 'f, 'ch, 'x) sender_env \<Rightarrow> ('id, 'pm, 'v, 'q, 'e, 'w) setup_env \<Rightarrow> ('q, 'e) builder \<Rightarrow> string \<Rightarrow>
   (string \<times> 'ch option) list \<Rightarrow> 'ch sender \<Rightarrow> 'id tok_table \<Rightarrow> ('id, 'w) bstate \<Rightarrow>
   (bool \<times> 'ch sender \<times> 'id tok_table \<times> ('id, 'w) bstate) option" where
  "sender_init S U b node channels s toks st =
     (if se_is_init s then Some (False, s, toks, st)
      else
        (case node_id_of S node of
           None \<Rightarrow> Some (False, s, toks, st)
         | Some nid \<Rightarrow>
             let s1 = s\<lparr>client_node_id := nid\<rparr> in
             if channels = [] then Some (False, s1, toks, st)
             else if \<not> list_all (\<lambda>(_, ch). ch \<noteq> None) channels then Some (False, s1, toks, st)
             else
               let s2 = s1\<lparr>relay_channels := map_of (map (map_prod id the) channels)\<rparr> in
               (case run_setup U b (sender_plan U) (toks, st) of
                  None \<Rightarrow> None
                | Some (False, toks', st') \<Rightarrow> Some (False, s2, toks', st')
                | Some (True, toks', st') \<Rightarrow> Some (True, s2\<lparr>se_is_init := True\<rparr>, toks', st'))))"

text \<open>The result is success, \<open>issued\<close>, and the state.\<close>

definition send ::
  "('p, 'm, 'f, 'ch, 'w) sender_env \<Rightarrow> u32 \<Rightarrow> 'p \<Rightarrow> 'ch sender \<times> 'w \<Rightarrow> bool \<times> bool \<times> 'ch sender \<times> 'w" where
  "send S seq payload sw =
     (case sw of (s, w) \<Rightarrow>
      if \<not> se_is_init s then (False, False, s, w)
      else
        (case write_message S payload of
           None \<Rightarrow> (True, False, s\<lparr>translate_failed := translate_failed s + 1\<rparr>, w)
         | Some (msg, alias) \<Rightarrow>
             (case prepare_transport S msg of
                None \<Rightarrow> (False, False, s, w)
              | Some msg' \<Rightarrow>
                  (case frame_message S msg' True 0 (client_node_id s) seq of
                     None \<Rightarrow> (False, False, s, w)
                   | Some f \<Rightarrow>
                       (case relay_channels s alias of
                          None \<Rightarrow> (True, False, s\<lparr>invalid_node := invalid_node s + 1\<rparr>, w)
                        | Some ch \<Rightarrow>
                            (case channel_write S ch f w of
                               (False, w') \<Rightarrow> (True, False, s\<lparr>write_failed := write_failed s + 1\<rparr>, w')
                             | (True, w') \<Rightarrow> (True, True, s\<lparr>metrics_writes := metrics_writes s + 1\<rparr>, w')))))))"

text \<open>\<open>for_each_counter\<close> calls its argument on the four tokens in order, up to the first failure.\<close>

fun each_counter :: "('id \<Rightarrow> 's \<Rightarrow> bool \<times> 's) \<Rightarrow> 'id list \<Rightarrow> 's \<Rightarrow> bool \<times> 's" where
  "each_counter f [] x = (True, x)"
| "each_counter f (t # ts) x = (case f t x of (False, x') \<Rightarrow> (False, x') | (True, x') \<Rightarrow> each_counter f ts x')"

definition for_each_counter :: "'ch sender \<Rightarrow> 'id tok_table \<Rightarrow> ('id \<Rightarrow> 's \<Rightarrow> bool \<times> 's) \<Rightarrow> 's \<Rightarrow> bool \<times> 's" where
  "for_each_counter s toks f x =
     (if \<not> se_is_init s then (False, x)
      else each_counter f (map toks [''metrics_writes'', ''errors_translate_failed'', ''errors_invalid_node'',
             ''errors_write_failed'']) x)"

section \<open>Runs\<close>

text \<open>One dispatch per pair of feedback values; the delegate records its arguments.\<close>

definition pump_run :: "(u32 \<times> u32) list \<Rightarrow> pump \<times> (u32 \<times> u32) list \<Rightarrow> pump \<times> (u32 \<times> u32) list" where
  "pump_run fbs s =
     fold (\<lambda>(a, r) (p, log). snd (pump_dispatch (\<lambda>a r log. (True, log @ [(a, r)])) a r p log)) fbs s"

definition send_run ::
  "('p, 'm, 'f, 'ch, 'w) sender_env \<Rightarrow> (u32 \<times> 'p) list \<Rightarrow> 'ch sender \<times> 'w \<Rightarrow> bool list \<times> 'ch sender \<times> 'w" where
  "send_run S cmds sw =
     fold (\<lambda>(seq, p) (rs, sw). case send S seq p sw of (ok, issued, sw') \<Rightarrow> (rs @ [ok], sw')) cmds ([], sw)"

text \<open>The number of commands a sender has dealt with.\<close>

definition handled :: "'ch sender \<Rightarrow> u32" where
  "handled s = metrics_writes s + translate_failed s + invalid_node s + write_failed s"

lemma pump_run_log:
  assumes "pu_is_init p"
  shows "pump_run fbs (p, log) =
    (let l = last ((last_accepted p, last_rejected p) # fbs) in p\<lparr>last_accepted := fst l, last_rejected := snd l\<rparr>,
     log @ tl (remdups_adj ((last_accepted p, last_rejected p) # fbs)))"
  using assms
proof (induction fbs arbitrary: p log)
  case Nil
  then show ?case by (simp add: pump_run_def)
next
  case (Cons fb fbs)
  let ?l = "(last_accepted p, last_rejected p)" and ?p = "p\<lparr>last_accepted := fst fb, last_rejected := snd fb\<rparr>"
  have step: "pump_run (fb # fbs) (p, log) = pump_run fbs (if ?l = fb then (p, log) else (?p, log @ [fb]))"
    using Cons.prems by (cases fb) (simp add: pump_run_def pump_dispatch_def)
  show ?case
  proof (cases "?l = fb")
    case True
    then show ?thesis using Cons.IH [of p log] Cons.prems by (simp only: step if_True) simp
  next
    case False
    then show ?thesis using Cons.IH [of ?p "log @ [fb]"] Cons.prems
      by (simp only: step if_False) (simp add: Let_def)
  qed
qed

lemma send_handled:
  assumes "send S seq p (s, w) = (ok, issued, s', w')"
  shows "handled s' = handled s + (if ok then 1 else 0) \<and>
    metrics_writes s' = metrics_writes s + (if issued then 1 else 0) \<and> (issued \<longrightarrow> ok)"
  using assms
  by (auto simp: send_def handled_def split: if_splits option.splits prod.splits bool.splits)

text \<open>A channel that records what is written and whether it takes it.\<close>

definition log_write :: "('ch \<Rightarrow> 'f \<Rightarrow> bool) \<Rightarrow> 'ch \<Rightarrow> 'f \<Rightarrow> ('ch \<times> 'f \<times> bool) list \<Rightarrow> bool \<times> ('ch \<times> 'f \<times> bool) list" where
  "log_write takes ch f log = (takes ch f, log @ [(ch, f, takes ch f)])"

lemma send_logged:
  assumes "channel_write S = log_write takes" and "send S seq p (s, log) = (ok, issued, s', log')"
  obtains (quiet) "log' = log" "\<not> issued" "metrics_writes s' = metrics_writes s" "write_failed s' = write_failed s"
    | (written) m a m' f ch where "write_message S p = Some (m, a)" "prepare_transport S m = Some m'"
        "frame_message S m' True 0 (client_node_id s) seq = Some f" "relay_channels s a = Some ch"
        "log' = log @ [(ch, f, issued)]"
        "metrics_writes s' = metrics_writes s + (if issued then 1 else 0)"
        "write_failed s' = write_failed s + (if issued then 0 else 1)"
proof (cases "\<exists>m a m' f ch. write_message S p = Some (m, a) \<and> prepare_transport S m = Some m' \<and>
    frame_message S m' True 0 (client_node_id s) seq = Some f \<and> relay_channels s a = Some ch \<and> se_is_init s")
  case True
  then show thesis using assms written
    by (cases issued) (auto simp: send_def log_write_def split: bool.splits)
next
  case False
  then show thesis using assms quiet
    by (auto simp: send_def split: if_splits option.splits prod.splits)
qed

text \<open>The response carries a command that both keystores accept, that is new, meant for this vehicle, and has payload \<open>p\<close>.\<close>

definition authentic :: "('raw, 'sig, 'sd, 'p) client_env \<Rightarrow> client \<Rightarrow> ('raw, 'sig) response \<Rightarrow> 'p \<Rightarrow> bool" where
  "authentic K c rs p \<longleftrightarrow>
     (\<exists>sc sd outer t inner. rs_signed rs = Some sc \<and> unwrap_outer K sc = Some (sd, outer) \<and>
        unwrap_inner K sd = Some (t, inner) \<and> rs_seq rs = parsed_id K (tbs_command_id t) \<and>
        (accepted_seq c = 0 \<or> max (last_request_accepted c) (last_request_rejected c) < rs_seq rs) \<and>
        (outer = [] \<or> outer = tbs_creation_id t) \<and> (inner = [] \<or> inner = tbs_creation_id t) \<and>
        tbs_target t = target_entity c \<and> decode_payload K (tbs_payload t) = Some p)"

lemma checked_authentic:
  assumes "require_signed c" and "check_command K rs (with_command rs c) = Inr p"
  shows "authentic K c rs p"
proof -
  have "check_signed K rs (with_command rs c) = Inr p" using assms by (simp add: check_command_def)
  from check_signed_Inr [OF this] show ?thesis by (simp add: authentic_def)
qed

lemma pump_run_default:
  "snd (pump_run fbs (pump_new\<lparr>pu_is_init := True\<rparr>, [])) = tl (remdups_adj ((0, 0) # fbs))"
  by (simp add: pump_run_log Let_def pump_new_def)

section \<open>An instance\<close>

definition demo_sender_env :: "(string, string, string \<times> nat \<times> u32, string, (string \<times> (string \<times> nat \<times> u32) \<times> bool) list) sender_env" where
  "demo_sender_env = \<lparr>node_id_of = (\<lambda>_. Some 3),
     write_message = (\<lambda>p. if p = ''go'' then Some (''GO'', ''sat'') else if p = ''lost'' then Some (''GO'', ''sun'') else None),
     prepare_transport = Some, frame_message = (\<lambda>m _ _ n seq. Some (m, n, seq)), channel_write = log_write (\<lambda>ch f. snd (snd f) \<noteq> 7)\<rparr>"

definition demo_sender :: "string sender" where
  "demo_sender = (sender_new 0)\<lparr>se_is_init := True, client_node_id := 3, relay_channels := [''sat'' \<mapsto> ''uplink'']\<rparr>"

section \<open>Properties\<close>

text \<open>
  The pump forwards every change of the vehicle's feedback once. Over any sequence of
  dispatches the delegate is started exactly on the readings that differ from the one before, with
  the values read, in order, and the pump remembers the last reading.
\<close>

theorem pump_forwards_each_change:
  assumes "pu_is_init p"
  shows "pump_run fbs (p, log) =
    (let l = last ((last_accepted p, last_rejected p) # fbs) in p\<lparr>last_accepted := fst l, last_rejected := snd l\<rparr>,
     log @ tl (remdups_adj ((last_accepted p, last_rejected p) # fbs)))"
  by (rule pump_run_log [OF assms])

theorem pump_forwards_each_change_witness:
  "snd (pump_run [(0, 0), (1, 0), (1, 0), (1, 2)] (pump_new\<lparr>pu_is_init := True\<rparr>, [])) = [(1, 0), (1, 2)]"
  by (subst pump_forwards_each_change) (simp_all add: pump_new_def)

text \<open>
  C18: end to end, what reaches a vehicle. With the sender as the client's handler, if a response
  causes anything to be written to a channel, it is one frame, that of one payload of the response,
  with this client's node ID and the command's sequence number, on the channel of the node the
  command addresses. With signed commands required, the payload is that of an authentic command of the
  response; without, it is the response's plain payload, which nothing authenticates.
\<close>

theorem relay_writes_only_authentic:
  assumes "channel_write S = log_write takes"
    and "on_pump_response K (send S) ok rs c (s, log) = (r, c', (s', log'))" and "log' \<noteq> log"
  shows "\<exists>p m a m' f ch taken.
    (if require_signed c then authentic K c rs p
     else \<exists>raw. rs_payload rs = Some raw \<and> decode_payload K raw = Some p) \<and>
    rs_seq rs \<noteq> 0 \<and> write_message S p = Some (m, a) \<and>
    prepare_transport S m = Some m' \<and> frame_message S m' True 0 (client_node_id s) (rs_seq rs) = Some f \<and>
    relay_channels s a = Some ch \<and> log' = log @ [(ch, f, taken)]"
  using assms(2)
proof (cases rule: response_cases)
  case (sent p b issued)
  have passed: "if require_signed c then authentic K c rs p
      else \<exists>raw. rs_payload rs = Some raw \<and> decode_payload K raw = Some p"
    using sent(1) checked_authentic [OF _ sent(1)] by (auto simp: check_command_def check_unsigned_def with_command_def split: option.splits)
  have run: "send S (rs_seq rs) p (s, log) = (b, issued, s', log')" by (rule sent(3))
  show ?thesis
    using passed sent(2) assms(3) send_logged [OF assms(1) run] by metis
qed (use assms(3) in simp_all)

theorem relay_writes_only_authentic_witness:
  "\<exists>r c' s'. on_pump_response demo_keys (send demo_sender_env) True (demo_response 6 ''6'') (demo_client 5) (demo_sender, []) =
     (r, c', (s', [(''uplink'', (''GO'', 3, 6), True)])) \<and> authentic demo_keys (demo_client 5) (demo_response 6 ''6'') ''go''"
proof -
  have "snd (snd (snd (on_pump_response demo_keys (send demo_sender_env) True (demo_response 6 ''6'') (demo_client 5) (demo_sender, [])))) =
      [(''uplink'', (''GO'', 3, 6), True)]"
    using demo_check(1)
    by (simp add: on_pump_response_def Let_def with_command_def demo_response_def demo_client_def
        send_def demo_sender_env_def demo_sender_def log_write_def)
  then obtain r c' s' where run: "on_pump_response demo_keys (send demo_sender_env) True (demo_response 6 ''6'') (demo_client 5) (demo_sender, []) =
      (r, c', (s', [(''uplink'', (''GO'', 3, 6), True)]))"
    by (metis prod.collapse)
  have signed: "require_signed (demo_client 5)" and "channel_write demo_sender_env = log_write (\<lambda>ch f. snd (snd f) \<noteq> 7)"
    by (simp_all add: demo_client_def demo_sender_env_def)
  from relay_writes_only_authentic [OF this(2) run]
  obtain p where p: "authentic demo_keys (demo_client 5) (demo_response 6 ''6'') p" using signed by auto
  then have "p = ''go''" by (auto simp: authentic_def demo_keys_def demo_response_def)
  then show ?thesis using run p by blast
qed

text \<open>
  The sender's counters account for every command. After any sequence of commands the four
  counters have together grown by the number of commands dealt with, \<open>metrics.writes\<close> by the number of
  frames the channels took and \<open>errors.write_failed\<close> by the number they refused (modulo \<open>2 ^ 32\<close>).
\<close>

theorem sender_accounts_for_commands:
  assumes "channel_write S = log_write takes" and "send_run S cmds (s, log) = (rs, s', log')"
  shows "length rs = length cmds \<and> handled s' = handled s + of_nat (length (filter (\<lambda>ok. ok) rs)) \<and>
    (\<exists>new. log' = log @ new \<and>
       metrics_writes s' = metrics_writes s + of_nat (length (filter (\<lambda>(_, _, taken). taken) new)) \<and>
       write_failed s' = write_failed s + of_nat (length (filter (\<lambda>(_, _, taken). \<not> taken) new)))"
  using assms(2)
proof (induction cmds arbitrary: rs s' log' rule: rev_induct)
  case Nil
  then show ?case by (simp add: send_run_def)
next
  case (snoc cmd cmds)
  obtain rs1 s1 log1 where pre: "send_run S cmds (s, log) = (rs1, s1, log1)" by (metis prod_cases3)
  obtain ok issued s2 log2 where one: "send S (fst cmd) (snd cmd) (s1, log1) = (ok, issued, s2, log2)"
    by (metis prod_cases4)
  have post: "rs = rs1 @ [ok]" "s' = s2" "log' = log2"
    using snoc.prems pre one by (auto simp: send_run_def case_prod_beta)
  obtain new where IH: "length rs1 = length cmds" "handled s1 = handled s + of_nat (length (filter (\<lambda>ok. ok) rs1))"
    "log1 = log @ new" "metrics_writes s1 = metrics_writes s + of_nat (length (filter (\<lambda>(_, _, taken). taken) new))"
    "write_failed s1 = write_failed s + of_nat (length (filter (\<lambda>(_, _, taken). \<not> taken) new))"
    using snoc.IH [OF pre] by blast
  have count: "handled s2 = handled s + of_nat (length (filter (\<lambda>ok. ok) rs))"
    using send_handled [OF one] IH(2) post by simp
  show ?case
  proof (cases rule: send_logged [OF assms(1) one])
    case quiet: 1
    then show ?thesis using IH post count by auto
  next
    case written: (2 m a m' f ch)
    then show ?thesis using IH post count by (auto intro!: exI [of _ "new @ [(ch, f, issued)]"])
  qed
qed

theorem sender_accounts_for_commands_witness:
  "\<exists>s' log'. send_run demo_sender_env [(6, ''go''), (7, ''go''), (8, ''lost''), (9, ''??'')] (demo_sender, []) =
     ([True, True, True, True], s', log') \<and> length log' = 2 \<and> metrics_writes s' = 1 \<and> write_failed s' = 1 \<and> handled s' = 4"
proof -
  let ?run = "send_run demo_sender_env [(6, ''go''), (7, ''go''), (8, ''lost''), (9, ''??'')] (demo_sender, [])"
  have "fst ?run = [True, True, True, True]" "snd (snd ?run) = [(''uplink'', (''GO'', 3, 6), True), (''uplink'', (''GO'', 3, 7), False)]"
    by (simp_all add: send_run_def send_def demo_sender_env_def demo_sender_def sender_new_def log_write_def)
  then obtain s' where run: "?run = ([True, True, True, True], s', [(''uplink'', (''GO'', 3, 6), True), (''uplink'', (''GO'', 3, 7), False)])"
    by (metis prod.collapse)
  have "channel_write demo_sender_env = log_write (\<lambda>ch f. snd (snd f) \<noteq> 7)" by (simp add: demo_sender_env_def)
  moreover have "handled demo_sender = 0" "metrics_writes demo_sender = 0" "write_failed demo_sender = 0"
    by (simp_all add: handled_def demo_sender_def sender_new_def)
  ultimately show ?thesis using sender_accounts_for_commands [OF _ run] run by simp
qed

end
