(* ===== verification/Machine_Core.thy ===== *)
theory Machine_Core
  imports Element_Setup Symbol_Table
begin

text \<open>
  The state of \<^verbatim>\<open>StateMachine.cc\<close> and the operations that commands go through. A state machine owns
  numbered states; each says, per command, which state follows, and which control tasks run.
  \<^verbatim>\<open>ControlState\<close>, \<^verbatim>\<open>ControlTask\<close>, \<^verbatim>\<open>EventSequence\<close> and \<^verbatim>\<open>CommandTable\<close> are not in the repository:
  commands are a type \<open>'c\<close>, tasks a type \<open>'k\<close>, event sequences a type \<open>'es\<close>, and what the machine
  calls on them is a parameter.
\<close>

section \<open>Data\<close>

text \<open>\<open>Other_cstate\<close> stands for a value outside the enumeration.\<close>

datatype cstate = Off_cstate | On_cstate | Cont_cstate | Cmd_cstate | Other_cstate u32

record task_info =
  ti_init :: bool
  ti_state :: cstate
  ti_args :: "string list"

text \<open>The members of \<^verbatim>\<open>ControlState\<close> that the machine uses.\<close>

record 'es control_state =
  cs_cmds :: "u32 list"
  cs_tasks :: "task_info list"
  cs_seqs :: "(string \<times> 'es) list"
  cs_duration :: nano
  timeout_ignored :: bool
  multi_seq_devices :: "string set"

text \<open>
  A machine: its configuration, then the values of its slate elements. A null handle to a state is
  \<open>None\<close>.
\<close>

record ('c, 'k, 'es) machine =
  sm_is_init :: bool
  sm_is_init_storage :: bool
  sm_name :: string
  sm_role :: string
  state_names :: "string list"
  state_sym :: symtab
  ctask_sym :: symtab
  sm_tasks :: "'k list"
  sm_states :: "'es control_state option list"
  timeout_cmd :: 'c
  transition_period :: nano
  initial_control_time :: nano
  pre_tasks_added :: bool
  num_pre_tasks :: nat
  cur_state :: u32
  old_state :: u32
  older_state :: u32
  pending_cmd :: u32
  last_pending :: u32
  nominal_time :: nano
  seq_time :: nano

record 'c cmd_env =
  noop_index :: u32
  cmd_index :: "'c \<Rightarrow> u32"
  cmd_name :: "'c \<Rightarrow> string"
  cmd_noop :: "'c \<Rightarrow> bool"
  cmd_invalid :: "'c \<Rightarrow> bool"
  table_check :: "'c \<Rightarrow> bool"
  table_lookup :: "string \<Rightarrow> 'c option"
  table_lookup_index :: "u32 \<Rightarrow> 'c option"
  table_size :: nat
  op_int_ge :: "nat \<Rightarrow> nat \<Rightarrow> bool"
  next_time :: "nano \<Rightarrow> nano \<Rightarrow> nano"

definition undefined_state :: u32 where
  "undefined_state = 0xFFFFFFFF"

definition ignore_state :: u32 where
  "ignore_state = 0xFFFFFFFE"

datatype cmd_response = Cmd_accept | Cmd_defer | Cmd_reject

definition machine_new :: "nano \<Rightarrow> nano \<Rightarrow> symtab \<Rightarrow> 'c \<Rightarrow> ('c, 'k, 'es) machine" where
  "machine_new period initial_time no_symbols no_cmd =
     \<lparr>sm_is_init = False, sm_is_init_storage = False, sm_name = [], sm_role = [], state_names = [],
      state_sym = no_symbols, ctask_sym = no_symbols, sm_tasks = [], sm_states = [], timeout_cmd = no_cmd,
      transition_period = period, initial_control_time = initial_time, pre_tasks_added = False,
      num_pre_tasks = 0, cur_state = 0, old_state = 0, older_state = 0, pending_cmd = 0, last_pending = 0,
      nominal_time = 0, seq_time = 0\<rparr>"

section \<open>Symbols\<close>

definition lookup_state :: "('c, 'k, 'es) machine \<Rightarrow> string \<Rightarrow> u32 option" where
  "lookup_state m name = raw_get_uint (state_sym m) name"

definition lookup_state_name :: "('c, 'k, 'es) machine \<Rightarrow> u32 \<Rightarrow> string" where
  "lookup_state_name m s = (case raw_get_string (state_sym m) s False of None \<Rightarrow> ''unknown'' | Some name \<Rightarrow> name)"

definition lookup_ctask :: "('c, 'k, 'es) machine \<Rightarrow> string \<Rightarrow> u32 option" where
  "lookup_ctask m name = raw_get_uint (ctask_sym m) name"

definition lookup_ctask_name :: "('c, 'k, 'es) machine \<Rightarrow> u32 \<Rightarrow> string" where
  "lookup_ctask_name m t = (case raw_get_string (ctask_sym m) t False of None \<Rightarrow> ''unknown'' | Some name \<Rightarrow> name)"

text \<open>\<open>cstates\<close> is the symbol table of \<^verbatim>\<open>ctask_state_t\<close>, the cast from its numbers is \<open>cstate_of\<close>.\<close>

definition lookup_cstate :: "symtab \<Rightarrow> (u32 \<Rightarrow> cstate) \<Rightarrow> string \<Rightarrow> cstate option" where
  "lookup_cstate cstates cstate_of name = map_option cstate_of (raw_get_uint cstates (name @ ''_cstate''))"

text \<open>The name without its suffix: all before the last underscore, or all of it.\<close>

definition lookup_cstate_name :: "symtab \<Rightarrow> u32 \<Rightarrow> string" where
  "lookup_cstate_name cstates c =
     (case raw_get_string cstates c False of
        None \<Rightarrow> ''unknown''
      | Some name \<Rightarrow>
          (if CHR ''_'' \<in> set name then rev (tl (dropWhile (\<lambda>ch. ch \<noteq> CHR ''_'') (rev name))) else name))"

definition lookup_cmd :: "'c cmd_env \<Rightarrow> string \<Rightarrow> 'c option" where
  "lookup_cmd C name = table_lookup C name"

definition lookup_cmd_index :: "'c cmd_env \<Rightarrow> u32 \<Rightarrow> 'c option" where
  "lookup_cmd_index C i = table_lookup_index C i"

definition has_state :: "('c, 'k, 'es) machine \<Rightarrow> string \<Rightarrow> bool" where
  "has_state m name \<longleftrightarrow> raw_get_uint (state_sym m) name \<noteq> None"

definition get_state_num :: "('c, 'k, 'es) machine \<Rightarrow> u32" where
  "get_state_num m = cur_state m"

definition get_state :: "('c, 'k, 'es) machine \<Rightarrow> string" where
  "get_state m = lookup_state_name m (cur_state m)"

section \<open>Control tasks\<close>

definition add_ctask :: "string \<Rightarrow> 'k option \<Rightarrow> ('c, 'k, 'es) machine \<Rightarrow> bool \<times> ('c, 'k, 'es) machine" where
  "add_ctask name ctask m =
     (case ctask of
        None \<Rightarrow> (False, m)
      | Some k \<Rightarrow>
          (case add name (word_of_nat (length (sm_tasks m))) (ctask_sym m) of
             (False, t) \<Rightarrow> (False, m\<lparr>ctask_sym := t\<rparr>)
           | (True, t) \<Rightarrow> (True, m\<lparr>ctask_sym := t, sm_tasks := sm_tasks m @ [k]\<rparr>)))"

definition pre_transition_ctasks_added :: "('c, 'k, 'es) machine \<Rightarrow> bool \<times> ('c, 'k, 'es) machine" where
  "pre_transition_ctasks_added m =
     (if sm_is_init m then (False, m)
      else if pre_tasks_added m then (False, m)
      else (True, m\<lparr>num_pre_tasks := length (sm_tasks m), pre_tasks_added := True\<rparr>))"

definition set_state_machine_name :: "string \<Rightarrow> ('c, 'k, 'es) machine \<Rightarrow> bool \<times> ('c, 'k, 'es) machine" where
  "set_state_machine_name name m = (True, m\<lparr>sm_name := name\<rparr>)"

section \<open>Commands\<close>

text \<open>The index of the timeout command, after \<^verbatim>\<open>FswAssert("timeout" == timeout_cmd.get_name())\<close>.\<close>

definition timeout_index :: "'c cmd_env \<Rightarrow> ('c, 'k, 'es) machine \<Rightarrow> nat option" where
  "timeout_index C m =
     (if cmd_name C (timeout_cmd m) = ''timeout'' then Some (unat (cmd_index C (timeout_cmd m))) else None)"

text \<open>The state behind a number; \<open>None\<close> where the range check or the check of the handle aborts.\<close>

definition state_at :: "('c, 'k, 'es) machine \<Rightarrow> u32 \<Rightarrow> 'es control_state option" where
  "state_at m s = (if unat s < length (sm_states m) then sm_states m ! unat s else None)"

definition is_cmd_allowed :: "'c cmd_env \<Rightarrow> ('c, 'k, 'es) machine \<Rightarrow> 'c \<Rightarrow> bool" where
  "is_cmd_allowed C m cmd =
     (if cmd_noop C cmd then True
      else
        (case state_at m (cur_state m) of
           None \<Rightarrow> False
         | Some cs \<Rightarrow>
             if unat (cmd_index C cmd) \<ge> length (cs_cmds cs) then False
             else
               let next_state = cs_cmds cs ! unat (cmd_index C cmd) in
               if op_int_ge C (unat next_state) (length (sm_states m)) then False
               else if next_state = ignore_state then True
               else if next_state = undefined_state then False
               else True))"

fun has_cmd_in :: "u32 \<Rightarrow> 'es control_state option list \<Rightarrow> bool" where
  "has_cmd_in i [] = False"
| "has_cmd_in i (None # css) = has_cmd_in i css"
| "has_cmd_in i (Some cs # css) =
     (if unat i \<ge> length (cs_cmds cs) then False
      else if cs_cmds cs ! unat i \<noteq> undefined_state then True
      else has_cmd_in i css)"

definition has_cmd :: "'c cmd_env \<Rightarrow> ('c, 'k, 'es) machine \<Rightarrow> 'c \<Rightarrow> bool" where
  "has_cmd C m cmd = (if cmd_noop C cmd then True else has_cmd_in (cmd_index C cmd) (sm_states m))"

definition set_nominal_transition_time ::
  "'c cmd_env \<Rightarrow> nano \<Rightarrow> ('c, 'k, 'es) machine \<Rightarrow> (bool \<times> ('c, 'k, 'es) machine) option" where
  "set_nominal_transition_time C control_time m =
     (let t = next_time C control_time (transition_period m) - transition_period m in
      if \<not> (control_time - transition_period m <s t) then None
      else if \<not> (t \<le>s control_time) then None
      else Some (True, m\<lparr>nominal_time := t\<rparr>))"

text \<open>The result is success, the response, \<open>retry_at\<close> and the machine.\<close>

definition handle_cmd ::
  "'c cmd_env \<Rightarrow> nano \<Rightarrow> 'c \<Rightarrow> ('c, 'k, 'es) machine \<Rightarrow>
   (bool \<times> cmd_response \<times> nano \<times> ('c, 'k, 'es) machine) option" where
  "handle_cmd C control_time cmd m =
     (let retry_at = nominal_time m in
      if pending_cmd m \<noteq> noop_index C then Some (True, Cmd_defer, retry_at, m)
      else if cmd_invalid C cmd then Some (False, Cmd_reject, retry_at, m)
      else if \<not> table_check C cmd then Some (False, Cmd_reject, retry_at, m)
      else
        (case state_at m (cur_state m) of
           None \<Rightarrow> Some (False, Cmd_defer, retry_at, m)
         | Some cs \<Rightarrow>
             if unat (cmd_index C cmd) \<ge> length (cs_cmds cs) then Some (False, Cmd_defer, retry_at, m)
             else
               let ns = cs_cmds cs ! unat (cmd_index C cmd) in
               if timeout_cmd m = cmd \<and> ns = undefined_state then Some (True, Cmd_reject, retry_at, m)
               else if timeout_cmd m = cmd \<and> ns = ignore_state then Some (True, Cmd_accept, retry_at, m)
               else if ns = ignore_state \<or> cmd_noop C cmd then Some (True, Cmd_accept, retry_at, m)
               else if ns = undefined_state then Some (True, Cmd_reject, retry_at, m)
               else if unat ns \<ge> length (sm_states m) then Some (True, Cmd_reject, retry_at, m)
               else if pending_cmd m \<noteq> noop_index C then None
               else
                 (case set_nominal_transition_time C control_time (m\<lparr>pending_cmd := cmd_index C cmd\<rparr>) of
                    None \<Rightarrow> None
                  | Some (ok, m') \<Rightarrow> Some (ok, Cmd_accept, retry_at, m'))))"

end
