(* ===== verification/Machine_Run.thy ===== *)
theory Machine_Run
  imports Machine_Core
begin

text \<open>
  \<^verbatim>\<open>StateMachine.cc\<close> at run time: transitions, and the dispatch of the asynchronous and the
  synchronous machine. Control tasks, event sequences and the handlers of the state signal are
  parameters. They may submit commands to the machine while they run, so they act on the pair of
  the machine and the rest of the world, \<open>'w\<close>; the hypothesis \<open>callbacks_ok\<close> says that submitting
  commands is all they do to the machine. The result \<open>None\<close> is a failed \<^verbatim>\<open>FswAssert\<close>.
\<close>

type_synonym ('c, 'k, 'es, 'w) mstate = "('c, 'k, 'es) machine \<times> 'w"

text \<open>
  \<open>re_verbose\<close>: the verbosity asks for messages. Sequences are those of a state number;
  \<open>re_seq_time\<close> is their time in seconds, as the bits of a double, which \<open>re_to_nano\<close> converts back.
\<close>

record ('c, 'k, 'es, 'w) run_env =
  re_verbose :: bool
  re_start :: "'k \<Rightarrow> nano \<Rightarrow> string list \<Rightarrow> ('c, 'k, 'es, 'w) mstate \<Rightarrow> bool \<times> ('c, 'k, 'es, 'w) mstate"
  re_stop :: "'k \<Rightarrow> nano \<Rightarrow> ('c, 'k, 'es, 'w) mstate \<Rightarrow> bool \<times> ('c, 'k, 'es, 'w) mstate"
  re_cont :: "'k \<Rightarrow> nano \<Rightarrow> ('c, 'k, 'es, 'w) mstate \<Rightarrow> bool \<times> ('c, 'k, 'es, 'w) mstate"
  re_cmd :: "'k \<Rightarrow> nano \<Rightarrow> string list \<Rightarrow> ('c, 'k, 'es, 'w) mstate \<Rightarrow> bool \<times> ('c, 'k, 'es, 'w) mstate"
  re_active :: "'k \<Rightarrow> 'w \<Rightarrow> bool"
  re_dispatch :: "'k \<Rightarrow> nano \<Rightarrow> ('c, 'k, 'es, 'w) mstate \<Rightarrow> nano \<times> ('c, 'k, 'es, 'w) mstate"
  re_start_seqs :: "nat \<Rightarrow> nano \<Rightarrow> ('c, 'k, 'es, 'w) mstate \<Rightarrow> bool \<times> ('c, 'k, 'es, 'w) mstate"
  re_end_seqs :: "nat \<Rightarrow> ('c, 'k, 'es, 'w) mstate \<Rightarrow> bool \<times> ('c, 'k, 'es, 'w) mstate"
  re_dispatch_seqs :: "nat \<Rightarrow> nano \<Rightarrow> ('c, 'k, 'es, 'w) mstate \<Rightarrow> nano \<times> ('c, 'k, 'es, 'w) mstate"
  re_seq_time :: "nat \<Rightarrow> 'w \<Rightarrow> nano"
  re_signal :: "string \<Rightarrow> ('c, 'k, 'es, 'w) mstate \<Rightarrow> ('c, 'k, 'es, 'w) mstate"
  re_to_nano :: "nano \<Rightarrow> nano"

section \<open>Transitions of tasks\<close>

fun cstate_out_of_range :: "cstate \<Rightarrow> bool" where
  "cstate_out_of_range (Other_cstate _) \<longleftrightarrow> True"
| "cstate_out_of_range _ \<longleftrightarrow> False"

definition call_task ::
  "('c, 'k, 'es, 'w) run_env \<Rightarrow> nano \<Rightarrow> 'k \<Rightarrow> task_info \<Rightarrow> ('c, 'k, 'es, 'w) mstate \<Rightarrow> bool \<times> ('c, 'k, 'es, 'w) mstate" where
  "call_task R t k ti x =
     (case ti_state ti of
        On_cstate \<Rightarrow> re_start R k t (ti_args ti) x
      | Off_cstate \<Rightarrow> re_stop R k t x
      | Cont_cstate \<Rightarrow> re_cont R k t x
      | Cmd_cstate \<Rightarrow> re_cmd R k t (ti_args ti) x
      | Other_cstate _ \<Rightarrow> (False, x))"

definition transition_task ::
  "('c, 'k, 'es, 'w) run_env \<Rightarrow> nano \<Rightarrow> nat \<Rightarrow> 'es control_state \<Rightarrow> ('c, 'k, 'es, 'w) mstate \<Rightarrow>
   (bool \<times> ('c, 'k, 'es, 'w) mstate) option" where
  "transition_task R t i cs x =
     (if i \<ge> length (sm_tasks (fst x)) then Some (False, x)
      else if i \<ge> length (cs_tasks cs) then Some (False, x)
      else
        let ti = cs_tasks cs ! i in
        if cstate_out_of_range (ti_state ti) then Some (False, x)
        else if t = nano_max then None
        else Some (call_task R t (sm_tasks (fst x) ! i) ti x))"

fun transition_tasks ::
  "('c, 'k, 'es, 'w) run_env \<Rightarrow> nano \<Rightarrow> 'es control_state \<Rightarrow> nat list \<Rightarrow> bool \<Rightarrow> ('c, 'k, 'es, 'w) mstate \<Rightarrow>
   (bool \<times> ('c, 'k, 'es, 'w) mstate) option" where
  "transition_tasks R t cs [] good x = Some (good, x)"
| "transition_tasks R t cs (i # is) good x =
     (case transition_task R t i cs x of
        None \<Rightarrow> None
      | Some (ok, x') \<Rightarrow> transition_tasks R t cs is (good \<and> ok) x')"

definition transition_pre_tasks ::
  "('c, 'k, 'es, 'w) run_env \<Rightarrow> nano \<Rightarrow> 'es control_state \<Rightarrow> ('c, 'k, 'es, 'w) mstate \<Rightarrow>
   (bool \<times> ('c, 'k, 'es, 'w) mstate) option" where
  "transition_pre_tasks R t cs x = transition_tasks R t cs [0..<num_pre_tasks (fst x)] True x"

definition transition_post_tasks ::
  "('c, 'k, 'es, 'w) run_env \<Rightarrow> nano \<Rightarrow> 'es control_state \<Rightarrow> ('c, 'k, 'es, 'w) mstate \<Rightarrow>
   (bool \<times> ('c, 'k, 'es, 'w) mstate) option" where
  "transition_post_tasks R t cs x =
     transition_tasks R t cs [num_pre_tasks (fst x)..<length (sm_tasks (fst x))] True x"

section \<open>Dispatch of tasks\<close>

fun dispatch_tasks ::
  "('c, 'k, 'es, 'w) run_env \<Rightarrow> nano \<Rightarrow> nat list \<Rightarrow> nano \<Rightarrow> ('c, 'k, 'es, 'w) mstate \<Rightarrow>
   (nano \<times> ('c, 'k, 'es, 'w) mstate) option" where
  "dispatch_tasks R t [] next_event x = Some (next_event, x)"
| "dispatch_tasks R t (i # is) next_event x =
     (if i \<ge> length (sm_tasks (fst x)) then None
      else if \<not> re_active R (sm_tasks (fst x) ! i) (snd x) then dispatch_tasks R t is next_event x
      else
        (case re_dispatch R (sm_tasks (fst x) ! i) t x of
           (wake, x') \<Rightarrow> dispatch_tasks R t is (min_nano next_event wake) x'))"

definition dispatch_pre_tasks ::
  "('c, 'k, 'es, 'w) run_env \<Rightarrow> nano \<Rightarrow> ('c, 'k, 'es, 'w) mstate \<Rightarrow> (nano \<times> ('c, 'k, 'es, 'w) mstate) option" where
  "dispatch_pre_tasks R t x = dispatch_tasks R t [0..<num_pre_tasks (fst x)] nano_max x"

definition dispatch_post_tasks ::
  "('c, 'k, 'es, 'w) run_env \<Rightarrow> nano \<Rightarrow> ('c, 'k, 'es, 'w) mstate \<Rightarrow> (nano \<times> ('c, 'k, 'es, 'w) mstate) option" where
  "dispatch_post_tasks R t x =
     dispatch_tasks R t [num_pre_tasks (fst x)..<length (sm_tasks (fst x))] nano_max x"

section \<open>State transitions\<close>

text \<open>A call that does not happen succeeds.\<close>

definition opt_call :: "bool \<Rightarrow> ('x \<Rightarrow> (bool \<times> 'x) option) \<Rightarrow> 'x \<Rightarrow> (bool \<times> 'x) option" where
  "opt_call doit f x = (if doit then f x else Some (True, x))"

definition record_state :: "u32 \<Rightarrow> ('c, 'k, 'es) machine \<Rightarrow> ('c, 'k, 'es) machine" where
  "record_state new_state m =
     m\<lparr>older_state := old_state m, old_state := cur_state m, seq_time := 0, cur_state := new_state\<rparr>"

text \<open>\<open>state[current_state]\<close> is not checked; an index out of range is \<open>None\<close>.\<close>

definition end_seqs_of :: "('c, 'k, 'es, 'w) run_env \<Rightarrow> u32 \<Rightarrow> ('c, 'k, 'es, 'w) mstate \<Rightarrow> (bool \<times> ('c, 'k, 'es, 'w) mstate) option" where
  "end_seqs_of R s x = (if state_at (fst x) s = None then None else Some (re_end_seqs R (unat s) x))"

definition set_state ::
  "'c cmd_env \<Rightarrow> ('c, 'k, 'es, 'w) run_env \<Rightarrow> u32 \<Rightarrow> u32 \<Rightarrow> nano \<Rightarrow> bool \<Rightarrow> bool \<Rightarrow> bool \<Rightarrow> ('c, 'k, 'es, 'w) mstate \<Rightarrow>
   (bool \<times> ('c, 'k, 'es, 'w) mstate) option" where
  "set_state C R new_state cmd t pre post start_seq x =
     (if \<not> sm_is_init (fst x) then Some (False, x)
      else if t = nano_max then None
      else
        let current = cur_state (fst x) in
        if re_verbose R \<and> lookup_cmd_index C cmd = None then Some (False, x)
        else
          (case state_at (fst x) new_state of
             None \<Rightarrow> Some (False, x)
           | Some ncs \<Rightarrow>
               (case opt_call pre (transition_pre_tasks R t ncs) x of
                  None \<Rightarrow> None
                | Some (ok1, x1) \<Rightarrow>
               (case opt_call post (transition_post_tasks R t ncs) x1 of
                  None \<Rightarrow> None
                | Some (ok2, x2) \<Rightarrow>
               (case opt_call (new_state \<noteq> current) (end_seqs_of R current) x2 of
                  None \<Rightarrow> None
                | Some (ok3, x3) \<Rightarrow>
               (case opt_call (start_seq \<and> cs_seqs ncs \<noteq> []) (\<lambda>x. Some (re_start_seqs R (unat new_state) t x)) x3 of
                  None \<Rightarrow> None
                | Some (ok4, (m4, w4)) \<Rightarrow>
                    let m5 = record_state new_state m4 in
                    Some (ok1 \<and> ok2 \<and> ok3 \<and> ok4, re_signal R (lookup_state_name m5 (cur_state m5)) (m5, w4))))))))"

definition handle_pending_cmd_aux ::
  "'c cmd_env \<Rightarrow> ('c, 'k, 'es, 'w) run_env \<Rightarrow> nano \<Rightarrow> bool \<Rightarrow> bool \<Rightarrow> bool \<Rightarrow> ('c, 'k, 'es, 'w) mstate \<Rightarrow>
   (bool \<times> ('c, 'k, 'es, 'w) mstate) option" where
  "handle_pending_cmd_aux C R t pre post start_seq x =
     (if t = nano_max then Some (False, x)
      else if pending_cmd (fst x) = noop_index C then Some (False, x)
      else
        (case state_at (fst x) (cur_state (fst x)) of
           None \<Rightarrow> Some (False, x)
         | Some cs \<Rightarrow>
             let i = unat (pending_cmd (fst x)) in
             if i \<ge> length (cs_cmds cs) then Some (False, x)
             else
               let ns = cs_cmds cs ! i in
               if ns = undefined_state \<or> ns = ignore_state \<or> unat ns \<ge> length (sm_states (fst x))
               then Some (False, x)
               else set_state C R ns (pending_cmd (fst x)) t pre post start_seq x))"

definition handle_pending_cmd ::
  "'c cmd_env \<Rightarrow> ('c, 'k, 'es, 'w) run_env \<Rightarrow> nano \<Rightarrow> bool \<Rightarrow> bool \<Rightarrow> bool \<Rightarrow> ('c, 'k, 'es, 'w) mstate \<Rightarrow>
   (bool \<times> ('c, 'k, 'es, 'w) mstate) option" where
  "handle_pending_cmd C R t pre post start_seq x =
     (if pending_cmd (fst x) = noop_index C then None
      else
        (case handle_pending_cmd_aux C R t pre post start_seq x of
           None \<Rightarrow> None
         | Some (ok, (m, w)) \<Rightarrow> Some (ok, (m\<lparr>pending_cmd := noop_index C, nominal_time := nano_max\<rparr>, w))))"

section \<open>Dispatch of the asynchronous machine\<close>

text \<open>The first line after the sequences of a state: their time is kept for telemetry.\<close>

definition run_seqs ::
  "('c, 'k, 'es, 'w) run_env \<Rightarrow> nano \<Rightarrow> ('c, 'k, 'es, 'w) mstate \<Rightarrow> nano \<times> ('c, 'k, 'es, 'w) mstate" where
  "run_seqs R t x =
     (let s = unat (cur_state (fst x)) in
      case re_dispatch_seqs R s t x of (wake, (m, w)) \<Rightarrow> (wake, (m\<lparr>seq_time := re_seq_time R s w\<rparr>, w)))"

definition async_transition ::
  "'c cmd_env \<Rightarrow> ('c, 'k, 'es, 'w) run_env \<Rightarrow> nano \<Rightarrow> nano \<Rightarrow> ('c, 'k, 'es, 'w) mstate \<Rightarrow>
   (nano \<times> ('c, 'k, 'es, 'w) mstate) option" where
  "async_transition C R t next_event x =
     (if nominal_time (fst x) \<le>s t then
        map_option (\<lambda>(_, x'). (nano_min, x')) (handle_pending_cmd C R (nominal_time (fst x)) True True True x)
      else Some (next_event, x))"

definition async_seqs ::
  "'c cmd_env \<Rightarrow> ('c, 'k, 'es, 'w) run_env \<Rightarrow> nano \<Rightarrow> 'es control_state \<Rightarrow> nano \<Rightarrow> ('c, 'k, 'es, 'w) mstate \<Rightarrow>
   (nano \<times> ('c, 'k, 'es, 'w) mstate) option" where
  "async_seqs C R t cs next_event x =
     (if cs_seqs cs = [] then Some (next_event, x)
      else
        (case run_seqs R t x of
           (wake, (m, w)) \<Rightarrow>
             if wake \<noteq> nano_max then Some (min_nano next_event wake, (m, w))
             else
               (case handle_cmd C t (timeout_cmd m) m of
                  None \<Rightarrow> None
                | Some (good, response, _, m') \<Rightarrow>
                    if good \<and> response = Cmd_accept \<and> pending_cmd m' \<noteq> noop_index C then Some (nano_min, (m', w))
                    else Some (min_nano next_event wake, (m', w)))))"

definition async_dispatch ::
  "'c cmd_env \<Rightarrow> ('c, 'k, 'es, 'w) run_env \<Rightarrow> nano \<Rightarrow> ('c, 'k, 'es, 'w) mstate \<Rightarrow>
   (nano \<times> ('c, 'k, 'es, 'w) mstate) option" where
  "async_dispatch C R t x =
     (case dispatch_pre_tasks R t x of
        None \<Rightarrow> None
      | Some (wake, x1) \<Rightarrow>
     (case async_transition C R t (min_nano nano_max wake) x1 of
        None \<Rightarrow> None
      | Some (next2, x2) \<Rightarrow>
     (case state_at (fst x2) (cur_state (fst x2)) of
        None \<Rightarrow> Some (next2, x2)
      | Some cs \<Rightarrow>
     (case async_seqs C R t cs next2 x2 of
        None \<Rightarrow> None
      | Some (next3, x3) \<Rightarrow>
     (case dispatch_post_tasks R t x3 of
        None \<Rightarrow> None
      | Some (wake4, x4) \<Rightarrow> Some (min_nano (min_nano next3 wake4) (nominal_time (fst x4)), x4))))))"

section \<open>Dispatch of the synchronous machine\<close>

text \<open>Up to the checks that no command is pending; the results say whether there was a transition and whether it was partial.\<close>

definition sync_begin ::
  "'c cmd_env \<Rightarrow> ('c, 'k, 'es, 'w) run_env \<Rightarrow> nano \<Rightarrow> ('c, 'k, 'es, 'w) mstate \<Rightarrow>
   (bool \<times> bool \<times> ('c, 'k, 'es, 'w) mstate) option" where
  "sync_begin C R t x =
     (case dispatch_pre_tasks R t x of
        None \<Rightarrow> None
      | Some (_, x1) \<Rightarrow>
          let partial_transition = (last_pending (fst x1) \<noteq> noop_index C) in
          if partial_transition \<and> last_pending (fst x1) \<noteq> pending_cmd (fst x1) then None
          else if pending_cmd (fst x1) = noop_index C then
            (if nominal_time (fst x1) = nano_max then Some (False, partial_transition, x1) else None)
          else map_option (\<lambda>(_, x2). (True, partial_transition, x2))
                 (handle_pending_cmd C R t (\<not> partial_transition) False (\<not> partial_transition) x1))"

definition sync_seqs ::
  "'c cmd_env \<Rightarrow> ('c, 'k, 'es, 'w) run_env \<Rightarrow> nano \<Rightarrow> 'es control_state \<Rightarrow> ('c, 'k, 'es, 'w) mstate \<Rightarrow>
   ('c, 'k, 'es, 'w) mstate option" where
  "sync_seqs C R t cs x =
     (if cs_seqs cs = [] then Some x
      else
        (case run_seqs R t x of
           (wake, (m, w)) \<Rightarrow>
             if wake \<noteq> nano_max then Some (m, w)
             else map_option (\<lambda>(_, _, _, m'). (m', w)) (handle_cmd C t (timeout_cmd m) m)))"

text \<open>The events at time zero of the next state, pulled into this cycle. \<open>Inl\<close> is the early return.\<close>

definition sync_pull ::
  "'c cmd_env \<Rightarrow> ('c, 'k, 'es, 'w) run_env \<Rightarrow> nano \<Rightarrow> 'es control_state \<Rightarrow> ('c, 'k, 'es, 'w) mstate \<Rightarrow>
   (('c, 'k, 'es, 'w) mstate + ('c, 'k, 'es, 'w) mstate) option" where
  "sync_pull C R t cs x =
     (if pending_cmd (fst x) = noop_index C then Some (Inr x)
      else
        let i = unat (pending_cmd (fst x)) in
        if i \<ge> length (cs_cmds cs) then Some (Inl x)
        else
          let ns = cs_cmds cs ! i in
          if unat ns \<ge> length (sm_states (fst x)) then Some (Inr x)
          else
            (case state_at (fst x) ns of
               None \<Rightarrow> Some (Inl x)
             | Some ncs \<Rightarrow>
                 (case transition_pre_tasks R t ncs x of
                    None \<Rightarrow> None
                  | Some (_, x1) \<Rightarrow>
                      (case re_start_seqs R (unat ns) t x1 of
                         (ok, x2) \<Rightarrow> Some (Inr (if ok then snd (re_dispatch_seqs R (unat ns) t x2) else x2))))))"

definition sync_dispatch ::
  "'c cmd_env \<Rightarrow> ('c, 'k, 'es, 'w) run_env \<Rightarrow> nano \<Rightarrow> ('c, 'k, 'es, 'w) mstate \<Rightarrow>
   (nano \<times> ('c, 'k, 'es, 'w) mstate) option" where
  "sync_dispatch C R t x =
     (case sync_begin C R t x of
        None \<Rightarrow> None
      | Some (moved, partial_transition, x1) \<Rightarrow>
     (case state_at (fst x1) (cur_state (fst x1)) of
        None \<Rightarrow> Some (nano_max, x1)
      | Some cs \<Rightarrow>
     (case opt_call (moved \<and> partial_transition) (transition_post_tasks R t cs) x1 of
        None \<Rightarrow> None
      | Some (_, x2) \<Rightarrow>
     (case sync_seqs C R t cs x2 of
        None \<Rightarrow> None
      | Some x3 \<Rightarrow>
     (case opt_call (moved \<and> \<not> partial_transition) (transition_post_tasks R t cs) x3 of
        None \<Rightarrow> None
      | Some (_, x4) \<Rightarrow>
     (case dispatch_post_tasks R t x4 of
        None \<Rightarrow> None
      | Some (_, x5) \<Rightarrow>
     (case sync_pull C R t cs x5 of
        None \<Rightarrow> None
      | Some (Inl x6) \<Rightarrow> Some (nano_max, x6)
      | Some (Inr (m, w)) \<Rightarrow> Some (nano_max, (m\<lparr>last_pending := pending_cmd m\<rparr>, w)))))))))"

text \<open>\<open>force_state\<close> of the settable machine.\<close>

definition force_state ::
  "'c cmd_env \<Rightarrow> ('c, 'k, 'es, 'w) run_env \<Rightarrow> nano \<Rightarrow> u32 \<Rightarrow> nano \<Rightarrow> ('c, 'k, 'es, 'w) mstate \<Rightarrow>
   (bool \<times> ('c, 'k, 'es, 'w) mstate) option" where
  "force_state C R t new_state cur_time x =
     (case x of (m, w) \<Rightarrow>
      let m1 = m\<lparr>pending_cmd := noop_index C, nominal_time := nano_max, last_pending := noop_index C\<rparr> in
      (case set_state C R new_state (noop_index C) (t - re_to_nano R cur_time) True True True (m1, w) of
         None \<Rightarrow> None
       | Some (False, x') \<Rightarrow> Some (False, x')
       | Some (True, (m', w')) \<Rightarrow> Some (True, (m'\<lparr>seq_time := cur_time\<rparr>, w'))))"

end
