(* ===== verification/Machine_Safety.thy ===== *)
theory Machine_Safety
  imports Machine_Run
begin

text \<open>
  The invariant of the state machines, that no operation fails an assertion where it holds, and
  that every operation keeps it.
\<close>

section \<open>What callbacks may do\<close>

inductive submits :: "'c cmd_env \<Rightarrow> ('c, 'k, 'es) machine \<Rightarrow> ('c, 'k, 'es) machine \<Rightarrow> bool" for C where
  submits_refl: "submits C m m"
| submits_cmd: "submits C m m' \<Longrightarrow> t \<noteq> nano_max \<Longrightarrow> handle_cmd C t c m' = Some (ok, r, at, m'') \<Longrightarrow> submits C m m''"

text \<open>
  Tasks, sequences and handlers of the signal reach the machine only by submitting commands, at
  real times.
\<close>

definition callbacks_ok :: "'c cmd_env \<Rightarrow> ('c, 'k, 'es, 'w) run_env \<Rightarrow> bool" where
  "callbacks_ok C R \<longleftrightarrow>
     (\<forall>k t a x. submits C (fst x) (fst (snd (re_start R k t a x)))) \<and>
     (\<forall>k t x. submits C (fst x) (fst (snd (re_stop R k t x)))) \<and>
     (\<forall>k t x. submits C (fst x) (fst (snd (re_cont R k t x)))) \<and>
     (\<forall>k t a x. submits C (fst x) (fst (snd (re_cmd R k t a x)))) \<and>
     (\<forall>k t x. submits C (fst x) (fst (snd (re_dispatch R k t x)))) \<and>
     (\<forall>s t x. submits C (fst x) (fst (snd (re_start_seqs R s t x)))) \<and>
     (\<forall>s x. submits C (fst x) (fst (snd (re_end_seqs R s x)))) \<and>
     (\<forall>s t x. submits C (fst x) (fst (snd (re_dispatch_seqs R s t x)))) \<and>
     (\<forall>n x. submits C (fst x) (fst (re_signal R n x)))"

lemma callbacksD:
  assumes "callbacks_ok C R"
  shows "re_start R k t a x = (b, y) \<Longrightarrow> submits C (fst x) (fst y)"
    and "re_stop R k t x = (b, y) \<Longrightarrow> submits C (fst x) (fst y)"
    and "re_cont R k t x = (b, y) \<Longrightarrow> submits C (fst x) (fst y)"
    and "re_cmd R k t a x = (b, y) \<Longrightarrow> submits C (fst x) (fst y)"
    and "re_dispatch R k t x = (n, y) \<Longrightarrow> submits C (fst x) (fst y)"
    and "re_start_seqs R s t x = (b, y) \<Longrightarrow> submits C (fst x) (fst y)"
    and "re_end_seqs R s x = (b, y) \<Longrightarrow> submits C (fst x) (fst y)"
    and "re_dispatch_seqs R s t x = (n, y) \<Longrightarrow> submits C (fst x) (fst y)"
    and "submits C (fst x) (fst (re_signal R name x))"
  using assms unfolding callbacks_ok_def by (metis snd_conv)+

text \<open>Command numbers: only the empty command has the number of no command.\<close>

definition cmds_ok :: "'c cmd_env \<Rightarrow> bool" where
  "cmds_ok C \<longleftrightarrow> (\<forall>c. cmd_index C c = noop_index C \<longrightarrow> cmd_noop C c)"

text \<open>A time at which \<^verbatim>\<open>Periodic::calculate_next_time\<close> gives the first period boundary after it.\<close>

definition time_ok :: "'c cmd_env \<Rightarrow> nano \<Rightarrow> nano \<Rightarrow> bool" where
  "time_ok C period t \<longleftrightarrow>
     t \<noteq> nano_max \<and> t - period <s next_time C t period - period \<and> next_time C t period - period \<le>s t"

section \<open>The effect of a command\<close>

text \<open>Command \<open>i\<close> leads to a state, from the current one.\<close>

definition leads :: "('c, 'k, 'es) machine \<Rightarrow> u32 \<Rightarrow> u32 \<Rightarrow> bool" where
  "leads m i ns \<longleftrightarrow>
     (\<exists>cs. state_at m (cur_state m) = Some cs \<and> unat i < length (cs_cmds cs) \<and> ns = cs_cmds cs ! unat i \<and>
        ns \<noteq> undefined_state \<and> ns \<noteq> ignore_state \<and> unat ns < length (sm_states m))"

definition set_pending :: "u32 \<Rightarrow> nano \<Rightarrow> ('c, 'k, 'es) machine \<Rightarrow> ('c, 'k, 'es) machine" where
  "set_pending i t m = m\<lparr>pending_cmd := i, nominal_time := t\<rparr>"

lemma set_pending_simps [simp]:
  "pending_cmd (set_pending i t m) = i" "nominal_time (set_pending i t m) = t"
  "cur_state (set_pending i t m) = cur_state m" "old_state (set_pending i t m) = old_state m"
  "last_pending (set_pending i t m) = last_pending m" "sm_states (set_pending i t m) = sm_states m"
  "sm_tasks (set_pending i t m) = sm_tasks m" "num_pre_tasks (set_pending i t m) = num_pre_tasks m"
  "sm_is_init (set_pending i t m) = sm_is_init m" "timeout_cmd (set_pending i t m) = timeout_cmd m"
  "state_sym (set_pending i t m) = state_sym m"
  "transition_period (set_pending i t m) = transition_period m" "state_at (set_pending i t m) s = state_at m s"
  by (simp_all add: set_pending_def state_at_def)

lemma sless_irrefl_max: "a \<le>s t \<Longrightarrow> t \<noteq> nano_max \<Longrightarrow> a \<noteq> nano_max"
  using nano_bounds(1) [of t] by (auto simp: word_sle_eq dest: signed_word_eqI)

lemma handle_cmd_effect:
  assumes "cmds_ok C" and "t \<noteq> nano_max" and "handle_cmd C t c m = Some (ok, r, at, m')"
  shows "m' = m \<or>
    (pending_cmd m = noop_index C \<and> (\<exists>i t' ns. i \<noteq> noop_index C \<and> t' \<noteq> nano_max \<and> leads m i ns \<and> m' = set_pending i t' m))"
proof (cases "m' = m")
  case False
  then obtain cs where cs: "pending_cmd m = noop_index C" "state_at m (cur_state m) = Some cs"
    "unat (cmd_index C c) < length (cs_cmds cs)" "cs_cmds cs ! unat (cmd_index C c) \<noteq> undefined_state"
    "cs_cmds cs ! unat (cmd_index C c) \<noteq> ignore_state" "\<not> cmd_noop C c"
    "unat (cs_cmds cs ! unat (cmd_index C c)) < length (sm_states m)"
    and set: "set_nominal_transition_time C t (m\<lparr>pending_cmd := cmd_index C c\<rparr>) = Some (ok, m')"
    using assms(3) by (auto simp: handle_cmd_def Let_def split: if_splits option.splits)
  have "cmd_index C c \<noteq> noop_index C" using cs(6) assms(1) by (auto simp: cmds_ok_def)
  moreover from set obtain t' where "m' = set_pending (cmd_index C c) t' m" "t' \<noteq> nano_max"
    using sless_irrefl_max [OF _ assms(2)]
    by (auto simp: set_nominal_transition_time_def set_pending_def Let_def split: if_splits)
  moreover have "leads m (cmd_index C c) (cs_cmds cs ! unat (cmd_index C c))"
    using cs by (auto simp: leads_def)
  ultimately show ?thesis using cs(1) by blast
qed simp

lemma submits_effect:
  assumes "cmds_ok C" and "submits C m m'"
  shows "m' = m \<or>
    (pending_cmd m = noop_index C \<and> (\<exists>i t' ns. i \<noteq> noop_index C \<and> t' \<noteq> nano_max \<and> leads m i ns \<and> m' = set_pending i t' m))"
  using assms(2)
proof induction
  case (submits_refl m)
  then show ?case by simp
next
  case (submits_cmd m m' t c ok r at m'')
  then show ?case using handle_cmd_effect [OF assms(1) submits_cmd.hyps(2,3)] by auto
qed

lemma submits_trans: "submits C b c \<Longrightarrow> submits C a b \<Longrightarrow> submits C a c"
  by (induction rule: submits.induct) (auto intro: submits.intros)

lemma some_bool [simp]: "\<exists>b. b" "\<exists>b. \<not> b"
  by blast+

lemma handle_cmd_returns:
  assumes "time_ok C (transition_period m) t"
  shows "\<exists>ok r m'. handle_cmd C t c m = Some (ok, r, nominal_time m, m') \<and> submits C m m'"
proof -
  have "t \<noteq> nano_max" using assms by (simp add: time_ok_def)
  moreover obtain ok m2 where "set_nominal_transition_time C t (m\<lparr>pending_cmd := cmd_index C c\<rparr>) = Some (ok, m2)"
    using assms by (auto simp: set_nominal_transition_time_def time_ok_def Let_def)
  then have "\<exists>ok r m'. handle_cmd C t c m = Some (ok, r, nominal_time m, m')"
    by (cases "state_at m (cur_state m)") (auto simp: handle_cmd_def Let_def)
  then obtain ok r m' where "handle_cmd C t c m = Some (ok, r, nominal_time m, m')" by blast
  ultimately show ?thesis using submits_cmd [OF submits_refl] by metis
qed

section \<open>The invariant\<close>

definition config_ok :: "'c cmd_env \<Rightarrow> ('c, 'k, 'es) machine \<Rightarrow> bool" where
  "config_ok C m \<longleftrightarrow> sm_is_init m \<and> num_pre_tasks m \<le> length (sm_tasks m) \<and>
     (\<forall>s\<in>set (sm_states m). \<exists>cs. s = Some cs \<and> length (cs_cmds cs) = table_size C \<and>
        length (cs_tasks cs) = length (sm_tasks m))"

definition machine_ok :: "'c cmd_env \<Rightarrow> ('c, 'k, 'es) machine \<Rightarrow> bool" where
  "machine_ok C m \<longleftrightarrow> config_ok C m \<and> unat (cur_state m) < length (sm_states m) \<and>
     (pending_cmd m = noop_index C \<longleftrightarrow> nominal_time m = nano_max) \<and>
     (pending_cmd m \<noteq> noop_index C \<longrightarrow> unat (pending_cmd m) < table_size C)"

definition sync_ok :: "'c cmd_env \<Rightarrow> ('c, 'k, 'es) machine \<Rightarrow> bool" where
  "sync_ok C m \<longleftrightarrow> machine_ok C m \<and> (last_pending m \<noteq> noop_index C \<longrightarrow> last_pending m = pending_cmd m)"

lemma state_at_ok:
  assumes "config_ok C m"
  shows "state_at m s = None \<longleftrightarrow> length (sm_states m) \<le> unat s"
    and "state_at m s = Some cs \<Longrightarrow> length (cs_cmds cs) = table_size C \<and> length (cs_tasks cs) = length (sm_tasks m)"
  using assms by (auto simp: state_at_def config_ok_def split: if_splits dest!: bspec [OF _ nth_mem])

lemma submits_keeps:
  assumes "cmds_ok C" and "submits C m m'"
  shows "machine_ok C m \<Longrightarrow> machine_ok C m'" and "sync_ok C m \<Longrightarrow> sync_ok C m'"
    and "last_pending m' = last_pending m" and "cur_state m' = cur_state m" and "old_state m' = old_state m"
    and "sm_states m' = sm_states m" and "sm_tasks m' = sm_tasks m" and "num_pre_tasks m' = num_pre_tasks m"
    and "transition_period m' = transition_period m" and "timeout_cmd m' = timeout_cmd m"
    and "config_ok C m' = config_ok C m" and "sm_is_init m' = sm_is_init m" and "state_at m' s = state_at m s"
    and "state_sym m' = state_sym m"
    and "pending_cmd m \<noteq> noop_index C \<Longrightarrow> m' = m"
proof -
  have bound: "unat i < table_size C" if "machine_ok C m" "leads m i ns" for i ns
    using that state_at_ok(2) [of C m] by (auto simp: leads_def machine_ok_def)
  show "machine_ok C m \<Longrightarrow> machine_ok C m'" "sync_ok C m \<Longrightarrow> sync_ok C m'"
    using submits_effect [OF assms] bound by (auto simp: machine_ok_def sync_ok_def config_ok_def)
  show "last_pending m' = last_pending m" "cur_state m' = cur_state m" "old_state m' = old_state m"
    "sm_states m' = sm_states m" "sm_tasks m' = sm_tasks m" "num_pre_tasks m' = num_pre_tasks m"
    "transition_period m' = transition_period m" "timeout_cmd m' = timeout_cmd m"
    "config_ok C m' = config_ok C m" "sm_is_init m' = sm_is_init m" "state_at m' s = state_at m s"
    "state_sym m' = state_sym m" "pending_cmd m \<noteq> noop_index C \<Longrightarrow> m' = m"
    using submits_effect [OF assms] by (auto simp: config_ok_def)
qed

section \<open>Operations return\<close>

text \<open>The outcome \<open>r\<close> of an operation on \<open>x\<close>: no assertion failed, and at most commands were submitted.\<close>

definition runs :: "'c cmd_env \<Rightarrow> ('c, 'k, 'es, 'w) mstate \<Rightarrow> ('r \<times> ('c, 'k, 'es, 'w) mstate) option \<Rightarrow> bool" where
  "runs C x r \<longleftrightarrow> (\<exists>v y. r = Some (v, y) \<and> submits C (fst x) (fst y))"

lemma runsI: "submits C (fst x) (fst y) \<Longrightarrow> runs C x (Some (v, y))"
  unfolding runs_def by blast

lemma runsE:
  assumes "runs C x r"
  obtains v y where "r = Some (v, y)" "submits C (fst x) (fst y)"
  using assms unfolding runs_def by blast

lemma runs_then: "submits C (fst x) (fst y) \<Longrightarrow> runs C y r \<Longrightarrow> runs C x r"
  unfolding runs_def using submits_trans by blast

lemma runs_skip: "runs C x (Some (v, x))"
  by (intro runsI submits_refl)

lemma runs_call:
  assumes "\<And>v y. f = (v, y) \<Longrightarrow> submits C (fst x) (fst y)"
  shows "runs C x (Some f)"
  using assms by (cases f) (auto intro: runsI)

lemma call_task_submits:
  assumes "callbacks_ok C R" and "call_task R t k ti x = (b, y)"
  shows "submits C (fst x) (fst y)"
  using assms(2)
  by (auto simp: call_task_def submits_refl dest: callbacksD(1-4) [OF assms(1)] split: cstate.splits)

lemma transition_task_runs:
  assumes "callbacks_ok C R" and "t \<noteq> nano_max"
  shows "runs C x (transition_task R t i cs x)"
  using assms(2) by (auto simp: transition_task_def Let_def intro: runs_skip runs_call call_task_submits [OF assms(1)])

lemma transition_tasks_runs:
  assumes "callbacks_ok C R" and "t \<noteq> nano_max"
  shows "runs C x (transition_tasks R t cs is good x)"
proof (induction "is" arbitrary: good x)
  case Nil
  then show ?case by (simp add: runs_skip)
next
  case (Cons i "is")
  from transition_task_runs [OF assms, of x i cs] show ?case
    by (rule runsE) (auto intro: runs_then Cons.IH)
qed

lemma pre_post_runs:
  assumes "callbacks_ok C R" and "t \<noteq> nano_max"
  shows "runs C x (transition_pre_tasks R t cs x)" and "runs C x (transition_post_tasks R t cs x)"
  unfolding transition_pre_tasks_def transition_post_tasks_def
  by (rule transition_tasks_runs [OF assms])+

lemma dispatch_tasks_runs:
  assumes "callbacks_ok C R" and "cmds_ok C"
  shows "\<forall>i\<in>set is. i < length (sm_tasks (fst x)) \<Longrightarrow> runs C x (dispatch_tasks R t is next_event x)"
proof (induction "is" arbitrary: next_event x)
  case Nil
  then show ?case by (simp add: runs_skip)
next
  case (Cons i "is")
  show ?case
  proof (cases "re_active R (sm_tasks (fst x) ! i) (snd x)")
    case False
    then show ?thesis using Cons by simp
  next
    case True
    obtain wake1 y1 where one: "re_dispatch R (sm_tasks (fst x) ! i) t x = (wake1, y1)" by (rule prod.exhaust)
    then have sub: "submits C (fst x) (fst y1)" by (rule callbacksD(5) [OF assms(1)])
    have "runs C y1 (dispatch_tasks R t is (min_nano next_event wake1) y1)"
      using Cons.prems by (intro Cons.IH) (simp add: submits_keeps(7) [OF assms(2) sub])
    then show ?thesis using True one Cons.prems runs_then [OF sub] by simp
  qed
qed

lemma dispatch_pre_post_runs:
  assumes "callbacks_ok C R" and "cmds_ok C" and "config_ok C (fst x)"
  shows "runs C x (dispatch_pre_tasks R t x)" and "runs C x (dispatch_post_tasks R t x)"
  unfolding dispatch_pre_tasks_def dispatch_post_tasks_def
  by (rule dispatch_tasks_runs [OF assms(1,2)]; use assms(3) in \<open>auto simp: config_ok_def\<close>)+

lemma opt_call_runs: "(b \<Longrightarrow> runs C x (f x)) \<Longrightarrow> runs C x (opt_call b f x)"
  by (simp add: opt_call_def runs_skip)

text \<open>
  \<open>set_state\<close> either gives up at once or reaches the point where the new state is recorded.
\<close>

lemma set_state_cases:
  assumes "callbacks_ok C R" and "cmds_ok C" and "t \<noteq> nano_max"
    and "config_ok C (fst x)" and "unat (cur_state (fst x)) < length (sm_states (fst x))"
  obtains (refused) "set_state C R new_state cmd t pre post start x = Some (False, x)"
      "length (sm_states (fst x)) \<le> unat new_state \<or> re_verbose R \<and> lookup_cmd_index C cmd = None"
    | (recorded) ok m1 y where "set_state C R new_state cmd t pre post start x = Some (ok, y)"
      "unat new_state < length (sm_states (fst x))" "submits C (fst x) m1" "submits C (record_state new_state m1) (fst y)"
proof (cases "length (sm_states (fst x)) \<le> unat new_state \<or> re_verbose R \<and> lookup_cmd_index C cmd = None")
  case True
  have "set_state C R new_state cmd t pre post start x = Some (False, x)"
    using True assms(3,4) state_at_ok(1) [OF assms(4), of new_state]
    by (auto simp: set_state_def config_ok_def Let_def)
  then show thesis using refused True by blast
next
  case False
  then obtain ncs where ncs: "state_at (fst x) new_state = Some ncs"
    using state_at_ok(1) [OF assms(4), of new_state] by fastforce
  have "runs C x (opt_call pre (transition_pre_tasks R t ncs) x)"
    by (intro opt_call_runs pre_post_runs assms)
  then obtain ok1 x1 where 1: "opt_call pre (transition_pre_tasks R t ncs) x = Some (ok1, x1)" "submits C (fst x) (fst x1)"
    by (rule runsE)
  have "runs C x1 (opt_call post (transition_post_tasks R t ncs) x1)"
    by (intro opt_call_runs pre_post_runs assms)
  then obtain ok2 x2 where 2: "opt_call post (transition_post_tasks R t ncs) x1 = Some (ok2, x2)" "submits C (fst x1) (fst x2)"
    by (rule runsE)
  have sub2: "submits C (fst x) (fst x2)" using submits_trans [OF 2(2) 1(2)] .
  have "state_at (fst x2) (cur_state (fst x)) \<noteq> None"
    using submits_keeps(13) [OF assms(2) sub2] state_at_ok(1) [OF assms(4)] assms(5) by simp
  then have "runs C x2 (opt_call (new_state \<noteq> cur_state (fst x)) (end_seqs_of R (cur_state (fst x))) x2)"
    by (auto simp: end_seqs_of_def intro!: opt_call_runs runs_call callbacksD(7) [OF assms(1)])
  then obtain ok3 x3 where 3: "opt_call (new_state \<noteq> cur_state (fst x)) (end_seqs_of R (cur_state (fst x))) x2 = Some (ok3, x3)"
    "submits C (fst x2) (fst x3)"
    by (rule runsE)
  have "runs C x3 (opt_call (start \<and> cs_seqs ncs \<noteq> []) (\<lambda>x. Some (re_start_seqs R (unat new_state) t x)) x3)"
    by (auto intro!: opt_call_runs runs_call callbacksD(6) [OF assms(1)])
  then obtain ok4 x4 where 4: "opt_call (start \<and> cs_seqs ncs \<noteq> []) (\<lambda>x. Some (re_start_seqs R (unat new_state) t x)) x3 = Some (ok4, x4)"
    "submits C (fst x3) (fst x4)"
    by (rule runsE)
  have sub4: "submits C (fst x) (fst x4)" using submits_trans [OF 4(2)] submits_trans [OF 3(2) sub2] by blast
  let ?m5 = "record_state new_state (fst x4)"
  let ?y = "re_signal R (lookup_state_name ?m5 (cur_state ?m5)) (?m5, snd x4)"
  have init: "sm_is_init (fst x)" using assms(4) by (simp add: config_ok_def)
  have run: "set_state C R new_state cmd t pre post start x = Some (ok1 \<and> ok2 \<and> ok3 \<and> ok4, ?y)"
    using False ncs 1(1) 2(1) 3(1) 4(1) assms(3) init by (cases x4) (auto simp: set_state_def Let_def)
  have "submits C ?m5 (fst ?y)" using callbacksD(9) [OF assms(1), of "(?m5, snd x4)"] by simp
  then show thesis using recorded [OF run _ sub4] False by simp
qed

lemma record_state_simps [simp]:
  "config_ok C (record_state s m) = config_ok C m" "cur_state (record_state s m) = s"
  "old_state (record_state s m) = cur_state m" "sm_states (record_state s m) = sm_states m"
  "sm_tasks (record_state s m) = sm_tasks m" "num_pre_tasks (record_state s m) = num_pre_tasks m" "last_pending (record_state s m) = last_pending m"
  "pending_cmd (record_state s m) = pending_cmd m" "nominal_time (record_state s m) = nominal_time m"
  "transition_period (record_state s m) = transition_period m" "timeout_cmd (record_state s m) = timeout_cmd m"
  by (simp_all add: record_state_def config_ok_def)

text \<open>What a change of state and the clearing of the pending command keep.\<close>

definition same_machine :: "('c, 'k, 'es) machine \<Rightarrow> ('c, 'k, 'es) machine \<Rightarrow> bool" where
  "same_machine m m' \<longleftrightarrow> sm_states m' = sm_states m \<and> sm_tasks m' = sm_tasks m \<and>
     num_pre_tasks m' = num_pre_tasks m \<and> transition_period m' = transition_period m \<and> timeout_cmd m' = timeout_cmd m \<and> last_pending m' = last_pending m"

lemma same_machine_refl: "same_machine m m"
  by (simp add: same_machine_def)

lemma same_machine_trans: "same_machine a b \<Longrightarrow> same_machine b c \<Longrightarrow> same_machine a c"
  by (simp add: same_machine_def)

lemma submits_same: "cmds_ok C \<Longrightarrow> submits C m m' \<Longrightarrow> same_machine m m'"
  by (simp add: same_machine_def submits_keeps)

definition idle :: "'c cmd_env \<Rightarrow> ('c, 'k, 'es) machine \<Rightarrow> bool" where
  "idle C m \<longleftrightarrow> machine_ok C m \<and> pending_cmd m = noop_index C \<and> nominal_time m = nano_max"

lemma idle_cleared:
  assumes "config_ok C m" and "unat (cur_state m) < length (sm_states m)"
  shows "idle C (m\<lparr>pending_cmd := noop_index C, nominal_time := nano_max\<rparr>)"
  using assms by (simp add: idle_def machine_ok_def config_ok_def)

lemma handle_pending_runs:
  assumes "callbacks_ok C R" and "cmds_ok C" and "t \<noteq> nano_max"
    and "machine_ok C (fst x)" and "pending_cmd (fst x) \<noteq> noop_index C"
  shows "\<exists>ok y. handle_pending_cmd C R t pre post start x = Some (ok, y) \<and> idle C (fst y) \<and> same_machine (fst x) (fst y) \<and>
    (\<forall>ns. leads (fst x) (pending_cmd (fst x)) ns \<and> \<not> (re_verbose R \<and> lookup_cmd_index C (pending_cmd (fst x)) = None) \<longrightarrow>
       cur_state (fst y) = ns \<and> old_state (fst y) = cur_state (fst x))"
proof -
  have cfg: "config_ok C (fst x)" "unat (cur_state (fst x)) < length (sm_states (fst x))"
    using assms(4) by (simp_all add: machine_ok_def)
  obtain m w where x: "x = (m, w)" by (rule prod.exhaust)
  let ?clear = "\<lambda>m. m\<lparr>pending_cmd := noop_index C, nominal_time := nano_max\<rparr>"
  obtain cs where cs: "state_at m (cur_state m) = Some cs" using cfg state_at_ok(1) [OF cfg(1)] x by fastforce
  show ?thesis
  proof (cases "\<exists>ns. leads m (pending_cmd m) ns")
    case False
    then have "handle_pending_cmd_aux C R t pre post start x = Some (False, x)"
      using cs assms(3,5) x by (auto simp: handle_pending_cmd_aux_def leads_def Let_def)
    then show ?thesis
      using False assms(5) idle_cleared [OF cfg] x by (simp add: handle_pending_cmd_def same_machine_def)
  next
    case True
    then obtain ns where ns: "leads m (pending_cmd m) ns" by blast
    then have bound: "unat ns < length (sm_states m)" and only: "\<And>ns'. leads m (pending_cmd m) ns' \<Longrightarrow> ns' = ns"
      by (auto simp: leads_def)
    have aux: "handle_pending_cmd_aux C R t pre post start x = set_state C R ns (pending_cmd m) t pre post start x"
      using ns cs assms(3,5) x by (auto simp: handle_pending_cmd_aux_def leads_def Let_def)
    show ?thesis
    proof (cases rule: set_state_cases [OF assms(1,2,3) cfg, of ns "pending_cmd m" pre post start])
      case refused: 1
      then show ?thesis
        using aux bound assms(5) idle_cleared [OF cfg] x by (simp add: handle_pending_cmd_def same_machine_def)
    next
      case recorded: (2 ok m1 y)
      obtain m2 w2 where y: "y = (m2, w2)" by (rule prod.exhaust)
      note k1 = submits_keeps [OF assms(2) recorded(3)] and k2 = submits_keeps [OF assms(2) recorded(4)]
      have "config_ok C m2" "unat (cur_state m2) < length (sm_states m2)" "same_machine m m2"
        "cur_state m2 = ns" "old_state m2 = cur_state m"
        using k1 k2 cfg bound x y by (simp_all add: same_machine_def)
      then show ?thesis
        using aux recorded(1) assms(5) idle_cleared [of C m2] only x y
        by (auto simp: handle_pending_cmd_def same_machine_def)
    qed
  qed
qed

text \<open>What the parts of a cycle keep when they do not change the state.\<close>

definition kept :: "'c cmd_env \<Rightarrow> ('c, 'k, 'es) machine \<Rightarrow> ('c, 'k, 'es) machine \<Rightarrow> bool" where
  "kept C m m' \<longleftrightarrow> (machine_ok C m \<longrightarrow> machine_ok C m') \<and> same_machine m m' \<and>
     cur_state m' = cur_state m \<and> old_state m' = old_state m"

lemma kept_trans: "kept C a b \<Longrightarrow> kept C b c \<Longrightarrow> kept C a c"
  by (auto simp: kept_def same_machine_def)

lemma kept_refl: "kept C m m"
  by (simp add: kept_def same_machine_def)

lemma submits_kept: "cmds_ok C \<Longrightarrow> submits C m m' \<Longrightarrow> kept C m m'"
  by (simp add: kept_def submits_same submits_keeps)

lemma runs_kept:
  assumes "cmds_ok C" and "runs C x r"
  shows "\<exists>v y. r = Some (v, y) \<and> kept C (fst x) (fst y)"
  using assms(2) submits_kept [OF assms(1)] unfolding runs_def by blast

lemma post_call_kept:
  assumes "callbacks_ok C R" and "cmds_ok C" and "t \<noteq> nano_max"
  shows "\<exists>v y. opt_call b (transition_post_tasks R t cs) x = Some (v, y) \<and> kept C (fst x) (fst y)"
proof (rule runs_kept [OF assms(2)])
  show "runs C x (opt_call b (transition_post_tasks R t cs) x)"
    by (intro opt_call_runs pre_post_runs(2) [OF assms(1,3)])
qed

lemma handle_cmd_kept:
  assumes "cmds_ok C" and "time_ok C (transition_period m) t"
  shows "\<exists>ok r m'. handle_cmd C t c m = Some (ok, r, nominal_time m, m') \<and> kept C m m'"
  using handle_cmd_returns [OF assms(2)] submits_kept [OF assms(1)] by blast

lemma kept_seq_time: "kept C m m' \<Longrightarrow> kept C m (m'\<lparr>seq_time := v\<rparr>)"
proof -
  have "machine_ok C (m'\<lparr>seq_time := v\<rparr>) = machine_ok C m'" by (simp add: machine_ok_def config_ok_def)
  then show "kept C m m' \<Longrightarrow> kept C m (m'\<lparr>seq_time := v\<rparr>)" by (simp add: kept_def same_machine_def)
qed

lemma run_seqs_kept:
  assumes "callbacks_ok C R" and "cmds_ok C" and "run_seqs R t x = (wake, y)"
  shows "kept C (fst x) (fst y)"
proof -
  obtain m w where call: "re_dispatch_seqs R (unat (cur_state (fst x))) t x = (wake, (m, w))"
    and y: "y = (m\<lparr>seq_time := re_seq_time R (unat (cur_state (fst x))) w\<rparr>, w)"
    using assms(3) by (auto simp: run_seqs_def Let_def split: prod.splits)
  have "kept C (fst x) m" using submits_kept [OF assms(2) callbacksD(8) [OF assms(1) call]] by simp
  then show ?thesis by (simp add: y kept_seq_time)
qed

lemma sync_seqs_kept:
  assumes "callbacks_ok C R" and "cmds_ok C" and "time_ok C (transition_period (fst x)) t"
  shows "\<exists>y. sync_seqs C R t cs x = Some y \<and> kept C (fst x) (fst y)"
proof (cases "cs_seqs cs = []")
  case True
  then have "sync_seqs C R t cs x = Some x" by (simp add: sync_seqs_def)
  then show ?thesis using kept_refl by blast
next
  case False
  obtain wake m w where call: "run_seqs R t x = (wake, (m, w))" by (metis prod.exhaust)
  have k: "kept C (fst x) m" using run_seqs_kept [OF assms(1,2) call] by simp
  then have "time_ok C (transition_period m) t" using assms(3) by (simp add: kept_def same_machine_def)
  then obtain ok r m' where "handle_cmd C t (timeout_cmd m) m = Some (ok, r, nominal_time m, m')" "kept C m m'"
    using handle_cmd_kept [OF assms(2)] by blast
  then show ?thesis using False call k kept_trans [OF k] by (auto simp: sync_seqs_def)
qed

lemma sync_pull_kept:
  assumes "callbacks_ok C R" and "cmds_ok C" and "t \<noteq> nano_max" and "machine_ok C (fst x)"
    and "length (cs_cmds cs) = table_size C"
  shows "\<exists>y. sync_pull C R t cs x = Some (Inr y) \<and> kept C (fst x) (fst y)"
proof (cases "pending_cmd (fst x) = noop_index C \<or> length (sm_states (fst x)) \<le> unat (cs_cmds cs ! unat (pending_cmd (fst x)))")
  case True
  then have "sync_pull C R t cs x = Some (Inr x)"
    using assms(4,5) by (auto simp: sync_pull_def Let_def machine_ok_def)
  then show ?thesis using kept_refl by blast
next
  case False
  let ?ns = "cs_cmds cs ! unat (pending_cmd (fst x))"
  have cfg: "config_ok C (fst x)" using assms(4) by (simp add: machine_ok_def)
  obtain ncs where ncs: "state_at (fst x) ?ns = Some ncs"
    using False state_at_ok(1) [OF cfg, of ?ns] by fastforce
  obtain ok1 x1 where 1: "transition_pre_tasks R t ncs x = Some (ok1, x1)" "submits C (fst x) (fst x1)"
    using pre_post_runs(1) [OF assms(1,3)] by (rule runsE)
  obtain ok2 x2 where 2: "re_start_seqs R (unat ?ns) t x1 = (ok2, x2)" by (rule prod.exhaust)
  obtain n3 x3 where 3: "re_dispatch_seqs R (unat ?ns) t x2 = (n3, x3)" by (rule prod.exhaust)
  have "submits C (fst x) (fst x2)" using submits_trans [OF callbacksD(6) [OF assms(1) 2] 1(2)] .
  moreover from this have "submits C (fst x) (fst x3)" using submits_trans callbacksD(8) [OF assms(1) 3] by blast
  ultimately have "kept C (fst x) (fst (if ok2 then x3 else x2))" by (cases ok2) (simp_all add: submits_kept [OF assms(2)])
  moreover have "sync_pull C R t cs x = Some (Inr (if ok2 then x3 else x2))"
    using False ncs 1(1) 2 3 assms(4,5) by (auto simp: sync_pull_def Let_def machine_ok_def)
  ultimately show ?thesis by blast
qed

text \<open>The state that the pending command of \<open>m\<close> leads to is entered.\<close>

definition enters :: "'c cmd_env \<Rightarrow> ('c, 'k, 'es, 'w) run_env \<Rightarrow> ('c, 'k, 'es) machine \<Rightarrow> ('c, 'k, 'es) machine \<Rightarrow> bool" where
  "enters C R m m' \<longleftrightarrow>
     (\<forall>ns. pending_cmd m \<noteq> noop_index C \<and> leads m (pending_cmd m) ns \<and>
        \<not> (re_verbose R \<and> lookup_cmd_index C (pending_cmd m) = None) \<longrightarrow>
      cur_state m' = ns \<and> old_state m' = cur_state m)"

lemma sync_begin_runs:
  assumes "callbacks_ok C R" and "cmds_ok C" and "t \<noteq> nano_max" and "sync_ok C (fst x)"
  shows "\<exists>moved part y. sync_begin C R t x = Some (moved, part, y) \<and> idle C (fst y) \<and>
    same_machine (fst x) (fst y) \<and> enters C R (fst x) (fst y)"
proof -
  have cfg: "config_ok C (fst x)" using assms(4) by (simp add: sync_ok_def machine_ok_def)
  obtain wake x1 where 1: "dispatch_pre_tasks R t x = Some (wake, x1)" "submits C (fst x) (fst x1)"
    using dispatch_pre_post_runs(1) [OF assms(1,2) cfg] by (rule runsE)
  note k = submits_keeps [OF assms(2) 1(2)]
  have ok1: "sync_ok C (fst x1)" by (rule k(2) [OF assms(4)])
  have same: "same_machine (fst x) (fst x1)" by (rule submits_same [OF assms(2) 1(2)])
  have last: "last_pending (fst x1) \<noteq> noop_index C \<longrightarrow> last_pending (fst x1) = pending_cmd (fst x1)"
    and mok: "machine_ok C (fst x1)"
    using ok1 by (simp_all add: sync_ok_def)
  show ?thesis
  proof (cases "pending_cmd (fst x1) = noop_index C")
    case True
    then have "pending_cmd (fst x) = noop_index C" using k(15) by metis
    then have "enters C R (fst x) (fst x1)" by (simp add: enters_def)
    moreover have "idle C (fst x1)" using True mok by (simp add: idle_def machine_ok_def)
    moreover have "sync_begin C R t x = Some (False, False, x1)"
      using True mok 1(1) last by (auto simp: sync_begin_def Let_def machine_ok_def)
    ultimately show ?thesis using same by blast
  next
    case False
    define part where "part \<longleftrightarrow> last_pending (fst x1) \<noteq> noop_index C"
    obtain ok y where y: "handle_pending_cmd C R t (\<not> part) False (\<not> part) x1 = Some (ok, y)"
      "idle C (fst y)" "same_machine (fst x1) (fst y)"
      "\<forall>ns. leads (fst x1) (pending_cmd (fst x1)) ns \<and> \<not> (re_verbose R \<and> lookup_cmd_index C (pending_cmd (fst x1)) = None) \<longrightarrow>
         cur_state (fst y) = ns \<and> old_state (fst y) = cur_state (fst x1)"
      using handle_pending_runs [OF assms(1,2,3) mok False] by blast
    have run: "sync_begin C R t x = Some (True, part, y)"
      using False 1(1) last y(1) by (auto simp: sync_begin_def Let_def part_def [symmetric])
    have "enters C R (fst x) (fst y)" using k(15) y(4) unfolding enters_def by metis
    then show ?thesis using run y(2) same_machine_trans [OF same y(3)] by blast
  qed
qed

lemma sync_dispatch_runs:
  assumes "callbacks_ok C R" and "cmds_ok C" and "time_ok C (transition_period (fst x)) t" and "sync_ok C (fst x)"
  shows "\<exists>y. sync_dispatch C R t x = Some (nano_max, y) \<and> sync_ok C (fst y) \<and>
    last_pending (fst y) = pending_cmd (fst y) \<and> transition_period (fst y) = transition_period (fst x) \<and>
    enters C R (fst x) (fst y)"
proof -
  have t: "t \<noteq> nano_max" using assms(3) by (simp add: time_ok_def)
  obtain moved part x1 where 1: "sync_begin C R t x = Some (moved, part, x1)" "idle C (fst x1)"
    "same_machine (fst x) (fst x1)" "enters C R (fst x) (fst x1)"
    using sync_begin_runs [OF assms(1,2) t assms(4)] by blast
  have ok1: "machine_ok C (fst x1)" using 1(2) by (simp add: idle_def)
  then obtain cs where cs: "state_at (fst x1) (cur_state (fst x1)) = Some cs" "length (cs_cmds cs) = table_size C"
    using state_at_ok [of C "fst x1"] by (metis machine_ok_def not_le not_None_eq)
  obtain ok2 x2 where 2: "opt_call (moved \<and> part) (transition_post_tasks R t cs) x1 = Some (ok2, x2)" "kept C (fst x1) (fst x2)"
    using post_call_kept [OF assms(1,2) t] by blast
  have "transition_period (fst x2) = transition_period (fst x)"
    using 1(3) 2(2) by (simp add: kept_def same_machine_def)
  then obtain x3 where 3: "sync_seqs C R t cs x2 = Some x3" "kept C (fst x2) (fst x3)"
    using sync_seqs_kept [OF assms(1,2), of x2 t cs] assms(3) by metis
  obtain ok4 x4 where 4: "opt_call (moved \<and> \<not> part) (transition_post_tasks R t cs) x3 = Some (ok4, x4)" "kept C (fst x3) (fst x4)"
    using post_call_kept [OF assms(1,2) t] by blast
  have k4: "kept C (fst x1) (fst x4)" using kept_trans [OF kept_trans [OF 2(2) 3(2)] 4(2)] .
  have "config_ok C (fst x4)" using k4 ok1 by (simp add: kept_def machine_ok_def)
  then obtain wake x5 where 5: "dispatch_post_tasks R t x4 = Some (wake, x5)" "kept C (fst x4) (fst x5)"
    using runs_kept [OF assms(2) dispatch_pre_post_runs(2) [OF assms(1,2)]] by blast
  have k5: "kept C (fst x1) (fst x5)" using kept_trans [OF k4 5(2)] .
  then have ok5: "machine_ok C (fst x5)" using ok1 by (simp add: kept_def)
  obtain m w where 6: "sync_pull C R t cs x5 = Some (Inr (m, w))" "kept C (fst x5) m"
    using sync_pull_kept [OF assms(1,2) t ok5 cs(2)] by (metis fst_conv surj_pair)
  have k6: "kept C (fst x1) m" using kept_trans [OF k5 6(2)] .
  have run: "sync_dispatch C R t x = Some (nano_max, (m\<lparr>last_pending := pending_cmd m\<rparr>, w))"
    using 1(1) cs(1) 2(1) 3(1) 4(1) 5(1) 6(1) by (simp add: sync_dispatch_def)
  have "machine_ok C m" using k6 ok1 by (simp add: kept_def)
  then have "sync_ok C (m\<lparr>last_pending := pending_cmd m\<rparr>)"
    by (simp add: sync_ok_def machine_ok_def config_ok_def)
  moreover have "enters C R (fst x) m" using 1(4) k6 unfolding enters_def kept_def by metis
  moreover have "transition_period m = transition_period (fst x)" using k6 1(3) by (simp add: kept_def same_machine_def)
  ultimately show ?thesis using run by (auto simp: enters_def)
qed

lemma force_state_runs:
  assumes "callbacks_ok C R" and "cmds_ok C" and "t - re_to_nano R time \<noteq> nano_max" and "sync_ok C (fst x)"
  shows "\<exists>ok y. force_state C R t s time x = Some (ok, y) \<and> sync_ok C (fst y) \<and>
    transition_period (fst y) = transition_period (fst x) \<and>
    (unat s < length (sm_states (fst x)) \<and> \<not> (re_verbose R \<and> lookup_cmd_index C (noop_index C) = None) \<longrightarrow>
       cur_state (fst y) = s \<and> old_state (fst y) = cur_state (fst x)) \<and>
    (ok \<longrightarrow> cur_state (fst y) = s \<and> seq_time (fst y) = time)"
proof -
  obtain m w where x: "x = (m, w)" by (rule prod.exhaust)
  let ?m1 = "m\<lparr>pending_cmd := noop_index C, nominal_time := nano_max, last_pending := noop_index C\<rparr>"
  have ok1: "sync_ok C ?m1" "config_ok C ?m1" "unat (cur_state ?m1) < length (sm_states ?m1)"
    using assms(4) by (simp_all add: x sync_ok_def machine_ok_def config_ok_def)
  show ?thesis
  proof (cases rule: set_state_cases [OF assms(1,2,3), of "(?m1, w)" s "noop_index C" True True True])
    case 1
    then show ?case using ok1(2) by simp
  next
    case 2
    then show ?case using ok1(3) by simp
  next
    case refused: 3
    then have "force_state C R t s time x = Some (False, (?m1, w))" by (simp add: force_state_def x)
    moreover have "\<not> (unat s < length (sm_states (fst x)) \<and> \<not> (re_verbose R \<and> lookup_cmd_index C (noop_index C) = None))"
      using refused(2) x by auto
    ultimately show ?thesis using ok1(1) x by (intro exI conjI) auto
  next
    case recorded: (4 ok m1 y)
    obtain m2 w2 where y: "y = (m2, w2)" by (rule prod.exhaust)
    have "sync_ok C m1" using submits_keeps(2) [OF assms(2) recorded(3)] ok1(1) by simp
    then have "sync_ok C (record_state s m1)"
      using recorded(2) submits_keeps(6) [OF assms(2) recorded(3)] by (simp add: sync_ok_def machine_ok_def)
    then have ok2: "sync_ok C m2" using submits_keeps(2) [OF assms(2) recorded(4)] y by simp
    then have ok3: "sync_ok C (m2\<lparr>seq_time := time\<rparr>)" by (simp add: sync_ok_def machine_ok_def config_ok_def)
    have "cur_state m2 = s" "old_state m2 = cur_state m" "transition_period m2 = transition_period m"
      using submits_keeps [OF assms(2) recorded(3)] submits_keeps [OF assms(2) recorded(4)] y by simp_all
    then show ?thesis using recorded(1) ok2 ok3 x y by (cases ok) (auto simp: force_state_def intro: exI [of _ False])
  qed
qed

section \<open>Runs of a synchronous machine\<close>

text \<open>What reaches a machine from outside: a cycle, a command between cycles, and a forced state.\<close>

datatype 'c sync_event = Cycle nano | Submit nano 'c | Force nano u32 nano

definition sync_step ::
  "'c cmd_env \<Rightarrow> ('c, 'k, 'es, 'w) run_env \<Rightarrow> 'c sync_event \<Rightarrow> ('c, 'k, 'es, 'w) mstate \<Rightarrow>
   ('c, 'k, 'es, 'w) mstate option" where
  "sync_step C R ev x =
     (case ev of
        Cycle t \<Rightarrow> map_option snd (sync_dispatch C R t x)
      | Submit t c \<Rightarrow> map_option (\<lambda>(_, _, _, m). (m, snd x)) (handle_cmd C t c (fst x))
      | Force t s time \<Rightarrow> map_option snd (force_state C R t s time x))"

fun sync_run ::
  "'c cmd_env \<Rightarrow> ('c, 'k, 'es, 'w) run_env \<Rightarrow> 'c sync_event list \<Rightarrow> ('c, 'k, 'es, 'w) mstate \<Rightarrow>
   ('c, 'k, 'es, 'w) mstate option" where
  "sync_run C R [] x = Some x"
| "sync_run C R (ev # evs) x = (case sync_step C R ev x of None \<Rightarrow> None | Some y \<Rightarrow> sync_run C R evs y)"

fun event_ok :: "'c cmd_env \<Rightarrow> ('c, 'k, 'es, 'w) run_env \<Rightarrow> nano \<Rightarrow> 'c sync_event \<Rightarrow> bool" where
  "event_ok C R period (Cycle t) \<longleftrightarrow> time_ok C period t"
| "event_ok C R period (Submit t c) \<longleftrightarrow> time_ok C period t"
| "event_ok C R period (Force t s time) \<longleftrightarrow> t - re_to_nano R time \<noteq> nano_max"

text \<open>
  The clock. \<^verbatim>\<open>Periodic::calculate_next_time\<close> is not in the repository; what its name promises is the
  first multiple of the period after the given time, as long as that is below \<^verbatim>\<open>nano_t_max\<close>. For
  times that are not negative and leave room for one period the assertions on the nominal
  transition time then hold.
\<close>

definition time_in_range :: "nano \<Rightarrow> nano \<Rightarrow> bool" where
  "time_in_range period t \<longleftrightarrow> 0 \<le> sint t \<and> 0 < sint period \<and> sint t + sint period < sint nano_max"

definition next_time_law :: "'c cmd_env \<Rightarrow> bool" where
  "next_time_law C \<longleftrightarrow>
     (\<forall>t p. time_in_range p t \<longrightarrow> sint (next_time C t p) = (sint t div sint p + 1) * sint p)"

lemma sint_nano_diff:
  "- (2 ^ 63) \<le> sint a - sint b \<Longrightarrow> sint a - sint b < 2 ^ 63 \<Longrightarrow> sint (a - b) = sint a - sint (b :: nano)"
  by (simp add: sint_word_ariths(2) signed_take_bit_int_eq_self)

lemma sint_nano_max: "sint nano_max = 2 ^ 63 - 1"
  by (simp add: nano_max_def)

lemma time_in_range_ok:
  assumes "next_time_law C" and "time_in_range p t"
  shows "time_ok C p t"
proof -
  let ?n = "next_time C t p"
  have t: "0 \<le> sint t" "0 < sint p" "sint t + sint p < 2 ^ 63 - 1"
    using assms(2) by (simp_all add: time_in_range_def sint_nano_max)
  have n: "sint ?n = (sint t div sint p + 1) * sint p"
    using assms unfolding next_time_law_def by blast
  then have n': "sint ?n = sint t - sint t mod sint p + sint p"
    by (simp add: distrib_right minus_mod_eq_div_mult)
  have m: "0 \<le> sint t mod sint p" "sint t mod sint p < sint p" using t(2) by simp_all
  have "sint (?n - p) = sint ?n - sint p" by (rule sint_nano_diff) (use t n' m in linarith)+
  moreover have "sint (t - p) = sint t - sint p" by (rule sint_nano_diff) (use t in linarith)+
  moreover have "t \<noteq> nano_max" using t sint_nano_max by auto
  ultimately show ?thesis
    using n' m
    by (simp add: time_ok_def word_sless_alt word_sle_eq)
qed

text \<open>Events at times in range; a forced state is entered with a time in it that is not negative.\<close>

fun event_in_range :: "('c, 'k, 'es, 'w) run_env \<Rightarrow> nano \<Rightarrow> 'c sync_event \<Rightarrow> bool" where
  "event_in_range R period (Cycle t) \<longleftrightarrow> time_in_range period t"
| "event_in_range R period (Submit t c) \<longleftrightarrow> time_in_range period t"
| "event_in_range R period (Force t s time) \<longleftrightarrow> time_in_range period t \<and> 0 \<le> sint (re_to_nano R time)"

lemma event_in_range_ok:
  assumes "next_time_law C" and "event_in_range R period ev"
  shows "event_ok C R period ev"
proof (cases ev)
  case (Force t s time)
  have t: "0 \<le> sint t" "sint t < 2 ^ 63 - 1" "0 \<le> sint (re_to_nano R time)"
    using assms(2) Force by (simp_all add: time_in_range_def sint_nano_max)
  moreover have "sint (re_to_nano R time) < 2 ^ 63" using sint_lt [of "re_to_nano R time"] by simp
  ultimately have "sint (t - re_to_nano R time) < sint nano_max"
    by (simp add: sint_nano_diff sint_nano_max)
  then show ?thesis using Force by auto
qed (use assms time_in_range_ok in auto)

lemma sync_step_runs:
  assumes "callbacks_ok C R" and "cmds_ok C" and "event_ok C R (transition_period (fst x)) ev" and "sync_ok C (fst x)"
  shows "\<exists>y. sync_step C R ev x = Some y \<and> sync_ok C (fst y) \<and> transition_period (fst y) = transition_period (fst x)"
proof (cases ev)
  case (Cycle t)
  then show ?thesis using sync_dispatch_runs [OF assms(1,2) _ assms(4), of t] assms(3) by (auto simp: sync_step_def)
next
  case (Submit t c)
  then obtain ok r m' where "handle_cmd C t c (fst x) = Some (ok, r, nominal_time (fst x), m')" "submits C (fst x) m'"
    using handle_cmd_returns [of C "fst x" t c] assms(3) by auto
  with submits_keeps(2,9) [OF assms(2) this(2)] assms(4) Submit show ?thesis by (simp add: sync_step_def)
next
  case (Force t s time)
  then show ?thesis using force_state_runs [OF assms(1,2) _ assms(4), of t time s] assms(3) by (auto simp: sync_step_def)
qed

lemma sync_run_runs:
  assumes "callbacks_ok C R" and "cmds_ok C"
  shows "\<forall>ev\<in>set evs. event_ok C R (transition_period (fst x)) ev \<Longrightarrow> sync_ok C (fst x) \<Longrightarrow>
    \<exists>y. sync_run C R evs x = Some y \<and> sync_ok C (fst y) \<and> transition_period (fst y) = transition_period (fst x)"
proof (induction evs arbitrary: x)
  case Nil
  then show ?case by (metis sync_run.simps(1))
next
  case (Cons ev evs)
  obtain y where y: "sync_step C R ev x = Some y" "sync_ok C (fst y)" "transition_period (fst y) = transition_period (fst x)"
    using sync_step_runs [OF assms _ Cons.prems(2), of ev] Cons.prems(1) by auto
  then show ?case using Cons.IH [of y] Cons.prems(1) by simp
qed

end
