(* ===== verification/Machine_Graph.thy ===== *)
theory Machine_Graph
  imports Machine_Core
begin

text \<open>
  The check of \<^verbatim>\<open>StateMachine.cc\<close> that no states time out into each other for ever: the depth-first
  search of the graph of dangerous states, and its specification.
\<close>

section \<open>The search\<close>

datatype color = Unexplored | In_progress | Explored

definition count_unexplored :: "color list \<Rightarrow> nat" where
  "count_unexplored cs = length (filter ((=) Unexplored) cs)"

lemma count_unexplored_less:
  "i < length cs \<Longrightarrow> cs ! i = Unexplored \<Longrightarrow> count_unexplored (cs[i := In_progress]) < count_unexplored cs"
proof (induction cs arbitrary: i)
  case Nil
  then show ?case by simp
next
  case (Cons c cs)
  then show ?case by (cases i) (auto simp: count_unexplored_def)
qed

text \<open>
  The result is the value returned, \<open>cycle_detected\<close> and the colors. Every recursive call marks a
  node that was not explored.
\<close>

function search_for_cycle ::
  "('c, 'k, 'es) machine \<Rightarrow> nat \<Rightarrow> nat list \<Rightarrow> color list \<Rightarrow> bool \<Rightarrow> nat \<Rightarrow> (bool \<times> bool \<times> color list) option" where
  "search_for_cycle m ti dang colors cyc i =
     (if \<not> (i < length colors \<and> colors ! i = Unexplored) then None
      else if i \<notin> set dang then Some (True, cyc, colors[i := Explored])
      else
        let colors1 = colors[i := In_progress] in
        if i \<ge> length (sm_states m) then None
        else
          (case sm_states m ! i of
             None \<Rightarrow> None
           | Some cs \<Rightarrow>
               if ti \<ge> length (cs_cmds cs) then None
               else
                 let nx = unat (cs_cmds cs ! ti) in
                 if nx < length (sm_states m) then
                   (if nx \<ge> length colors1 then None
                    else
                      (case colors1 ! nx of
                         In_progress \<Rightarrow> if nx \<notin> set dang then None else Some (True, True, colors1)
                       | Unexplored \<Rightarrow>
                           (case search_for_cycle m ti dang colors1 cyc nx of
                              None \<Rightarrow> None
                            | Some (False, cyc', colors2) \<Rightarrow> Some (False, cyc', colors2)
                            | Some (True, cyc', colors2) \<Rightarrow> Some (True, cyc', colors2[i := Explored]))
                       | Explored \<Rightarrow> Some (True, cyc, colors1[i := Explored])))
                 else Some (True, cyc, colors1[i := Explored])))"
  by pat_completeness auto

termination
  by (relation "measure (\<lambda>(m, ti, dang, colors, cyc, i). count_unexplored colors)")
     (auto intro: count_unexplored_less)

declare search_for_cycle.simps [simp del]

text \<open>The test of the first loop of \<^verbatim>\<open>validate_graph\<close>, and the loop.\<close>

definition is_dangerous :: "bool \<Rightarrow> ('c, 'k, 'es) machine \<Rightarrow> nat \<Rightarrow> 'es control_state \<Rightarrow> bool" where
  "is_dangerous allow_single m ti cs \<longleftrightarrow>
     cs_seqs cs \<noteq> [] \<and>
     (cs_duration cs <s transition_period m \<or> (\<not> allow_single \<and> cs_duration cs = transition_period m)) \<and>
     unat (cs_cmds cs ! ti) < length (sm_states m)"

fun collect_dangerous ::
  "bool \<Rightarrow> ('c, 'k, 'es) machine \<Rightarrow> nat \<Rightarrow> (nat \<times> 'es control_state option) list \<Rightarrow> nat list option" where
  "collect_dangerous single m ti [] = Some []"
| "collect_dangerous single m ti ((i, None) # css) = None"
| "collect_dangerous single m ti ((i, Some cs) # css) =
     (if ti \<ge> length (cs_cmds cs) then None
      else map_option (\<lambda>is. if is_dangerous single m ti cs then i # is else is) (collect_dangerous single m ti css))"

fun explore_all ::
  "('c, 'k, 'es) machine \<Rightarrow> nat \<Rightarrow> nat list \<Rightarrow> nat list \<Rightarrow> color list \<Rightarrow> bool option" where
  "explore_all m ti dang [] colors = Some True"
| "explore_all m ti dang (i # is) colors =
     (if i \<ge> length colors then None
      else if colors ! i = Unexplored then
        (case search_for_cycle m ti dang colors False i of
           None \<Rightarrow> None
         | Some (False, _, _) \<Rightarrow> Some False
         | Some (True, True, _) \<Rightarrow> Some False
         | Some (True, False, colors') \<Rightarrow> explore_all m ti dang is colors')
      else explore_all m ti dang is colors)"

definition validate_graph :: "'c cmd_env \<Rightarrow> bool \<Rightarrow> ('c, 'k, 'es) machine \<Rightarrow> bool option" where
  "validate_graph C single m =
     (case timeout_index C m of
        None \<Rightarrow> None
      | Some ti \<Rightarrow>
          (case collect_dangerous single m ti (enumerate 0 (sm_states m)) of
             None \<Rightarrow> None
           | Some dang \<Rightarrow> explore_all m ti dang dang (replicate (length (sm_states m)) Unexplored)))"

section \<open>Specification\<close>

text \<open>Where a state goes on a timeout, and the dangerous states of a machine whose states are all there.\<close>

definition on_timeout :: "('c, 'k, 'es) machine \<Rightarrow> nat \<Rightarrow> nat \<Rightarrow> nat" where
  "on_timeout m ti i = unat (cs_cmds (the (sm_states m ! i)) ! ti)"

definition dangerous_states :: "bool \<Rightarrow> ('c, 'k, 'es) machine \<Rightarrow> nat \<Rightarrow> nat set" where
  "dangerous_states single m ti = {i. i < length (sm_states m) \<and> is_dangerous single m ti (the (sm_states m ! i))}"

definition states_complete :: "('c, 'k, 'es) machine \<Rightarrow> nat \<Rightarrow> bool" where
  "states_complete m ti \<longleftrightarrow> (\<forall>s\<in>set (sm_states m). \<exists>cs. s = Some cs \<and> ti < length (cs_cmds cs))"

definition escapes :: "(nat \<Rightarrow> nat) \<Rightarrow> nat set \<Rightarrow> nat \<Rightarrow> bool" where
  "escapes f D i \<longleftrightarrow> (\<exists>n. (f ^^ n) i \<notin> D)"

section \<open>Lemmas\<close>

lemma escapes_step: "escapes f D i \<longleftrightarrow> i \<notin> D \<or> escapes f D (f i)"
proof
  assume "escapes f D i"
  then obtain n where n: "(f ^^ n) i \<notin> D" by (auto simp: escapes_def)
  then show "i \<notin> D \<or> escapes f D (f i)"
    by (cases n) (auto simp: escapes_def funpow_swap1)
next
  assume "i \<notin> D \<or> escapes f D (f i)"
  then show "escapes f D i"
  proof
    assume "i \<notin> D"
    then show ?thesis by (auto simp: escapes_def intro!: exI [of _ 0])
  next
    assume "escapes f D (f i)"
    then obtain n where "(f ^^ n) (f i) \<notin> D" by (auto simp: escapes_def)
    then show ?thesis by (auto simp: escapes_def funpow_swap1 intro!: exI [of _ "Suc n"])
  qed
qed

text \<open>A closed walk of states in \<open>D\<close> never leaves it.\<close>

lemma closed_walk_stays:
  assumes "\<forall>k<n. (f ^^ k) p \<in> D" and "0 < n" and "(f ^^ n) p = p"
  shows "\<not> escapes f D ((f ^^ k) p)"
proof -
  have stay: "(f ^^ j) p \<in> D" for j
  proof -
    have "(f ^^ (j mod n)) p = (f ^^ j) p" by (rule funpow_mod_eq [OF assms(3)])
    moreover have "(f ^^ (j mod n)) p \<in> D" using assms(1,2) by simp
    ultimately show ?thesis by simp
  qed
  have "(f ^^ j) ((f ^^ k) p) \<in> D" for j
    using stay [of "j + k"] by (simp add: funpow_add)
  then show ?thesis by (simp add: escapes_def)
qed

text \<open>A state that escapes does so within as many steps as there are states in \<open>D\<close>.\<close>

lemma escape_bound:
  assumes "finite D" and "escapes f D i"
  shows "\<exists>n\<le>card D. (f ^^ n) i \<notin> D \<and> (\<forall>k<n. (f ^^ k) i \<in> D)"
proof -
  define n where "n = (LEAST n. (f ^^ n) i \<notin> D)"
  have out: "(f ^^ n) i \<notin> D"
    using assms(2) unfolding escapes_def n_def by (rule LeastI_ex)
  have before: "(f ^^ k) i \<in> D" if "k < n" for k using not_less_Least [OF that [unfolded n_def]] by simp
  have "inj_on (\<lambda>k. (f ^^ k) i) {..<n}"
  proof (rule linorder_inj_onI)
    fix a b assume ab: "a < b" "a \<in> {..<n}" "b \<in> {..<n}"
    show "(f ^^ a) i \<noteq> (f ^^ b) i"
    proof
      assume eq: "(f ^^ a) i = (f ^^ b) i"
      have "(f ^^ n) i = (f ^^ (n - b)) ((f ^^ b) i)"
        using ab by (metis comp_apply funpow_add le_add_diff_inverse2 less_imp_le lessThan_iff)
      also have "\<dots> = (f ^^ (n - b + a)) i" by (simp add: eq [symmetric] funpow_add)
      finally show False using before [of "n - b + a"] out ab by simp
    qed
  qed auto
  moreover have "(\<lambda>k. (f ^^ k) i) ` {..<n} \<subseteq> D" using before by auto
  ultimately have "n \<le> card D" using card_inj_on_le [OF _ _ assms(1)] by fastforce
  then show ?thesis using out before by blast
qed

text \<open>
  What holds when the search reaches \<open>i\<close>: explored states escape, and every state in progress leads
  through dangerous states to \<open>i\<close>.
\<close>

definition search_inv :: "(nat \<Rightarrow> nat) \<Rightarrow> nat set \<Rightarrow> color list \<Rightarrow> nat \<Rightarrow> bool" where
  "search_inv f D colors i \<longleftrightarrow>
     (\<forall>j<length colors. colors ! j = Explored \<longrightarrow> escapes f D j) \<and>
     (\<forall>j<length colors. colors ! j = In_progress \<longrightarrow>
        (\<exists>n>0. (f ^^ n) j = i \<and> (\<forall>k<n. (f ^^ k) j \<in> D)))"

lemma search_inv_step:
  assumes "search_inv f D colors i" and "i \<in> D" and "i < length colors"
  shows "search_inv f D (colors[i := In_progress]) (f i)"
proof -
  have "\<exists>n>0. (f ^^ n) j = f i \<and> (\<forall>k<n. (f ^^ k) j \<in> D)"
    if "j < length colors" "j = i \<or> colors ! j = In_progress" for j
  proof (cases "j = i")
    case True
    then show ?thesis using assms(2) by (intro exI [of _ 1]) simp
  next
    case False
    then have "colors ! j = In_progress" using that(2) by simp
    then have "\<exists>n>0. (f ^^ n) j = i \<and> (\<forall>k<n. (f ^^ k) j \<in> D)"
      using that(1) assms(1) unfolding search_inv_def by blast
    then obtain n where "n > 0" "(f ^^ n) j = i" "\<forall>k<n. (f ^^ k) j \<in> D" by blast
    then show ?thesis using assms(2) by (intro exI [of _ "Suc n"]) (auto simp: less_Suc_eq)
  qed
  moreover have "escapes f D j" if "j < length colors" "colors[i := In_progress] ! j = Explored" for j
    using that assms(1,3) by (cases "j = i") (auto simp: search_inv_def)
  ultimately show ?thesis using assms(3) by (auto simp: search_inv_def nth_list_update)
qed

text \<open>The result of a search: the colors changed only from unexplored to explored, unless there is a cycle.\<close>

definition search_done :: "(nat \<Rightarrow> nat) \<Rightarrow> nat set \<Rightarrow> color list \<Rightarrow> nat \<Rightarrow> bool \<Rightarrow> color list \<Rightarrow> bool" where
  "search_done f D colors i cyc colors' \<longleftrightarrow>
     length colors' = length colors \<and>
     (if cyc then \<not> escapes f D i
      else escapes f D i \<and>
        (\<forall>j<length colors. colors' ! j = Explored \<longrightarrow> escapes f D j) \<and>
        (\<forall>j<length colors. colors' ! j = In_progress \<longleftrightarrow> colors ! j = In_progress))"

lemma search_finds_cycles:
  assumes "states_complete m ti" and "set dang = dangerous_states single m ti"
    and "length colors = length (sm_states m)" and "i < length colors" and "colors ! i = Unexplored"
    and "search_inv (on_timeout m ti) (set dang) colors i"
  shows "\<exists>cyc colors'. search_for_cycle m ti dang colors False i = Some (True, cyc, colors') \<and>
    search_done (on_timeout m ti) (set dang) colors i cyc colors'"
  using assms(3-6)
proof (induction "count_unexplored colors" arbitrary: colors i rule: less_induct)
  case less
  let ?f = "on_timeout m ti" and ?D = "set dang"
  let ?colors1 = "colors[i := In_progress]"
  show ?case
  proof (cases "i \<in> ?D")
    case False
    then have "escapes ?f ?D i" by (simp add: escapes_step [of _ _ i])
    then show ?thesis using False less.prems
      by (auto simp: search_for_cycle.simps search_done_def search_inv_def nth_list_update intro!: exI [of _ False])
  next
    case True
    then have i: "i < length (sm_states m)" using less.prems by simp
    then obtain cs where cs: "sm_states m ! i = Some cs" "ti < length (cs_cmds cs)"
      using assms(1) by (metis nth_mem states_complete_def)
    have f: "?f i = unat (cs_cmds cs ! ti)" using cs by (simp add: on_timeout_def)
    have nx: "?f i < length (sm_states m)"
      using True assms(2) cs by (auto simp: dangerous_states_def is_dangerous_def on_timeout_def)
    have inv1: "search_inv ?f ?D ?colors1 (?f i)"
      by (rule search_inv_step) (use True less.prems in auto)
    have esc: "escapes ?f ?D i \<longleftrightarrow> escapes ?f ?D (?f i)" using True escapes_step [of ?f ?D i] by simp
    have run: "search_for_cycle m ti dang colors False i =
        (case ?colors1 ! ?f i of
           In_progress \<Rightarrow> if ?f i \<notin> ?D then None else Some (True, True, ?colors1)
         | Unexplored \<Rightarrow>
             (case search_for_cycle m ti dang ?colors1 False (?f i) of
                None \<Rightarrow> None
              | Some (False, cyc', colors2) \<Rightarrow> Some (False, cyc', colors2)
              | Some (True, cyc', colors2) \<Rightarrow> Some (True, cyc', colors2[i := Explored]))
         | Explored \<Rightarrow> Some (True, False, ?colors1[i := Explored]))"
      using True i cs nx less.prems unfolding f
      by (subst search_for_cycle.simps) (simp add: Let_def)
    show ?thesis
    proof (cases "?colors1 ! ?f i")
      case In_progress
      then obtain n where n: "n > 0" "(?f ^^ n) (?f i) = ?f i" "\<forall>k<n. (?f ^^ k) (?f i) \<in> ?D"
        using inv1 nx less.prems(1) by (auto simp: search_inv_def)
      have "?f i \<in> ?D" using n(1,3) by force
      moreover have "\<not> escapes ?f ?D (?f i)" using closed_walk_stays [OF n(3,1,2), of 0] by simp
      ultimately show ?thesis using In_progress run esc
        by (auto simp: search_done_def intro!: exI [of _ True])
    next
      case Explored
      then have "escapes ?f ?D (?f i)" using inv1 nx less.prems(1) by (simp add: search_inv_def)
      then show ?thesis using Explored run esc less.prems
        by (auto simp: search_done_def search_inv_def nth_list_update intro!: exI [of _ False])
    next
      case Unexplored
      have "count_unexplored ?colors1 < count_unexplored colors"
        by (rule count_unexplored_less) (use less.prems in auto)
      then obtain cyc colors2 where rec: "search_for_cycle m ti dang ?colors1 False (?f i) = Some (True, cyc, colors2)"
        "search_done ?f ?D ?colors1 (?f i) cyc colors2"
        using less.hyps [of ?colors1 "?f i"] less.prems nx Unexplored inv1 by auto
      then show ?thesis using Unexplored run esc less.prems
        by (auto simp: search_done_def nth_list_update)
    qed
  qed
qed

lemma collect_dangerous_filter:
  "\<forall>(i, s)\<in>set css. \<exists>cs. s = Some cs \<and> ti < length (cs_cmds cs) \<Longrightarrow>
    collect_dangerous single m ti css = Some (map fst (filter (\<lambda>(i, s). is_dangerous single m ti (the s)) css))"
  by (induction single m ti css rule: collect_dangerous.induct) auto

lemma collect_dangerous_set:
  assumes "states_complete m ti"
  shows "\<exists>dang. collect_dangerous single m ti (enumerate 0 (sm_states m)) = Some dang \<and>
    set dang = dangerous_states single m ti"
proof -
  have complete: "\<forall>(i, s)\<in>set (enumerate 0 (sm_states m)). \<exists>cs. s = Some cs \<and> ti < length (cs_cmds cs)"
  proof clarify
    fix i s assume "(i, s) \<in> set (enumerate 0 (sm_states m))"
    then have "s \<in> set (sm_states m)" by (auto simp: in_set_enumerate_eq)
    then show "\<exists>cs. s = Some cs \<and> ti < length (cs_cmds cs)" using assms by (simp add: states_complete_def)
  qed
  have "set (map fst (filter (\<lambda>(i, s). is_dangerous single m ti (the s)) (enumerate 0 (sm_states m)))) =
      dangerous_states single m ti"
    by (auto simp: in_set_enumerate_eq dangerous_states_def image_iff Bex_def)
  then show ?thesis using collect_dangerous_filter [OF complete] by blast
qed

lemma explore_all_escapes:
  assumes "states_complete m ti" and "set dang = dangerous_states single m ti"
  shows "length colors = length (sm_states m) \<Longrightarrow> \<forall>i\<in>set is. i < length colors \<Longrightarrow>
    \<forall>j<length colors. colors ! j \<noteq> In_progress \<and> (colors ! j = Explored \<longrightarrow> escapes (on_timeout m ti) (set dang) j) \<Longrightarrow>
    explore_all m ti dang is colors = Some (\<forall>i\<in>set is. escapes (on_timeout m ti) (set dang) i)"
proof (induction "is" arbitrary: colors)
  case Nil
  then show ?case by simp
next
  case (Cons i "is")
  let ?f = "on_timeout m ti"
  show ?case
  proof (cases "colors ! i = Unexplored")
    case True
    have "search_inv ?f (set dang) colors i" using Cons.prems by (simp add: search_inv_def)
    then obtain cyc colors' where run: "search_for_cycle m ti dang colors False i = Some (True, cyc, colors')"
      "search_done ?f (set dang) colors i cyc colors'"
      using search_finds_cycles [OF assms Cons.prems(1) _ True] Cons.prems(2) by auto
    show ?thesis
    proof (cases cyc)
      case True
      then show ?thesis using run \<open>colors ! i = Unexplored\<close> Cons.prems by (simp add: search_done_def)
    next
      case False
      then have "explore_all m ti dang is colors' = Some (\<forall>i\<in>set is. escapes ?f (set dang) i)"
        using run(2) Cons.prems by (intro Cons.IH) (auto simp: search_done_def)
      then show ?thesis using run False \<open>colors ! i = Unexplored\<close> Cons.prems by (simp add: search_done_def)
    qed
  next
    case False
    then have "colors ! i = Explored" using Cons.prems by (cases "colors ! i") auto
    then have "escapes ?f (set dang) i" using Cons.prems by auto
    then show ?thesis using False Cons.IH [OF Cons.prems(1)] Cons.prems by simp
  qed
qed

lemma validate_graph_escapes:
  assumes "timeout_index C m = Some ti" and "states_complete m ti"
  shows "validate_graph C single m =
    Some (\<forall>i\<in>dangerous_states single m ti. escapes (on_timeout m ti) (dangerous_states single m ti) i)"
proof -
  obtain dang where dang: "collect_dangerous single m ti (enumerate 0 (sm_states m)) = Some dang"
    "set dang = dangerous_states single m ti"
    using collect_dangerous_set [OF assms(2)] by blast
  have "explore_all m ti dang dang (replicate (length (sm_states m)) Unexplored) =
      Some (\<forall>i\<in>set dang. escapes (on_timeout m ti) (set dang) i)"
    by (rule explore_all_escapes [OF assms(2) dang(2)]) (auto simp: dang(2) dangerous_states_def)
  then show ?thesis by (simp add: validate_graph_def assms(1) dang)
qed

section \<open>An instance\<close>

text \<open>Commands are numbers, 0 the empty command and 1 the timeout.\<close>

definition demo_cmds :: "u32 cmd_env" where
  "demo_cmds = \<lparr>noop_index = 0, cmd_index = (\<lambda>c. c), cmd_name = (\<lambda>c. if c = 1 then ''timeout'' else ''other''),
     cmd_noop = (\<lambda>c. c = 0), cmd_invalid = (\<lambda>c. 4 \<le> c), table_check = (\<lambda>c. c < 4),
     table_lookup = (\<lambda>n. if n = ''timeout'' then Some 1 else if n = ''go'' then Some 2
                         else if n = ''run_alarm_event_sequence'' then Some 3 else None),
     table_lookup_index = Some, table_size = 4, op_int_ge = (\<ge>), next_time = (\<lambda>t p. (t div p + 1) * p)\<rparr>"

definition demo_state :: "u32 \<Rightarrow> u32 \<Rightarrow> nano \<Rightarrow> nat control_state" where
  "demo_state timeout go duration = \<lparr>cs_cmds = [undefined_state, timeout, go, undefined_state], cs_tasks = [],
     cs_seqs = [(''s.event'', 0)], cs_duration = duration, timeout_ignored = False, multi_seq_devices = {}\<rparr>"

definition demo_machine :: "nat control_state list \<Rightarrow> (u32, nat, nat) machine" where
  "demo_machine css = (machine_new 10 0 (symtab_new False 0 []) 1)\<lparr>sm_states := map Some css\<rparr>"

section \<open>Properties\<close>

text \<open>
  C22: The graph check is exact. It never fails an assertion on a machine whose states are all
  there, and it succeeds exactly when from every dangerous state the timeouts lead out of the
  dangerous states, and then within as many timeouts as there are dangerous states.
\<close>

theorem validate_graph_exact:
  assumes "timeout_index C m = Some ti" and "states_complete m ti"
  shows "\<exists>ok. validate_graph C single m = Some ok \<and>
    (ok \<longleftrightarrow> (\<forall>i\<in>dangerous_states single m ti. \<exists>n\<le>card (dangerous_states single m ti).
       (on_timeout m ti ^^ n) i \<notin> dangerous_states single m ti))"
proof -
  have "finite (dangerous_states single m ti)" by (simp add: dangerous_states_def)
  then have "escapes (on_timeout m ti) (dangerous_states single m ti) i \<longleftrightarrow>
      (\<exists>n\<le>card (dangerous_states single m ti). (on_timeout m ti ^^ n) i \<notin> dangerous_states single m ti)" for i
    using escape_bound [of "dangerous_states single m ti"] unfolding escapes_def by blast
  then show ?thesis using validate_graph_escapes [OF assms, of single] by simp
qed

theorem validate_graph_exact_witness:
  "validate_graph demo_cmds True (demo_machine [demo_state 1 2 5, demo_state 2 2 5, demo_state 1 2 20]) = Some True \<and>
   validate_graph demo_cmds True (demo_machine [demo_state 1 2 5, demo_state 2 2 5, demo_state 1 2 9]) = Some False"
proof -
  let ?good = "demo_machine [demo_state 1 2 5, demo_state 2 2 5, demo_state 1 2 20]"
  let ?bad = "demo_machine [demo_state 1 2 5, demo_state 2 2 5, demo_state 1 2 9]"
  note defs = demo_machine_def demo_state_def demo_cmds_def machine_new_def
  have ti: "timeout_index demo_cmds ?good = Some 1" "timeout_index demo_cmds ?bad = Some 1"
    by (simp_all add: timeout_index_def defs)
  have complete: "states_complete ?good 1" "states_complete ?bad 1"
    by (simp_all add: states_complete_def defs)
  have listed: "dangerous_states single m ti =
      set (filter (\<lambda>i. is_dangerous single m ti (the (sm_states m ! i))) [0..<length (sm_states m)])"
    for single and m :: "(u32, nat, nat) machine" and ti
    by (auto simp: dangerous_states_def)
  have good: "dangerous_states True ?good 1 = {0, 1}"
    by (simp add: listed is_dangerous_def defs word_sless_alt upt_rec)
  have bad: "dangerous_states True ?bad 1 = {0, 1, 2}"
    by (simp add: listed is_dangerous_def defs word_sless_alt upt_rec) (simp add: numeral_2_eq_2)
  have f: "on_timeout ?good 1 0 = 1" "on_timeout ?good 1 1 = 2"
    "on_timeout ?bad 1 0 = 1" "on_timeout ?bad 1 1 = 2" "on_timeout ?bad 1 2 = 1"
    by (simp_all add: on_timeout_def defs)
  have "\<exists>n\<le>card {0 :: nat, 1}. (on_timeout ?good 1 ^^ n) 0 \<notin> {0, 1}"
    by (rule exI [of _ 2]) (use f(1,2) in \<open>simp add: numeral_2_eq_2\<close>)
  moreover have "\<exists>n\<le>card {0 :: nat, 1}. (on_timeout ?good 1 ^^ n) 1 \<notin> {0, 1}"
    by (rule exI [of _ 1]) (use f(1,2) in simp)
  ultimately have out_good: "\<forall>i\<in>{0, 1}. \<exists>n\<le>card {0 :: nat, 1}. (on_timeout ?good 1 ^^ n) i \<notin> {0, 1}"
    by blast
  have in_bad: "(on_timeout ?bad 1 ^^ n) 0 \<in> {0, 1, 2}" for n
    by (induction n) (use f(3-5) in auto)
  then have stuck: "\<not> (\<forall>i\<in>{0, 1, 2}. \<exists>n\<le>card {0 :: nat, 1, 2}. (on_timeout ?bad 1 ^^ n) i \<notin> {0, 1, 2})"
    by blast
  obtain a where a: "validate_graph demo_cmds True ?good = Some a"
    "a \<longleftrightarrow> (\<forall>i\<in>{0, 1}. \<exists>n\<le>card {0 :: nat, 1}. (on_timeout ?good 1 ^^ n) i \<notin> {0, 1})"
    using validate_graph_exact [OF ti(1) complete(1), of True] unfolding good by blast
  obtain b where b: "validate_graph demo_cmds True ?bad = Some b"
    "b \<longleftrightarrow> (\<forall>i\<in>{0, 1, 2}. \<exists>n\<le>card {0 :: nat, 1, 2}. (on_timeout ?bad 1 ^^ n) i \<notin> {0, 1, 2})"
    using validate_graph_exact [OF ti(2) complete(2), of True] unfolding bad by blast
  have "a" by (rule iffD2 [OF a(2) out_good])
  moreover have "\<not> b" using b(2) stuck by (rule ssubst)
  ultimately show ?thesis using a(1) b(1) by simp
qed

end
