(* ===== verification/Machine_Cycle.thy ===== *)
theory Machine_Cycle
  imports Machine_Safety Machine_Graph "HOL-Library.Sublist"
begin

text \<open>
  The properties of the state machines at run time: what the header of \<^verbatim>\<open>StateMachine.h\<close> guarantees
  about a cycle of the synchronous machine, and the wake-up times of the asynchronous one.
\<close>

section \<open>The calls of a cycle\<close>

datatype 'k call_event =
    Task_call 'k cstate nano
  | Task_dispatched 'k nano
  | Seqs_started nat nano
  | Seqs_ended nat
  | Seqs_dispatched nat nano
  | State_signal string

fun calls :: "'k call_event list \<Rightarrow> 'k list" where
  "calls [] = []"
| "calls (Task_call k s t # es) = k # calls es"
| "calls (_ # es) = calls es"

fun dispatches :: "'k call_event list \<Rightarrow> 'k list" where
  "dispatches [] = []"
| "dispatches (Task_dispatched k t # es) = k # dispatches es"
| "dispatches (_ # es) = dispatches es"

fun signals :: "'k call_event list \<Rightarrow> nat" where
  "signals [] = 0"
| "signals (State_signal n # es) = Suc (signals es)"
| "signals (_ # es) = signals es"

lemma call_events_append [simp]:
  "calls (a @ b) = calls a @ calls b" "dispatches (a @ b) = dispatches a @ dispatches b"
  "signals (a @ b) = signals a + signals b"
proof -
  show "calls (a @ b) = calls a @ calls b" by (induction a rule: calls.induct) auto
  show "dispatches (a @ b) = dispatches a @ dispatches b" by (induction a rule: dispatches.induct) auto
  show "signals (a @ b) = signals a + signals b" by (induction a rule: signals.induct) auto
qed

text \<open>\<open>lg\<close> reads from the world the log of the calls: every callback appends its own.\<close>

definition logs :: "('w \<Rightarrow> 'k call_event list) \<Rightarrow> ('c, 'k, 'es, 'w) run_env \<Rightarrow> bool" where
  "logs lg R \<longleftrightarrow>
     (\<forall>k t a x. lg (snd (snd (re_start R k t a x))) = lg (snd x) @ [Task_call k On_cstate t]) \<and>
     (\<forall>k t x. lg (snd (snd (re_stop R k t x))) = lg (snd x) @ [Task_call k Off_cstate t]) \<and>
     (\<forall>k t x. lg (snd (snd (re_cont R k t x))) = lg (snd x) @ [Task_call k Cont_cstate t]) \<and>
     (\<forall>k t a x. lg (snd (snd (re_cmd R k t a x))) = lg (snd x) @ [Task_call k Cmd_cstate t]) \<and>
     (\<forall>k t x. lg (snd (snd (re_dispatch R k t x))) = lg (snd x) @ [Task_dispatched k t]) \<and>
     (\<forall>s t x. lg (snd (snd (re_start_seqs R s t x))) = lg (snd x) @ [Seqs_started s t]) \<and>
     (\<forall>s x. lg (snd (snd (re_end_seqs R s x))) = lg (snd x) @ [Seqs_ended s]) \<and>
     (\<forall>s t x. lg (snd (snd (re_dispatch_seqs R s t x))) = lg (snd x) @ [Seqs_dispatched s t]) \<and>
     (\<forall>n x. lg (snd (re_signal R n x)) = lg (snd x) @ [State_signal n])"

lemma logsD:
  assumes "logs lg R"
  shows "re_start R k t a x = (b, y) \<Longrightarrow> lg (snd y) = lg (snd x) @ [Task_call k On_cstate t]"
    and "re_stop R k t x = (b, y) \<Longrightarrow> lg (snd y) = lg (snd x) @ [Task_call k Off_cstate t]"
    and "re_cont R k t x = (b, y) \<Longrightarrow> lg (snd y) = lg (snd x) @ [Task_call k Cont_cstate t]"
    and "re_cmd R k t a x = (b, y) \<Longrightarrow> lg (snd y) = lg (snd x) @ [Task_call k Cmd_cstate t]"
    and "re_dispatch R k t x = (n, y) \<Longrightarrow> lg (snd y) = lg (snd x) @ [Task_dispatched k t]"
    and "re_start_seqs R s t x = (b, y) \<Longrightarrow> lg (snd y) = lg (snd x) @ [Seqs_started s t]"
    and "re_end_seqs R s x = (b, y) \<Longrightarrow> lg (snd y) = lg (snd x) @ [Seqs_ended s]"
    and "re_dispatch_seqs R s t x = (n, y) \<Longrightarrow> lg (snd y) = lg (snd x) @ [Seqs_dispatched s t]"
    and "lg (snd (re_signal R name x)) = lg (snd x) @ [State_signal name]"
  using assms unfolding logs_def by (metis snd_conv)+

text \<open>Between the worlds \<open>v\<close> and \<open>w\<close> the tasks \<open>cs\<close> were called, \<open>ds\<close> dispatched and \<open>n\<close> signals emitted.\<close>

definition did :: "('w \<Rightarrow> 'k call_event list) \<Rightarrow> 'w \<Rightarrow> 'w \<Rightarrow> 'k list \<Rightarrow> 'k list \<Rightarrow> nat \<Rightarrow> bool" where
  "did lg v w cs ds n \<longleftrightarrow> (\<exists>new. lg w = lg v @ new \<and> calls new = cs \<and> dispatches new = ds \<and> signals new = n)"

lemma did_refl: "did lg w w [] [] 0"
  by (auto simp: did_def intro: exI [of _ "[]"])

lemma did_one: "lg w = lg v @ [e] \<Longrightarrow> did lg v w (calls [e]) (dispatches [e]) (signals [e])"
  by (auto simp: did_def)

lemma did_trans: "did lg u v cs ds n \<Longrightarrow> did lg v w cs' ds' n' \<Longrightarrow> did lg u w (cs @ cs') (ds @ ds') (n + n')"
  unfolding did_def by (metis append.assoc call_events_append)

section \<open>The calls of each part\<close>

definition all_active :: "('c, 'k, 'es, 'w) run_env \<Rightarrow> bool" where
  "all_active R \<longleftrightarrow> (\<forall>k w. re_active R k w)"

lemma transition_task_did:
  assumes "logs lg R" and "transition_task R t i cs x = Some (ok, y)"
  shows "\<exists>c. did lg (snd x) (snd y) c [] 0 \<and> subseq c [sm_tasks (fst x) ! i]"
proof (cases "y = x")
  case True
  then show ?thesis using did_refl [of lg "snd x"] by auto
next
  case False
  let ?k = "sm_tasks (fst x) ! i"
  obtain s where "lg (snd y) = lg (snd x) @ [Task_call ?k s t]"
    using assms(2) False
    by (auto simp: transition_task_def call_task_def Let_def dest: logsD(1-4) [OF assms(1)] split: if_splits cstate.splits)
  from did_one [of lg, OF this] show ?thesis by (auto intro: exI [of _ "[?k]"])
qed

lemma transition_tasks_did:
  assumes "callbacks_ok C R" and "cmds_ok C" and "logs lg R" and "t \<noteq> nano_max"
  shows "transition_tasks R t cs is good x = Some (ok, y) \<Longrightarrow>
    \<exists>c. did lg (snd x) (snd y) c [] 0 \<and> subseq c (map ((!) (sm_tasks (fst x))) is)"
proof (induction "is" arbitrary: good x)
  case Nil
  then show ?case using did_refl [of lg "snd x"] by (auto intro!: exI [of _ "[]"])
next
  case (Cons i "is")
  obtain ok1 y1 where one: "transition_task R t i cs x = Some (ok1, y1)" "submits C (fst x) (fst y1)"
    using transition_task_runs [OF assms(1,4)] by (rule runsE)
  then have rest: "transition_tasks R t cs is (good \<and> ok1) y1 = Some (ok, y)" using Cons.prems by simp
  obtain c where c: "did lg (snd x) (snd y1) c [] 0" "subseq c [sm_tasks (fst x) ! i]"
    using transition_task_did [OF assms(3) one(1)] by blast
  obtain d where d: "did lg (snd y1) (snd y) d [] 0" "subseq d (map ((!) (sm_tasks (fst y1))) is)"
    using Cons.IH [OF rest] by blast
  have "sm_tasks (fst y1) = sm_tasks (fst x)" using submits_keeps(7) [OF assms(2) one(2)] .
  then have "subseq (c @ d) (map ((!) (sm_tasks (fst x))) (i # is))"
    using list_emb_append_mono [OF c(2) d(2)] by simp
  then show ?case using did_trans [OF c(1) d(1)] by auto
qed

lemma dispatch_tasks_did:
  assumes "callbacks_ok C R" and "cmds_ok C" and "logs lg R"
  shows "dispatch_tasks R t is n x = Some (wake, y) \<Longrightarrow>
    \<exists>d. did lg (snd x) (snd y) [] d 0 \<and> subseq d (map ((!) (sm_tasks (fst x))) is) \<and>
      (all_active R \<longrightarrow> d = map ((!) (sm_tasks (fst x))) is)"
proof (induction "is" arbitrary: n x)
  case Nil
  then show ?case using did_refl [of lg "snd x"] by (auto intro!: exI [of _ "[]"])
next
  case (Cons i "is")
  let ?k = "sm_tasks (fst x) ! i"
  show ?case
  proof (cases "re_active R ?k (snd x)")
    case False
    then have "dispatch_tasks R t is n x = Some (wake, y)" using Cons.prems by (simp split: if_splits)
    then show ?thesis using Cons.IH False by (fastforce simp: all_active_def)
  next
    case True
    obtain wake1 y1 where one: "re_dispatch R ?k t x = (wake1, y1)" by (rule prod.exhaust)
    then have rest: "dispatch_tasks R t is (min_nano n wake1) y1 = Some (wake, y)"
      using Cons.prems True by (simp split: if_splits)
    have tasks: "sm_tasks (fst y1) = sm_tasks (fst x)"
      by (rule submits_keeps(7) [OF assms(2) callbacksD(5) [OF assms(1) one]])
    have c: "did lg (snd x) (snd y1) [] [?k] 0" using did_one [of lg, OF logsD(5) [OF assms(3) one]] by simp
    obtain d where d: "did lg (snd y1) (snd y) [] d 0" "subseq d (map ((!) (sm_tasks (fst x))) is)"
      "all_active R \<longrightarrow> d = map ((!) (sm_tasks (fst x))) is"
      using Cons.IH [OF rest] tasks by auto
    show ?thesis using did_trans [OF c d(1)] d(2,3) by (intro exI [of _ "?k # d"]) auto
  qed
qed

lemma distinct_subseq: "subseq xs ys \<Longrightarrow> distinct ys \<Longrightarrow> distinct xs"
  by (induction rule: list_emb.induct) (auto dest: list_emb_set)

lemma distinct_count_list: "distinct xs \<Longrightarrow> count_list xs k \<le> 1"
  by (induction xs) (auto simp: count_list_0_iff)

abbreviation pre_of :: "('c, 'k, 'es) machine \<Rightarrow> 'k list" where
  "pre_of m \<equiv> take (num_pre_tasks m) (sm_tasks m)"

abbreviation post_of :: "('c, 'k, 'es) machine \<Rightarrow> 'k list" where
  "post_of m \<equiv> drop (num_pre_tasks m) (sm_tasks m)"

lemma map_nth_split:
  "n \<le> length xs \<Longrightarrow> map ((!) xs) [0..<n] = take n xs"
  "map ((!) xs) [n..<length xs] = drop n xs"
  by (auto intro!: nth_equalityI)

lemma pre_post_did:
  assumes "callbacks_ok C R" and "cmds_ok C" and "logs lg R" and "t \<noteq> nano_max" and "config_ok C (fst x)"
  shows "transition_pre_tasks R t cs x = Some (ok, y) \<Longrightarrow> \<exists>c. did lg (snd x) (snd y) c [] 0 \<and> subseq c (pre_of (fst x))"
    and "transition_post_tasks R t cs x = Some (ok, y) \<Longrightarrow> \<exists>c. did lg (snd x) (snd y) c [] 0 \<and> subseq c (post_of (fst x))"
    and "dispatch_pre_tasks R t x = Some (n, y) \<Longrightarrow>
      \<exists>d. did lg (snd x) (snd y) [] d 0 \<and> subseq d (pre_of (fst x)) \<and> (all_active R \<longrightarrow> d = pre_of (fst x))"
    and "dispatch_post_tasks R t x = Some (n, y) \<Longrightarrow>
      \<exists>d. did lg (snd x) (snd y) [] d 0 \<and> subseq d (post_of (fst x)) \<and> (all_active R \<longrightarrow> d = post_of (fst x))"
  using transition_tasks_did [OF assms(1-4)] dispatch_tasks_did [OF assms(1-3)] assms(5) map_nth_split
  unfolding transition_pre_tasks_def transition_post_tasks_def dispatch_pre_tasks_def dispatch_post_tasks_def config_ok_def
  by (metis (no_types, lifting))+

lemma opt_call_did:
  assumes "opt_call b f x = Some (ok, y)"
    and "b \<Longrightarrow> f x = Some (ok, y) \<Longrightarrow> \<exists>c. did lg (snd x) (snd y) c [] 0 \<and> subseq c ks"
  shows "\<exists>c. did lg (snd x) (snd y) c [] 0 \<and> subseq c (if b then ks else [])"
  using assms did_refl [of lg "snd x"] by (cases b) (auto simp: opt_call_def intro: exI [of _ "[]"])

text \<open>\<open>set_state\<close> as \<open>sync_dispatch\<close> calls it, without the tasks after the transition.\<close>

lemma set_state_did:
  assumes "callbacks_ok C R" and "cmds_ok C" and "logs lg R" and "t \<noteq> nano_max" and "config_ok C (fst x)"
    and "set_state C R s cmd t pre False start x = Some (ok, y)"
  shows "\<exists>c n. did lg (snd x) (snd y) c [] n \<and> subseq c (if pre then pre_of (fst x) else []) \<and> n \<le> 1"
proof (cases "y = x")
  case True
  then show ?thesis using did_refl [of lg "snd x"] by (auto intro!: exI [of _ "[]"] exI [of _ 0])
next
  case False
  obtain ncs ok1 x1 ok3 x3 ok4 x4 where parts:
    "opt_call pre (transition_pre_tasks R t ncs) x = Some (ok1, x1)"
    "opt_call (s \<noteq> cur_state (fst x)) (end_seqs_of R (cur_state (fst x))) x1 = Some (ok3, x3)"
    "opt_call (start \<and> cs_seqs ncs \<noteq> []) (\<lambda>x. Some (re_start_seqs R (unat s) t x)) x3 = Some (ok4, x4)"
    "y = re_signal R (lookup_state_name (record_state s (fst x4)) (cur_state (record_state s (fst x4)))) (record_state s (fst x4), snd x4)"
    using assms(6) False
    by (auto simp: set_state_def Let_def opt_call_def [of False] split: if_splits option.splits prod.splits)
  obtain c where c: "did lg (snd x) (snd x1) c [] 0" "subseq c (if pre then pre_of (fst x) else [])"
    using opt_call_did [OF parts(1)] pre_post_did(1) [OF assms(1-5)] by metis
  have e: "did lg (snd x1) (snd x3) [] [] 0"
    using parts(2) did_refl [of lg "snd x1"] did_one [of lg, OF logsD(7) [OF assms(3)]]
    by (auto simp: opt_call_def end_seqs_of_def split: if_splits)
  have st: "did lg (snd x3) (snd x4) [] [] 0"
    using parts(3) did_refl [of lg "snd x3"] did_one [of lg, OF logsD(6) [OF assms(3)]]
    by (auto simp: opt_call_def split: if_splits)
  have sg: "did lg (snd x4) (snd y) [] [] 1"
    unfolding parts(4) using did_one [of lg, OF logsD(9) [OF assms(3)]] by fastforce
  have "did lg (snd x) (snd y) c [] 1"
    using did_trans [OF did_trans [OF did_trans [OF c(1) e] st] sg] by simp
  then show ?thesis using c(2) by blast
qed

lemma handle_pending_did:
  assumes "callbacks_ok C R" and "cmds_ok C" and "logs lg R" and "t \<noteq> nano_max" and "config_ok C (fst x)"
    and "handle_pending_cmd C R t pre False start x = Some (ok, y)"
  shows "\<exists>c n. did lg (snd x) (snd y) c [] n \<and> subseq c (if pre then pre_of (fst x) else []) \<and> n \<le> 1"
proof -
  obtain z where z: "handle_pending_cmd_aux C R t pre False start x = Some (ok, z)" "snd y = snd z"
    using assms(6) by (auto simp: handle_pending_cmd_def split: if_splits option.splits)
  consider (same) "z = x" | (set) s cmd where "set_state C R s cmd t pre False start x = Some (ok, z)"
    using z(1) by (auto simp: handle_pending_cmd_aux_def Let_def split: if_splits option.splits)
  then show ?thesis
  proof cases
    case same
    then show ?thesis using did_refl [of lg "snd x"] z(2) by (auto intro!: exI [of _ "[]"] exI [of _ 0])
  next
    case set
    from set_state_did [OF assms(1-5) this] show ?thesis by (simp add: z(2))
  qed
qed

lemma sync_begin_did:
  assumes "callbacks_ok C R" and "cmds_ok C" and "logs lg R" and "t \<noteq> nano_max" and "sync_ok C (fst x)"
    and "sync_begin C R t x = Some (moved, part, y)"
  shows "\<exists>c d n. did lg (snd x) (snd y) c d n \<and> subseq c (pre_of (fst x)) \<and> subseq d (pre_of (fst x)) \<and>
    (all_active R \<longrightarrow> d = pre_of (fst x)) \<and> n \<le> 1"
proof -
  have cfg: "config_ok C (fst x)" using assms(5) by (simp add: sync_ok_def machine_ok_def)
  obtain wake x1 where 1: "dispatch_pre_tasks R t x = Some (wake, x1)" "submits C (fst x) (fst x1)"
    using dispatch_pre_post_runs(1) [OF assms(1,2) cfg] by (rule runsE)
  have cfg1: "config_ok C (fst x1)" and pre: "pre_of (fst x1) = pre_of (fst x)"
    using submits_keeps(7,8,11) [OF assms(2) 1(2)] cfg by simp_all
  obtain d where d: "did lg (snd x) (snd x1) [] d 0" "subseq d (pre_of (fst x))" "all_active R \<longrightarrow> d = pre_of (fst x)"
    using pre_post_did(3) [OF assms(1-4) cfg 1(1)] by blast
  consider (stay) "y = x1" | (move) ok p where "handle_pending_cmd C R t p False p x1 = Some (ok, y)"
    using assms(6) 1(1) by (auto simp: sync_begin_def Let_def split: if_splits)
  then show ?thesis
  proof cases
    case stay
    then show ?thesis using d by (intro exI [of _ "[]"] exI [of _ d] exI [of _ 0]) simp
  next
    case move
    then obtain c n where c: "did lg (snd x1) (snd y) c [] n" "subseq c (if p then pre_of (fst x1) else [])" "n \<le> 1"
      using handle_pending_did [OF assms(1-4) cfg1] by blast
    have "did lg (snd x) (snd y) c d n" using did_trans [OF d(1) c(1)] by simp
    moreover have "subseq c (pre_of (fst x))" using c(2) pre by (cases p) (auto dest: list_emb_Nil2)
    ultimately show ?thesis using d(2,3) c(3) by blast
  qed
qed

lemma sync_seqs_did:
  assumes "logs lg R" and "sync_seqs C R t cs x = Some y"
  shows "did lg (snd x) (snd y) [] [] 0"
proof (cases "cs_seqs cs = []")
  case True
  then show ?thesis using assms(2) by (simp add: sync_seqs_def did_refl)
next
  case False
  obtain wake z where z: "re_dispatch_seqs R (unat (cur_state (fst x))) t x = (wake, z)" by (rule prod.exhaust)
  then have "snd y = snd z"
    using False assms(2) by (cases z) (auto simp: sync_seqs_def run_seqs_def Let_def split: if_splits)
  then show ?thesis using did_one [of lg, OF logsD(8) [OF assms(1) z]] by simp
qed

lemma sync_pull_did:
  assumes "callbacks_ok C R" and "cmds_ok C" and "logs lg R" and "t \<noteq> nano_max" and "config_ok C (fst x)"
    and "sync_pull C R t cs x = Some (Inr y)"
  shows "\<exists>c. did lg (snd x) (snd y) c [] 0 \<and> subseq c (pre_of (fst x))"
proof (cases "y = x")
  case True
  then show ?thesis using did_refl [of lg "snd x"] by (auto intro!: exI [of _ "[]"])
next
  case False
  obtain s ncs ok1 x1 ok2 x2 where parts: "transition_pre_tasks R t ncs x = Some (ok1, x1)"
    "re_start_seqs R s t x1 = (ok2, x2)" "y = (if ok2 then snd (re_dispatch_seqs R s t x2) else x2)"
    using assms(6) False by (auto simp: sync_pull_def Let_def split: if_splits option.splits prod.splits)
  obtain c where c: "did lg (snd x) (snd x1) c [] 0" "subseq c (pre_of (fst x))"
    using pre_post_did(1) [OF assms(1-5) parts(1)] by blast
  have st: "did lg (snd x1) (snd x2) [] [] 0" using did_one [of lg, OF logsD(6) [OF assms(3) parts(2)]] by simp
  obtain n3 x3 where 3: "re_dispatch_seqs R s t x2 = (n3, x3)" by (rule prod.exhaust)
  have "did lg (snd x2) (snd y) [] [] 0"
    using did_one [of lg, OF logsD(8) [OF assms(3) 3]] did_refl [of lg "snd x2"] by (simp add: parts(3) 3)
  then show ?thesis using did_trans [OF did_trans [OF c(1) st]] c(2) by fastforce
qed

text \<open>
  The calls of a cycle, split where the dispatch of the tasks after the transition begins: before
  it at most one call of each of these tasks, after it none.
\<close>

lemma sync_dispatch_did:
  assumes "callbacks_ok C R" and "cmds_ok C" and "logs lg R" and "time_ok C (transition_period (fst x)) t"
    and "sync_ok C (fst x)" and "sync_dispatch C R t x = Some (wake, y)"
  shows "\<exists>w c1 c2 c3 d1 d2 n. did lg (snd x) w (c1 @ c2) d1 n \<and> did lg w (snd y) c3 d2 0 \<and> n \<le> 1 \<and>
    subseq c1 (pre_of (fst x)) \<and> subseq c2 (post_of (fst x)) \<and> subseq c3 (pre_of (fst x)) \<and>
    subseq d1 (pre_of (fst x)) \<and> subseq d2 (post_of (fst x)) \<and>
    (all_active R \<longrightarrow> d1 = pre_of (fst x) \<and> d2 = post_of (fst x))"
proof -
  have t: "t \<noteq> nano_max" using assms(4) by (simp add: time_ok_def)
  obtain moved part x1 where 1: "sync_begin C R t x = Some (moved, part, x1)" "idle C (fst x1)"
    "same_machine (fst x) (fst x1)"
    using sync_begin_runs [OF assms(1,2) t assms(5)] by blast
  have ok1: "machine_ok C (fst x1)" using 1(2) by (simp add: idle_def)
  then obtain cs where cs: "state_at (fst x1) (cur_state (fst x1)) = Some cs" "length (cs_cmds cs) = table_size C"
    using state_at_ok [of C "fst x1"] by (metis machine_ok_def not_le not_None_eq)
  obtain ok2 x2 where 2: "opt_call (moved \<and> part) (transition_post_tasks R t cs) x1 = Some (ok2, x2)" "kept C (fst x1) (fst x2)"
    using post_call_kept [OF assms(1,2) t] by blast
  have "transition_period (fst x2) = transition_period (fst x)"
    using 1(3) 2(2) by (simp add: kept_def same_machine_def)
  then obtain x3 where 3: "sync_seqs C R t cs x2 = Some x3" "kept C (fst x2) (fst x3)"
    using sync_seqs_kept [OF assms(1,2), of x2 t cs] assms(4) by metis
  obtain ok4 x4 where 4: "opt_call (moved \<and> \<not> part) (transition_post_tasks R t cs) x3 = Some (ok4, x4)" "kept C (fst x3) (fst x4)"
    using post_call_kept [OF assms(1,2) t] by blast
  have k3: "kept C (fst x1) (fst x3)" using kept_trans [OF 2(2) 3(2)] .
  have k4: "kept C (fst x1) (fst x4)" using kept_trans [OF k3 4(2)] .
  have cfg: "config_ok C (fst x1)" "config_ok C (fst x3)" "config_ok C (fst x4)"
    using k3 k4 ok1 by (simp_all add: kept_def machine_ok_def)
  obtain wake5 x5 where 5: "dispatch_post_tasks R t x4 = Some (wake5, x5)" "kept C (fst x4) (fst x5)"
    using runs_kept [OF assms(2) dispatch_pre_post_runs(2) [OF assms(1,2) cfg(3)]] by blast
  have k5: "kept C (fst x1) (fst x5)" using kept_trans [OF k4 5(2)] .
  then have ok5: "machine_ok C (fst x5)" using ok1 by (simp add: kept_def)
  obtain x6 where 6: "sync_pull C R t cs x5 = Some (Inr x6)"
    using sync_pull_kept [OF assms(1,2) t ok5 cs(2)] by blast
  have y: "snd y = snd x6"
    using assms(6) 1(1) cs(1) 2(1) 3(1) 4(1) 5(1) 6 by (cases x6) (auto simp: sync_dispatch_def)
  have tasks: "pre_of (fst z) = pre_of (fst x) \<and> post_of (fst z) = post_of (fst x)" if "z \<in> {x1, x3, x4, x5}" for z
    using that 1(3) k3 k4 k5 by (auto simp: kept_def same_machine_def)
  obtain c1 d1 n where a: "did lg (snd x) (snd x1) c1 d1 n" "subseq c1 (pre_of (fst x))" "subseq d1 (pre_of (fst x))"
    "all_active R \<longrightarrow> d1 = pre_of (fst x)" "n \<le> 1"
    using sync_begin_did [OF assms(1-3) t assms(5) 1(1)] by blast
  obtain c2 where b: "did lg (snd x1) (snd x2) c2 [] 0" "subseq c2 (if moved \<and> part then post_of (fst x1) else [])"
    using opt_call_did [OF 2(1)] pre_post_did(2) [OF assms(1-3) t cfg(1)] by metis
  have c: "did lg (snd x2) (snd x3) [] [] 0" by (rule sync_seqs_did [OF assms(3) 3(1)])
  obtain c4 where d: "did lg (snd x3) (snd x4) c4 [] 0" "subseq c4 (if moved \<and> \<not> part then post_of (fst x3) else [])"
    using opt_call_did [OF 4(1)] pre_post_did(2) [OF assms(1-3) t cfg(2)] by metis
  obtain d2 where e: "did lg (snd x4) (snd x5) [] d2 0" "subseq d2 (post_of (fst x4))" "all_active R \<longrightarrow> d2 = post_of (fst x4)"
    using pre_post_did(4) [OF assms(1-3) t cfg(3) 5(1)] by blast
  obtain c5 where f: "did lg (snd x5) (snd x6) c5 [] 0" "subseq c5 (pre_of (fst x5))"
    using sync_pull_did [OF assms(1-3) t _ 6] ok5 by (auto simp: machine_ok_def)
  have g: "did lg (snd x) (snd x4) (c1 @ (c2 @ c4)) d1 n"
    using did_trans [OF did_trans [OF did_trans [OF a(1) b(1)] c] d(1)] by simp
  have h: "did lg (snd x4) (snd y) c5 d2 0" using did_trans [OF e(1) f(1)] y by simp
  have "subseq (c2 @ c4) (post_of (fst x))"
    using b(2) d(2) tasks by (auto split: if_splits dest!: list_emb_Nil2)
  with g h show ?thesis
    using a(2-5) e(2,3) f(2) tasks [of x4] tasks [of x5] by (metis insertI1 insertI2)
qed

section \<open>The asynchronous machine\<close>

lemma min_nano_min [simp]: "min_nano nano_min b = nano_min"
  using nano_bounds(2) [of b] by (auto simp: min_nano_def word_sle_eq word_sless_alt)

lemma async_seqs_kept:
  assumes "callbacks_ok C R" and "cmds_ok C" and "time_ok C (transition_period (fst x)) t"
  shows "\<exists>n y. async_seqs C R t cs next_event x = Some (n, y) \<and> kept C (fst x) (fst y) \<and>
    (next_event = nano_min \<longrightarrow> n = nano_min)"
proof (cases "cs_seqs cs = []")
  case True
  then have "async_seqs C R t cs next_event x = Some (next_event, x)" by (simp add: async_seqs_def)
  then show ?thesis using kept_refl by blast
next
  case False
  obtain wake m w where call: "run_seqs R t x = (wake, (m, w))" by (metis prod.exhaust)
  have k: "kept C (fst x) m" using run_seqs_kept [OF assms(1,2) call] by simp
  then have "time_ok C (transition_period m) t" using assms(3) by (simp add: kept_def same_machine_def)
  then obtain ok r m' where h: "handle_cmd C t (timeout_cmd m) m = Some (ok, r, nominal_time m, m')" "kept C m m'"
    using handle_cmd_kept [OF assms(2)] by blast
  define out where "out = (if wake \<noteq> nano_max then (min_nano next_event wake, (m, w))
    else if ok \<and> r = Cmd_accept \<and> pending_cmd m' \<noteq> noop_index C then (nano_min, (m', w))
    else (min_nano next_event wake, (m', w)))"
  have "async_seqs C R t cs next_event x = Some out"
    using False call h(1) by (simp add: async_seqs_def out_def)
  moreover have "kept C (fst x) (fst (snd out))" using k kept_trans [OF k h(2)] by (simp add: out_def)
  moreover have "next_event = nano_min \<longrightarrow> fst out = nano_min" by (simp add: out_def)
  ultimately show ?thesis by (metis prod.collapse)
qed

lemma async_dispatch_runs:
  assumes "callbacks_ok C R" and "cmds_ok C" and "time_ok C (transition_period (fst x)) t" and "machine_ok C (fst x)"
  shows "\<exists>n y. async_dispatch C R t x = Some (n, y) \<and> machine_ok C (fst y) \<and> n \<le>s nominal_time (fst y) \<and>
    (pending_cmd (fst x) \<noteq> noop_index C \<and> nominal_time (fst x) \<le>s t \<longrightarrow> n = nano_min \<and> enters C R (fst x) (fst y))"
proof -
  have t: "t \<noteq> nano_max" using assms(3) by (simp add: time_ok_def)
  have cfg: "config_ok C (fst x)" using assms(4) by (simp add: machine_ok_def)
  obtain wake x1 where 1: "dispatch_pre_tasks R t x = Some (wake, x1)" "submits C (fst x) (fst x1)"
    using dispatch_pre_post_runs(1) [OF assms(1,2) cfg] by (rule runsE)
  note k1 = submits_keeps [OF assms(2) 1(2)]
  have ok1: "machine_ok C (fst x1)" by (rule k1(1) [OF assms(4)])
  have "\<exists>n2 x2. async_transition C R t (min_nano nano_max wake) x1 = Some (n2, x2) \<and> machine_ok C (fst x2) \<and>
      same_machine (fst x1) (fst x2) \<and>
      (nominal_time (fst x1) \<le>s t \<longrightarrow> n2 = nano_min \<and> enters C R (fst x1) (fst x2))"
  proof (cases "nominal_time (fst x1) \<le>s t")
    case True
    then have nom: "nominal_time (fst x1) \<noteq> nano_max" using sless_irrefl_max t by blast
    then have "pending_cmd (fst x1) \<noteq> noop_index C" using ok1 by (simp add: machine_ok_def)
    from handle_pending_runs [OF assms(1,2) nom ok1 this]
    obtain ok y where "handle_pending_cmd C R (nominal_time (fst x1)) True True True x1 = Some (ok, y)"
      "idle C (fst y)" "same_machine (fst x1) (fst y)" "enters C R (fst x1) (fst y)"
      unfolding enters_def by blast
    then show ?thesis using True by (auto simp: async_transition_def idle_def)
  next
    case False
    then have "async_transition C R t (min_nano nano_max wake) x1 = Some (min_nano nano_max wake, x1)"
      by (simp add: async_transition_def)
    then show ?thesis using False ok1 same_machine_refl by blast
  qed
  then obtain n2 x2 where 2: "async_transition C R t (min_nano nano_max wake) x1 = Some (n2, x2)" "machine_ok C (fst x2)"
    "same_machine (fst x1) (fst x2)" "nominal_time (fst x1) \<le>s t \<longrightarrow> n2 = nano_min \<and> enters C R (fst x1) (fst x2)" by blast
  obtain cs where cs: "state_at (fst x2) (cur_state (fst x2)) = Some cs"
    using 2(2) state_at_ok(1) [of C "fst x2"] by (metis machine_ok_def not_le not_None_eq)
  have "time_ok C (transition_period (fst x2)) t" using assms(3) k1(9) 2(3) by (simp add: same_machine_def)
  then obtain n3 x3 where 3: "async_seqs C R t cs n2 x2 = Some (n3, x3)" "kept C (fst x2) (fst x3)"
    "n2 = nano_min \<longrightarrow> n3 = nano_min"
    using async_seqs_kept [OF assms(1,2)] by blast
  have ok3: "machine_ok C (fst x3)" using 3(2) 2(2) by (simp add: kept_def)
  then have "config_ok C (fst x3)" by (simp add: machine_ok_def)
  then obtain wake4 x4 where 4: "dispatch_post_tasks R t x3 = Some (wake4, x4)" "kept C (fst x3) (fst x4)"
    using runs_kept [OF assms(2) dispatch_pre_post_runs(2) [OF assms(1,2)]] by blast
  let ?n = "min_nano (min_nano n3 wake4) (nominal_time (fst x4))"
  have run: "async_dispatch C R t x = Some (?n, x4)"
    using 1(1) 2(1) cs 3(1) 4(1) by (simp add: async_dispatch_def)
  have ok4: "machine_ok C (fst x4)" using 4(2) ok3 by (simp add: kept_def)
  have "?n = nano_min \<and> enters C R (fst x) (fst x4)"
    if "pending_cmd (fst x) \<noteq> noop_index C" "nominal_time (fst x) \<le>s t"
  proof -
    have same: "fst x1 = fst x" by (rule k1(15) [OF that(1)])
    then have "n3 = nano_min" "enters C R (fst x) (fst x2)" using 2(4) 3(3) that(2) by auto
    moreover have "kept C (fst x2) (fst x4)" using kept_trans [OF 3(2) 4(2)] .
    ultimately show ?thesis unfolding enters_def kept_def by auto
  qed
  then show ?thesis using run ok4 min_nano_le(2) by blast
qed

section \<open>An instance\<close>

text \<open>
  Every callback records its call. Task 20 submits command 2 whenever it is dispatched. The machine
  has task 10 before the transition and task 20 after it; command 2 leads from state 0 to 1 and from
  1 to 2.
\<close>

definition note_call :: "nat call_event \<Rightarrow> (u32, nat, nat, nat call_event list) mstate \<Rightarrow> bool \<times> (u32, nat, nat, nat call_event list) mstate" where
  "note_call e x = (True, (fst x, snd x @ [e]))"

definition submit_go :: "nano \<Rightarrow> (u32, nat, nat) machine \<Rightarrow> (u32, nat, nat) machine" where
  "submit_go t m = (if t = nano_max then m
     else (case handle_cmd demo_cmds t 2 m of None \<Rightarrow> m | Some (_, _, _, m') \<Rightarrow> m'))"

definition demo_run :: "(u32, nat, nat, nat call_event list) run_env" where
  "demo_run = \<lparr>re_verbose = False, re_start = (\<lambda>k t a. note_call (Task_call k On_cstate t)),
     re_stop = (\<lambda>k t. note_call (Task_call k Off_cstate t)), re_cont = (\<lambda>k t. note_call (Task_call k Cont_cstate t)),
     re_cmd = (\<lambda>k t a. note_call (Task_call k Cmd_cstate t)), re_active = (\<lambda>k w. True),
     re_dispatch = (\<lambda>k t (m, w). (nano_max, (if k = 20 then submit_go t m else m, w @ [Task_dispatched k t]))),
     re_start_seqs = (\<lambda>s t. note_call (Seqs_started s t)), re_end_seqs = (\<lambda>s. note_call (Seqs_ended s)),
     re_dispatch_seqs = (\<lambda>s t x. (nano_max, snd (note_call (Seqs_dispatched s t) x))), re_seq_time = (\<lambda>s w. 0),
     re_signal = (\<lambda>n x. snd (note_call (State_signal n) x)), re_to_nano = (\<lambda>b. b)\<rparr>"

definition task_state :: "u32 \<Rightarrow> nat control_state" where
  "task_state go = \<lparr>cs_cmds = [undefined_state, undefined_state, go, undefined_state],
     cs_tasks = [\<lparr>ti_init = True, ti_state = On_cstate, ti_args = []\<rparr>, \<lparr>ti_init = True, ti_state = On_cstate, ti_args = []\<rparr>],
     cs_seqs = [], cs_duration = 0, timeout_ignored = True, multi_seq_devices = {}\<rparr>"

definition demo_tasks :: "(u32, nat, nat) machine" where
  "demo_tasks = (machine_new 10 0 (symtab_new False 0 []) 1)\<lparr>sm_is_init := True, sm_tasks := [10, 20], num_pre_tasks := 1,
     sm_states := [Some (task_state 1), Some (task_state 2), Some (task_state ignore_state)], nominal_time := nano_max\<rparr>"

lemma demo_callbacks: "callbacks_ok demo_cmds demo_run"
proof -
  have "submits demo_cmds m (submit_go t m)" for t m
    by (auto simp: submit_go_def split: option.splits prod.splits intro: submits.intros submits_cmd [OF submits_refl])
  then show ?thesis
    by (auto simp: callbacks_ok_def demo_run_def note_call_def intro: submits_refl)
qed

lemma demo_logs: "logs (\<lambda>w. w) demo_run" and demo_cmds_ok: "cmds_ok demo_cmds" and demo_active: "all_active demo_run"
  by (auto simp: logs_def demo_run_def note_call_def cmds_ok_def demo_cmds_def all_active_def)

lemma demo_tasks_ok: "sync_ok demo_cmds demo_tasks"
  by (simp add: sync_ok_def machine_ok_def config_ok_def demo_tasks_def machine_new_def task_state_def demo_cmds_def)

lemma demo_time: "time_ok demo_cmds 10 25"
  by (simp add: time_ok_def demo_cmds_def nano_max_def word_sless_alt word_sle_eq)

lemma demo_cycle:
  "map_option (\<lambda>(n, (m, w)). (n, w, cur_state m, pending_cmd m))
     (sync_dispatch demo_cmds demo_run 25 (demo_tasks\<lparr>pending_cmd := 2, nominal_time := 20\<rparr>, [])) =
   Some (nano_max, [Task_dispatched 10 25, Task_call 10 On_cstate 25, Seqs_ended 0, State_signal ''unknown'',
     Task_call 20 On_cstate 25, Task_dispatched 20 25, Task_call 10 On_cstate 25, Seqs_started 2 25, Seqs_dispatched 2 25], 1, 2)"
  by code_simp

lemma demo_pending_ok: "sync_ok demo_cmds (demo_tasks\<lparr>pending_cmd := 2, nominal_time := 20\<rparr>)"
  using demo_tasks_ok by (simp add: sync_ok_def machine_ok_def config_ok_def demo_cmds_def demo_tasks_def machine_new_def nano_max_def)

section \<open>Properties\<close>




text \<open>
  C20: an accepted command is carried out by the next cycle. If a command between two cycles is
  accepted and neither ignored nor empty, the next cycle leaves the machine in the state the
  command leads to, with the state before as the old state.
\<close>

theorem accepted_command_executed:
  assumes "callbacks_ok C R" and "cmds_ok C" and "sync_ok C m" and "time_ok C (transition_period m) t"
    and "time_ok C (transition_period m) t'" and "handle_cmd C t c m = Some (ok, Cmd_accept, retry_at, m')"
    and "\<not> cmd_noop C c" and "state_at m (cur_state m) = Some cs"
    and "cs_cmds cs ! unat (cmd_index C c) \<noteq> ignore_state" and "lookup_cmd_index C (cmd_index C c) \<noteq> None"
  shows "\<exists>m'' w'. sync_dispatch C R t' (m', w) = Some (nano_max, (m'', w')) \<and>
    cur_state m'' = cs_cmds cs ! unat (cmd_index C c) \<and> old_state m'' = cur_state m"
proof -
  let ?i = "cmd_index C c"
  have sub: "submits C m m'" using submits_cmd [OF submits_refl] assms(4,6) by (metis time_ok_def)
  have pend: "pending_cmd m = noop_index C \<and> unat ?i < length (cs_cmds cs) \<and> cs_cmds cs ! unat ?i \<noteq> undefined_state \<and>
      unat (cs_cmds cs ! unat ?i) < length (sm_states m) \<and> pending_cmd m' = ?i"
    using assms(6-9)
    by (auto simp: handle_cmd_def set_nominal_transition_time_def Let_def split: if_splits)
  have "leads m' ?i (cs_cmds cs ! unat ?i)"
    using pend assms(8,9) submits_keeps(4,6,13) [OF assms(2) sub] by (simp add: leads_def)
  moreover have "?i \<noteq> noop_index C" using assms(2,7) by (auto simp: cmds_ok_def)
  moreover have "time_ok C (transition_period m') t'" using assms(5) submits_keeps(9) [OF assms(2) sub] by simp
  moreover have "sync_ok C m'" by (rule submits_keeps(2) [OF assms(2) sub assms(3)])
  ultimately obtain y where "sync_dispatch C R t' (m', w) = Some (nano_max, y)" "enters C R m' (fst y)"
      "leads m' ?i (cs_cmds cs ! unat ?i)" "?i \<noteq> noop_index C"
    using sync_dispatch_runs [OF assms(1,2), of "(m', w)" t'] unfolding fst_conv by blast
  then have "cur_state (fst y) = cs_cmds cs ! unat ?i \<and> old_state (fst y) = cur_state m'"
    using pend assms(10) by (simp add: enters_def)
  then have "cur_state (fst y) = cs_cmds cs ! unat ?i \<and> old_state (fst y) = cur_state m"
    using submits_keeps(4) [OF assms(2) sub] by simp
  then show ?thesis using \<open>sync_dispatch C R t' (m', w) = Some (nano_max, y)\<close> by (cases y) auto
qed

theorem accepted_command_executed_witness:
  "\<exists>m' m'' w'. handle_cmd demo_cmds 25 2 demo_tasks = Some (True, Cmd_accept, nano_max, m') \<and>
     sync_dispatch demo_cmds demo_run 25 (m', []) = Some (nano_max, (m'', w')) \<and> cur_state m'' = 1"
proof -
  have per: "transition_period demo_tasks = 10" by (simp add: demo_tasks_def machine_new_def)
  have at: "state_at demo_tasks (cur_state demo_tasks) = Some (task_state 1)"
    by (simp add: state_at_def demo_tasks_def machine_new_def)
  have "handle_cmd demo_cmds 25 2 demo_tasks = Some (True, Cmd_accept, nano_max, demo_tasks\<lparr>pending_cmd := 2, nominal_time := 20\<rparr>)"
    using at by (simp add: handle_cmd_def Let_def task_state_def demo_cmds_def set_nominal_transition_time_def demo_tasks_def
        machine_new_def ignore_state_def undefined_state_def word_sless_alt word_sle_eq)
  moreover have "cs_cmds (task_state 1) ! unat (cmd_index demo_cmds 2) = 1"
    by (simp add: task_state_def demo_cmds_def)
  moreover have "\<not> cmd_noop demo_cmds 2" "lookup_cmd_index demo_cmds (cmd_index demo_cmds 2) \<noteq> None" "(1 :: u32) \<noteq> ignore_state"
    by (simp_all add: demo_cmds_def lookup_cmd_index_def ignore_state_def)
  ultimately show ?thesis
    using accepted_command_executed [OF demo_callbacks demo_cmds_ok demo_tasks_ok _ _ _ _ at, of 25 25 2 True nano_max _ "[]"]
      demo_time per by auto
qed

text \<open>
  C21: the guarantees of a cycle. In every cycle at most one change of state is signalled; the tasks
  are dispatched at most once each and in their order, each exactly once if all are active; and
  the tasks after the transition are started, stopped or commanded at most once, before any of them
  is dispatched.
\<close>

theorem cycle_guarantees:
  assumes "callbacks_ok C R" and "cmds_ok C" and "logs lg R" and "time_ok C (transition_period m) t"
    and "sync_ok C m" and "distinct (sm_tasks m)" and "sync_dispatch C R t (m, w) = Some (wake, (m', w'))"
  shows "\<exists>a b. lg w' = lg w @ a @ b \<and> signals (a @ b) \<le> 1 \<and>
    subseq (dispatches (a @ b)) (sm_tasks m) \<and> (all_active R \<longrightarrow> dispatches (a @ b) = sm_tasks m) \<and>
    (\<forall>k\<in>set (post_of m). count_list (calls a) k \<le> 1 \<and> k \<notin> set (dispatches a) \<and> k \<notin> set (calls b))"
proof -
  obtain v c1 c2 c3 d1 d2 n where d: "did lg w v (c1 @ c2) d1 n" "did lg v w' c3 d2 0" "n \<le> 1"
    "subseq c1 (pre_of m)" "subseq c2 (post_of m)" "subseq c3 (pre_of m)" "subseq d1 (pre_of m)" "subseq d2 (post_of m)"
    "all_active R \<longrightarrow> d1 = pre_of m \<and> d2 = post_of m"
    using sync_dispatch_did [OF assms(1-3), of "(m, w)" t wake "(m', w')"] assms(4,5,7) by auto
  obtain a b where ab: "lg w' = lg w @ a @ b" "calls a = c1 @ c2" "dispatches a = d1" "signals a = n"
    "calls b = c3" "dispatches b = d2" "signals b = 0"
    using d(1,2) unfolding did_def by auto
  have disjoint: "k \<notin> set (pre_of m)" if "k \<in> set (post_of m)" for k
    using that assms(6) by (metis append_take_drop_id disjoint_iff distinct_append)
  have "subseq (d1 @ d2) (sm_tasks m)" using list_emb_append_mono [OF d(7,8)] by simp
  moreover have "count_list (c1 @ c2) k \<le> 1 \<and> k \<notin> set d1 \<and> k \<notin> set c3" if "k \<in> set (post_of m)" for k
  proof -
    have "k \<notin> set c1" "k \<notin> set d1" "k \<notin> set c3"
      using disjoint [OF that] d(4,6,7) by (auto dest: list_emb_set)
    moreover have "distinct c2" using d(5) assms(6) by (metis distinct_drop distinct_subseq)
    ultimately show ?thesis using distinct_count_list [of c2 k] by (simp add: count_list_0_iff)
  qed
  ultimately show ?thesis using ab d(3,9) by (intro exI [of _ a] exI [of _ b]) auto
qed

theorem cycle_guarantees_witness:
  "\<exists>m' w' a b. sync_dispatch demo_cmds demo_run 25 (demo_tasks\<lparr>pending_cmd := 2, nominal_time := 20\<rparr>, []) = Some (nano_max, (m', w')) \<and>
     w' = a @ b \<and> signals (a @ b) = 1 \<and> dispatches (a @ b) = [10, 20] \<and> 20 \<notin> set (calls b)"
proof -
  let ?m = "demo_tasks\<lparr>pending_cmd := 2, nominal_time := 20\<rparr>"
  have m: "transition_period ?m = 10" "sm_tasks ?m = [10, 20]" "post_of ?m = [20]"
    by (simp_all add: demo_tasks_def machine_new_def)
  obtain m' w' where run: "sync_dispatch demo_cmds demo_run 25 (?m, []) = Some (nano_max, (m', w'))"
    and w': "w' = [Task_dispatched 10 25, Task_call 10 On_cstate 25, Seqs_ended 0, State_signal ''unknown'',
      Task_call 20 On_cstate 25, Task_dispatched 20 25, Task_call 10 On_cstate 25, Seqs_started 2 25, Seqs_dispatched 2 25]"
    using demo_cycle by auto
  have one: "signals w' = 1" by (simp add: w')
  obtain a b where "w' = a @ b" "dispatches (a @ b) = [10, 20]" "20 \<notin> set (calls b)"
    using cycle_guarantees [OF demo_callbacks demo_cmds_ok demo_logs _ demo_pending_ok _ run] m demo_time demo_active by auto
  then show ?thesis using run one by auto
qed

text \<open>
  The tasks before the transition can be called twice in one cycle. A command is pending when
  the cycle begins and a task after the transition submits another one: the first transition
  starts task 10, and so does the early start of the second.
\<close>

theorem pre_task_called_twice:
  "\<exists>m' w'. sync_ok demo_cmds (demo_tasks\<lparr>pending_cmd := 2, nominal_time := 20\<rparr>) \<and>
     sync_dispatch demo_cmds demo_run 25 (demo_tasks\<lparr>pending_cmd := 2, nominal_time := 20\<rparr>, []) = Some (nano_max, (m', w')) \<and>
     count_list (calls w') 10 = 2"
  using demo_cycle demo_pending_ok by auto

text \<open>
  Wake-up times of the asynchronous machine. A dispatch never fails an assertion and never
  asks to be called later than the pending transition. If a transition was due it has been made, and
  the next call is wanted at once.
\<close>

theorem async_dispatch_wakes:
  assumes "callbacks_ok C R" and "cmds_ok C" and "machine_ok C m" and "time_ok C (transition_period m) t"
  shows "\<exists>n m' w'. async_dispatch C R t (m, w) = Some (n, (m', w')) \<and> machine_ok C m' \<and> n \<le>s nominal_time m' \<and>
    (\<forall>ns. pending_cmd m \<noteq> noop_index C \<and> nominal_time m \<le>s t \<and> leads m (pending_cmd m) ns \<and>
       lookup_cmd_index C (pending_cmd m) \<noteq> None \<longrightarrow>
     n = nano_min \<and> cur_state m' = ns \<and> old_state m' = cur_state m)"
proof -
  obtain n y where "async_dispatch C R t (m, w) = Some (n, y)" "machine_ok C (fst y)" "n \<le>s nominal_time (fst y)"
    "pending_cmd m \<noteq> noop_index C \<and> nominal_time m \<le>s t \<longrightarrow> n = nano_min \<and> enters C R m (fst y)"
    using async_dispatch_runs [OF assms(1,2), of "(m, w)" t] assms(3,4) unfolding fst_conv by blast
  then show ?thesis by (cases y) (auto simp: enters_def)
qed

theorem async_dispatch_wakes_witness:
  "\<exists>m' w'. async_dispatch demo_cmds demo_run 25 (demo_tasks\<lparr>pending_cmd := 2, nominal_time := 20\<rparr>, []) = Some (nano_min, (m', w')) \<and>
     cur_state m' = 1"
proof -
  let ?m = "demo_tasks\<lparr>pending_cmd := 2, nominal_time := 20\<rparr>"
  have "machine_ok demo_cmds ?m" "time_ok demo_cmds (transition_period ?m) 25"
    using demo_pending_ok demo_time by (simp_all add: sync_ok_def demo_tasks_def machine_new_def)
  moreover have "leads ?m 2 1"
    by (simp add: leads_def state_at_def demo_tasks_def machine_new_def task_state_def undefined_state_def ignore_state_def)
  moreover have "lookup_cmd_index demo_cmds 2 \<noteq> None" "(2 :: u32) \<noteq> noop_index demo_cmds" "(20 :: nano) \<le>s 25"
    by (simp_all add: lookup_cmd_index_def demo_cmds_def word_sle_eq)
  ultimately show ?thesis
    using async_dispatch_wakes [OF demo_callbacks demo_cmds_ok, of ?m 25 "[]"] by auto
qed

end
