(* ===== verification/Machine_Init.thy ===== *)
theory Machine_Init
  imports Machine_Cycle
begin

text \<open>
  Initialization in \<^verbatim>\<open>StateMachine.cc\<close>: slate elements and event sequences first (\<open>init_storage\<close>), then
  the state files, their checks, and the initial state (\<open>sm_init\<close>). Files are parameters that give
  their lines as lists of words; \<open>None\<close> is a file that cannot be found or opened.
\<close>

section \<open>Parameters\<close>

datatype flavor = Async_machine | Sync_machine | Settable_machine

record ('c, 'k, 'es, 'q, 'e, 'st) init_env =
  ie_flavor :: flavor
  config_file :: "string \<Rightarrow> string option"
  read_word_file :: "string \<Rightarrow> string list option"
  read_sections_file :: "string \<Rightarrow> (string \<times> string list list) list option"
  file_lines :: "string \<Rightarrow> string list list option"
  cstate_table :: symtab
  cstate_of :: "u32 \<Rightarrow> cstate"
  new_seq :: 'es
  seq_init_storage :: "('q, 'e) builder \<Rightarrow> 'es \<Rightarrow> 'st \<Rightarrow> bool \<times> 'es \<times> 'st"
  seq_read :: "string \<Rightarrow> 'es \<Rightarrow> bool \<times> 'es"
  new_state :: "'es control_state"
  cs_init :: "nat \<Rightarrow> nat \<Rightarrow> u32 \<Rightarrow> string \<Rightarrow> 'es control_state \<Rightarrow> bool \<times> 'es control_state"
  validate_sequences :: "'es control_state \<Rightarrow> bool \<times> 'es control_state"
  validate_cmd :: "'k \<Rightarrow> string list \<Rightarrow> u32 list \<Rightarrow> bool"
  validate_start :: "'k \<Rightarrow> string list \<Rightarrow> u32 list \<Rightarrow> bool"
  validate_stop :: "'k \<Rightarrow> bool"
  state_crc :: "string \<Rightarrow> u32"

section \<open>Storage\<close>

definition machine_plan :: "('id, 'pm, 'v, 'q, 'e, 'w) setup_env \<Rightarrow> 'c cmd_env \<Rightarrow> setup_op list" where
  "machine_plan U C =
     [Create_value ''event_sequence_time'' T_double ''event_sequence_time'' (V_double 0) (su_sync U) Slate_read_only,
      Create_private_value ''old_state'' T_int32 ''old_state'' (V_int32 (- 1)) (su_sync U),
      Create_private_value ''older_state'' T_int32 ''older_state'' (V_int32 (- 1)) (su_sync U),
      Create_value ''cur_state'' T_int32 ''current_state'' (V_int32 0) (su_sync U) Slate_read_only,
      Create_private_value ''pending_cmd_index'' T_uint32 ''pending_cmd_index'' (V_uint32 (noop_index C)) (su_sync U),
      Create_private_value ''nominal_transition_time'' T_int64 ''nominal_transition_time'' (V_int64 nano_max) (su_sync U)]"

definition flavor_plan :: "('id, 'pm, 'v, 'q, 'e, 'w) setup_env \<Rightarrow> 'c cmd_env \<Rightarrow> flavor \<Rightarrow> setup_op list" where
  "flavor_plan U C fl =
     (if fl = Async_machine then []
      else [Create_private_value ''last_pending_cmd_index'' T_uint32 ''last_pending_cmd_index'' (V_uint32 (noop_index C)) (su_sync U)])"

text \<open>The values of the elements once they exist.\<close>

definition initial_values :: "'c cmd_env \<Rightarrow> ('c, 'k, 'es) machine \<Rightarrow> ('c, 'k, 'es) machine" where
  "initial_values C m = m\<lparr>seq_time := 0, old_state := - 1, older_state := - 1, cur_state := 0,
     pending_cmd := noop_index C, nominal_time := nano_max, last_pending := noop_index C\<rparr>"

fun add_states :: "string list \<Rightarrow> nat \<Rightarrow> symtab \<Rightarrow> bool \<times> symtab" where
  "add_states [] i t = (True, t)"
| "add_states (n # ns) i t =
     (case add n (word_of_nat i) t of (ok, t') \<Rightarrow> if \<not> ok then (False, t') else add_states ns (Suc i) t')"

text \<open>The sequences of a state are a \<^verbatim>\<open>std::map\<close>, iterated in the order of the names.\<close>

fun str_less :: "string \<Rightarrow> string \<Rightarrow> bool" where
  "str_less [] [] \<longleftrightarrow> False"
| "str_less [] (_ # _) \<longleftrightarrow> True"
| "str_less (_ # _) [] \<longleftrightarrow> False"
| "str_less (a # as) (b # bs) \<longleftrightarrow> (of_char a :: nat) < of_char b \<or> a = b \<and> str_less as bs"

fun seq_insert :: "string \<Rightarrow> 'es \<Rightarrow> (string \<times> 'es) list \<Rightarrow> (string \<times> 'es) list" where
  "seq_insert k v [] = [(k, v)]"
| "seq_insert k v ((k', v') # m) =
     (if k = k' then (k, v) # m else if str_less k k' then (k, v) # (k', v') # m else (k', v') # seq_insert k v m)"

fun add_seqs ::
  "('c, 'k, 'es, 'q, 'e, ('id, 'w) bstate) init_env \<Rightarrow> ('id, 'pm, 'v, 'q, 'e, 'w) setup_env \<Rightarrow> ('q, 'e) builder \<Rightarrow>
   nat \<Rightarrow> string list \<Rightarrow> 'es control_state \<Rightarrow> ('id, 'w) bstate \<Rightarrow>
   (bool \<times> 'es control_state \<times> ('id, 'w) bstate) option" where
  "add_seqs I U sub i [] cs st = Some (True, cs, st)"
| "add_seqs I U sub i (w # ws) cs st =
     (if w \<in> fst ` set (cs_seqs cs) then Some (False, cs, st)
      else
        (case sub_slate_at (su_builder U) (''seq_'' @ nat_dec i) sub of
           None \<Rightarrow> None
         | Some b \<Rightarrow>
             (case seq_init_storage I b (new_seq I) st of
                (ok, es, st') \<Rightarrow>
                  let cs' = cs\<lparr>cs_seqs := seq_insert w es (cs_seqs cs)\<rparr> in
                  if \<not> ok then Some (False, cs', st') else add_seqs I U sub (Suc i) ws cs' st')))"

text \<open>One line of a state file; the second result is \<open>seq_seen\<close>.\<close>

definition initialize_line ::
  "('c, 'k, 'es, 'q, 'e, ('id, 'w) bstate) init_env \<Rightarrow> ('id, 'pm, 'v, 'q, 'e, 'w) setup_env \<Rightarrow> ('q, 'e) builder \<Rightarrow>
   string list \<Rightarrow> bool \<Rightarrow> 'es control_state \<Rightarrow> ('id, 'w) bstate \<Rightarrow>
   (bool \<times> bool \<times> 'es control_state \<times> ('id, 'w) bstate) option" where
  "initialize_line I U sub words seen cs st =
     (if words = [] then None
      else if hd words = [] then None
      else if hd (hd words) = CHR ''#'' then Some (True, seen, cs, st)
      else if hd words = ''seq'' then
        (if seen then Some (False, seen, cs, st)
         else if length words < 2 then Some (False, True, cs, st)
         else map_option (\<lambda>(ok, cs', st'). (ok, True, cs', st')) (add_seqs I U sub 1 (tl words) cs st))
      else if hd words = ''cmd'' then Some (True, seen, cs, st)
      else if hd words = ''task'' then Some (True, seen, cs, st)
      else Some (False, seen, cs, st))"

fun initialize_lines ::
  "('c, 'k, 'es, 'q, 'e, ('id, 'w) bstate) init_env \<Rightarrow> ('id, 'pm, 'v, 'q, 'e, 'w) setup_env \<Rightarrow> ('q, 'e) builder \<Rightarrow>
   string list list \<Rightarrow> bool \<Rightarrow> 'es control_state \<Rightarrow> ('id, 'w) bstate \<Rightarrow>
   (bool \<times> 'es control_state \<times> ('id, 'w) bstate) option" where
  "initialize_lines I U sub [] seen cs st = Some (True, cs, st)"
| "initialize_lines I U sub (words # lines) seen cs st =
     (case initialize_line I U sub words seen cs st of
        None \<Rightarrow> None
      | Some (ok, seen', cs', st') \<Rightarrow>
          if \<not> ok then Some (False, cs', st') else initialize_lines I U sub lines seen' cs' st')"

definition initialize_state_from_file ::
  "('c, 'k, 'es, 'q, 'e, ('id, 'w) bstate) init_env \<Rightarrow> ('id, 'pm, 'v, 'q, 'e, 'w) setup_env \<Rightarrow> ('q, 'e) builder \<Rightarrow>
   nat \<Rightarrow> ('c, 'k, 'es) machine \<Rightarrow> ('id, 'w) bstate \<Rightarrow> (bool \<times> ('c, 'k, 'es) machine \<times> ('id, 'w) bstate) option" where
  "initialize_state_from_file I U b i m st =
     (if i \<ge> length (state_names m) \<or> i \<ge> length (sm_states m) then Some (False, m, st)
      else
        (case sm_states m ! i of
           None \<Rightarrow> None
         | Some cs \<Rightarrow>
        (case config_file I (state_names m ! i @ ''.state'') of
           None \<Rightarrow> Some (False, m, st)
         | Some file \<Rightarrow>
        (case Option.bind (sub_slate_at (su_builder U) (''sm_'' @ sm_role m) b)
                (sub_slate_at (su_builder U) (''state_'' @ nat_dec (i + 1))) of
           None \<Rightarrow> None
         | Some sub \<Rightarrow>
        (case file_lines I file of
           None \<Rightarrow> Some (False, m, st)
         | Some lines \<Rightarrow>
             map_option (\<lambda>(ok, cs', st'). (ok, m\<lparr>sm_states := (sm_states m)[i := Some cs']\<rparr>, st'))
               (initialize_lines I U sub lines False cs st))))))"

fun initialize_states ::
  "('c, 'k, 'es, 'q, 'e, ('id, 'w) bstate) init_env \<Rightarrow> ('id, 'pm, 'v, 'q, 'e, 'w) setup_env \<Rightarrow> ('q, 'e) builder \<Rightarrow>
   nat list \<Rightarrow> ('c, 'k, 'es) machine \<Rightarrow> ('id, 'w) bstate \<Rightarrow> (bool \<times> ('c, 'k, 'es) machine \<times> ('id, 'w) bstate) option" where
  "initialize_states I U b [] m st = Some (True, m, st)"
| "initialize_states I U b (i # is) m st =
     (case initialize_state_from_file I U b i (m\<lparr>sm_states := (sm_states m)[i := Some (new_state I)]\<rparr>) st of
        None \<Rightarrow> None
      | Some (ok, m', st') \<Rightarrow> if \<not> ok then Some (False, m', st') else initialize_states I U b is m' st')"

text \<open>The part of \<open>init_storage\<close> after the slate elements.\<close>

definition read_master ::
  "'c cmd_env \<Rightarrow> ('c, 'k, 'es, 'q, 'e, ('id, 'w) bstate) init_env \<Rightarrow> ('id, 'pm, 'v, 'q, 'e, 'w) setup_env \<Rightarrow> ('q, 'e) builder \<Rightarrow>
   ('c, 'k, 'es) machine \<Rightarrow> ('id, 'w) bstate \<Rightarrow> (bool \<times> ('c, 'k, 'es) machine \<times> ('id, 'w) bstate) option" where
  "read_master C I U b m st =
     (case table_lookup C ''timeout'' of
        None \<Rightarrow> Some (False, m, st)
      | Some c \<Rightarrow>
          let m1 = m\<lparr>timeout_cmd := c\<rparr> in
          (case Option.bind (config_file I (sm_role m1 @ ''.master'')) (read_word_file I) of
             None \<Rightarrow> Some (False, m1, st)
           | Some names \<Rightarrow>
               let m2 = m1\<lparr>state_names := names\<rparr> in
               if names = [] then Some (False, m2, st)
               else
                 (case add_states names 0 (state_sym m2) of
                    (ok, t) \<Rightarrow>
                      let m3 = m2\<lparr>state_sym := t\<rparr> in
                      if \<not> ok then Some (False, m3, st)
                      else if \<not> distinct names then Some (False, m3, st)
                      else
                        (case add ''ignore'' ignore_state t of
                           (ok2, t2) \<Rightarrow>
                             let m4 = m3\<lparr>state_sym := t2\<rparr> in
                             if \<not> ok2 then Some (False, m4, st)
                             else
                               (case initialize_states I U b [0..<length names]
                                       (m4\<lparr>sm_states := replicate (length names) None\<rparr>) st of
                                  None \<Rightarrow> None
                                | Some (False, m5, st') \<Rightarrow> Some (False, m5, st')
                                | Some (True, m5, st') \<Rightarrow> Some (True, m5\<lparr>sm_is_init_storage := True\<rparr>, st'))))))"

definition init_storage ::
  "'c cmd_env \<Rightarrow> ('c, 'k, 'es, 'q, 'e, ('id, 'w) bstate) init_env \<Rightarrow> ('id, 'pm, 'v, 'q, 'e, 'w) setup_env \<Rightarrow> ('q, 'e) builder \<Rightarrow>
   string \<Rightarrow> ('c, 'k, 'es) machine \<Rightarrow> 'id tok_table \<Rightarrow> ('id, 'w) bstate \<Rightarrow>
   (bool \<times> ('c, 'k, 'es) machine \<times> 'id tok_table \<times> ('id, 'w) bstate) option" where
  "init_storage C I U b role m toks st =
     (if sm_is_init m then Some (False, m, toks, st)
      else if sm_is_init_storage m then Some (False, m, toks, st)
      else
        let m1 = m\<lparr>sm_role := role, sm_name := role\<rparr> in
        (case sub_slate_at (su_builder U) (''sm_'' @ role) b of
           None \<Rightarrow> None
         | Some sub \<Rightarrow>
        (case run_setup U sub (machine_plan U C @ flavor_plan U C (ie_flavor I)) (toks, st) of
           None \<Rightarrow> None
         | Some (False, toks1, st1) \<Rightarrow> Some (False, m1, toks1, st1)
         | Some (True, toks1, st1) \<Rightarrow>
             map_option (\<lambda>(ok, m', st'). (ok, m', toks1, st')) (read_master C I U b (initial_values C m1) st1))))"

section \<open>State files\<close>

definition parse_state_transitions ::
  "'c cmd_env \<Rightarrow> flavor \<Rightarrow> ('c, 'k, 'es) machine \<Rightarrow> string list \<Rightarrow> ('c \<times> u32) option" where
  "parse_state_transitions C fl m words =
     (if length words \<noteq> 3 then None
      else
        (case lookup_cmd C (words ! 1) of
           None \<Rightarrow> None
         | Some cmd \<Rightarrow>
             if fl = Settable_machine \<and> sublist ''uncontrollable'' (words ! 1) then Some (cmd, ignore_state)
             else map_option (Pair cmd) (lookup_state m (words ! 2))))"

definition cmd_line ::
  "'c cmd_env \<Rightarrow> flavor \<Rightarrow> 'c \<Rightarrow> ('c, 'k, 'es) machine \<Rightarrow> string list \<Rightarrow> 'es control_state \<Rightarrow>
   (bool \<times> 'es control_state) option" where
  "cmd_line C fl alarm_cmd m words cs =
     (case parse_state_transitions C fl m words of
        None \<Rightarrow> Some (False, cs)
      | Some (cmd, target) \<Rightarrow>
          let i = unat (cmd_index C cmd) in
          if i \<ge> length (cs_cmds cs) then None
          else if target = 0 then Some (False, cs)
          else if cmd_invalid C cmd \<or> cmd_noop C cmd \<or> cmd = alarm_cmd then Some (False, cs)
          else if cs_cmds cs ! i \<noteq> undefined_state then Some (False, cs)
          else Some (True, cs\<lparr>cs_cmds := (cs_cmds cs)[i := target]\<rparr>))"

definition task_line ::
  "('c, 'k, 'es, 'q, 'e, 'st) init_env \<Rightarrow> ('c, 'k, 'es) machine \<Rightarrow> string list \<Rightarrow> 'es control_state \<Rightarrow>
   (bool \<times> 'es control_state) option" where
  "task_line I m words cs =
     (if \<not> length words \<ge> 3 then Some (False, cs)
      else
        (case lookup_ctask m (words ! 1) of
           None \<Rightarrow> Some (False, cs)
         | Some t \<Rightarrow>
        (case lookup_cstate (cstate_table I) (cstate_of I) (words ! 2) of
           None \<Rightarrow> Some (False, cs)
         | Some t_state \<Rightarrow>
             if unat t \<ge> length (cs_tasks cs) then None
             else
               let ti = cs_tasks cs ! unat t in
               if ti_init ti then Some (False, cs)
               else if (t_state = Off_cstate \<or> t_state = Cont_cstate) \<and> length words \<noteq> 3 then Some (False, cs)
               else
                 let args = (if t_state = Cmd_cstate \<or> t_state = On_cstate then ti_args ti @ drop 3 words else ti_args ti)
                 in Some (True, cs\<lparr>cs_tasks := (cs_tasks cs)[unat t := \<lparr>ti_init = True, ti_state = t_state, ti_args = args\<rparr>]\<rparr>))))"

definition finalize_line ::
  "'c cmd_env \<Rightarrow> ('c, 'k, 'es, 'q, 'e, 'st) init_env \<Rightarrow> 'c \<Rightarrow> ('c, 'k, 'es) machine \<Rightarrow> string list \<Rightarrow> 'es control_state \<Rightarrow>
   (bool \<times> 'es control_state) option" where
  "finalize_line C I alarm_cmd m words cs =
     (if words = [] then None
      else if hd words = [] then None
      else if hd words = ''cmd'' then cmd_line C (ie_flavor I) alarm_cmd m words cs
      else if hd words = ''task'' then task_line I m words cs
      else Some (True, cs))"

fun finalize_lines ::
  "'c cmd_env \<Rightarrow> ('c, 'k, 'es, 'q, 'e, 'st) init_env \<Rightarrow> 'c \<Rightarrow> ('c, 'k, 'es) machine \<Rightarrow> string list list \<Rightarrow>
   'es control_state \<Rightarrow> (bool \<times> 'es control_state) option" where
  "finalize_lines C I alarm_cmd m [] cs = Some (True, cs)"
| "finalize_lines C I alarm_cmd m (words # lines) cs =
     (case finalize_line C I alarm_cmd m words cs of
        None \<Rightarrow> None
      | Some (ok, cs') \<Rightarrow> if \<not> ok then Some (False, cs') else finalize_lines C I alarm_cmd m lines cs')"

text \<open>The end of \<open>finalize_state_from_file\<close>: is the timeout ignored, and the shared devices.\<close>

definition finish_state ::
  "'c cmd_env \<Rightarrow> (string \<rightharpoonup> string set) \<Rightarrow> string \<Rightarrow> ('c, 'k, 'es) machine \<Rightarrow> 'es control_state \<Rightarrow>
   (bool \<times> 'es control_state) option" where
  "finish_state C devices name m cs =
     (case timeout_index C m of
        None \<Rightarrow> None
      | Some ti \<Rightarrow>
          if ti \<ge> length (cs_cmds cs) then None
          else
            let ignored = (cs_cmds cs ! ti = ignore_state \<or> cs_cmds cs ! ti = undefined_state);
                cs1 = cs\<lparr>timeout_ignored := ignored\<rparr>
            in
              if \<not> ignored \<and> cs_seqs cs1 = [] then Some (False, cs1)
              else Some (True, case devices name of None \<Rightarrow> cs1 | Some ds \<Rightarrow> cs1\<lparr>multi_seq_devices := ds\<rparr>))"

definition finalize_state_from_file ::
  "'c cmd_env \<Rightarrow> ('c, 'k, 'es, 'q, 'e, 'st) init_env \<Rightarrow> (string \<rightharpoonup> string set) \<Rightarrow> nat \<Rightarrow> ('c, 'k, 'es) machine \<Rightarrow>
   'es control_state \<Rightarrow> (bool \<times> 'es control_state) option" where
  "finalize_state_from_file C I devices i m cs =
     (if i \<ge> length (state_names m) \<or> i \<ge> length (sm_states m) then Some (False, cs)
      else
        (case Option.bind (config_file I (state_names m ! i @ ''.state'')) (file_lines I) of
           None \<Rightarrow> Some (False, cs)
         | Some lines \<Rightarrow>
        (case lookup_cmd C ''run_alarm_event_sequence'' of
           None \<Rightarrow> Some (False, cs)
         | Some alarm_cmd \<Rightarrow>
        (case finalize_lines C I alarm_cmd m lines cs of
           None \<Rightarrow> None
         | Some (False, cs1) \<Rightarrow> Some (False, cs1)
         | Some (True, cs1) \<Rightarrow> finish_state C devices (state_names m ! i) m cs1))))"

fun insert_devices :: "(string \<Rightarrow> bool) \<Rightarrow> string \<Rightarrow> string list list \<Rightarrow> (string \<rightharpoonup> string set) \<Rightarrow> (string \<rightharpoonup> string set) option" where
  "insert_devices known name [] devs = Some devs"
| "insert_devices known name (d # ds) devs =
     (if length d \<noteq> 1 then None
      else if \<not> known (hd d) then None
      else insert_devices known name ds
             (devs(name \<mapsto> insert (hd d) (case devs name of None \<Rightarrow> {} | Some s \<Rightarrow> s))))"

fun insert_sections ::
  "('c, 'k, 'es) machine \<Rightarrow> (string \<Rightarrow> bool) \<Rightarrow> (string \<times> string list list) list \<Rightarrow> (string \<rightharpoonup> string set) \<Rightarrow>
   (string \<rightharpoonup> string set) option" where
  "insert_sections m known [] devs = Some devs"
| "insert_sections m known ((name, ds) # secs) devs =
     (if \<not> has_state m name then None
      else (case insert_devices known name ds devs of None \<Rightarrow> None | Some devs' \<Rightarrow> insert_sections m known secs devs'))"

definition parse_multi_seq_devices ::
  "('c, 'k, 'es, 'q, 'e, 'st) init_env \<Rightarrow> ('c, 'k, 'es) machine \<Rightarrow> (string \<Rightarrow> bool) \<Rightarrow> string \<Rightarrow> (string \<rightharpoonup> string set) option" where
  "parse_multi_seq_devices I m known role =
     (case config_file I (role @ ''.multi_seq_devices'') of
        None \<Rightarrow> Some Map.empty
      | Some file \<Rightarrow>
          (case read_sections_file I file of None \<Rightarrow> None | Some secs \<Rightarrow> insert_sections m known secs Map.empty))"

section \<open>Checks\<close>

definition validate_task :: "('c, 'k, 'es, 'q, 'e, 'st) init_env \<Rightarrow> bool \<Rightarrow> 'es control_state \<Rightarrow> 'k \<Rightarrow> task_info \<Rightarrow> bool" where
  "validate_task I is_initial cs k ti =
     (case ti_state ti of
        Cmd_cstate \<Rightarrow> validate_cmd I k (ti_args ti) (cs_cmds cs) \<and> length (ti_args ti) \<ge> 1
      | On_cstate \<Rightarrow> validate_start I k (ti_args ti) (cs_cmds cs)
      | Off_cstate \<Rightarrow> is_initial \<or> validate_stop I k
      | Cont_cstate \<Rightarrow> True
      | Other_cstate _ \<Rightarrow> False)"

definition validate_state :: "('c, 'k, 'es, 'q, 'e, 'st) init_env \<Rightarrow> ('c, 'k, 'es) machine \<Rightarrow> 'es control_state \<Rightarrow> nat \<Rightarrow> bool" where
  "validate_state I m cs i =
     (length (cs_tasks cs) = length (sm_tasks m) \<and>
      list_all (\<lambda>(k, ti). validate_task I (i = 0) cs k ti) (zip (sm_tasks m) (cs_tasks cs)))"

text \<open>The second loop of \<open>init\<close>: the states are valid and their names hash to different values.\<close>

fun validate_states ::
  "('c, 'k, 'es, 'q, 'e, 'st) init_env \<Rightarrow> ('c, 'k, 'es) machine \<Rightarrow> (nat \<times> 'es control_state option) list \<Rightarrow> u32 set \<Rightarrow> bool" where
  "validate_states I m [] crcs = True"
| "validate_states I m ((i, None) # css) crcs = False"
| "validate_states I m ((i, Some cs) # css) crcs =
     (if \<not> validate_state I m cs i then False
      else
        let crc = state_crc I (lookup_state_name m (word_of_nat i)) in
        if crc \<in> crcs then False else validate_states I m css (insert crc crcs))"

section \<open>Initialization\<close>

fun read_seqs :: "('c, 'k, 'es, 'q, 'e, 'st) init_env \<Rightarrow> (string \<times> 'es) list \<Rightarrow> bool \<times> (string \<times> 'es) list" where
  "read_seqs I [] = (True, [])"
| "read_seqs I ((name, es) # seqs) =
     (case config_file I name of
        None \<Rightarrow> (False, (name, es) # seqs)
      | Some file \<Rightarrow>
          (case seq_read I file es of
             (False, es') \<Rightarrow> (False, (name, es') # seqs)
           | (True, es') \<Rightarrow> (case read_seqs I seqs of (ok, seqs') \<Rightarrow> (ok, (name, es') # seqs'))))"

definition init_state ::
  "'c cmd_env \<Rightarrow> ('c, 'k, 'es, 'q, 'e, 'st) init_env \<Rightarrow> (string \<rightharpoonup> string set) \<Rightarrow> nat \<Rightarrow> ('c, 'k, 'es) machine \<Rightarrow>
   'es control_state \<Rightarrow> (bool \<times> 'es control_state) option" where
  "init_state C I devices i m cs =
     (case cs_init I (table_size C) (length (sm_tasks m)) undefined_state (state_names m ! i) cs of
        (False, cs1) \<Rightarrow> Some (False, cs1)
      | (True, cs1) \<Rightarrow>
     (case read_seqs I (cs_seqs cs1) of
        (ok2, seqs) \<Rightarrow>
          let cs2 = cs1\<lparr>cs_seqs := seqs\<rparr> in
          if \<not> ok2 then Some (False, cs2)
          else
            (case finalize_state_from_file C I devices i m cs2 of
               None \<Rightarrow> None
             | Some (False, cs3) \<Rightarrow> Some (False, cs3)
             | Some (True, cs3) \<Rightarrow> Some (validate_sequences I cs3))))"

fun init_states ::
  "'c cmd_env \<Rightarrow> ('c, 'k, 'es, 'q, 'e, 'st) init_env \<Rightarrow> (string \<rightharpoonup> string set) \<Rightarrow> nat list \<Rightarrow> ('c, 'k, 'es) machine \<Rightarrow>
   (bool \<times> ('c, 'k, 'es) machine) option" where
  "init_states C I devices [] m = Some (True, m)"
| "init_states C I devices (i # is) m =
     (case sm_states m ! i of
        None \<Rightarrow> None
      | Some cs \<Rightarrow>
          (case init_state C I devices i m cs of
             None \<Rightarrow> None
           | Some (ok, cs') \<Rightarrow>
               let m' = m\<lparr>sm_states := (sm_states m)[i := Some cs']\<rparr> in
               if \<not> ok then Some (False, m') else init_states C I devices is m'))"

text \<open>The loop of \<open>SyncStateMachine::init_finalize\<close> over all states but the first.\<close>

fun long_enough :: "('c, 'k, 'es) machine \<Rightarrow> nat \<Rightarrow> 'es control_state option list \<Rightarrow> bool option" where
  "long_enough m ti [] = Some True"
| "long_enough m ti (None # css) = None"
| "long_enough m ti (Some cs # css) =
     (if ti \<ge> length (cs_cmds cs) then None
      else if cs_seqs cs \<noteq> [] \<and> cs_duration cs <s transition_period m \<and> unat (cs_cmds cs ! ti) < length (sm_states m)
      then Some False
      else long_enough m ti css)"

definition init_finalize :: "'c cmd_env \<Rightarrow> flavor \<Rightarrow> ('c, 'k, 'es) machine \<Rightarrow> bool option" where
  "init_finalize C fl m =
     (if fl = Async_machine then validate_graph C True m
      else
        (case validate_graph C False m of
           None \<Rightarrow> None
         | Some False \<Rightarrow> Some False
         | Some True \<Rightarrow>
             (case timeout_index C m of None \<Rightarrow> None | Some ti \<Rightarrow> long_enough m ti (tl (sm_states m)))))"

definition initial_state_allowed :: "'c cmd_env \<Rightarrow> ('c, 'k, 'es) machine \<Rightarrow> 'es control_state \<Rightarrow> bool" where
  "initial_state_allowed C m cs \<longleftrightarrow>
     cs_duration cs = 0 \<and> list_all (\<lambda>ti. \<not> ti_init ti) (cs_tasks cs) \<and>
     (timeout_ignored cs \<or>
      list_all (\<lambda>(i, v). i = unat (cmd_index C (timeout_cmd m)) \<or> v = undefined_state) (enumerate 0 (cs_cmds cs)))"

definition set_initial_state ::
  "'c cmd_env \<Rightarrow> ('c, 'k, 'es, 'w) run_env \<Rightarrow> ('c, 'k, 'es, 'w) mstate \<Rightarrow> (bool \<times> ('c, 'k, 'es, 'w) mstate) option" where
  "set_initial_state C R x =
     (let m = fst x in
      if sm_is_init m \<or> \<not> sm_is_init_storage m \<or> sm_states m = [] \<or> cur_state m \<noteq> 0 \<or>
         \<not> (seq_time m = 0 \<or> seq_time m = 0x8000000000000000) \<or> pending_cmd m \<noteq> noop_index C \<or> nominal_time m \<noteq> nano_max
      then Some (False, x)
      else
        (case hd (sm_states m) of
           None \<Rightarrow> None
         | Some cs \<Rightarrow>
             if \<not> initial_state_allowed C m cs then Some (False, x)
             else if cs_seqs cs = [] then Some (True, re_signal R (lookup_state_name m 0) x)
             else
               (case re_start_seqs R 0 (initial_control_time m) x of
                  (False, x1) \<Rightarrow> Some (False, x1)
                | (True, x1) \<Rightarrow>
                    (case re_dispatch_seqs R 0 (initial_control_time m) x1 of
                       (_, x2) \<Rightarrow> Some (True, re_signal R (lookup_state_name (fst x2) 0) x2)))))"

text \<open>\<open>registry_final\<close>: the enumerations are complete; \<open>known\<close>: the builder knows a path.\<close>

definition sm_init ::
  "'c cmd_env \<Rightarrow> ('c, 'k, 'es, 'q, 'e, 'st) init_env \<Rightarrow> ('c, 'k, 'es, 'w) run_env \<Rightarrow> (string \<Rightarrow> bool) \<Rightarrow> bool \<Rightarrow>
   ('c, 'k, 'es, 'w) mstate \<Rightarrow> (bool \<times> ('c, 'k, 'es, 'w) mstate) option" where
  "sm_init C I R known registry_final x =
     (case x of (m, w) \<Rightarrow>
      if sm_is_init m \<or> \<not> sm_is_init_storage m \<or> \<not> registry_final then Some (False, (m, w))
      else
        (case parse_multi_seq_devices I m known (sm_role m) of
           None \<Rightarrow> Some (False, (m, w))
         | Some devices \<Rightarrow>
        (case init_states C I devices [0..<length (sm_states m)] m of
           None \<Rightarrow> None
         | Some (False, m1) \<Rightarrow> Some (False, (m1, w))
         | Some (True, m1) \<Rightarrow>
             if \<not> validate_states I m1 (enumerate 0 (sm_states m1)) {} then Some (False, (m1, w))
             else
               (case init_finalize C (ie_flavor I) m1 of
                  None \<Rightarrow> None
                | Some False \<Rightarrow> Some (False, (m1, w))
                | Some True \<Rightarrow>
                    (case set_initial_state C R (m1, w) of
                       None \<Rightarrow> None
                     | Some (False, x2) \<Rightarrow> Some (False, x2)
                     | Some (True, (m2, w2)) \<Rightarrow> Some (True, (m2\<lparr>sm_is_init := True\<rparr>, w2)))))))"

section \<open>What initialization establishes\<close>

text \<open>
  A table of commands is well formed if every entry is undefined, ignored, or the number of a state
  other than the first, and only commands that may change the state have one.
\<close>

definition entry_ok :: "('c, 'k, 'es) machine \<Rightarrow> u32 \<Rightarrow> bool" where
  "entry_ok m v \<longleftrightarrow> v = undefined_state \<or> v = ignore_state \<or> (0 < unat v \<and> unat v < length (state_names m))"

definition table_ok :: "'c cmd_env \<Rightarrow> ('c, 'k, 'es) machine \<Rightarrow> 'es control_state \<Rightarrow> bool" where
  "table_ok C m cs \<longleftrightarrow> length (cs_cmds cs) = table_size C \<and> length (cs_tasks cs) = length (sm_tasks m) \<and>
     (\<forall>v\<in>set (cs_cmds cs). entry_ok m v)"

text \<open>The symbols of the states: their numbers, and \<open>ignore\<close>.\<close>

definition symbols_ok :: "('c, 'k, 'es) machine \<Rightarrow> bool" where
  "symbols_ok m \<longleftrightarrow> (\<forall>name v. lookup_state m name = Some v \<longrightarrow> v = ignore_state \<or> unat v < length (state_names m))"

text \<open>What is relied on of \<^verbatim>\<open>ControlState\<close>: \<open>init\<close> sizes its vectors, the validation of sequences leaves them.\<close>

definition states_lib_ok :: "('c, 'k, 'es, 'q, 'e, 'st) init_env \<Rightarrow> bool" where
  "states_lib_ok I \<longleftrightarrow>
     (\<forall>n k u name cs cs'. cs_init I n k u name cs = (True, cs') \<longrightarrow> cs_cmds cs' = replicate n u \<and> length (cs_tasks cs') = k) \<and>
     (\<forall>cs ok cs'. validate_sequences I cs = (ok, cs') \<longrightarrow> cs_cmds cs' = cs_cmds cs \<and> cs_tasks cs' = cs_tasks cs)"

lemma add_states_table:
  "to_int_table (snd (add_states ns i t)) name = Some v \<Longrightarrow>
    to_int_table t name = Some v \<or> (\<exists>j. i \<le> j \<and> j < i + length ns \<and> v = word_of_nat j)"
proof (induction ns arbitrary: i t)
  case Nil
  then show ?case by simp
next
  case (Cons n ns)
  obtain ok t' where one: "add n (word_of_nat i) t = (ok, t')" by fastforce
  have t': "to_int_table t' = [n \<mapsto> word_of_nat i] ++ to_int_table t" using add_tables(1) [of n "word_of_nat i" t] one by simp
  have "to_int_table t' name = Some v \<or> (\<exists>j. Suc i \<le> j \<and> j < Suc i + length ns \<and> v = word_of_nat j)"
    using Cons.IH [of "Suc i" t'] Cons.prems one by (auto split: if_splits)
  then show ?case
  proof
    assume "to_int_table t' name = Some v"
    then show ?thesis using t' by (auto simp: map_add_Some_iff split: if_splits)
  next
    assume "\<exists>j. Suc i \<le> j \<and> j < Suc i + length ns \<and> v = word_of_nat j"
    then show ?thesis by (metis Suc_leD add_Suc add_Suc_right length_Cons)
  qed
qed

lemma cmd_line_keeps:
  assumes "symbols_ok m" and "table_ok C m cs" and "cmd_line C fl alarm_cmd m words cs = Some (True, cs')"
  shows "table_ok C m cs'"
proof -
  obtain cmd v where "parse_state_transitions C fl m words = Some (cmd, v)" "v \<noteq> 0"
    "cs' = cs\<lparr>cs_cmds := (cs_cmds cs)[unat (cmd_index C cmd) := v]\<rparr>"
    using assms(3) by (auto simp: cmd_line_def Let_def split: option.splits if_splits)
  moreover from this have "entry_ok m v"
    using assms(1) by (auto simp: parse_state_transitions_def symbols_ok_def entry_ok_def unat_gt_0 split: if_splits option.splits)
  ultimately show ?thesis using assms(2) by (auto simp: table_ok_def dest: set_update_subset_insert [THEN subsetD])
qed

lemma task_line_keeps:
  "table_ok C m cs \<Longrightarrow> task_line I m words cs = Some (True, cs') \<Longrightarrow> table_ok C m cs'"
  by (auto simp: task_line_def table_ok_def Let_def split: option.splits if_splits)

lemma finalize_lines_keep:
  assumes "symbols_ok m"
  shows "table_ok C m cs \<Longrightarrow> finalize_lines C I alarm_cmd m lines cs = Some (True, cs') \<Longrightarrow> table_ok C m cs'"
proof (induction lines arbitrary: cs)
  case Nil
  then show ?case by simp
next
  case (Cons words lines)
  then obtain cs1 where one: "finalize_line C I alarm_cmd m words cs = Some (True, cs1)"
    and rest: "finalize_lines C I alarm_cmd m lines cs1 = Some (True, cs')"
    by (auto split: option.splits if_splits)
  have "table_ok C m cs1"
    using one Cons.prems(1) by (auto simp: finalize_line_def dest: cmd_line_keeps [OF assms] task_line_keeps split: if_splits)
  then show ?case by (rule Cons.IH [OF _ rest])
qed

lemma init_state_table:
  assumes "symbols_ok m" and "states_lib_ok I" and "init_state C I devices i m cs = Some (True, cs')"
  shows "table_ok C m cs'"
proof -
  obtain cs1 seqs cs3 where parts: "cs_init I (table_size C) (length (sm_tasks m)) undefined_state (state_names m ! i) cs = (True, cs1)"
    "finalize_state_from_file C I devices i m (cs1\<lparr>cs_seqs := seqs\<rparr>) = Some (True, cs3)"
    "validate_sequences I cs3 = (True, cs')"
    using assms(3) by (auto simp: init_state_def Let_def split: prod.splits bool.splits option.splits if_splits)
  have "table_ok C m (cs1\<lparr>cs_seqs := seqs\<rparr>)"
    using assms(2) parts(1) by (fastforce simp: states_lib_ok_def table_ok_def entry_ok_def)
  moreover obtain lines alarm_cmd cs2 where "finalize_lines C I alarm_cmd m lines (cs1\<lparr>cs_seqs := seqs\<rparr>) = Some (True, cs2)"
    and finish: "finish_state C devices (state_names m ! i) m cs2 = Some (True, cs3)"
    using parts(2) by (auto simp: finalize_state_from_file_def split: if_splits option.splits bool.splits)
  ultimately have "table_ok C m cs2" using finalize_lines_keep [OF assms(1)] by blast
  then have "table_ok C m cs3"
    using finish by (auto simp: finish_state_def table_ok_def Let_def split: if_splits option.splits)
  then show ?thesis using assms(2) parts(3) by (fastforce simp: states_lib_ok_def table_ok_def)
qed

lemma same_tables [simp]:
  "symbols_ok (m\<lparr>sm_states := ss\<rparr>) = symbols_ok m" "table_ok C (m\<lparr>sm_states := ss\<rparr>) cs = table_ok C m cs"
  by (simp_all add: symbols_ok_def table_ok_def entry_ok_def lookup_state_def)

lemma init_states_tables:
  assumes "states_lib_ok I"
  shows "symbols_ok m \<Longrightarrow> \<forall>i\<in>set is. i < length (sm_states m) \<Longrightarrow> init_states C I devices is m = Some (True, m') \<Longrightarrow>
    \<exists>ss. m' = m\<lparr>sm_states := ss\<rparr> \<and> length ss = length (sm_states m) \<and>
      (\<forall>i<length ss. if i \<in> set is then \<exists>cs. ss ! i = Some cs \<and> table_ok C m cs else ss ! i = sm_states m ! i)"
proof (induction "is" arbitrary: m)
  case Nil
  then show ?case by (auto intro: exI [of _ "sm_states m"])
next
  case (Cons i "is")
  obtain cs cs1 where one: "init_state C I devices i m cs = Some (True, cs1)"
    and rest: "init_states C I devices is (m\<lparr>sm_states := (sm_states m)[i := Some cs1]\<rparr>) = Some (True, m')"
    using Cons.prems(3) by (auto simp: Let_def split: option.splits if_splits)
  have tab: "table_ok C m cs1" by (rule init_state_table [OF Cons.prems(1) assms one])
  obtain ss where ss: "m' = m\<lparr>sm_states := ss\<rparr>" "length ss = length (sm_states m)"
    "\<forall>i'<length ss. if i' \<in> set is then \<exists>cs. ss ! i' = Some cs \<and> table_ok C m cs
       else ss ! i' = (sm_states m)[i := Some cs1] ! i'"
    using Cons.IH [OF _ _ rest] Cons.prems(1,2) unfolding same_tables by auto
  have "if i' \<in> set (i # is) then \<exists>cs. ss ! i' = Some cs \<and> table_ok C m cs else ss ! i' = sm_states m ! i'"
    if "i' < length ss" for i'
    using ss(3) [rule_format, OF that] tab that ss(2) by (cases "i' = i") (auto split: if_splits)
  then show ?case using ss(1,2) by blast
qed

lemma initialize_states_present:
  assumes "initialize_states I U b is m st = Some (True, m', st')"
  shows "\<exists>ss. m' = m\<lparr>sm_states := ss\<rparr> \<and> length ss = length (sm_states m)"
  using assms
proof (induction "is" arbitrary: m st)
  case Nil
  then show ?case by (auto intro: exI [of _ "sm_states m"])
next
  case (Cons i "is")
  obtain m1 st1 where one: "initialize_state_from_file I U b i (m\<lparr>sm_states := (sm_states m)[i := Some (new_state I)]\<rparr>) st =
      Some (True, m1, st1)"
    and rest: "initialize_states I U b is m1 st1 = Some (True, m', st')"
    using Cons.prems by (auto split: option.splits if_splits)
  have "\<exists>ss. m1 = m\<lparr>sm_states := ss\<rparr> \<and> length ss = length (sm_states m)"
    using one by (auto simp: initialize_state_from_file_def split: if_splits option.splits)
  then show ?case using Cons.IH [OF rest] by auto
qed

text \<open>A machine after a successful \<open>init_storage\<close>.\<close>

definition stored :: "'c cmd_env \<Rightarrow> ('c, 'k, 'es) machine \<Rightarrow> bool" where
  "stored C m \<longleftrightarrow> symbols_ok m \<and> distinct (state_names m) \<and> state_names m \<noteq> [] \<and>
     length (sm_states m) = length (state_names m) \<and> cur_state m = 0 \<and> pending_cmd m = noop_index C \<and>
     nominal_time m = nano_max \<and> last_pending m = noop_index C"

lemma init_storage_stored:
  assumes "init_storage C I U b role m toks st = Some (True, m', toks', st')"
    and "to_int_table (state_sym m) = Map.empty"
  shows "stored C m'" and "sm_tasks m' = sm_tasks m" and "num_pre_tasks m' = num_pre_tasks m"
proof -
  define m0 where "m0 = initial_values C (m\<lparr>sm_role := role, sm_name := role\<rparr>)"
  obtain st1 where master: "read_master C I U b m0 st1 = Some (True, m', st')"
    using assms(1) by (auto simp: init_storage_def m0_def Let_def split: if_splits option.splits bool.splits)
  obtain c names t t2 m5 where parts: "names \<noteq> []" "distinct names" "add_states names 0 (state_sym m0) = (True, t)"
    "add ''ignore'' ignore_state t = (True, t2)"
    "initialize_states I U b [0..<length names] (m0\<lparr>timeout_cmd := c, state_names := names, state_sym := t2,
       sm_states := replicate (length names) None\<rparr>) st1 = Some (True, m5, st')"
    "m' = m5\<lparr>sm_is_init_storage := True\<rparr>"
    using master by (auto simp: read_master_def Let_def split: option.splits prod.splits if_splits bool.splits)
  obtain ss where ss: "m5 = m0\<lparr>timeout_cmd := c, state_names := names, state_sym := t2, sm_states := ss\<rparr>" "length ss = length names"
    using initialize_states_present [OF parts(5)] by auto
  have "v = ignore_state \<or> unat v < length names" if "to_int_table t2 name = Some v" for name v
  proof -
    have "to_int_table t2 = [''ignore'' \<mapsto> ignore_state] ++ to_int_table t"
      using add_tables(1) [of "''ignore''" ignore_state t] parts(4) by simp
    then have "v = ignore_state \<or> to_int_table t name = Some v" using that by (auto simp: map_add_Some_iff split: if_splits)
    moreover have "unat v < length names" if "to_int_table t name = Some v"
    proof -
      have "state_sym m0 = state_sym m" by (simp add: m0_def initial_values_def)
      then have empty: "to_int_table (state_sym m0) name = None" using assms(2) by simp
      have "to_int_table (snd (add_states names 0 (state_sym m0))) name = Some v" using that parts(3) by (simp del: add_states.simps)
      then obtain j where "j < length names" "v = word_of_nat j"
        using add_states_table [of names 0 "state_sym m0" name v] empty by auto
      moreover have "unat (word_of_nat j :: u32) \<le> j" by (simp add: unsigned_of_nat)
      ultimately show ?thesis by simp
    qed
    ultimately show ?thesis by blast
  qed
  then show "stored C m'"
    using ss parts(1,2) by (simp add: stored_def symbols_ok_def lookup_state_def raw_get_uint_table parts(6) m0_def initial_values_def)
  show "sm_tasks m' = sm_tasks m" "num_pre_tasks m' = num_pre_tasks m"
    using ss by (simp_all add: parts(6) m0_def initial_values_def)
qed

text \<open>Adding control tasks.\<close>

inductive added_tasks :: "('c, 'k, 'es) machine \<Rightarrow> ('c, 'k, 'es) machine \<Rightarrow> bool" where
  added_refl: "added_tasks m m"
| added_task: "added_tasks m m1 \<Longrightarrow> add_ctask name k m1 = (ok, m2) \<Longrightarrow> added_tasks m m2"
| added_mark: "added_tasks m m1 \<Longrightarrow> pre_transition_ctasks_added m1 = (ok, m2) \<Longrightarrow> added_tasks m m2"

lemma added_tasks_keep:
  "added_tasks m m' \<Longrightarrow> (stored C m \<longrightarrow> stored C m') \<and>
    (num_pre_tasks m \<le> length (sm_tasks m) \<longrightarrow> num_pre_tasks m' \<le> length (sm_tasks m'))"
  by (induction rule: added_tasks.induct)
     (auto simp: add_ctask_def pre_transition_ctasks_added_def stored_def symbols_ok_def lookup_state_def
       split: option.splits prod.splits bool.splits if_splits)

lemma set_initial_state_submits:
  assumes "callbacks_ok C R" and "set_initial_state C R x = Some (ok, y)"
  shows "submits C (fst x) (fst y)"
proof -
  note d = callbacksD [OF assms(1)]
  have start: "submits C (fst x) (fst x1)" if "re_start_seqs R s t x = (b, x1)" for s t b x1 using d(6) [OF that] .
  have sig: "submits C (fst x) (fst (re_signal R n x))" for n by (rule d(9))
  have "submits C (fst x) (fst (re_signal R n x2))"
    if "re_start_seqs R s t x = (b, x1)" "re_dispatch_seqs R s' t' x1 = (w, x2)" for s t b x1 s' t' w x2 n
    by (rule submits_trans [OF d(9) submits_trans [OF d(8) [OF that(2)] d(6) [OF that(1)]]])
  then show ?thesis
    using assms(2) start sig
    by (auto simp: set_initial_state_def Let_def submits_refl split: if_splits option.splits prod.splits bool.splits)
qed

lemma init_finalize_same: "table_ok C (m\<lparr>sm_is_init := b\<rparr>) cs = table_ok C m cs"
  by (simp add: table_ok_def entry_ok_def)

lemma table_ok_submits:
  assumes "cmds_ok C" and "submits C m m'"
  shows "table_ok C m' cs = table_ok C m cs" and "state_names m' = state_names m"
  using submits_effect [OF assms] by (auto simp: table_ok_def entry_ok_def set_pending_def)

lemma sm_init_establishes:
  assumes "callbacks_ok C R" and "cmds_ok C" and "states_lib_ok I" and "stored C m" and "num_pre_tasks m \<le> length (sm_tasks m)"
    and "sm_init C I R known final (m, w) = Some (True, (m', w'))"
  shows "sync_ok C m' \<and> cur_state m' = 0 \<and> distinct (state_names m') \<and> length (sm_states m') = length (state_names m') \<and>
    (\<forall>s\<in>set (sm_states m'). \<exists>cs. s = Some cs \<and> table_ok C m' cs)"
proof -
  obtain devices m1 m2 where st: "init_states C I devices [0..<length (sm_states m)] m = Some (True, m1)"
    and ini: "set_initial_state C R (m1, w) = Some (True, (m2, w'))" and m': "m' = m2\<lparr>sm_is_init := True\<rparr>"
    using assms(6) by (auto simp: sm_init_def split: if_splits option.splits bool.splits prod.splits)
  obtain ss where m1: "m1 = m\<lparr>sm_states := ss\<rparr>" "length ss = length (sm_states m)"
    and tab: "\<forall>i<length ss. if i \<in> set [0..<length (sm_states m)] then \<exists>cs. ss ! i = Some cs \<and> table_ok C m cs
      else ss ! i = sm_states m ! i"
    using init_states_tables [OF assms(3) _ _ st] assms(4) unfolding stored_def by auto
  have states: "\<forall>s\<in>set ss. \<exists>cs. s = Some cs \<and> table_ok C m1 cs"
    using tab m1 by (auto simp: in_set_conv_nth)
  have sub: "submits C m1 m2" using set_initial_state_submits [OF assms(1) ini] by simp
  note keep = submits_keeps [OF assms(2) sub]
  have "sync_ok C (m1\<lparr>sm_is_init := True\<rparr>)"
    using states assms(4,5) m1
    by (auto simp: sync_ok_def machine_ok_def config_ok_def stored_def table_ok_def)
  moreover have "m2 = m1 \<or> (pending_cmd m1 = noop_index C \<and> (\<exists>i t' ns. i \<noteq> noop_index C \<and> t' \<noteq> nano_max \<and>
      leads m1 i ns \<and> m2 = set_pending i t' m1))"
    by (rule submits_effect [OF assms(2) sub])
  moreover have "unat i < table_size C" if "leads m1 i ns" for i ns
    using that states m1 by (auto simp: leads_def state_at_def table_ok_def split: if_splits dest!: bspec [OF _ nth_mem])
  ultimately have "sync_ok C m'"
    unfolding m' by (auto simp: sync_ok_def machine_ok_def config_ok_def)
  moreover have "cur_state m' = 0" "sm_states m' = ss" "state_names m' = state_names m"
    using keep(4,6) table_ok_submits(2) [OF assms(2) sub] assms(4) m1(1) by (simp_all add: m' stored_def)
  moreover have "\<forall>s\<in>set ss. \<exists>cs. s = Some cs \<and> table_ok C m' cs"
    using states by (simp add: m' init_finalize_same table_ok_submits(1) [OF assms(2) sub])
  ultimately show ?thesis using assms(4) m1(2) by (auto simp: stored_def)
qed

section \<open>An instance\<close>

text \<open>
  Two states and one task. The first state only runs a sequence; the timeout leads to the second, which turns the task on.
\<close>

definition demo_lines :: "string \<Rightarrow> string list list option" where
  "demo_lines file =
     (if file = ''idle.state'' then Some [[''#'', ''wait''], [''seq'', ''s.event''], [''cmd'', ''timeout'', ''run'']]
      else if file = ''run.state'' then Some [[''seq'', ''s.event''], [''task'', ''t'', ''on''], [''cmd'', ''timeout'', ''run''], [''cmd'', ''go'', ''ignore'']]
      else None)"

definition demo_files :: "(nat, nat, nat, unit, unit, (nat, unit) bstate) init_env" where
  "demo_files = \<lparr>ie_flavor = Sync_machine,
     config_file = (\<lambda>n. if n \<in> {''m.master'', ''idle.state'', ''run.state'', ''s.event''} then Some n else None),
     read_word_file = (\<lambda>_. Some [''idle'', ''run'']), read_sections_file = (\<lambda>_. None), file_lines = demo_lines,
     cstate_table = snd (add ''on_cstate'' 1 (symtab_new False 0 [])), cstate_of = (\<lambda>_. On_cstate), new_seq = 0,
     seq_init_storage = (\<lambda>_ es st. (True, es, st)), seq_read = (\<lambda>_ es. (True, es)),
     new_state = \<lparr>cs_cmds = [], cs_tasks = [], cs_seqs = [], cs_duration = 0, timeout_ignored = False, multi_seq_devices = {}\<rparr>,
     cs_init = (\<lambda>n k u _ cs. (True, cs\<lparr>cs_cmds := replicate n u,
       cs_tasks := replicate k \<lparr>ti_init = False, ti_state = Off_cstate, ti_args = []\<rparr>\<rparr>)),
     validate_sequences = (\<lambda>cs. (True, cs\<lparr>cs_duration := if list_all ti_init (cs_tasks cs) then 20 else 0\<rparr>)), validate_cmd = (\<lambda>_ _ _. True), validate_start = (\<lambda>_ _ _. True),
     validate_stop = (\<lambda>_. True), state_crc = (\<lambda>n. word_of_nat (length n))\<rparr>"

fun demo_toks :: "string list \<Rightarrow> nat tok_table \<Rightarrow> nat acct \<Rightarrow> nat tok_table \<times> nat acct" where
  "demo_toks [] toks a = (toks, a)"
| "demo_toks (t # ts) toks a = (case construct_token nat_ids [] a of (i, a') \<Rightarrow> demo_toks ts (toks(t := i)) a')"

definition demo_store :: "nat tok_table \<times> nat acct" where
  "demo_store = demo_toks (map op_token (machine_plan demo_setup demo_cmds @ flavor_plan demo_setup demo_cmds Sync_machine))
     (\<lambda>_. 1) acct_new"

definition demo_empty :: "(u32, nat, nat) machine" where
  "demo_empty = machine_new 10 0 (symtab_new False 0 []) 0"

definition demo_boot :: "(bool \<times> (u32, nat, nat) machine \<times> nat call_event list) option" where
  "demo_boot =
     (case init_storage demo_cmds demo_files demo_setup demo_root ''m'' demo_empty (fst demo_store) ((), snd demo_store) of
        Some (True, m1, _, _) \<Rightarrow>
          map_option (\<lambda>(ok, m', w'). (ok, m', w'))
            (sm_init demo_cmds demo_files demo_run (\<lambda>_. True) True (snd (add_ctask ''t'' (Some 10) m1), []))
      | _ \<Rightarrow> None)"

lemma demo_boot_ok:
  "case demo_boot of
     Some (ok, m, w) \<Rightarrow> ok \<and> state_names m = [''idle'', ''run''] \<and>
       map_option cs_cmds (state_at m 0) = Some [undefined_state, 1, undefined_state, undefined_state] \<and>
       map_option cs_cmds (state_at m 1) = Some [undefined_state, 1, ignore_state, undefined_state] \<and>
       w = [Seqs_started 0 0, Seqs_dispatched 0 0, State_signal ''idle'']
   | None \<Rightarrow> False"
  by code_simp

lemma demo_states_ok: "states_lib_ok demo_files"
  by (auto simp: states_lib_ok_def demo_files_def)

text \<open>
  A state may be called \<^verbatim>\<open>ignore\<close>: adding the symbol succeeds as long as one direction is new, so
  the name goes on meaning the state, and no command can be ignored by name.
\<close>

lemma state_named_ignore:
  "(case add_states [''idle'', ''ignore''] 0 (symtab_new False 0 []) of
      (ok, t) \<Rightarrow> ok \<and> (case add ''ignore'' ignore_state t of
        (ok2, t2) \<Rightarrow> ok2 \<and> to_int_table t2 ''ignore'' = Some 1))"
  by code_simp

section \<open>Properties\<close>

text \<open>
  C23: an initialized machine is well formed. After \<open>init_storage\<close>, any number of added tasks and
  \<open>sm_init\<close>, all successful, the machine is in its first state and satisfies the invariant of the
  dispatch; its states have different names and all exist; each has an entry per command and per
  task; and each entry is undefined, ignored, or the number of a state other than the first.
\<close>

theorem initialized_machine_well_formed:
  assumes "init_storage C I U b role m toks st = Some (True, m1, toks', st')" and "to_int_table (state_sym m) = Map.empty"
    and "num_pre_tasks m \<le> length (sm_tasks m)" and "added_tasks m1 m2"
    and "sm_init C I R known final (m2, w) = Some (True, (m', w'))"
    and "callbacks_ok C R" and "cmds_ok C" and "states_lib_ok I"
  shows "sync_ok C m' \<and> cur_state m' = 0 \<and> distinct (state_names m') \<and> length (sm_states m') = length (state_names m') \<and>
    (\<forall>s\<in>set (sm_states m'). \<exists>cs. s = Some cs \<and> table_ok C m' cs)"
proof (rule sm_init_establishes [OF assms(6-8) _ _ assms(5)])
  note st = init_storage_stored [OF assms(1,2)]
  show "stored C m2" "num_pre_tasks m2 \<le> length (sm_tasks m2)"
    using added_tasks_keep [OF assms(4), of C] st assms(3) by simp_all
qed

theorem initialized_machine_well_formed_witness:
  "\<exists>m w. demo_boot = Some (True, m, w) \<and> sync_ok demo_cmds m \<and> distinct (state_names m) \<and>
     (\<forall>s\<in>set (sm_states m). \<exists>cs. s = Some cs \<and> table_ok demo_cmds m cs)"
proof -
  obtain m1 toks' st' m' w' where
    st: "init_storage demo_cmds demo_files demo_setup demo_root ''m'' demo_empty (fst demo_store) ((), snd demo_store) =
      Some (True, m1, toks', st')"
    and ini: "sm_init demo_cmds demo_files demo_run (\<lambda>_. True) True (snd (add_ctask ''t'' (Some 10) m1), []) = Some (True, (m', w'))"
    and boot: "demo_boot = Some (True, m', w')"
    using demo_boot_ok by (auto simp: demo_boot_def split: option.splits bool.splits)
  have "added_tasks m1 (snd (add_ctask ''t'' (Some 10) m1))"
    using added_task [OF added_refl] by (metis surjective_pairing)
  then show ?thesis
    using initialized_machine_well_formed [OF st _ _ _ ini demo_callbacks demo_cmds_ok demo_states_ok] boot
    by (auto simp: demo_empty_def machine_new_def symtab_new_def)
qed

end
