(* ===== verification/Aos_Monitor.thy ===== *)
theory Aos_Monitor
  imports Element_Setup
begin

text \<open>
  \<^verbatim>\<open>AcquisitionOfSignalMonitor.cc\<close>: tells the clients to retry their calls when contact with the ground
  has come back after an outage.
\<close>

section \<open>The monitor\<close>

text \<open>
  The out-of-contact threshold is a double in seconds, a type \<open>'d\<close> here: is it zero or less, and how
  many nanoseconds is it?
\<close>

record 'd contact_env =
  nonpositive :: "'d \<Rightarrow> bool"
  to_nano :: "'d \<Rightarrow> nano"

record monitor =
  aos_threshold :: nano
  retry_on_connection :: bool

definition monitor_new :: "nano \<Rightarrow> monitor" where
  "monitor_new threshold = \<lparr>aos_threshold = threshold, retry_on_connection = False\<rparr>"

definition monitor_plan :: "('id, 'pm, 'v, 'q, 'e, 'w) setup_env \<Rightarrow> setup_op list" where
  "monitor_plan U =
     [Bind_read ''age'' T_int64 ''loss_of_comm_fdir.bidirectional_comm_age_ns'',
      Bind_read ''threshold'' T_double ''out_of_contact_threshold'',
      Create_value ''retry'' T_bool ''retry_on_connection'' (V_bool False) (su_sync U) Slate_read_only]"

definition monitor_init ::
  "('id, 'pm, 'v, 'q, 'e, 'w) setup_env \<Rightarrow> ('q, 'e) builder \<Rightarrow> nano \<Rightarrow> 'id tok_table \<Rightarrow> ('id, 'w) bstate \<Rightarrow>
   (monitor option \<times> 'id tok_table \<times> ('id, 'w) bstate) option" where
  "monitor_init U b threshold toks st =
     map_option (\<lambda>(ok, s). (if ok then Some (monitor_new threshold) else None, s)) (run_setup U b (monitor_plan U) (toks, st))"

text \<open>The first result says whether the signal was emitted.\<close>

definition monitor_dispatch :: "'d contact_env \<Rightarrow> nano \<Rightarrow> 'd \<Rightarrow> monitor \<Rightarrow> bool \<times> monitor" where
  "monitor_dispatch E age threshold m =
     (let emit = (age <s aos_threshold m \<and> retry_on_connection m);
          disabled = nonpositive E threshold
      in (emit, m\<lparr>retry_on_connection := (\<not> disabled \<and> to_nano E threshold <s age)\<rparr>))"

section \<open>Cycles\<close>

text \<open>The emissions over a sequence of readings of the age and the threshold.\<close>

fun monitor_run :: "'d contact_env \<Rightarrow> monitor \<Rightarrow> (nano \<times> 'd) list \<Rightarrow> bool list" where
  "monitor_run E m [] = []"
| "monitor_run E m ((age, threshold) # rs) =
     (case monitor_dispatch E age threshold m of (emit, m') \<Rightarrow> emit # monitor_run E m' rs)"

definition out_of_contact :: "'d contact_env \<Rightarrow> nano \<times> 'd \<Rightarrow> bool" where
  "out_of_contact E r \<longleftrightarrow> \<not> nonpositive E (snd r) \<and> to_nano E (snd r) <s fst r"

lemma monitor_run_nth:
  "i < length rs \<Longrightarrow> monitor_run E m rs ! i \<longleftrightarrow>
    fst (rs ! i) <s aos_threshold m \<and> (if i = 0 then retry_on_connection m else out_of_contact E (rs ! (i - 1)))"
proof (induction rs arbitrary: i m)
  case Nil
  then show ?case by simp
next
  case (Cons r rs)
  obtain age threshold where r: "r = (age, threshold)" by fastforce
  show ?case
  proof (cases i)
    case 0
    then show ?thesis by (simp add: r monitor_dispatch_def)
  next
    case (Suc j)
    then show ?thesis
      using Cons.IH [of j] Cons.prems by (auto simp: r monitor_dispatch_def Let_def out_of_contact_def)
  qed
qed

lemma monitor_run_length [simp]: "length (monitor_run E m rs) = length rs"
  by (induction E m rs rule: monitor_run.induct) (simp_all split: prod.splits)

definition demo_contact :: "nano contact_env" where
  "demo_contact = \<lparr>nonpositive = (\<lambda>d. d \<le>s 0), to_nano = (\<lambda>d. d)\<rparr>"

section \<open>Properties\<close>

text \<open>
  The signal is emitted on a recovery and only then. A new monitor emits in a cycle exactly if the
  contact is fresh in it and was lost in the cycle before; if the threshold for the loss is
  not below that for the recovery, never in two cycles in a row.
\<close>

theorem signal_on_recovery:
  assumes "\<forall>r\<in>set rs. nonpositive E (snd r) \<or> threshold \<le>s to_nano E (snd r)" and "i < length rs"
  shows "(monitor_run E (monitor_new threshold) rs ! i \<longleftrightarrow>
      0 < i \<and> fst (rs ! i) <s threshold \<and> out_of_contact E (rs ! (i - 1))) \<and>
    (monitor_run E (monitor_new threshold) rs ! i \<longrightarrow> \<not> monitor_run E (monitor_new threshold) rs ! (i - 1))"
proof -
  have emits: "monitor_run E (monitor_new threshold) rs ! j \<longleftrightarrow>
      0 < j \<and> fst (rs ! j) <s threshold \<and> out_of_contact E (rs ! (j - 1))" if "j < length rs" for j
    using that by (auto simp: monitor_run_nth monitor_new_def)
  have "\<not> (fst (rs ! (i - 1)) <s threshold \<and> out_of_contact E (rs ! (i - 1)))"
    using bspec [OF assms(1), of "rs ! (i - 1)"] assms(2)
    by (auto simp: out_of_contact_def word_sless_alt word_sle_eq)
  then show ?thesis using emits [OF assms(2)] emits [of "i - 1"] assms(2) by auto
qed

theorem signal_on_recovery_witness:
  "monitor_run demo_contact (monitor_new 10) [(5, 60), (70, 60), (3, 60), (4, 60)] ! 2 \<and>
   \<not> monitor_run demo_contact (monitor_new 10) [(5, 60), (70, 60), (3, 60), (4, 60)] ! 1"
proof -
  let ?rs = "[(5, 60), (70, 60), (3, 60), (4, 60)] :: (nano \<times> nano) list"
  have "\<forall>r\<in>set ?rs. nonpositive demo_contact (snd r) \<or> 10 \<le>s to_nano demo_contact (snd r)"
    by (auto simp: demo_contact_def word_sle_eq)
  note signal_on_recovery [OF this, of 2]
  moreover have "out_of_contact demo_contact (70, 60)" "fst (3 :: nano, 60 :: nano) <s 10"
    by (simp_all add: out_of_contact_def demo_contact_def word_sless_alt word_sle_eq)
  ultimately show ?thesis by (simp add: demo_contact_def out_of_contact_def word_sle_eq)
qed

end
