(* ===== verification/Deferred_Queue.thy ===== *)
theory Deferred_Queue
  imports Codon_Prelude
begin

text \<open>
  \<^verbatim>\<open>DeferredCallbackQueue\<close>: threads enqueue callbacks, the event loop runs them. Each step is what one
  thread does without the others being able to look in between: a section under the mutex, a system
  call on the event file descriptor, or the start or the end of a callback. A callback that itself
  enqueues is a thread that pushes between the start and the end of that callback.
\<close>

section \<open>State and operations\<close>

text \<open>
  \<open>dq_fd\<close> is the counter of the \<^verbatim>\<open>eventfd\<close>. \<open>dq_writers\<close> are the threads inside \<open>enqueue\<close> that have
  pushed and not yet signalled. Promises are numbered as they are made, \<open>dq_results\<close> are the values
  set. \<open>dq_batch\<close> is the local vector of \<open>on_ready\<close> from the next callback on, \<open>None\<close> outside.
\<close>

record ('t, 'f, 'r) dqueue =
  dq_queue :: "(nat \<times> 'f) list"
  dq_fd :: "64 word"
  dq_writers :: "'t list"
  dq_promises :: nat
  dq_results :: "nat \<rightharpoonup> 'r"
  dq_batch :: "(nat \<times> 'f) list option"
  dq_current :: "nat option"

definition dq_new :: "('t, 'f, 'r) dqueue" where
  "dq_new = \<lparr>dq_queue = [], dq_fd = 0, dq_writers = [], dq_promises = 0, dq_results = Map.empty,
     dq_batch = None, dq_current = None\<rparr>"

text \<open>\<open>create\<close>: does \<^verbatim>\<open>eventfd\<close> give a descriptor, and does its sink accept the handler?\<close>

definition dq_create :: "bool \<Rightarrow> bool \<Rightarrow> ('t, 'f, 'r) dqueue option" where
  "dq_create fd_ok events_added = (if \<not> fd_ok then None else if \<not> events_added then None else Some dq_new)"

text \<open>The counter of a non-blocking \<^verbatim>\<open>eventfd\<close>: a write that would reach the maximum fails.\<close>

definition fd_write :: "64 word \<Rightarrow> 64 word" where
  "fd_write c = (if c \<ge> 0xFFFFFFFFFFFFFFFE then c else c + 1)"

text \<open>\<open>enqueue\<close>, first part: make the promise, wrap the callback, and push it under the mutex.\<close>

definition enqueue_push :: "'t \<Rightarrow> 'f \<Rightarrow> ('t, 'f, 'r) dqueue \<Rightarrow> ('t, 'f, 'r) dqueue" where
  "enqueue_push t f q =
     q\<lparr>dq_queue := dq_queue q @ [(dq_promises q, f)], dq_promises := dq_promises q + 1,
       dq_writers := t # dq_writers q\<rparr>"

text \<open>\<open>enqueue\<close>, second part: signal the file descriptor.\<close>

definition enqueue_write :: "'t \<Rightarrow> ('t, 'f, 'r) dqueue \<Rightarrow> ('t, 'f, 'r) dqueue" where
  "enqueue_write t q = q\<lparr>dq_fd := fd_write (dq_fd q), dq_writers := remove1 t (dq_writers q)\<rparr>"

text \<open>\<open>on_ready\<close>: the first section under the mutex.\<close>

definition take_callbacks :: "('t, 'f, 'r) dqueue \<Rightarrow> ('t, 'f, 'r) dqueue" where
  "take_callbacks q = q\<lparr>dq_batch := Some (dq_queue q), dq_queue := []\<rparr>"

text \<open>\<open>on_ready\<close>: the loop. A wrapped callback calls the function and sets the promise.\<close>

definition call_next :: "nat \<Rightarrow> (nat \<times> 'f) list \<Rightarrow> ('t, 'f, 'r) dqueue \<Rightarrow> ('t, 'f, 'r) dqueue" where
  "call_next p cs q = q\<lparr>dq_batch := Some cs, dq_current := Some p\<rparr>"

text \<open>\<^verbatim>\<open>std::promise::set_value\<close> throws if there is a value.\<close>

definition fulfill :: "nat \<Rightarrow> 'r \<Rightarrow> ('t, 'f, 'r) dqueue \<Rightarrow> ('t, 'f, 'r) dqueue option" where
  "fulfill p r q =
     (case dq_results q p of
        Some _ \<Rightarrow> None
      | None \<Rightarrow> Some (q\<lparr>dq_results := (dq_results q)(p \<mapsto> r), dq_current := None\<rparr>))"

text \<open>\<open>on_ready\<close>: the last section under the mutex. A read resets the counter.\<close>

definition clear_event :: "('t, 'f, 'r) dqueue \<Rightarrow> ('t, 'f, 'r) dqueue" where
  "clear_event q = q\<lparr>dq_batch := None, dq_fd := (if dq_queue q = [] then 0 else dq_fd q)\<rparr>"

section \<open>Steps\<close>

datatype ('t, 'f, 'r) dq_event = Push 't 'f | Signal 't | Ready | Call nat 'f | Return nat 'r | Leave

text \<open>The event loop calls \<open>on_ready\<close> when the file descriptor can be read.\<close>

inductive dq_step :: "('t, 'f, 'r) dqueue \<Rightarrow> ('t, 'f, 'r) dq_event \<Rightarrow> ('t, 'f, 'r) dqueue \<Rightarrow> bool" where
  push: "t \<notin> set (dq_writers q) \<Longrightarrow> dq_step q (Push t f) (enqueue_push t f q)"
| signal: "t \<in> set (dq_writers q) \<Longrightarrow> dq_step q (Signal t) (enqueue_write t q)"
| ready: "dq_batch q = None \<Longrightarrow> dq_fd q \<noteq> 0 \<Longrightarrow> dq_step q Ready (take_callbacks q)"
| call: "dq_batch q = Some ((p, f) # cs) \<Longrightarrow> dq_current q = None \<Longrightarrow> dq_step q (Call p f) (call_next p cs q)"
| return: "dq_current q = Some p \<Longrightarrow> fulfill p r q = Some q' \<Longrightarrow> dq_step q (Return p r) q'"
| leave: "dq_batch q = Some [] \<Longrightarrow> dq_current q = None \<Longrightarrow> dq_step q Leave (clear_event q)"

inductive_cases push_stepE: "dq_step q (Push t f) q'"
inductive_cases signal_stepE: "dq_step q (Signal t) q'"
inductive_cases ready_stepE: "dq_step q Ready q'"
inductive_cases call_stepE: "dq_step q (Call p f) q'"
inductive_cases return_stepE: "dq_step q (Return p r) q'"
inductive_cases leave_stepE: "dq_step q Leave q'"

lemmas dq_stepE = push_stepE signal_stepE ready_stepE call_stepE return_stepE leave_stepE

inductive dq_run :: "('t, 'f, 'r) dqueue \<Rightarrow> ('t, 'f, 'r) dq_event list \<Rightarrow> ('t, 'f, 'r) dqueue \<Rightarrow> bool" where
  run_nil: "dq_run q [] q"
| run_snoc: "dq_run q es q' \<Longrightarrow> dq_step q' e q'' \<Longrightarrow> dq_run q (es @ [e]) q''"

text \<open>What a run pushed, called and returned from.\<close>

fun pushed :: "('t, 'f, 'r) dq_event list \<Rightarrow> 'f list" where
  "pushed [] = []"
| "pushed (Push t f # es) = f # pushed es"
| "pushed (e # es) = pushed es"

fun called :: "('t, 'f, 'r) dq_event list \<Rightarrow> (nat \<times> 'f) list" where
  "called [] = []"
| "called (Call p f # es) = (p, f) # called es"
| "called (e # es) = called es"

lemma pushed_append [simp]: "pushed (es @ es') = pushed es @ pushed es'"
proof (induction es)
  case (Cons e es)
  then show ?case by (cases e) simp_all
qed simp

lemma called_append [simp]: "called (es @ es') = called es @ called es'"
proof (induction es)
  case (Cons e es)
  then show ?case by (cases e) simp_all
qed simp

definition batch :: "('t, 'f, 'r) dqueue \<Rightarrow> (nat \<times> 'f) list" where
  "batch q = (case dq_batch q of None \<Rightarrow> [] | Some cs \<Rightarrow> cs)"

section \<open>The invariant\<close>

text \<open>
  A callback in the queue has been signalled or is about to be; the promises are those of the
  callbacks called, to be called and queued, in this order; only those of finished calls are set.
\<close>

definition dq_inv :: "('t, 'f, 'r) dq_event list \<Rightarrow> ('t, 'f, 'r) dqueue \<Rightarrow> bool" where
  "dq_inv es q \<longleftrightarrow>
     (dq_queue q \<noteq> [] \<longrightarrow> dq_fd q \<noteq> 0 \<or> dq_writers q \<noteq> []) \<and>
     called es @ batch q @ dq_queue q = enumerate 0 (pushed es) \<and>
     dq_promises q = length (pushed es) \<and> (dq_batch q = None \<longrightarrow> dq_current q = None) \<and>
     (case dq_current q of
        None \<Rightarrow> dom (dq_results q) = fst ` set (called es)
      | Some p \<Rightarrow> \<exists>cs f. called es = cs @ [(p, f)] \<and> dom (dq_results q) = fst ` set cs)"

lemmas dq_ops = enqueue_push_def enqueue_write_def take_callbacks_def call_next_def clear_event_def

lemma fd_write_nonzero: "fd_write c \<noteq> 0"
proof (cases "c \<ge> 0xFFFFFFFFFFFFFFFE")
  case False
  then have "c \<noteq> - 1" by auto
  then have "c + 1 \<noteq> 0" by (metis add_eq_0_iff add.commute minus_minus)
  then show ?thesis using False by (simp add: fd_write_def)
qed (auto simp: fd_write_def)

lemma dq_inv_step:
  assumes "dq_inv es q" and "dq_step q e q'"
  shows "dq_inv (es @ [e]) q'"
proof -
  have wake: "dq_queue q \<noteq> [] \<longrightarrow> dq_fd q \<noteq> 0 \<or> dq_writers q \<noteq> []"
    and order: "called es @ batch q @ dq_queue q = enumerate 0 (pushed es)"
    and count: "dq_promises q = length (pushed es)" and idle: "dq_batch q = None \<longrightarrow> dq_current q = None"
    and cur: "case dq_current q of
        None \<Rightarrow> dom (dq_results q) = fst ` set (called es)
      | Some p \<Rightarrow> \<exists>cs f. called es = cs @ [(p, f)] \<and> dom (dq_results q) = fst ` set cs"
    using assms(1) by (simp_all add: dq_inv_def)
  from assms(2) show ?thesis
  proof cases
    case (push t f)
    have "called es @ batch q @ dq_queue q @ [(dq_promises q, f)] = enumerate 0 (pushed es @ [f])"
      using order count by (simp add: enumerate_append_eq flip: append_assoc)
    then show ?thesis using idle count cur by (cases "dq_current q") (simp_all add: push dq_inv_def dq_ops batch_def)
  next
    case (signal t)
    then show ?thesis using order count idle cur by (cases "dq_current q") (simp_all add: dq_inv_def dq_ops batch_def fd_write_nonzero)
  next
    case ready
    then show ?thesis using order count idle cur by (cases "dq_current q") (simp_all add: dq_inv_def dq_ops batch_def)
  next
    case (call p f cs)
    then show ?thesis using wake order count cur by (cases "dq_current q") (simp_all add: dq_inv_def dq_ops batch_def)
  next
    case (return p r)
    then have q': "q' = q\<lparr>dq_results := (dq_results q)(p \<mapsto> r), dq_current := None\<rparr>"
      by (auto simp: fulfill_def split: option.splits)
    obtain cs f where "called es = cs @ [(p, f)]" "dom (dq_results q) = fst ` set cs" using cur return(2) by auto
    then have "dom (dq_results q') = fst ` set (called es)" by (simp add: q')
    then show ?thesis using wake order count by (simp add: dq_inv_def q' batch_def return(1))
  next
    case leave
    then show ?thesis using wake order count cur by (cases "dq_current q") (simp_all add: dq_inv_def dq_ops batch_def)
  qed
qed

lemma dq_inv_run:
  assumes "dq_run dq_new es q"
  shows "dq_inv es q"
proof -
  have "dq_run q0 es q \<Longrightarrow> q0 = dq_new \<Longrightarrow> dq_inv es q" for q0
  proof (induction rule: dq_run.induct)
    case (run_nil q)
    then show ?case by (simp add: dq_inv_def dq_new_def batch_def)
  next
    case (run_snoc q es q' e q'')
    then show ?case using dq_inv_step by blast
  qed
  then show ?thesis using assms by blast
qed

section \<open>Runs\<close>

lemma dq_run_one: "dq_step q e q' \<Longrightarrow> dq_run q [e] q'"
  using run_snoc [OF run_nil, of q e q'] by simp

lemma dq_run_single: "dq_run q [e] q' \<Longrightarrow> dq_step q e q'"
  by (erule dq_run.cases) (auto elim: dq_run.cases)

lemma dq_run_append: "dq_run q' es' q'' \<Longrightarrow> dq_run q es q' \<Longrightarrow> dq_run q (es @ es') q''"
proof (induction rule: dq_run.induct)
  case (run_snoc q1 es1 q2 e q3)
  then show ?case using dq_run.run_snoc [of q "es @ es1" q2 e q3] by simp
qed simp

lemma dq_run_split: "dq_run q (es @ es') q'' \<Longrightarrow> \<exists>q'. dq_run q es q' \<and> dq_run q' es' q''"
proof (induction es' arbitrary: q'' rule: rev_induct)
  case Nil
  then show ?case using run_nil by auto
next
  case (snoc e es')
  from snoc.prems obtain q1 where "dq_run q (es @ es') q1" "dq_step q1 e q''"
    by (cases rule: dq_run.cases) (auto simp flip: append_assoc)
  then show ?case using snoc.IH run_snoc by fastforce
qed

text \<open>Until \<open>on_ready\<close> returns, what it has called and has yet to call is what it took.\<close>

lemma batch_shrinks:
  "dq_run q es q' \<Longrightarrow> Leave \<notin> set es \<Longrightarrow> dq_batch q = Some cs \<Longrightarrow>
    \<exists>cs'. dq_batch q' = Some cs' \<and> cs = called es @ cs'"
proof (induction rule: dq_run.induct)
  case (run_nil q)
  then show ?case by simp
next
  case (run_snoc q es q' e q'')
  then obtain cs' where cs': "dq_batch q' = Some cs'" "cs = called es @ cs'" by auto
  from run_snoc.hyps(2) show ?case
    using cs' run_snoc.prems(1)
    by cases (auto simp: dq_ops fulfill_def split: option.splits)
qed

text \<open>The loop of \<open>on_ready\<close>, with the results \<open>rs\<close>.\<close>

lemma batch_runs:
  assumes "dq_batch q = Some cs" and "dq_current q = None" and "distinct (map fst cs)"
    and "\<forall>p\<in>fst ` set cs. dq_results q p = None"
  shows "\<exists>es q'. dq_run q es q' \<and> called es = cs \<and> Leave \<notin> set es \<and>
    q' = q\<lparr>dq_batch := Some [], dq_results := (\<lambda>p. if p \<in> fst ` set cs then Some (rs p) else dq_results q p)\<rparr>"
  using assms
proof (induction cs arbitrary: q)
  case Nil
  then have "q = q\<lparr>dq_batch := Some [], dq_results := dq_results q\<rparr>" by (cases q) simp
  then show ?case using run_nil [of q] by (intro exI [of _ "[]"] exI [of _ q]) simp
next
  case (Cons c cs)
  obtain p f where c: "c = (p, f)" by fastforce
  let ?q1 = "call_next p cs q"
  let ?q2 = "?q1\<lparr>dq_results := (dq_results q)(p \<mapsto> rs p), dq_current := None\<rparr>"
  have 1: "dq_step q (Call p f) ?q1" using Cons.prems by (intro call) (simp_all add: c)
  have 2: "dq_step ?q1 (Return p (rs p)) ?q2"
    using Cons.prems(4) by (intro return) (simp_all add: c call_next_def fulfill_def)
  have "dq_batch ?q2 = Some cs" "dq_current ?q2 = None" "distinct (map fst cs)"
    "\<forall>p'\<in>fst ` set cs. dq_results ?q2 p' = None"
    using Cons.prems(3,4) by (auto simp: c call_next_def)
  from Cons.IH [OF this] obtain es q' where es: "dq_run ?q2 es q'" "called es = cs" "Leave \<notin> set es"
    "q' = ?q2\<lparr>dq_batch := Some [], dq_results := (\<lambda>p. if p \<in> fst ` set cs then Some (rs p) else dq_results ?q2 p)\<rparr>"
    by blast
  have "dq_run q ([Call p f, Return p (rs p)] @ es) q'"
    using dq_run_append [OF es(1) dq_run_append [OF dq_run_one [OF 2] dq_run_one [OF 1]]] by simp
  moreover have "q' = q\<lparr>dq_batch := Some [],
      dq_results := (\<lambda>p. if p \<in> fst ` set (c # cs) then Some (rs p) else dq_results q p)\<rparr>"
    using Cons.prems(2) by (cases q) (auto simp: es(4) c call_next_def)
  ultimately show ?case using es(2,3) c by (intro exI [of _ "[Call p f, Return p (rs p)] @ es"] exI [of _ q']) simp
qed

section \<open>An instance\<close>

text \<open>Two threads enqueue; the second has not signalled when the event loop takes both callbacks.\<close>

definition demo_queue :: "(nat, string, nat) dqueue" where
  "demo_queue = enqueue_push 2 ''b'' (enqueue_write 1 (enqueue_push 1 ''a'' dq_new))"

lemma demo_queue_run: "dq_run dq_new [Push 1 ''a'', Signal 1, Push 2 ''b''] demo_queue"
proof -
  have 1: "dq_step dq_new (Push 1 ''a'') (enqueue_push 1 ''a'' dq_new)" by (rule push) (simp add: dq_new_def)
  have 2: "dq_step (enqueue_push 1 ''a'' dq_new) (Signal 1) (enqueue_write 1 (enqueue_push 1 ''a'' dq_new))"
    by (rule signal) (simp add: enqueue_push_def)
  have 3: "dq_step (enqueue_write 1 (enqueue_push 1 ''a'' dq_new)) (Push 2 ''b'') demo_queue"
    unfolding demo_queue_def by (rule push) (simp add: dq_new_def dq_ops)
  show ?thesis using dq_run_append [OF dq_run_append [OF dq_run_one [OF 3] dq_run_one [OF 2]] dq_run_one [OF 1]] by simp
qed

section \<open>Properties\<close>

text \<open>
  C24: no wake-up is lost. In every reachable state in which callbacks are queued, no thread is
  about to signal and the event loop is waiting, the file descriptor is readable; the call of
  \<open>on_ready\<close> that follows runs all of them in order, sets their promises to the results, and leaves
  the queue empty and the file descriptor cleared.
\<close>

theorem no_lost_wakeup:
  assumes "dq_run dq_new es q" and "dq_queue q \<noteq> []" and "dq_writers q = []" and "dq_batch q = None"
  shows "\<exists>es' q'. dq_run q (Ready # es' @ [Leave]) q' \<and> called es' = dq_queue q \<and> dq_queue q' = [] \<and>
    dq_fd q' = 0 \<and> (\<forall>p\<in>fst ` set (dq_queue q). dq_results q' p = Some (rs p))"
proof -
  note inv = dq_inv_run [OF assms(1)]
  let ?q1 = "take_callbacks q"
  have "dq_fd q \<noteq> 0" using inv assms(2,3) by (simp add: dq_inv_def)
  then have 1: "dq_step q Ready ?q1" using assms(4) by (intro ready)
  have all: "called es @ dq_queue q = enumerate 0 (pushed es)" and cur: "dq_current q = None"
    using inv assms(4) by (simp_all add: dq_inv_def batch_def)
  have res: "dom (dq_results q) = fst ` set (called es)" using inv cur by (simp add: dq_inv_def)
  have dist: "distinct (map fst (called es @ dq_queue q))" unfolding all by (simp add: enumerate_eq_zip)
  then have new: "\<forall>p\<in>fst ` set (dq_queue q). dq_results q p = None" using res by (auto simp: domIff [symmetric])
  obtain es' q2 where es': "dq_run ?q1 es' q2" "called es' = dq_queue q"
    and q2: "q2 = ?q1\<lparr>dq_batch := Some [],
      dq_results := (\<lambda>p. if p \<in> fst ` set (dq_queue q) then Some (rs p) else dq_results ?q1 p)\<rparr>"
    using batch_runs [of ?q1 "dq_queue q" rs] dist new cur by (auto simp: take_callbacks_def)
  have 3: "dq_step q2 Leave (clear_event q2)" using cur by (intro leave) (simp_all add: q2 take_callbacks_def)
  have "dq_run q ([Ready] @ (es' @ [Leave])) (clear_event q2)"
    using dq_run_append [OF run_snoc [OF es'(1) 3] dq_run_one [OF 1]] .
  then show ?thesis using es'(2) by (intro exI [of _ es'] exI [of _ "clear_event q2"]) (simp add: q2 dq_ops)
qed

theorem no_lost_wakeup_witness:
  "\<exists>es q'. dq_run (enqueue_write 2 demo_queue) (Ready # es @ [Leave]) q' \<and> called es = [(0, ''a''), (1, ''b'')] \<and>
     dq_queue q' = [] \<and> dq_fd q' = 0 \<and> dq_results q' 1 = Some 7"
proof -
  have "dq_step demo_queue (Signal 2) (enqueue_write 2 demo_queue)"
    by (rule signal) (simp add: demo_queue_def dq_ops)
  note run = run_snoc [OF demo_queue_run this]
  have q: "dq_queue (enqueue_write 2 demo_queue) = [(0, ''a''), (1, ''b'')]" "dq_writers (enqueue_write 2 demo_queue) = []"
    "dq_batch (enqueue_write 2 demo_queue) = None"
    by (simp_all add: demo_queue_def dq_ops dq_new_def)
  show ?thesis using no_lost_wakeup [OF run _ q(2,3), of "\<lambda>p. p + 6"] unfolding q by auto
qed

text \<open>
  C25: strict order. However the threads interleave, the callbacks are called in the order in which
  they were pushed, each at most once and with its own promise; setting a promise never fails,
  and only callbacks that were called have a result.
\<close>

theorem callbacks_in_order:
  assumes "dq_run dq_new es q"
  shows "(\<exists>rest. called es @ rest = enumerate 0 (pushed es)) \<and> distinct (map fst (called es)) \<and>
    dom (dq_results q) \<subseteq> fst ` set (called es) \<and> (\<forall>p r. dq_current q = Some p \<longrightarrow> fulfill p r q \<noteq> None)"
proof -
  note inv = dq_inv_run [OF assms]
  have order: "called es @ (batch q @ dq_queue q) = enumerate 0 (pushed es)" using inv by (simp add: dq_inv_def)
  have "distinct (map fst (called es @ (batch q @ dq_queue q)))" unfolding order by (simp add: enumerate_eq_zip)
  then have dist: "distinct (map fst (called es))" by simp
  have "dom (dq_results q) \<subseteq> fst ` set (called es) \<and> (\<forall>p r. dq_current q = Some p \<longrightarrow> fulfill p r q \<noteq> None)"
  proof (cases "dq_current q")
    case None
    then show ?thesis using inv by (simp add: dq_inv_def)
  next
    case (Some p)
    then obtain cs f where cs: "called es = cs @ [(p, f)]" "dom (dq_results q) = fst ` set cs"
      using inv by (auto simp: dq_inv_def)
    then have "dq_results q p = None" using dist by (auto simp: domIff [symmetric])
    then show ?thesis using Some cs by (auto simp: fulfill_def)
  qed
  then show ?thesis using order dist by blast
qed

theorem callbacks_in_order_witness:
  "\<exists>es q. dq_run dq_new es (q :: (nat, string, nat) dqueue) \<and> pushed es = [''a'', ''b''] \<and> called es = [(0, ''a'')] \<and>
     dom (dq_results q) \<subseteq> {0}"
proof -
  let ?q1 = "take_callbacks demo_queue" and ?q2 = "call_next 0 [(1, ''b'')] (take_callbacks demo_queue)"
  have 1: "dq_step demo_queue Ready ?q1" by (rule ready) (simp_all add: demo_queue_def dq_ops dq_new_def fd_write_def)
  have 2: "dq_step ?q1 (Call 0 ''a'') ?q2" by (rule call) (simp_all add: demo_queue_def dq_ops dq_new_def)
  note run = run_snoc [OF run_snoc [OF demo_queue_run 1] 2]
  show ?thesis using callbacks_in_order [OF run] run by (intro exI) auto
qed

text \<open>
  A call of \<open>on_ready\<close> runs the callbacks that were queued when it began, all of them and no
  others, also when threads, or the callbacks themselves, enqueue meanwhile.
\<close>

theorem ready_runs_snapshot:
  assumes "dq_run q (Ready # es @ [Leave]) q'" and "Leave \<notin> set es"
  shows "called es = dq_queue q"
proof -
  obtain q1 q2 where "dq_run q [Ready] q1" and mid: "dq_run q1 es q2" and "dq_run q2 [Leave] q'"
    using dq_run_split [of q "[Ready]" "es @ [Leave]" q'] dq_run_split assms(1) by fastforce
  moreover from this have "dq_step q Ready q1" "dq_step q2 Leave q'" by (blast dest: dq_run_single)+
  ultimately have "dq_batch q1 = Some (dq_queue q)" "dq_batch q2 = Some []"
    by (auto elim!: dq_stepE simp: take_callbacks_def)
  then show ?thesis using batch_shrinks [OF mid assms(2)] by auto
qed

theorem ready_runs_snapshot_witness:
  "\<exists>es q'. dq_run (demo_queue :: (nat, string, nat) dqueue) (Ready # es @ [Leave]) q' \<and>
     called es = [(0, ''a''), (1, ''b'')] \<and> dq_queue q' = [(2, ''c'')]"
proof -
  let ?q1 = "take_callbacks demo_queue" and ?q2 = "enqueue_push 3 ''c'' (take_callbacks demo_queue)"
  have q2: "dq_batch ?q2 = Some [(0, ''a''), (1, ''b'')]" "dq_current ?q2 = None" "dq_results ?q2 = Map.empty"
    "dq_queue ?q2 = [(2, ''c'')]"
    by (simp_all add: demo_queue_def dq_ops dq_new_def)
  have 1: "dq_step demo_queue Ready ?q1" by (rule ready) (simp_all add: demo_queue_def dq_ops dq_new_def fd_write_def)
  have 2: "dq_step ?q1 (Push 3 ''c'') ?q2" by (rule push) (simp add: demo_queue_def dq_ops dq_new_def)
  obtain es q3 where es: "dq_run ?q2 es q3" "Leave \<notin> set es" and q3: "dq_batch q3 = Some []" "dq_current q3 = None"
      "dq_queue q3 = [(2, ''c'')]"
    using batch_runs [OF q2(1,2), of "\<lambda>_. 0"] q2 by auto
  have 3: "dq_step q3 Leave (clear_event q3)" by (rule leave [OF q3(1,2)])
  have run: "dq_run demo_queue (Ready # (Push 3 ''c'' # es) @ [Leave]) (clear_event q3)"
    using dq_run_append [OF run_snoc [OF es(1) 3] dq_run_append [OF dq_run_one [OF 2] dq_run_one [OF 1]]] by simp
  have "called (Push 3 ''c'' # es) = dq_queue demo_queue"
    by (rule ready_runs_snapshot [OF run]) (use es(2) in simp)
  then show ?thesis using run q3(3)
    by (intro exI [of _ "Push 3 ''c'' # es"] exI [of _ "clear_event q3"]) (simp add: demo_queue_def dq_ops dq_new_def)
qed

end
