(* ===== verification/Server_Conns.thy ===== *)
theory Server_Conns
  imports Codon_Prelude
begin

text \<open>
  \<^verbatim>\<open>Server.cc\<close>: the lists of pending and of accepted connections of a server. The connections
  themselves, \<^verbatim>\<open>ServerFd\<close>, sockets, and the virtual functions of the concrete server are parameters
  that act on the rest of the world, \<open>'w\<close>. Closing a connection calls \<open>server_handle_disconnect\<close>,
  which only sets a flag; as no operation reads the flag, the call back is left out.
\<close>

section \<open>Parameters\<close>

text \<open>
  \<open>alive\<close>: the handle is not null. \<open>fd_events\<close> stands for \<^verbatim>\<open>add_events\<close>, first for reading, then
  for closing. \<open>net_server\<close> and \<open>net_accept\<close> give a new sink, or \<open>None\<close> on failure.
\<close>

record ('fes, 'h, 'addr, 'w) server_env =
  alive :: "'h \<Rightarrow> 'w \<Rightarrow> bool"
  conn_fd :: "'h \<Rightarrow> 'w \<Rightarrow> 'fes option"
  conn_closed :: "'h \<Rightarrow> 'w \<Rightarrow> bool"
  conn_close :: "'h \<Rightarrow> 'w \<Rightarrow> bool \<times> 'w"
  close_sig_empty :: "'h \<Rightarrow> 'w \<Rightarrow> bool"
  close_sig_connect :: "'h \<Rightarrow> 'w \<Rightarrow> 'w"
  acceptance_requested :: "'h \<Rightarrow> 'w \<Rightarrow> bool"
  is_accepted :: "'h \<Rightarrow> 'w \<Rightarrow> bool"
  accept_connection :: "'h \<Rightarrow> 'w \<Rightarrow> bool \<times> 'w"
  conn_dispatch :: "'h \<Rightarrow> nano \<Rightarrow> 'w \<Rightarrow> nano \<times> 'w"
  fd_closed :: "'fes \<Rightarrow> 'w \<Rightarrow> bool"
  fd_close :: "'fes \<Rightarrow> 'w \<Rightarrow> bool \<times> 'w"
  fd_number :: "'fes \<Rightarrow> int"
  fd_port :: "'fes \<Rightarrow> 'w \<Rightarrow> 16 word option"
  fd_events :: "bool \<Rightarrow> 'fes \<Rightarrow> 'w \<Rightarrow> bool \<times> 'w"
  fd_clear_signals :: "'fes \<Rightarrow> 'w \<Rightarrow> bool \<times> 'w"
  net_server :: "'addr \<Rightarrow> int \<Rightarrow> int \<Rightarrow> 'w \<Rightarrow> 'fes option \<times> 'w"
  net_accept :: "'fes \<Rightarrow> 'w \<Rightarrow> 'fes option \<times> 'w"
  any_addr :: "16 word \<Rightarrow> 'addr"
  create_connection :: "'fes \<Rightarrow> 'w \<Rightarrow> bool \<times> 'h option \<times> 'w"
  finalize_connection :: "'h list \<Rightarrow> nat \<Rightarrow> 'w \<Rightarrow> bool \<times> 'w"
  handle_accepted :: "'h list \<Rightarrow> nat \<Rightarrow> 'w \<Rightarrow> bool \<times> 'w"
  all_disconnect :: "'w \<Rightarrow> bool \<times> 'w"
  sub_start :: "'w \<Rightarrow> bool \<times> 'w"
  sub_stop :: "'w \<Rightarrow> bool \<times> 'w"
  sub_dispatch :: "nano \<Rightarrow> 'w \<Rightarrow> nano \<times> 'w"
  prune_due :: "nano \<Rightarrow> 'w \<Rightarrow> nano \<times> 'w"

record ('fes, 'h) server =
  listen_fd :: "'fes option"
  port :: "16 word"
  connections :: "'h list"
  pending_connections :: "'h list"
  max_connections :: u32
  do_prune :: bool

definition server_new :: "u32 \<Rightarrow> ('fes, 'h) server" where
  "server_new limit = \<lparr>listen_fd = None, port = 0, connections = [], pending_connections = [],
     max_connections = limit, do_prune = False\<rparr>"

section \<open>Closing\<close>

definition close_pending :: "('fes, 'h, 'addr, 'w) server_env \<Rightarrow> 'h list \<Rightarrow> nat \<Rightarrow> 'w \<Rightarrow> bool \<times> 'w" where
  "close_pending E hs i w =
     (if i \<ge> length hs then (False, w)
      else
        let h = hs ! i in
        if \<not> alive E h w then (True, w)
        else if conn_closed E h w then (True, w)
        else (case conn_close E h w of (ok, w') \<Rightarrow> (ok \<or> close_sig_empty E h w', w')))"

definition close_accepted :: "('fes, 'h, 'addr, 'w) server_env \<Rightarrow> 'h list \<Rightarrow> nat \<Rightarrow> 'w \<Rightarrow> bool \<times> 'w" where
  "close_accepted E hs i w =
     (if i \<ge> length hs then (False, w)
      else
        let h = hs ! i in
        if \<not> alive E h w then (True, w)
        else
          (case finalize_connection E hs i w of
             (_, w1) \<Rightarrow>
               if \<not> alive E h w1 then (True, w1)
               else if conn_closed E h w1 then (True, w1)
               else (case conn_close E h w1 of (ok, w') \<Rightarrow> (ok \<or> close_sig_empty E h w', w'))))"

definition erase_at :: "nat \<Rightarrow> 'a list \<Rightarrow> 'a list" where
  "erase_at i xs = take i xs @ drop (Suc i) xs"

definition conn_valid :: "('fes, 'h, 'addr, 'w) server_env \<Rightarrow> 'h \<Rightarrow> 'w \<Rightarrow> bool" where
  "conn_valid E h w \<longleftrightarrow> alive E h w \<and> (case conn_fd E h w of None \<Rightarrow> False | Some f \<Rightarrow> \<not> fd_closed E f w)"

text \<open>
  The two loops both lists are pruned with, for a function \<open>close\<close> of the list, the index and the
  world. The second result of \<open>prune_closed\<close> and \<open>prune_oldest\<close> says whether one was closed.
\<close>

fun prune_closed ::
  "('fes, 'h, 'addr, 'w) server_env \<Rightarrow> ('h list \<Rightarrow> nat \<Rightarrow> 'w \<Rightarrow> bool \<times> 'w) \<Rightarrow> nat \<Rightarrow> bool \<Rightarrow> 'h list \<Rightarrow> 'w \<Rightarrow>
   'h list \<times> bool \<times> 'w" where
  "prune_closed E close 0 lost hs w = (hs, lost, w)"
| "prune_closed E close (Suc i) lost hs w =
     (if \<not> conn_valid E (hs ! i) w then
        (case close hs i w of (_, w') \<Rightarrow> prune_closed E close i True (erase_at i hs) w')
      else prune_closed E close i lost hs w)"

fun prune_oldest ::
  "('h list \<Rightarrow> nat \<Rightarrow> 'w \<Rightarrow> bool \<times> 'w) \<Rightarrow> nat \<Rightarrow> bool \<Rightarrow> 'h list \<Rightarrow> 'w \<Rightarrow> 'h list \<times> bool \<times> 'w" where
  "prune_oldest close limit lost [] w = ([], lost, w)"
| "prune_oldest close limit lost (h # hs) w =
     (if length (h # hs) > limit then
        (case close (h # hs) 0 w of (_, w') \<Rightarrow> prune_oldest close limit True hs w')
      else (h # hs, lost, w))"

section \<open>Accepting\<close>

definition accept_conn ::
  "('fes, 'h, 'addr, 'w) server_env \<Rightarrow> 'h \<Rightarrow> ('fes, 'h) server \<times> 'w \<Rightarrow> bool \<times> ('fes, 'h) server \<times> 'w" where
  "accept_conn E h x =
     (case x of (s, w) \<Rightarrow>
      if \<not> alive E h w then (False, s, w)
      else if \<not> acceptance_requested E h w then (False, s, snd (conn_close E h w))
      else
        let s1 = s\<lparr>connections := connections s @ [h]\<rparr> in
        (case accept_connection E h w of
           (_, w1) \<Rightarrow>
             (case handle_accepted E (connections s1) (length (connections s1) - 1) w1 of
                (ok, w2) \<Rightarrow> if \<not> ok then (False, s1, snd (conn_close E h w2)) else (True, s1, w2))))"

fun accept_requested ::
  "('fes, 'h, 'addr, 'w) server_env \<Rightarrow> 'h list \<Rightarrow> ('fes, 'h) server \<times> 'w \<Rightarrow> ('fes, 'h) server \<times> 'w" where
  "accept_requested E [] x = x"
| "accept_requested E (h # hs) x =
     (if \<not> alive E h (snd x) then accept_requested E hs x
      else if acceptance_requested E h (snd x) then accept_requested E hs (snd (accept_conn E h x))
      else accept_requested E hs x)"

text \<open>The loop that erases accepted connections has no other effect.\<close>

definition prune_pending ::
  "('fes, 'h, 'addr, 'w) server_env \<Rightarrow> ('fes, 'h) server \<times> 'w \<Rightarrow> bool \<times> ('fes, 'h) server \<times> 'w" where
  "prune_pending E x =
     (case x of (s, w) \<Rightarrow>
      (case prune_closed E (close_pending E) (length (pending_connections s)) False (pending_connections s) w of
         (ps1, _, w1) \<Rightarrow>
      (case accept_requested E ps1 (s\<lparr>pending_connections := ps1\<rparr>, w1) of
         (s2, w2) \<Rightarrow>
      (case prune_oldest (close_pending E) (unat (max_connections s2)) False
              (filter (\<lambda>h. \<not> (alive E h w2 \<and> is_accepted E h w2)) (pending_connections s2)) w2 of
         (ps3, _, w3) \<Rightarrow> (True, s2\<lparr>pending_connections := ps3\<rparr>, w3)))))"

definition prune_accepted ::
  "('fes, 'h, 'addr, 'w) server_env \<Rightarrow> ('fes, 'h) server \<times> 'w \<Rightarrow> bool \<times> ('fes, 'h) server \<times> 'w" where
  "prune_accepted E x =
     (case x of (s, w) \<Rightarrow>
      (case prune_closed E (close_accepted E) (length (connections s)) False (connections s) w of
         (cs1, lost1, w1) \<Rightarrow>
      (case prune_oldest (close_accepted E) (unat (max_connections s)) lost1 cs1 w1 of
         (cs2, lost2, w2) \<Rightarrow>
           (True, s\<lparr>connections := cs2\<rparr>, if lost2 \<and> cs2 = [] then snd (all_disconnect E w2) else w2))))"

definition prune_connections ::
  "('fes, 'h, 'addr, 'w) server_env \<Rightarrow> ('fes, 'h) server \<times> 'w \<Rightarrow> bool \<times> ('fes, 'h) server \<times> 'w" where
  "prune_connections E x =
     (case prune_pending E x of (ok, x1) \<Rightarrow> if \<not> ok then (False, x1) else prune_accepted E x1)"

section \<open>The server\<close>

text \<open>\<open>stop\<close>: the loops close all connections; \<open>closed\<close> is \<open>connection_closed\<close>.\<close>

fun close_all :: "('h list \<Rightarrow> nat \<Rightarrow> 'w \<Rightarrow> bool \<times> 'w) \<Rightarrow> 'h list \<Rightarrow> 'w \<Rightarrow> 'w" where
  "close_all close [] w = w"
| "close_all close (h # hs) w = (case close (h # hs) 0 w of (_, w') \<Rightarrow> close_all close hs w')"

definition stop :: "('fes, 'h, 'addr, 'w) server_env \<Rightarrow> ('fes, 'h) server \<times> 'w \<Rightarrow> bool \<times> ('fes, 'h) server \<times> 'w" where
  "stop E x =
     (case x of (s, w) \<Rightarrow>
      (case sub_stop E w of
         (ok, w0) \<Rightarrow>
           if \<not> ok then (False, s, w0)
           else
             let w1 = close_all (close_pending E) (pending_connections s) w0;
                 closed = (connections s \<noteq> []);
                 w2 = close_all (close_accepted E) (connections s) w1;
                 s1 = s\<lparr>pending_connections := [], connections := []\<rparr>;
                 w3 = (if closed then snd (all_disconnect E w2) else w2)
             in
               (case listen_fd s of
                  None \<Rightarrow> (True, s1, w3)
                | Some fes \<Rightarrow>
                    (case fd_clear_signals E fes w3 of
                       (False, w4) \<Rightarrow> (False, s1, w4)
                     | (True, w4) \<Rightarrow> (True, s1\<lparr>listen_fd := None, port := 0\<rparr>, snd (fd_close E fes w4))))))"

text \<open>The overloads of \<open>start\<close>: on a listening sink, on an address, on a port.\<close>

definition start_fd ::
  "('fes, 'h, 'addr, 'w) server_env \<Rightarrow> 'fes option \<Rightarrow> ('fes, 'h) server \<times> 'w \<Rightarrow> bool \<times> ('fes, 'h) server \<times> 'w" where
  "start_fd E fes x =
     (case x of (s, w) \<Rightarrow>
      (case fes of
         None \<Rightarrow> (False, s, w)
       | Some fd \<Rightarrow>
           if fd_closed E fd w then (False, s, w)
           else
             (case fd_port E fd w of
                None \<Rightarrow> (False, s, w)
              | Some p \<Rightarrow>
                  let s1 = s\<lparr>port := p\<rparr> in
                  (case fd_events E True fd w of
                     (False, w1) \<Rightarrow> (False, s1, w1)
                   | (True, w1) \<Rightarrow>
                  (case fd_events E False fd w1 of
                     (False, w2) \<Rightarrow> (False, s1, w2)
                   | (True, w2) \<Rightarrow>
                       let s2 = s1\<lparr>listen_fd := Some fd\<rparr> in
                       (case sub_start E w2 of
                          (True, w3) \<Rightarrow> (True, s2, w3)
                        | (False, w3) \<Rightarrow> (False, snd (stop E (s2, w3)))))))))"

definition start_addr ::
  "('fes, 'h, 'addr, 'w) server_env \<Rightarrow> 'addr option \<Rightarrow> int \<Rightarrow> int \<Rightarrow> ('fes, 'h) server \<times> 'w \<Rightarrow>
   bool \<times> ('fes, 'h) server \<times> 'w" where
  "start_addr E addr recv_size send_size x =
     (case addr of
        None \<Rightarrow> (False, x)
      | Some a \<Rightarrow>
          (case net_server E a recv_size send_size (snd x) of
             (None, w1) \<Rightarrow> (False, fst x, w1)
           | (Some fes, w1) \<Rightarrow> start_fd E (Some fes) (fst x, w1)))"

definition start_port ::
  "('fes, 'h, 'addr, 'w) server_env \<Rightarrow> 16 word \<Rightarrow> int \<Rightarrow> int \<Rightarrow> ('fes, 'h) server \<times> 'w \<Rightarrow> bool \<times> ('fes, 'h) server \<times> 'w" where
  "start_port E p recv_size send_size x =
     (if listen_fd (fst x) \<noteq> None then (False, x)
      else start_addr E (Some (any_addr E p)) recv_size send_size x)"

definition server_is_closed :: "('fes, 'h, 'addr, 'w) server_env \<Rightarrow> ('fes, 'h) server \<Rightarrow> 'w \<Rightarrow> bool" where
  "server_is_closed E s w = (case listen_fd s of None \<Rightarrow> True | Some fes \<Rightarrow> fd_closed E fes w)"

definition set_max_connections :: "u32 \<Rightarrow> ('fes, 'h) server \<Rightarrow> bool \<times> ('fes, 'h) server" where
  "set_max_connections limit s =
     (if max_connections s = 0 then (False, s) else (True, s\<lparr>max_connections := limit\<rparr>))"

definition num_connections :: "('fes, 'h) server \<Rightarrow> u32" where
  "num_connections s = word_of_nat (length (connections s))"

text \<open>
  \<open>cast\<close> is the dynamic cast to the subclass of the connection, and \<open>in_use\<close> says that the handle to
  be filled in refers to a connection already.
\<close>

definition get_connection ::
  "('fes, 'h, 'addr, 'w) server_env \<Rightarrow> ('h \<Rightarrow> 'c option) \<Rightarrow> nat \<Rightarrow> bool \<Rightarrow> ('fes, 'h) server \<Rightarrow> 'w \<Rightarrow> 'c option" where
  "get_connection E cast i in_use s w =
     (if in_use then None
      else if i \<ge> length (connections s) then None
      else if \<not> alive E (connections s ! i) w then None
      else cast (connections s ! i))"

definition add_connection ::
  "('fes, 'h, 'addr, 'w) server_env \<Rightarrow> 'fes \<Rightarrow> ('fes, 'h) server \<times> 'w \<Rightarrow> bool \<times> ('fes, 'h) server \<times> 'w" where
  "add_connection E fes x =
     (case x of (s, w) \<Rightarrow>
      (case create_connection E fes w of
         (ok, connection, w1) \<Rightarrow>
           (case connection of
              None \<Rightarrow> (True, s, snd (fd_close E fes w1))
            | Some h \<Rightarrow>
                if \<not> ok \<or> conn_closed E h w1 \<or> conn_fd E h w1 \<noteq> Some fes then (True, s, snd (fd_close E fes w1))
                else
                  let w2 = close_sig_connect E h w1;
                      x1 = (if acceptance_requested E h w2 then snd (accept_conn E h (s, w2))
                            else (s\<lparr>pending_connections := pending_connections s @ [h]\<rparr>, w2))
                  in prune_connections E x1)))"

fun dispatch_conns ::
  "('fes, 'h, 'addr, 'w) server_env \<Rightarrow> nano \<Rightarrow> 'h list \<Rightarrow> nano \<Rightarrow> 'w \<Rightarrow> nano \<times> 'w" where
  "dispatch_conns E t [] next w = (next, w)"
| "dispatch_conns E t (h # hs) next w =
     (if \<not> alive E h w then dispatch_conns E t hs next w
      else (case conn_dispatch E h t w of (n, w') \<Rightarrow> dispatch_conns E t hs (if n <s next then n else next) w'))"

definition dispatch ::
  "('fes, 'h, 'addr, 'w) server_env \<Rightarrow> nano \<Rightarrow> ('fes, 'h) server \<times> 'w \<Rightarrow> nano \<times> ('fes, 'h) server \<times> 'w" where
  "dispatch E t x =
     (case x of (s, w) \<Rightarrow>
      (case sub_dispatch E t w of
         (n1, w1) \<Rightarrow>
      (case dispatch_conns E t (connections s) n1 w1 of
         (n2, w2) \<Rightarrow>
      (case dispatch_conns E t (pending_connections s) n2 w2 of
         (n3, w3) \<Rightarrow>
      (case prune_due E t w3 of
         (due, w4) \<Rightarrow>
           let next = (if n3 <s due then n3 else due) in
           (case prune_connections E (s, w4) of
              (False, s1, w5) \<Rightarrow> (next, s1, w5)
            | (True, s1, w5) \<Rightarrow> (next, s1\<lparr>do_prune := False\<rparr>, w5)))))))"

definition handle_connect ::
  "('fes, 'h, 'addr, 'w) server_env \<Rightarrow> 'fes \<Rightarrow> ('fes, 'h) server \<times> 'w \<Rightarrow> bool \<times> ('fes, 'h) server \<times> 'w" where
  "handle_connect E fes x =
     (case listen_fd (fst x) of
        None \<Rightarrow> (False, x)
      | Some l \<Rightarrow>
          if fd_number E fes \<noteq> fd_number E l then (False, x)
          else
            (case net_accept E fes (snd x) of
               (None, w1) \<Rightarrow> (True, fst x, w1)
             | (Some fd, w1) \<Rightarrow>
                 (case add_connection E fd (fst x, w1) of (ok, x1) \<Rightarrow> if \<not> ok then (False, x1) else (True, x1))))"

definition handle_disconnect :: "('fes, 'h) server \<Rightarrow> bool \<times> ('fes, 'h) server" where
  "handle_disconnect s = (True, s\<lparr>do_prune := True\<rparr>)"

definition handle_close ::
  "('fes, 'h, 'addr, 'w) server_env \<Rightarrow> 'fes \<Rightarrow> ('fes, 'h) server \<times> 'w \<Rightarrow> bool \<times> ('fes, 'h) server \<times> 'w" where
  "handle_close E fes x =
     (case listen_fd (fst x) of
        None \<Rightarrow> (False, x)
      | Some l \<Rightarrow>
          if fd_number E fes \<noteq> fd_number E l then (False, x)
          else (case stop E x of (ok, x1) \<Rightarrow> if \<not> ok then (False, x1) else (True, x1)))"

section \<open>What pruning does\<close>

text \<open>
  What is relied on of connections: closing or finalizing one connection does not change the state
  of another; accepting one marks it and changes no other; and the handler of accepted
  connections rejects none, like the default one.
\<close>

definition same_conn :: "('fes, 'h, 'addr, 'w) server_env \<Rightarrow> 'h \<Rightarrow> 'w \<Rightarrow> 'w \<Rightarrow> bool" where
  "same_conn E h w w' \<longleftrightarrow> conn_valid E h w' = conn_valid E h w \<and> alive E h w' = alive E h w \<and>
     acceptance_requested E h w' = acceptance_requested E h w \<and> is_accepted E h w' = is_accepted E h w"

definition accepts_conn :: "('fes, 'h, 'addr, 'w) server_env \<Rightarrow> 'h \<Rightarrow> 'w \<Rightarrow> 'w \<Rightarrow> bool" where
  "accepts_conn E h w w' \<longleftrightarrow> conn_valid E h w' = conn_valid E h w \<and> alive E h w' = alive E h w \<and>
     acceptance_requested E h w' = acceptance_requested E h w \<and> is_accepted E h w'"

definition conns_ok :: "('fes, 'h, 'addr, 'w) server_env \<Rightarrow> bool" where
  "conns_ok E \<longleftrightarrow>
     (\<forall>h h' w. h' \<noteq> h \<longrightarrow> same_conn E h' w (snd (conn_close E h w))) \<and>
     (\<forall>h' hs i w. i < length hs \<and> h' \<noteq> hs ! i \<longrightarrow> same_conn E h' w (snd (finalize_connection E hs i w))) \<and>
     (\<forall>h h' w. h' \<noteq> h \<longrightarrow> same_conn E h' w (snd (accept_connection E h w))) \<and>
     (\<forall>h w. accepts_conn E h w (snd (accept_connection E h w))) \<and>
     (\<forall>h hs i w. fst (handle_accepted E hs i w) \<and> same_conn E h w (snd (handle_accepted E hs i w)))"

lemma same_conn_refl [simp]: "same_conn E h w w"
  by (simp add: same_conn_def)

lemma same_conn_trans: "same_conn E h w2 w3 \<Longrightarrow> same_conn E h w1 w2 \<Longrightarrow> same_conn E h w1 w3"
  by (simp add: same_conn_def)

text \<open>A function that closes the connection at an index of a list, and touches no other.\<close>

definition closes_one :: "('fes, 'h, 'addr, 'w) server_env \<Rightarrow> ('h list \<Rightarrow> nat \<Rightarrow> 'w \<Rightarrow> bool \<times> 'w) \<Rightarrow> bool" where
  "closes_one E close \<longleftrightarrow> (\<forall>hs i w h. i < length hs \<longrightarrow> h \<noteq> hs ! i \<longrightarrow> same_conn E h w (snd (close hs i w)))"

lemma closes_one: "conns_ok E \<Longrightarrow> closes_one E (close_pending E)" "conns_ok E \<Longrightarrow> closes_one E (close_accepted E)"
proof -
  assume ok: "conns_ok E"
  have close: "same_conn E h w w'" if "conn_close E h' w = (b, w')" "h \<noteq> h'" for h h' w w' b
    using ok that unfolding conns_ok_def by (metis snd_conv)
  have fin: "same_conn E h w w'" if "finalize_connection E hs i w = (b, w')" "i < length hs" "h \<noteq> hs ! i" for h hs i w w' b
    using ok that unfolding conns_ok_def by (metis snd_conv)
  show "closes_one E (close_pending E)"
    by (auto simp: closes_one_def close_pending_def Let_def split: prod.splits dest: close)
  show "closes_one E (close_accepted E)"
    by (auto simp: closes_one_def close_accepted_def Let_def split: prod.splits
        dest: fin close intro: same_conn_trans [OF close fin])
qed

lemma erase_at_parts:
  "i < length hs \<Longrightarrow> take i (erase_at i hs) = take i hs" "i < length hs \<Longrightarrow> drop i (erase_at i hs) = drop (Suc i) hs"
  "distinct hs \<Longrightarrow> distinct (erase_at i hs)" "i < length hs \<Longrightarrow> length (erase_at i hs) = length hs - 1"
  using set_take_disj_set_drop_if_distinct [of hs i "Suc i"] by (auto simp: erase_at_def distinct_append)

lemma prune_closed_filter:
  assumes "closes_one E close"
  shows "prune_closed E close i lost hs w = (hs', lost', w') \<Longrightarrow> i \<le> length hs \<Longrightarrow> distinct hs \<Longrightarrow>
    hs' = filter (\<lambda>h. conn_valid E h w) (take i hs) @ drop i hs \<and>
    lost' = (lost \<or> (\<exists>h\<in>set (take i hs). \<not> conn_valid E h w)) \<and>
    (\<forall>h. h \<notin> set (take i hs) \<or> conn_valid E h w \<longrightarrow> same_conn E h w w')"
proof (induction i arbitrary: hs lost w)
  case 0
  then show ?case by simp
next
  case (Suc i)
  have i: "i < length hs" using Suc.prems(2) by simp
  have take: "take (Suc i) hs = take i hs @ [hs ! i]" by (rule take_Suc_conv_app_nth [OF i])
  have drop: "drop i hs = hs ! i # drop (Suc i) hs" by (rule Cons_nth_drop_Suc [OF i, symmetric])
  show ?case
  proof (cases "conn_valid E (hs ! i) w")
    case True
    then show ?thesis using Suc.IH [of lost hs w] Suc.prems i by (auto simp: take drop)
  next
    case False
    obtain b w1 where w1: "close hs i w = (b, w1)" by fastforce
    have same: "same_conn E h w w1" if "h \<noteq> hs ! i" for h
      using assms that i w1 unfolding closes_one_def by (metis snd_conv)
    have fresh: "h \<noteq> hs ! i" if "h \<in> set (take i hs)" for h
      using that Suc.prems(3) i by (metis distinct_append distinct.simps(2) append_take_drop_id drop disjoint_iff list.set_intros(1))
    then have valid: "conn_valid E h w1 = conn_valid E h w" if "h \<in> set (take i hs)" for h
      using same that by (auto simp: same_conn_def)
    have run: "prune_closed E close i True (erase_at i hs) w1 = (hs', lost', w')" using Suc.prems(1) False w1 by simp
    note IH = Suc.IH [OF run, unfolded erase_at_parts(1,2) [OF i]]
    have IH: "hs' = filter (\<lambda>h. conn_valid E h w1) (take i hs) @ drop (Suc i) hs \<and> lost' \<and>
      (\<forall>h. h \<notin> set (take i hs) \<or> conn_valid E h w1 \<longrightarrow> same_conn E h w1 w')"
      using IH Suc.prems(3) i by (simp add: erase_at_parts)
    have "filter (\<lambda>h. conn_valid E h w1) (take i hs) = filter (\<lambda>h. conn_valid E h w) (take i hs)"
      using valid by (rule filter_cong [OF refl])
    moreover have "same_conn E h w w'" if "h \<notin> set (take (Suc i) hs) \<or> conn_valid E h w" for h
    proof -
      have h: "h \<noteq> hs ! i" using that False take by auto
      then have "h \<notin> set (take i hs) \<or> conn_valid E h w1" using that valid take by auto
      then show ?thesis using IH same_conn_trans [OF _ same [OF h]] by blast
    qed
    ultimately show ?thesis using IH False take by auto
  qed
qed

lemma prune_oldest_drop:
  assumes "closes_one E close"
  shows "prune_oldest close limit lost hs w = (hs', lost', w') \<Longrightarrow> distinct hs \<Longrightarrow>
    hs' = drop (length hs - limit) hs \<and> lost' = (lost \<or> length hs > limit) \<and>
    (\<forall>h. h \<notin> set (take (length hs - limit) hs) \<longrightarrow> same_conn E h w w')"
proof (induction hs arbitrary: lost w)
  case Nil
  then show ?case by simp
next
  case (Cons h hs)
  show ?case
  proof (cases "length (h # hs) > limit")
    case False
    then show ?thesis using Cons.prems by auto
  next
    case True
    obtain b w1 where w1: "close (h # hs) 0 w = (b, w1)" by fastforce
    have same: "same_conn E h' w w1" if "h' \<noteq> h" for h'
      using assms that w1 unfolding closes_one_def by (metis snd_conv nth_Cons_0 length_greater_0_conv list.distinct(1))
    have "hs' = drop (length hs - limit) hs \<and> lost' \<and> (\<forall>h. h \<notin> set (take (length hs - limit) hs) \<longrightarrow> same_conn E h w1 w')"
      using Cons.IH [of True w1] Cons.prems True w1 by simp
    moreover have "length (h # hs) - limit = Suc (length hs - limit)" using True by simp
    ultimately show ?thesis using True same by (auto intro: same_conn_trans)
  qed
qed

lemma accept_conn_requested:
  assumes "conns_ok E" and "alive E h w" and "acceptance_requested E h w"
  shows "\<exists>w'. accept_conn E h (s, w) = (True, s\<lparr>connections := connections s @ [h]\<rparr>, w') \<and> accepts_conn E h w w' \<and>
    (\<forall>h'. h' \<noteq> h \<longrightarrow> same_conn E h' w w')"
proof -
  obtain b w1 where w1: "accept_connection E h w = (b, w1)" by fastforce
  obtain ok w2 where w2: "handle_accepted E (connections s @ [h]) (length (connections s)) w1 = (ok, w2)" by fastforce
  have 1: "accepts_conn E h w w1" "\<And>h'. h' \<noteq> h \<Longrightarrow> same_conn E h' w w1"
    using assms(1) w1 unfolding conns_ok_def by (metis snd_conv)+
  have 2: "ok" "\<And>h'. same_conn E h' w1 w2"
    using assms(1) w2 unfolding conns_ok_def by (metis fst_conv snd_conv)+
  have "accepts_conn E h w w2" using 1(1) 2(2) [of h] by (simp add: accepts_conn_def same_conn_def)
  moreover have "same_conn E h' w w2" if "h' \<noteq> h" for h' using same_conn_trans [OF 2(2) 1(2) [OF that]] .
  ultimately show ?thesis using assms(2,3) w1 w2 2(1) by (simp add: accept_conn_def Let_def)
qed

definition requests :: "('fes, 'h, 'addr, 'w) server_env \<Rightarrow> 'w \<Rightarrow> 'h list \<Rightarrow> 'h list" where
  "requests E w hs = filter (\<lambda>h. alive E h w \<and> acceptance_requested E h w) hs"

lemma accept_requested_appends:
  assumes "conns_ok E"
  shows "accept_requested E hs (s, w) = (s', w') \<Longrightarrow> distinct hs \<Longrightarrow>
    s' = s\<lparr>connections := connections s @ requests E w hs\<rparr> \<and>
    (\<forall>h. if h \<in> set (requests E w hs) then accepts_conn E h w w' else same_conn E h w w')"
proof (induction hs arbitrary: s w)
  case Nil
  then show ?case by (simp add: requests_def)
next
  case (Cons h hs)
  show ?case
  proof (cases "alive E h w \<and> acceptance_requested E h w")
    case False
    then show ?thesis using Cons.IH [of s w] Cons.prems by (auto simp: requests_def split: if_splits)
  next
    case True
    obtain w1 where w1: "accept_conn E h (s, w) = (True, s\<lparr>connections := connections s @ [h]\<rparr>, w1)"
      "accepts_conn E h w w1" "\<And>h'. h' \<noteq> h \<Longrightarrow> same_conn E h' w w1"
      using accept_conn_requested [OF assms, of h w s] True by blast
    have "requests E w1 hs = requests E w hs"
      unfolding requests_def
    proof (rule filter_cong [OF refl])
      fix h' assume "h' \<in> set hs"
      then have "same_conn E h' w w1" using Cons.prems(2) by (intro w1(3)) auto
      then show "(alive E h' w1 \<and> acceptance_requested E h' w1) = (alive E h' w \<and> acceptance_requested E h' w)"
        by (simp add: same_conn_def)
    qed
    then have IH: "s' = s\<lparr>connections := connections s @ h # requests E w hs\<rparr>"
      "\<And>h'. if h' \<in> set (requests E w hs) then accepts_conn E h' w1 w' else same_conn E h' w1 w'"
      using Cons.IH [of "s\<lparr>connections := connections s @ [h]\<rparr>" w1] Cons.prems w1(1) True by auto
    have "h \<notin> set (requests E w hs)" using Cons.prems(2) by (simp add: requests_def)
    then have "accepts_conn E h w w'" using IH(2) [of h] w1(2) by (auto simp: accepts_conn_def same_conn_def)
    moreover have "if h' \<in> set (requests E w hs) then accepts_conn E h' w w' else same_conn E h' w w'" if "h' \<noteq> h" for h'
      using IH(2) [of h'] w1(3) [OF that] by (auto simp: accepts_conn_def same_conn_def split: if_splits)
    moreover have "requests E w (h # hs) = h # requests E w hs" using True by (simp add: requests_def)
    ultimately have "if h' \<in> set (requests E w (h # hs)) then accepts_conn E h' w w' else same_conn E h' w w'" for h'
      by (cases "h' = h") (metis list.set_intros(1), metis set_ConsD list.set_intros(2))
    then show ?thesis using IH(1) \<open>requests E w (h # hs) = h # requests E w hs\<close> by simp
  qed
qed

text \<open>The newest elements of a list, at most \<open>n\<close>.\<close>

definition newest :: "nat \<Rightarrow> 'a list \<Rightarrow> 'a list" where
  "newest n xs = drop (length xs - n) xs"

lemma newest_length [simp]: "length (newest n xs) = min n (length xs)"
  by (auto simp: newest_def min_def)

definition valid_conns :: "('fes, 'h, 'addr, 'w) server_env \<Rightarrow> 'w \<Rightarrow> 'h list \<Rightarrow> 'h list" where
  "valid_conns E w hs = filter (\<lambda>h. conn_valid E h w) hs"

lemma prune_pending_spec:
  assumes "conns_ok E" and "distinct (connections s @ pending_connections s)" and "prune_pending E (s, w) = (ok, s', w')"
  shows "ok" and "s' = s\<lparr>connections := connections s @ requests E w (valid_conns E w (pending_connections s)),
      pending_connections := newest (unat (max_connections s))
        (filter (\<lambda>h. \<not> acceptance_requested E h w \<and> \<not> is_accepted E h w) (valid_conns E w (pending_connections s)))\<rparr>"
    and "\<And>h. h \<in> set (connections s) \<or> h \<in> set (requests E w (valid_conns E w (pending_connections s))) \<Longrightarrow>
      conn_valid E h w' = conn_valid E h w"
proof -
  let ?ps = "pending_connections s" and ?limit = "unat (max_connections s)"
  obtain ps1 lost w1 where 1: "prune_closed E (close_pending E) (length ?ps) False ?ps w = (ps1, lost, w1)"
    by (metis prod.collapse)
  have dist: "distinct ?ps" "set (connections s) \<inter> set ?ps = {}" using assms(2) by auto
  have ps1: "ps1 = valid_conns E w ?ps"
    and w1: "\<And>h. h \<notin> set ?ps \<or> conn_valid E h w \<Longrightarrow> same_conn E h w w1"
    using prune_closed_filter [OF closes_one(1) [OF assms(1)] 1] dist(1) by (auto simp: valid_conns_def)
  obtain s2 w2 where 2: "accept_requested E ps1 (s\<lparr>pending_connections := ps1\<rparr>, w1) = (s2, w2)" by fastforce
  have d1: "distinct ps1" using dist(1) by (simp add: ps1 valid_conns_def)
  note acc = accept_requested_appends [OF assms(1) 2 d1]
  have reqs: "requests E w1 ps1 = requests E w ps1"
    unfolding requests_def using w1 by (intro filter_cong) (auto simp: ps1 valid_conns_def same_conn_def)
  let ?left = "filter (\<lambda>h. \<not> (alive E h w2 \<and> is_accepted E h w2)) ps1"
  have alive: "alive E h w" if "h \<in> set ps1" for h using that by (simp add: ps1 valid_conns_def conn_valid_def)
  have left: "?left = filter (\<lambda>h. \<not> acceptance_requested E h w \<and> \<not> is_accepted E h w) ps1"
  proof (rule filter_cong [OF refl])
    fix h assume h: "h \<in> set ps1"
    then have same: "same_conn E h w w1" using w1 by (simp add: ps1 valid_conns_def)
    show "(\<not> (alive E h w2 \<and> is_accepted E h w2)) = (\<not> acceptance_requested E h w \<and> \<not> is_accepted E h w)"
    proof (cases "acceptance_requested E h w")
      case True
      then have "h \<in> set (requests E w1 ps1)" unfolding reqs using h alive by (simp add: requests_def)
      then have "accepts_conn E h w1 w2" using acc by metis
      then show ?thesis using alive [OF h] same True by (simp add: accepts_conn_def same_conn_def)
    next
      case False
      then have "h \<notin> set (requests E w1 ps1)" unfolding reqs by (simp add: requests_def)
      then have "same_conn E h w1 w2" using acc by metis
      then show ?thesis using alive [OF h] same False by (auto simp: same_conn_def)
    qed
  qed
  have s2: "pending_connections s2 = ps1" "max_connections s2 = max_connections s" using acc by simp_all
  obtain ps3 lost3 w3 where 3: "prune_oldest (close_pending E) ?limit False ?left w2 = (ps3, lost3, w3)"
    by (metis prod.collapse)
  have "distinct ?left" using d1 by simp
  from prune_oldest_drop [OF closes_one(1) [OF assms(1)] 3 this]
  have ps3: "ps3 = newest ?limit ?left"
    and w3: "\<And>h. h \<notin> set (take (length ?left - ?limit) ?left) \<Longrightarrow> same_conn E h w2 w3"
    by (auto simp: newest_def)
  have all: "ok" "s' = s2\<lparr>pending_connections := ps3\<rparr>" "w' = w3" using assms(3) 1 2 3 s2 by (auto simp: prune_pending_def)
  show "ok" by (rule all(1))
  show "s' = s\<lparr>connections := connections s @ requests E w (valid_conns E w ?ps),
      pending_connections := newest ?limit (filter (\<lambda>h. \<not> acceptance_requested E h w \<and> \<not> is_accepted E h w) (valid_conns E w ?ps))\<rparr>"
    unfolding all(2) ps3 left using acc unfolding reqs by (simp add: ps1)
  show "conn_valid E h w' = conn_valid E h w" if "h \<in> set (connections s) \<or> h \<in> set (requests E w (valid_conns E w ?ps))" for h
  proof -
    have "same_conn E h w w1" using that dist(2) w1 by (auto simp: requests_def valid_conns_def)
    moreover have "conn_valid E h w2 = conn_valid E h w1" using acc by (metis accepts_conn_def same_conn_def)
    moreover have "h \<notin> set ?left"
      unfolding left using that dist(2) by (auto simp: requests_def ps1 valid_conns_def)
    then have "same_conn E h w2 w3" using w3 by (meson in_set_takeD)
    ultimately show ?thesis by (simp add: same_conn_def all(3))
  qed
qed

lemma prune_connections_spec:
  assumes "conns_ok E" and "distinct (connections s @ pending_connections s)" and "prune_connections E (s, w) = (ok, s', w')"
  shows "ok \<and> pending_connections s' = newest (unat (max_connections s))
      (filter (\<lambda>h. \<not> acceptance_requested E h w \<and> \<not> is_accepted E h w) (valid_conns E w (pending_connections s))) \<and>
    connections s' = newest (unat (max_connections s))
      (valid_conns E w (connections s) @ requests E w (valid_conns E w (pending_connections s)))"
proof -
  let ?req = "requests E w (valid_conns E w (pending_connections s))"
  obtain ok1 s1 w1 where 1: "prune_pending E (s, w) = (ok1, s1, w1)" by (metis prod.collapse)
  note p = prune_pending_spec [OF assms(1,2) 1]
  obtain cs2 lost2 w2 where 2: "prune_closed E (close_accepted E) (length (connections s1)) False (connections s1) w1 = (cs2, lost2, w2)"
    by (metis prod.collapse)
  obtain cs3 lost3 w3 where 3: "prune_oldest (close_accepted E) (unat (max_connections s1)) lost2 cs2 w2 = (cs3, lost3, w3)"
    by (metis prod.collapse)
  have s1: "connections s1 = connections s @ ?req" "max_connections s1 = max_connections s" using p(2) by simp_all
  have dist: "distinct (connections s1)" using assms(2) by (auto simp: s1 requests_def valid_conns_def)
  have "cs2 = filter (\<lambda>h. conn_valid E h w1) (connections s1)"
    using prune_closed_filter [OF closes_one(2) [OF assms(1)] 2 _ dist] by simp
  also have "\<dots> = filter (\<lambda>h. conn_valid E h w) (connections s1)"
    using p(3) by (intro filter_cong [OF refl]) (auto simp: s1)
  also have "\<dots> = valid_conns E w (connections s) @ ?req"
    by (auto simp: s1 valid_conns_def requests_def intro!: filter_cong)
  finally have cs2: "cs2 = valid_conns E w (connections s) @ ?req" .
  have "distinct cs2" using assms(2) by (auto simp: cs2 requests_def valid_conns_def)
  then have "cs3 = newest (unat (max_connections s)) cs2"
    using prune_oldest_drop [OF closes_one(2) [OF assms(1)] 3] by (simp add: newest_def s1)
  moreover have "ok \<and> s' = s1\<lparr>connections := cs3\<rparr>"
    using assms(3) 1 2 3 p(1) by (auto simp: prune_connections_def prune_accepted_def)
  ultimately show ?thesis using p(2) by (simp add: cs2)
qed

section \<open>The limit\<close>

definition within_limit :: "('fes, 'h) server \<Rightarrow> bool" where
  "within_limit s \<longleftrightarrow> length (connections s) \<le> unat (max_connections s) \<and>
     length (pending_connections s) \<le> unat (max_connections s)"

lemma prune_oldest_bound: "prune_oldest close limit lost hs w = (hs', lost', w') \<Longrightarrow> length hs' \<le> limit"
  by (induction close limit lost hs w rule: prune_oldest.induct) (auto split: if_splits prod.splits)

lemma accept_conn_keeps:
  "accept_conn E h (s, w) = (ok, s', w') \<Longrightarrow> max_connections s' = max_connections s \<and> listen_fd s' = listen_fd s"
  by (auto simp: accept_conn_def Let_def split: if_splits prod.splits)

lemma accept_requested_keeps:
  "accept_requested E hs (s, w) = (s', w') \<Longrightarrow> max_connections s' = max_connections s"
proof (induction hs arbitrary: s w)
  case (Cons h hs)
  obtain ok s1 w1 where "accept_conn E h (s, w) = (ok, s1, w1)" by (metis prod.collapse)
  then show ?case using Cons accept_conn_keeps [of E h s w ok s1 w1] by (auto split: if_splits)
qed simp

lemma prune_connections_bound:
  assumes "prune_connections E (s, w) = (ok, s', w')"
  shows "ok \<and> within_limit s' \<and> max_connections s' = max_connections s"
proof -
  obtain s1 w1 where 1: "prune_pending E (s, w) = (True, s1, w1)" "length (pending_connections s1) \<le> unat (max_connections s1)"
    "max_connections s1 = max_connections s"
  proof -
    obtain ps1 lost w1 where a: "prune_closed E (close_pending E) (length (pending_connections s)) False (pending_connections s) w = (ps1, lost, w1)"
      by (metis prod.collapse)
    obtain s2 w2 where b: "accept_requested E ps1 (s\<lparr>pending_connections := ps1\<rparr>, w1) = (s2, w2)" by fastforce
    obtain ps3 l w3 where c: "prune_oldest (close_pending E) (unat (max_connections s2)) False
        (filter (\<lambda>h. \<not> (alive E h w2 \<and> is_accepted E h w2)) (pending_connections s2)) w2 = (ps3, l, w3)"
      by (metis prod.collapse)
    show thesis
      using that [of "s2\<lparr>pending_connections := ps3\<rparr>" w3] a b c accept_requested_keeps [OF b] prune_oldest_bound [OF c]
      by (simp add: prune_pending_def)
  qed
  obtain cs2 lost2 w2 where 2: "prune_closed E (close_accepted E) (length (connections s1)) False (connections s1) w1 = (cs2, lost2, w2)"
    by (metis prod.collapse)
  obtain cs3 lost3 w3 where 3: "prune_oldest (close_accepted E) (unat (max_connections s1)) lost2 cs2 w2 = (cs3, lost3, w3)"
    by (metis prod.collapse)
  show ?thesis
    using assms 1 2 3 prune_oldest_bound [OF 3] by (auto simp: prune_connections_def prune_accepted_def within_limit_def)
qed

text \<open>Everything that can happen to a running server.\<close>

datatype 'fes server_event = Connect 'fes | Dispatch nano | Disconnect | Listen_closed 'fes | Stop

fun server_step ::
  "('fes, 'h, 'addr, 'w) server_env \<Rightarrow> 'fes server_event \<Rightarrow> ('fes, 'h) server \<times> 'w \<Rightarrow> ('fes, 'h) server \<times> 'w" where
  "server_step E (Connect fes) x = snd (handle_connect E fes x)"
| "server_step E (Dispatch t) x = snd (dispatch E t x)"
| "server_step E Disconnect x = (snd (handle_disconnect (fst x)), snd x)"
| "server_step E (Listen_closed fes) x = snd (handle_close E fes x)"
| "server_step E Stop x = snd (stop E x)"

fun server_run ::
  "('fes, 'h, 'addr, 'w) server_env \<Rightarrow> 'fes server_event list \<Rightarrow> ('fes, 'h) server \<times> 'w \<Rightarrow> ('fes, 'h) server \<times> 'w" where
  "server_run E [] x = x"
| "server_run E (e # es) x = server_run E es (server_step E e x)"

definition kept_within :: "('fes, 'h) server \<Rightarrow> ('fes, 'h) server \<Rightarrow> bool" where
  "kept_within s s' \<longleftrightarrow> (within_limit s \<longrightarrow> within_limit s') \<and> max_connections s' = max_connections s"

lemma kept_within_refl [simp]: "kept_within s s"
  by (simp add: kept_within_def)

lemma accept_conn_limit [simp]: "max_connections (fst (snd (accept_conn E h x))) = max_connections (fst x)"
  by (cases x) (auto simp: accept_conn_def Let_def split: if_splits prod.splits)

lemma prune_within: "prune_connections E x = (ok, s', w') \<Longrightarrow> within_limit s' \<and> max_connections s' = max_connections (fst x)"
  using prune_connections_bound [of E "fst x" "snd x" ok s' w'] by simp

lemma add_connection_within: "add_connection E fes (s, w) = (ok, s', w') \<Longrightarrow> kept_within s s'"
  by (auto simp: add_connection_def Let_def kept_within_def dest: prune_within split: prod.splits option.splits if_splits)

lemma stop_within: "stop E (s, w) = (ok, s', w') \<Longrightarrow> kept_within s s'"
  by (auto simp: stop_def Let_def kept_within_def within_limit_def split: prod.splits option.splits bool.splits if_splits)

lemma dispatch_within: "dispatch E t (s, w) = (n, s', w') \<Longrightarrow> kept_within s s'"
  by (auto simp: dispatch_def Let_def kept_within_def within_limit_def dest!: prune_connections_bound
      split: prod.splits bool.splits)

lemma server_step_within: "server_step E e (s, w) = (s', w') \<Longrightarrow> kept_within s s'"
proof (cases e)
  case (Connect fes)
  assume "server_step E e (s, w) = (s', w')"
  then show ?thesis using Connect
    by (auto simp: handle_connect_def dest: add_connection_within split: option.splits prod.splits if_splits)
next
  case (Dispatch t)
  assume "server_step E e (s, w) = (s', w')"
  then show ?thesis using Dispatch dispatch_within by (metis server_step.simps(2) prod.collapse)
next
  case Disconnect
  assume "server_step E e (s, w) = (s', w')"
  then show ?thesis using Disconnect by (auto simp: handle_disconnect_def kept_within_def within_limit_def)
next
  case (Listen_closed fes)
  assume "server_step E e (s, w) = (s', w')"
  then show ?thesis using Listen_closed
    by (auto simp: handle_close_def dest: stop_within split: option.splits prod.splits if_splits)
next
  case Stop
  assume "server_step E e (s, w) = (s', w')"
  then show ?thesis using Stop stop_within by (metis server_step.simps(5) prod.collapse)
qed

lemma server_run_within: "server_run E es x = (s', w') \<Longrightarrow> kept_within (fst x) s'"
proof (induction es arbitrary: x)
  case (Cons e es)
  obtain s1 w1 where "server_step E e x = (s1, w1)" by fastforce
  then show ?case using Cons server_step_within [of E e "fst x" "snd x"] by (fastforce simp: kept_within_def)
qed simp

section \<open>The flag\<close>

abbreviation flagged :: "bool \<Rightarrow> ('fes, 'h) server \<times> 'w \<Rightarrow> ('fes, 'h) server \<times> 'w" where
  "flagged b \<equiv> apfst (\<lambda>s. s\<lparr>do_prune := b\<rparr>)"

lemma accept_conn_flag: "accept_conn E h (flagged b x) = apsnd (flagged b) (accept_conn E h x)"
  by (cases x) (auto simp: accept_conn_def Let_def split: prod.splits)

lemma accept_requested_flag: "accept_requested E hs (flagged b x) = flagged b (accept_requested E hs x)"
proof (induction hs arbitrary: x)
  case (Cons h hs)
  have "snd (accept_conn E h (flagged b x)) = flagged b (snd (accept_conn E h x))" by (simp add: accept_conn_flag)
  then show ?case using Cons by simp
qed simp

lemma prune_connections_flag: "prune_connections E (flagged b (s, w)) = apsnd (flagged b) (prune_connections E (s, w))"
proof -
  have pending: "prune_pending E (flagged b (s, w)) = apsnd (flagged b) (prune_pending E (s, w))" for s w
  proof -
    obtain ps1 lost w1 where 1: "prune_closed E (close_pending E) (length (pending_connections s)) False (pending_connections s) w = (ps1, lost, w1)"
      by (metis prod.collapse)
    obtain s2 w2 where 2: "accept_requested E ps1 (s\<lparr>pending_connections := ps1\<rparr>, w1) = (s2, w2)" by fastforce
    then have "accept_requested E ps1 (s\<lparr>do_prune := b, pending_connections := ps1\<rparr>, w1) = (s2\<lparr>do_prune := b\<rparr>, w2)"
    proof -
      have "s\<lparr>do_prune := b, pending_connections := ps1\<rparr> = s\<lparr>pending_connections := ps1, do_prune := b\<rparr>" by simp
      then show ?thesis using 2 accept_requested_flag [of E ps1 b "(s\<lparr>pending_connections := ps1\<rparr>, w1)"]
        by (simp only: apfst_conv)
    qed
    then show ?thesis using 1 2 by (auto simp: prune_pending_def split: prod.splits)
  qed
  have "prune_accepted E (flagged b (s, w)) = apsnd (flagged b) (prune_accepted E (s, w))" for s w
    by (auto simp: prune_accepted_def split: prod.splits)
  then show ?thesis using pending by (auto simp: prune_connections_def split: prod.splits)
qed

section \<open>An instance\<close>

text \<open>
  Connections are the numbers of their sinks; the world is the list of closed and of accepted ones. Even
  connections ask to be accepted.
\<close>

definition demo_server_env :: "(nat, nat, unit, nat list \<times> nat list) server_env" where
  "demo_server_env =
     \<lparr>alive = (\<lambda>h w. True), conn_fd = (\<lambda>h w. Some h), conn_closed = (\<lambda>h w. h \<in> set (fst w)),
      conn_close = (\<lambda>h w. (True, (h # fst w, snd w))), close_sig_empty = (\<lambda>h w. False), close_sig_connect = (\<lambda>h w. w),
      acceptance_requested = (\<lambda>h w. even h), is_accepted = (\<lambda>h w. h \<in> set (snd w)),
      accept_connection = (\<lambda>h w. (True, (fst w, h # snd w))), conn_dispatch = (\<lambda>h t w. (nano_max, w)),
      fd_closed = (\<lambda>f w. f \<in> set (fst w)), fd_close = (\<lambda>f w. (True, (f # fst w, snd w))), fd_number = (\<lambda>f. 0),
      fd_port = (\<lambda>f w. Some 80), fd_events = (\<lambda>read f w. (True, w)), fd_clear_signals = (\<lambda>f w. (True, w)),
      net_server = (\<lambda>a r s w. (Some 0, w)), net_accept = (\<lambda>f w. (Some f, w)), any_addr = (\<lambda>p. ()),
      create_connection = (\<lambda>f w. (True, Some f, w)), finalize_connection = (\<lambda>hs i w. (True, w)),
      handle_accepted = (\<lambda>hs i w. (True, w)), all_disconnect = (\<lambda>w. (True, w)), sub_start = (\<lambda>w. (True, w)),
      sub_stop = (\<lambda>w. (True, w)), sub_dispatch = (\<lambda>t w. (nano_max, w)), prune_due = (\<lambda>t w. (nano_max, w))\<rparr>"

lemma demo_conns_ok: "conns_ok demo_server_env"
  by (auto simp: conns_ok_def demo_server_env_def same_conn_def accepts_conn_def conn_valid_def)

section \<open>Properties\<close>

text \<open>
  C26: pruning keeps the newest connections. Closed ones go; pending ones that ask for it are
  accepted in the order they arrived; then each list keeps its newest connections up to the limit.
  Pending connections never push out accepted ones.
\<close>

theorem pruning_keeps_newest:
  assumes "conns_ok E" and "distinct (connections s @ pending_connections s)" and "prune_connections E (s, w) = (ok, s', w')"
  shows "ok \<and> connections s' = newest (unat (max_connections s))
      (valid_conns E w (connections s) @ requests E w (valid_conns E w (pending_connections s))) \<and>
    pending_connections s' = newest (unat (max_connections s))
      (filter (\<lambda>h. \<not> acceptance_requested E h w \<and> \<not> is_accepted E h w) (valid_conns E w (pending_connections s)))"
  using prune_connections_spec [OF assms] by simp

theorem pruning_keeps_newest_witness:
  "\<exists>s' w'. prune_connections demo_server_env
       ((server_new 2)\<lparr>connections := [10, 12], pending_connections := [1, 3, 4, 5, 7]\<rparr>, ([3], [])) = (True, s', w') \<and>
     connections s' = [12, 4] \<and> pending_connections s' = [5, 7]"
proof -
  let ?s = "(server_new 2 :: (nat, nat) server)\<lparr>connections := [10, 12], pending_connections := [1, 3, 4, 5, 7]\<rparr>"
  obtain ok s' w' where run: "prune_connections demo_server_env (?s, ([3], [])) = (ok, s', w')" by (metis prod.collapse)
  have "distinct (connections ?s @ pending_connections ?s)" by (simp add: server_new_def)
  from pruning_keeps_newest [OF demo_conns_ok this run] show ?thesis
    using run by (simp add: newest_def requests_def valid_conns_def conn_valid_def demo_server_env_def server_new_def)
qed

text \<open>
  The limit holds. Whatever clients connect, whatever connections close, and however often the
  server is dispatched or stopped, between these events neither list is longer than the limit.
\<close>

theorem limit_respected:
  shows "within_limit (fst (server_run E es (server_new limit, w)))"
proof -
  obtain s' w' where run: "server_run E es (server_new limit, w) = (s', w')" by fastforce
  then have "kept_within (server_new limit) s'" using server_run_within [OF run] by simp
  then show ?thesis unfolding run by (auto simp: kept_within_def within_limit_def server_new_def)
qed

text \<open>
  A limit of zero is accepted and stays. \<open>set_max_connections\<close> tests the old limit instead of
  the new one, so zero passes; from then on every limit is refused, and the next dispatch drops all
  connections.
\<close>

theorem zero_limit_sticks:
  assumes "max_connections s \<noteq> 0"
  shows "\<exists>s0. set_max_connections 0 s = (True, s0) \<and> (\<forall>limit. set_max_connections limit s0 = (False, s0)) \<and>
    (\<forall>t w. connections (fst (snd (dispatch E t (s0, w)))) = [])"
proof -
  let ?s0 = "s\<lparr>max_connections := 0\<rparr>"
  have "connections (fst (snd (dispatch E t (?s0, w)))) = []" for t w
    by (auto simp: dispatch_def Let_def within_limit_def dest!: prune_connections_bound split: prod.splits bool.splits)
  then show ?thesis using assms by (simp add: set_max_connections_def)
qed

theorem zero_limit_sticks_witness:
  "\<exists>s0. set_max_connections 0 ((server_new 5)\<lparr>connections := [2, 4 :: nat]\<rparr>) = (True, s0) \<and>
     set_max_connections 7 s0 = (False, s0) \<and>
     connections (fst (snd (dispatch demo_server_env 0 (s0, ([], []))))) = []"
  using zero_limit_sticks [of "(server_new 5)\<lparr>connections := [2, 4 :: nat]\<rparr>" demo_server_env] by (auto simp: server_new_def)

text \<open>
  A disconnect does not hasten the clean-up. The flag that \<open>server_handle_disconnect\<close> sets, to have
  the server called back as soon as possible, changes neither what the next dispatch does nor the
  wake-up time it asks for.
\<close>

theorem disconnect_flag_unused:
  "dispatch E t (snd (handle_disconnect s), w) = dispatch E t (s, w)"
proof -
  have "prune_connections E (s\<lparr>do_prune := True\<rparr>, w') = apsnd (flagged True) (prune_connections E (s, w'))" for w'
    using prune_connections_flag [of E True s w'] by simp
  moreover have "prune_connections E (s, w') \<noteq> (False, y)" for w' y
    using prune_connections_bound [of E s w' False "fst y" "snd y"] by auto
  ultimately show ?thesis
    by (auto simp: dispatch_def handle_disconnect_def Let_def split: prod.splits bool.splits)
qed

end
