(* ===== verification/Telem_Parse.thy ===== *)
theory Telem_Parse
  imports Symbol_Table "HOL-Library.Sublist"
begin

text \<open>
  The first part of \<^verbatim>\<open>TelemetryRelay.cc\<close>: the parser of telemetry configurations, a list of lines of
  words. A flow is a header, a type and a destination line, then option lines, then text up to the
  next header.

  \<^verbatim>\<open>TelemetryFlowInfo\<close> is not in the repository: \<open>flow_info\<close> has the fields the parser and the relay
  use, and a new one is the parameter \<open>te_blank\<close>. Also parameters: the numbers of enumeration
  members and flags, the generated symbol tables, the range checks of \<^verbatim>\<open>FswAbortOutsideRangeUint\<close>, and the
  parsing of numbers (\<open>te_nanos\<close> is \<^verbatim>\<open>string_to_double\<close> followed by the conversion to nanoseconds).
  \<open>None\<close> is the result \<^verbatim>\<open>false\<close> of a parsing function.
\<close>

section \<open>Data\<close>

record flow_info =
  fi_id :: int
  fi_group :: u32
  fi_type :: u32
  fi_name :: string
  fi_hosts :: "string list list"
  fi_disabled_hosts :: "string list"
  fi_burst :: "64 word"
  fi_recharge :: u32
  fi_idle_timeout :: nano
  fi_static_flags :: u32
  fi_buf_size :: "64 word"
  fi_override_source :: string
  fi_annotation_file :: string
  fi_timestamp_channel :: string
  fi_config_info :: string

record telem_env =
  te_num_alt :: nat
  te_blank :: flow_info
  te_id :: "u32 \<Rightarrow> int"
  te_np :: number_parser
  te_size :: "string \<Rightarrow> 64 word option"
  te_nanos :: "string \<Rightarrow> nano option"
  te_groups :: symtab
  te_types :: symtab
  te_group_ok :: "u32 \<Rightarrow> bool"
  te_type_ok :: "u32 \<Rightarrow> bool"
  te_annotated :: u32
  te_mux :: u32
  te_store_forward :: u32
  te_external_record :: u32

text \<open>What is relied on: a new flow has its array of host lists, all empty, and no bandwidth limit.\<close>

definition telem_env_ok :: "telem_env \<Rightarrow> bool" where
  "telem_env_ok T \<longleftrightarrow>
     fi_hosts (te_blank T) = replicate (te_num_alt T + 1) [] \<and> fi_disabled_hosts (te_blank T) = [] \<and>
     fi_burst (te_blank T) = 0 \<and> fi_recharge (te_blank T) = 0"

section \<open>Lines\<close>

definition parse_header_line :: "telem_env \<Rightarrow> string list \<Rightarrow> flow_info \<Rightarrow> flow_info option" where
  "parse_header_line T line info =
     (if \<not> length line = 3 \<or> line ! 0 \<noteq> ''flow'' then None
      else
        (case np_uint (te_np T) (line ! 1) of
           None \<Rightarrow> None
         | Some i \<Rightarrow>
             (case raw_get_uint (te_groups T) (''telem_group_'' @ line ! 2) of
                None \<Rightarrow> None
              | Some g \<Rightarrow>
                  if \<not> te_group_ok T g then None else Some (info\<lparr>fi_id := te_id T i, fi_group := g\<rparr>))))"

definition parse_type_line :: "telem_env \<Rightarrow> string list \<Rightarrow> flow_info \<Rightarrow> flow_info option" where
  "parse_type_line T line info =
     (if \<not> length line = 2 \<or> line ! 0 \<noteq> ''type'' then None
      else
        (case raw_get_uint (te_types T) (''telem_'' @ line ! 1) of
           None \<Rightarrow> None
         | Some t \<Rightarrow> if \<not> te_type_ok T t then None else Some (info\<lparr>fi_type := t\<rparr>)))"

text \<open>The loop over the hosts of a line; the set holds those of this line.\<close>

fun add_hosts :: "string list \<Rightarrow> string set \<Rightarrow> string list \<Rightarrow> string list option" where
  "add_hosts [] hostnames acc = Some acc"
| "add_hosts (host # hs) hostnames acc =
     (if host \<in> hostnames then None else add_hosts hs (insert host hostnames) (acc @ [host]))"

definition parse_destination_line :: "string list \<Rightarrow> flow_info \<Rightarrow> flow_info option" where
  "parse_destination_line line info =
     (if length line < 2 \<or> line ! 0 \<noteq> ''destination'' then None
      else
        (case add_hosts (tl line) {} (fi_hosts info ! 0) of
           None \<Rightarrow> None
         | Some hs \<Rightarrow> Some (info\<lparr>fi_hosts := (fi_hosts info)[0 := hs]\<rparr>)))"

definition parse_bandwidth_line :: "telem_env \<Rightarrow> string list \<Rightarrow> flow_info \<Rightarrow> flow_info option" where
  "parse_bandwidth_line T line info =
     (if length line \<noteq> 3 \<or> line ! 0 \<noteq> ''bandwidth'' then None
      else
        (case te_size T (line ! 1) of
           None \<Rightarrow> None
         | Some burst \<Rightarrow>
             if burst = 0 then None
             else
               (case np_uint (te_np T) (line ! 2) of
                  None \<Rightarrow> None
                | Some recharge \<Rightarrow>
                    if recharge = 0 then None else Some (info\<lparr>fi_burst := burst, fi_recharge := recharge\<rparr>))))"

definition parse_timeout_line :: "telem_env \<Rightarrow> string list \<Rightarrow> flow_info \<Rightarrow> flow_info option" where
  "parse_timeout_line T line info =
     (if length line \<noteq> 2 \<or> line ! 0 \<noteq> ''idle_timeout'' then None
      else (case te_nanos T (line ! 1) of None \<Rightarrow> None | Some n \<Rightarrow> Some (info\<lparr>fi_idle_timeout := n\<rparr>)))"

definition parse_sf_line :: "telem_env \<Rightarrow> string list \<Rightarrow> flow_info \<Rightarrow> flow_info option" where
  "parse_sf_line T line info =
     (if length line \<noteq> 2 \<or> line ! 0 \<noteq> ''store_and_forward'' then None
      else if line ! 1 = ''external''
      then Some (info\<lparr>fi_static_flags := fi_static_flags info OR te_store_forward T\<rparr>)
      else None)"

definition parse_buffer_line :: "telem_env \<Rightarrow> string list \<Rightarrow> flow_info \<Rightarrow> flow_info option" where
  "parse_buffer_line T line info =
     (if length line \<noteq> 2 \<or> line ! 0 \<noteq> ''buffer'' then None
      else (case te_size T (line ! 1) of None \<Rightarrow> None | Some n \<Rightarrow> Some (info\<lparr>fi_buf_size := n\<rparr>)))"

definition parse_name_line :: "string list \<Rightarrow> flow_info \<Rightarrow> flow_info option" where
  "parse_name_line line info =
     (if length line \<noteq> 2 \<or> line ! 0 \<noteq> ''name'' then None else Some (info\<lparr>fi_name := line ! 1\<rparr>))"

definition parse_disabled_destination_line ::
  "telem_env \<Rightarrow> string list \<Rightarrow> flow_info \<Rightarrow> flow_info option" where
  "parse_disabled_destination_line T line info =
     (if length line \<le> 1 \<or> line ! 0 \<noteq> ''disabled_destination'' then None
      else if \<not> list_all (\<lambda>alt. fi_hosts info ! alt = []) [1..<te_num_alt T + 1] then None
      else
        (case add_hosts (tl line) {} (fi_disabled_hosts info) of
           None \<Rightarrow> None
         | Some hs \<Rightarrow> Some (info\<lparr>fi_disabled_hosts := hs\<rparr>)))"

definition alt_prefix :: string where
  "alt_prefix = ''alt_destination_''"

definition parse_alt_destination_lines :: "telem_env \<Rightarrow> string list \<Rightarrow> flow_info \<Rightarrow> flow_info option" where
  "parse_alt_destination_lines T line info =
     (if line = [] then None
      else if length line \<le> 1 \<or> take (length alt_prefix) (line ! 0) \<noteq> alt_prefix then None
      else
        (case te_size T (drop (length alt_prefix) (line ! 0)) of
           None \<Rightarrow> None
         | Some alt_dest \<Rightarrow>
             if alt_dest = 0 \<or> unat alt_dest > te_num_alt T then None
             else if \<not> fi_disabled_hosts info = [] then None
             else
               (case add_hosts (tl line) {} (fi_hosts info ! unat alt_dest) of
                  None \<Rightarrow> None
                | Some hs \<Rightarrow> Some (info\<lparr>fi_hosts := (fi_hosts info)[unat alt_dest := hs]\<rparr>))))"

definition parse_override_source_role_inst :: "string list \<Rightarrow> flow_info \<Rightarrow> flow_info option" where
  "parse_override_source_role_inst line info =
     (if length line \<noteq> 2 \<or> line ! 0 \<noteq> ''override_source_role_inst'' then None
      else Some (info\<lparr>fi_override_source := line ! 1\<rparr>))"

definition parse_precomputed_annotation_file :: "string list \<Rightarrow> flow_info \<Rightarrow> flow_info option" where
  "parse_precomputed_annotation_file line info =
     (if length line \<noteq> 2 \<or> line ! 0 \<noteq> ''precomputed_annotation_file'' then None
      else Some (info\<lparr>fi_annotation_file := line ! 1\<rparr>))"

definition parse_timestamp_channel :: "string list \<Rightarrow> flow_info \<Rightarrow> flow_info option" where
  "parse_timestamp_channel line info =
     (if length line \<noteq> 2 \<or> line ! 0 \<noteq> ''timestamp_channel'' then None
      else Some (info\<lparr>fi_timestamp_channel := line ! 1\<rparr>))"

text \<open>The virtual \<^verbatim>\<open>parse_er_line\<close> of the two parsers; the second knows the name of its node.\<close>

type_synonym er_parser = "string list \<Rightarrow> flow_info \<Rightarrow> flow_info option"

definition control_er_line :: er_parser where
  "control_er_line line info = Some info"

definition runtime_er_line :: "telem_env \<Rightarrow> string \<Rightarrow> er_parser" where
  "runtime_er_line T ident line info =
     (let on = info\<lparr>fi_static_flags := fi_static_flags info OR te_external_record T\<rparr>;
          off = info\<lparr>fi_static_flags := fi_static_flags info AND NOT (te_external_record T)\<rparr>
      in if length line \<noteq> 2 \<or> line ! 0 \<noteq> ''external_record'' then None
         else if line ! 1 = ''all'' then Some on
         else if line ! 1 = ''none'' then Some off
         else if line ! 1 = ''only_a'' \<or> line ! 1 = ''only_b'' \<or> line ! 1 = ''only_c'' then
           (if (line ! 1 = ''only_a'' \<and> ident = ''a'') \<or> (line ! 1 = ''only_b'' \<and> ident = ''b'') \<or>
               (line ! 1 = ''only_c'' \<and> ident = ''c'')
            then Some on else Some off)
         else None)"

section \<open>Files\<close>

text \<open>The chain of tests on the first word: the outer \<open>None\<close> is the \<^verbatim>\<open>break\<close>.\<close>

definition parse_option :: "telem_env \<Rightarrow> er_parser \<Rightarrow> string list \<Rightarrow> flow_info \<Rightarrow> flow_info option option" where
  "parse_option T er line info =
     (let key = line ! 0 in
      if key = ''bandwidth'' then Some (parse_bandwidth_line T line info)
      else if key = ''idle_timeout'' then Some (parse_timeout_line T line info)
      else if key = ''store_and_forward'' then Some (parse_sf_line T line info)
      else if key = ''external_record'' then Some (er line info)
      else if key = ''buffer'' then Some (parse_buffer_line T line info)
      else if key = ''name'' then Some (parse_name_line line info)
      else if key = ''disabled_destination'' then Some (parse_disabled_destination_line T line info)
      else if take (length alt_prefix) key = alt_prefix then Some (parse_alt_destination_lines T line info)
      else if key = ''override_source_role_inst'' then Some (parse_override_source_role_inst line info)
      else if key = ''precomputed_annotation_file'' then
        Some (if fi_type info \<noteq> te_annotated T then None else parse_precomputed_annotation_file line info)
      else if key = ''timestamp_channel'' then
        Some (if fi_type info \<noteq> te_annotated T then None else parse_timestamp_channel line info)
      else None)"

fun parse_options ::
  "telem_env \<Rightarrow> er_parser \<Rightarrow> string list list \<Rightarrow> flow_info \<Rightarrow> (flow_info \<times> string list list) option" where
  "parse_options T er [] info = Some (info, [])"
| "parse_options T er (line # rest) info =
     (if \<not> length line > 0 then None
      else
        (case parse_option T er line info of
           None \<Rightarrow> Some (info, line # rest)
         | Some None \<Rightarrow> None
         | Some (Some info') \<Rightarrow> parse_options T er rest info'))"

fun config_text :: "string list \<Rightarrow> string" where
  "config_text [] = [CHR 0x0A]"
| "config_text [w] = w @ [CHR 0x0A]"
| "config_text (w # ws) = w @ '' '' @ config_text ws"

fun collect_config :: "string list list \<Rightarrow> flow_info \<Rightarrow> (flow_info \<times> string list list) option" where
  "collect_config [] info = Some (info, [])"
| "collect_config (line # rest) info =
     (if \<not> length line > 0 then None
      else if line ! 0 = ''flow'' then Some (info, line # rest)
      else collect_config rest (info\<lparr>fi_config_info := fi_config_info info @ config_text line\<rparr>))"

definition add_mux_flag :: "telem_env \<Rightarrow> u32 set \<Rightarrow> flow_info \<Rightarrow> flow_info" where
  "add_mux_flag T muxed_groups info =
     (if fi_group info \<in> muxed_groups
      then info\<lparr>fi_static_flags := fi_static_flags info OR te_mux T\<rparr> else info)"

text \<open>One round of the loop of \<^verbatim>\<open>parse_file\<close>: the flow and the lines that are left.\<close>

definition parse_flow ::
  "telem_env \<Rightarrow> er_parser \<Rightarrow> u32 set \<Rightarrow> string list list \<Rightarrow> (flow_info \<times> string list list) option" where
  "parse_flow T er muxed_groups lines =
     (if 2 \<ge> length lines then None
      else
        (case parse_header_line T (lines ! 0) (te_blank T) of None \<Rightarrow> None | Some info1 \<Rightarrow>
        (case parse_type_line T (lines ! 1) info1 of None \<Rightarrow> None | Some info2 \<Rightarrow>
        (case parse_destination_line (lines ! 2) info2 of None \<Rightarrow> None | Some info3 \<Rightarrow>
        (case parse_options T er (drop 3 lines) info3 of None \<Rightarrow> None | Some (info4, rest) \<Rightarrow>
           collect_config rest (add_mux_flag T muxed_groups info4))))))"

lemma parse_options_length:
  "parse_options T er lines info = Some (info', rest) \<Longrightarrow> length rest \<le> length lines"
  by (induction T er lines info rule: parse_options.induct) (auto split: if_splits option.splits)

lemma collect_config_length:
  "collect_config lines info = Some (info', rest) \<Longrightarrow> length rest \<le> length lines"
  by (induction lines info rule: collect_config.induct) (auto split: if_splits)

lemma parse_flow_length:
  assumes "parse_flow T er M lines = Some (info, rest)"
  shows "length rest < length lines"
proof -
  obtain info3 info4 mid where o: "parse_options T er (drop 3 lines) info3 = Some (info4, mid)"
    and c: "collect_config mid (add_mux_flag T M info4) = Some (info, rest)" and l: "2 < length lines"
    using assms by (auto simp: parse_flow_def split: if_splits option.splits prod.splits)
  show ?thesis using parse_options_length [OF o] collect_config_length [OF c] l by simp
qed

function parse_file ::
  "telem_env \<Rightarrow> er_parser \<Rightarrow> u32 set \<Rightarrow> string list list \<Rightarrow> flow_info list \<Rightarrow> bool \<times> flow_info list" where
  "parse_file T er muxed_groups lines flows =
     (if lines = [] then (True, flows)
      else
        (case parse_flow T er muxed_groups lines of
           None \<Rightarrow> (False, flows)
         | Some (info, rest) \<Rightarrow> parse_file T er muxed_groups rest (flows @ [info])))"
  by pat_completeness auto
termination
  by (relation "measure (\<lambda>(T, er, M, lines, flows). length lines)") (auto dest: parse_flow_length)

declare parse_file.simps [simp del]

definition control_parse_file :: "telem_env \<Rightarrow> string list list \<Rightarrow> bool \<times> flow_info list" where
  "control_parse_file T lines = parse_file T control_er_line {} lines []"

definition runtime_parse_file ::
  "telem_env \<Rightarrow> string \<Rightarrow> u32 set \<Rightarrow> string list list \<Rightarrow> flow_info list \<Rightarrow> bool \<times> flow_info list" where
  "runtime_parse_file T ident muxed_groups lines flows =
     parse_file T (runtime_er_line T ident) muxed_groups lines flows"

section \<open>Files compose\<close>

definition starts_flow :: "string list list \<Rightarrow> bool" where
  "starts_flow lines \<longleftrightarrow> lines = [] \<or> (hd lines \<noteq> [] \<and> hd lines ! 0 = ''flow'')"

lemma parse_option_flow: "line ! 0 = ''flow'' \<Longrightarrow> parse_option T er line info = None"
  by (simp add: parse_option_def alt_prefix_def)

lemma parse_options_append:
  assumes "starts_flow l2"
  shows "parse_options T er l1 info = Some (info', rest) \<Longrightarrow> parse_options T er (l1 @ l2) info = Some (info', rest @ l2)"
proof (induction T er l1 info rule: parse_options.induct)
  case (1 T er info)
  then show ?case using assms by (cases l2) (simp_all add: starts_flow_def parse_option_flow)
qed (auto split: if_splits option.splits)

lemma collect_config_append:
  assumes "starts_flow l2"
  shows "collect_config l1 info = Some (info', rest) \<Longrightarrow> collect_config (l1 @ l2) info = Some (info', rest @ l2)"
proof (induction l1 info rule: collect_config.induct)
  case (1 info)
  then show ?case using assms by (cases l2) (simp_all add: starts_flow_def)
qed (auto split: if_splits)

lemma parse_flow_cases:
  assumes "parse_flow T er M lines = Some (info, left)"
  obtains info1 info2 info3 info4 mid where "2 < length lines"
    and "parse_header_line T (lines ! 0) (te_blank T) = Some info1"
    and "parse_type_line T (lines ! 1) info1 = Some info2"
    and "parse_destination_line (lines ! 2) info2 = Some info3"
    and "parse_options T er (drop 3 lines) info3 = Some (info4, mid)"
    and "collect_config mid (add_mux_flag T M info4) = Some (info, left)"
  using assms by (auto simp: parse_flow_def split: if_splits option.splits prod.splits)

lemma parse_flow_append:
  assumes "starts_flow l2" and "parse_flow T er M l1 = Some (info, left)"
  shows "parse_flow T er M (l1 @ l2) = Some (info, left @ l2)"
proof -
  obtain i1 i2 i3 i4 mid where l: "2 < length l1"
    and h: "parse_header_line T (l1 ! 0) (te_blank T) = Some i1"
    and t: "parse_type_line T (l1 ! 1) i1 = Some i2"
    and d: "parse_destination_line (l1 ! 2) i2 = Some i3"
    and o: "parse_options T er (drop 3 l1) i3 = Some (i4, mid)"
    and c: "collect_config mid (add_mux_flag T M i4) = Some (info, left)"
    by (rule parse_flow_cases [OF assms(2)])
  from l have "l1 \<noteq> []" by auto
  with l have n: "(l1 @ l2) ! 0 = l1 ! 0" "(l1 @ l2) ! 1 = l1 ! 1" "(l1 @ l2) ! 2 = l1 ! 2" "drop 3 (l1 @ l2) = drop 3 l1 @ l2"
    "\<not> 2 \<ge> length (l1 @ l2)"
    by (simp_all add: nth_append)
  show ?thesis
    unfolding parse_flow_def n(1-4) using n(5)
    by (simp only: if_False h t d option.case parse_options_append [OF assms(1) o] prod.case
        collect_config_append [OF assms(1) c])
qed

lemma parse_file_append:
  assumes "starts_flow l2"
  shows "parse_file T er M l1 flows = (True, flows1) \<Longrightarrow> parse_file T er M (l1 @ l2) flows = parse_file T er M l2 flows1"
proof (induction T er M l1 flows rule: parse_file.induct)
  case (1 T er M lines flows)
  show ?case
  proof (cases "lines = []")
    case True
    then show ?thesis using 1(2) by (simp add: parse_file.simps)
  next
    case False
    then obtain info rest where one: "parse_flow T er M lines = Some (info, rest)"
      and more: "parse_file T er M rest (flows @ [info]) = (True, flows1)"
      using 1(2) by (subst (asm) parse_file.simps) (auto split: option.splits prod.splits)
    have "parse_file T er M (lines @ l2) flows = parse_file T er M (rest @ l2) (flows @ [info])"
      by (subst parse_file.simps) (simp add: False parse_flow_append [OF assms one])
    also have "\<dots> = parse_file T er M l2 flows1" by (rule 1(1) [OF False one _ more]) simp
    finally show ?thesis .
  qed
qed

lemma parse_file_accumulates:
  "parse_file T er M lines flows = (case parse_file T er M lines [] of (ok, fl) \<Rightarrow> (ok, flows @ fl))"
proof (induction "length lines" arbitrary: lines flows rule: less_induct)
  case less
  show ?case
  proof (cases "lines = [] \<or> parse_flow T er M lines = None")
    case True
    then have "parse_file T er M lines fl = (lines = [], fl)" for fl by (subst parse_file.simps) auto
    then show ?thesis by simp
  next
    case False
    then obtain info rest where one: "parse_flow T er M lines = Some (info, rest)" and ne: "lines \<noteq> []" by auto
    have IH: "parse_file T er M rest fl = (case parse_file T er M rest [] of (ok, fl') \<Rightarrow> (ok, fl @ fl'))" for fl
      using less [OF parse_flow_length [OF one]] by blast
    have u: "parse_file T er M lines fl = (case parse_file T er M rest [] of (ok, fl') \<Rightarrow> (ok, (fl @ [info]) @ fl'))" for fl
      using one ne by (subst parse_file.simps) (simp add: IH [of "fl @ [info]"])
    show ?thesis by (simp only: u) (simp split: prod.splits)
  qed
qed

section \<open>What a parsed flow satisfies\<close>

definition flow_inv :: "telem_env \<Rightarrow> flow_info \<Rightarrow> bool" where
  "flow_inv T f \<longleftrightarrow>
     length (fi_hosts f) = te_num_alt T + 1 \<and>
     (fi_disabled_hosts f = [] \<or> list_all (\<lambda>alt. fi_hosts f ! alt = []) [1..<te_num_alt T + 1]) \<and>
     (fi_burst f = 0 \<longleftrightarrow> fi_recharge f = 0)"

definition primary_hosts :: "flow_info \<Rightarrow> string list" where
  "primary_hosts f = fi_hosts f ! 0"

definition flow_ok :: "telem_env \<Rightarrow> flow_info \<Rightarrow> bool" where
  "flow_ok T f \<longleftrightarrow> flow_inv T f \<and> primary_hosts f \<noteq> [] \<and> distinct (primary_hosts f) \<and>
     te_group_ok T (fi_group f) \<and> te_type_ok T (fi_type f)"

text \<open>The fields that a parser of the record flag leaves alone.\<close>

definition er_neutral :: "er_parser \<Rightarrow> bool" where
  "er_neutral er \<longleftrightarrow>
     (\<forall>line info info'. er line info = Some info' \<longrightarrow> info' = info\<lparr>fi_static_flags := fi_static_flags info'\<rparr>)"

lemma er_neutral_parsers: "er_neutral control_er_line" "er_neutral (runtime_er_line T ident)"
proof -
  show "er_neutral control_er_line" by (simp add: er_neutral_def control_er_line_def)
  have "\<exists>fl. info' = info\<lparr>fi_static_flags := fl\<rparr>" if "runtime_er_line T ident line info = Some info'" for line info info'
    using that unfolding runtime_er_line_def Let_def by (simp split: if_split_asm) blast+
  then show "er_neutral (runtime_er_line T ident)" by (fastforce simp: er_neutral_def)
qed

lemma add_hosts_distinct:
  "add_hosts hs seen acc = Some hs' \<Longrightarrow> hs' = acc @ hs \<and> distinct hs \<and> set hs \<inter> seen = {}"
  by (induction hs seen acc rule: add_hosts.induct) (auto split: if_splits)

lemma add_hosts_iff:
  "add_hosts hs seen acc = (if distinct hs \<and> set hs \<inter> seen = {} then Some (acc @ hs) else None)"
  by (induction hs seen acc rule: add_hosts.induct) auto

text \<open>Everything that the options keep of a flow: the header, the type, the destinations and \<open>flow_inv\<close>.\<close>

definition option_keeps :: "telem_env \<Rightarrow> flow_info \<Rightarrow> flow_info \<Rightarrow> bool" where
  "option_keeps T f f' \<longleftrightarrow>
     fi_id f' = fi_id f \<and> fi_group f' = fi_group f \<and> fi_type f' = fi_type f \<and>
     (flow_inv T f \<longrightarrow> flow_inv T f' \<and> primary_hosts f' = primary_hosts f)"

lemmas option_line_defs = parse_bandwidth_line_def parse_timeout_line_def parse_sf_line_def parse_buffer_line_def
  parse_name_line_def parse_override_source_role_inst_def parse_precomputed_annotation_file_def
  parse_timestamp_channel_def

lemma disabled_line_keeps:
  "parse_disabled_destination_line T line f = Some f' \<Longrightarrow> option_keeps T f f'"
  by (auto simp: parse_disabled_destination_line_def option_keeps_def flow_inv_def primary_hosts_def
      split: if_splits option.splits)

lemma alt_line_keeps:
  "parse_alt_destination_lines T line f = Some f' \<Longrightarrow> option_keeps T f f'"
  by (auto simp: parse_alt_destination_lines_def option_keeps_def flow_inv_def primary_hosts_def unat_eq_0
      split: if_splits option.splits)

lemma er_line_keeps: "er_neutral er \<Longrightarrow> er line f = Some f' \<Longrightarrow> option_keeps T f f'"
proof -
  assume "er_neutral er" and "er line f = Some f'"
  then have "f' = f\<lparr>fi_static_flags := fi_static_flags f'\<rparr>" unfolding er_neutral_def by blast
  then obtain fl where "f' = f\<lparr>fi_static_flags := fl\<rparr>" by blast
  then show "option_keeps T f f'" by (simp add: option_keeps_def flow_inv_def primary_hosts_def)
qed

lemma option_keeps:
  assumes "er_neutral er" and "parse_option T er line f = Some (Some f')"
  shows "option_keeps T f f'"
proof -
  have plain: "option_keeps T f f'"
    if "Some f' \<in> {parse_bandwidth_line T line f, parse_timeout_line T line f, parse_sf_line T line f,
        parse_buffer_line T line f, parse_name_line line f, parse_override_source_role_inst line f,
        parse_precomputed_annotation_file line f, parse_timestamp_channel line f}"
    using that
    by (auto simp: option_line_defs option_keeps_def flow_inv_def primary_hosts_def split: if_splits option.splits)
  show ?thesis
    using assms(2) plain er_line_keeps [OF assms(1)] disabled_line_keeps alt_line_keeps
    by (auto simp: parse_option_def Let_def split: if_splits)
qed

lemma option_keeps_refl: "option_keeps T f f"
  by (simp add: option_keeps_def)

lemma option_keeps_trans: "option_keeps T f g \<Longrightarrow> option_keeps T g h \<Longrightarrow> option_keeps T f h"
  by (simp add: option_keeps_def)

lemma parse_options_keeps:
  assumes "er_neutral er"
  shows "parse_options T er lines f = Some (f', left) \<Longrightarrow> option_keeps T f f'"
proof (induction lines arbitrary: f)
  case (Cons line rest)
  show ?case
  proof (cases "parse_option T er line f")
    case None
    then show ?thesis using Cons.prems by (auto simp: option_keeps_refl split: if_splits)
  next
    case (Some r)
    then obtain f1 where one: "parse_option T er line f = Some (Some f1)"
      and rest: "parse_options T er rest f1 = Some (f', left)"
      using Cons.prems by (auto split: if_splits option.splits)
    show ?thesis by (rule option_keeps_trans [OF option_keeps [OF assms one] Cons.IH [OF rest]])
  qed
qed (simp add: option_keeps_refl)

lemma collect_config_keeps: "collect_config lines f = Some (f', rest) \<Longrightarrow> \<exists>c. f' = f\<lparr>fi_config_info := c\<rparr>"
proof (induction lines f rule: collect_config.induct)
  case (1 info)
  then have "f' = info\<lparr>fi_config_info := fi_config_info info\<rparr>" by simp
  then show ?case by blast
next
  case (2 line rest info)
  show ?case
  proof (cases "line ! 0 = ''flow''")
    case True
    then have "f' = info\<lparr>fi_config_info := fi_config_info info\<rparr>" using 2(2) by (auto split: if_splits)
    then show ?thesis by blast
  next
    case False
    then show ?thesis using 2 by (fastforce split: if_splits)
  qed
qed

lemma parse_flow_ok:
  assumes T: "telem_env_ok T" and er: "er_neutral er" and p: "parse_flow T er M lines = Some (info, left)"
  shows "flow_ok T info"
proof -
  obtain i1 i2 i3 i4 mid where
    h: "parse_header_line T (lines ! 0) (te_blank T) = Some i1"
    and t: "parse_type_line T (lines ! 1) i1 = Some i2"
    and d: "parse_destination_line (lines ! 2) i2 = Some i3"
    and o: "parse_options T er (drop 3 lines) i3 = Some (i4, mid)"
    and c: "collect_config mid (add_mux_flag T M i4) = Some (info, left)"
    by (rule parse_flow_cases [OF p])
  have i1: "fi_hosts i1 = replicate (te_num_alt T + 1) []" "fi_disabled_hosts i1 = []" "fi_burst i1 = 0"
    "fi_recharge i1 = 0" "te_group_ok T (fi_group i1)"
    using h T by (auto simp: parse_header_line_def telem_env_ok_def split: if_splits option.splits)
  have i2: "fi_hosts i2 = replicate (te_num_alt T + 1) []" "fi_disabled_hosts i2 = []" "fi_burst i2 = 0"
    "fi_recharge i2 = 0" "te_group_ok T (fi_group i2)" "te_type_ok T (fi_type i2)"
    using t i1 by (auto simp: parse_type_line_def split: if_splits option.splits)
  obtain hs where i3: "i3 = i2\<lparr>fi_hosts := (fi_hosts i2)[0 := hs]\<rparr>" and hs: "hs = tl (lines ! 2)" "distinct hs" "hs \<noteq> []"
    using d i2(1) by (cases "lines ! 2") (auto simp: parse_destination_line_def add_hosts_iff split: if_splits)
  have i3': "flow_inv T i3" "primary_hosts i3 = hs" "te_group_ok T (fi_group i3)" "te_type_ok T (fi_type i3)"
    using i2 by (simp_all add: i3 flow_inv_def primary_hosts_def)
  have i4: "flow_inv T i4" "primary_hosts i4 = hs" "te_group_ok T (fi_group i4)" "te_type_ok T (fi_type i4)"
    using parse_options_keeps [OF er o] i3' by (simp_all add: option_keeps_def)
  obtain fl cfg where info: "info = (i4\<lparr>fi_static_flags := fl\<rparr>)\<lparr>fi_config_info := cfg\<rparr>"
  proof -
    obtain cfg where "info = add_mux_flag T M i4\<lparr>fi_config_info := cfg\<rparr>" using collect_config_keeps [OF c] by blast
    moreover have "\<exists>fl. add_mux_flag T M i4 = i4\<lparr>fi_static_flags := fl\<rparr>"
      by (cases "fi_group i4 \<in> M") (auto simp: add_mux_flag_def intro: exI [of _ "fi_static_flags i4"])
    ultimately show ?thesis using that by metis
  qed
  show ?thesis using i4 hs by (simp add: info flow_ok_def flow_inv_def primary_hosts_def)
qed

lemma parse_file_ok:
  assumes "telem_env_ok T" and "er_neutral er"
  shows "parse_file T er M lines flows = (ok, fl) \<Longrightarrow> list_all (flow_ok T) flows \<Longrightarrow> list_all (flow_ok T) fl"
proof (induction "length lines" arbitrary: lines flows rule: less_induct)
  case less
  show ?case
  proof (cases "lines = [] \<or> parse_flow T er M lines = None")
    case True
    then have "parse_file T er M lines flows = (lines = [], flows)" by (subst parse_file.simps) auto
    then show ?thesis using less(2,3) by simp
  next
    case False
    then obtain info left where one: "parse_flow T er M lines = Some (info, left)" and ne: "lines \<noteq> []" by auto
    then have rest: "parse_file T er M left (flows @ [info]) = (ok, fl)"
      using less(2) by (subst (asm) parse_file.simps) simp
    show ?thesis
      by (rule less(1) [OF parse_flow_length [OF one] rest]) (simp add: less(3) parse_flow_ok [OF assms one])
  qed
qed

section \<open>Words that are no options\<close>

definition option_word :: "string \<Rightarrow> bool" where
  "option_word w \<longleftrightarrow>
     w \<in> {''bandwidth'', ''idle_timeout'', ''store_and_forward'', ''external_record'', ''buffer'', ''name'',
          ''disabled_destination'', ''override_source_role_inst'', ''precomputed_annotation_file'', ''timestamp_channel''} \<or>
     take (length alt_prefix) w = alt_prefix"

lemma parse_option_None: "parse_option T er line info = None \<longleftrightarrow> \<not> option_word (line ! 0)"
  by (simp add: parse_option_def option_word_def Let_def)

lemma parse_options_stop:
  assumes "u \<noteq> []" and "\<not> option_word (u ! 0)"
  shows "parse_options T er (lines @ u # rest) info =
    map_option (\<lambda>(i, left). (i, left @ u # rest)) (parse_options T er lines info)"
proof (induction lines arbitrary: info)
  case Nil
  have "parse_option T er u info = None" using assms(2) by (simp add: parse_option_None)
  then show ?case using assms(1) by simp
next
  case (Cons line lines)
  then show ?case by (simp split: option.splits)
qed

lemma collect_config_prefix:
  "u \<noteq> [] \<Longrightarrow> collect_config (lines @ u # rest) info = Some (i2, left) \<Longrightarrow>
   \<exists>i1 left1. collect_config (lines @ [u]) info = Some (i1, left1)"
  by (induction lines arbitrary: info) (auto split: if_splits)

text \<open>The sets of hosts are those of one line: a second line may repeat the hosts of the first.\<close>

lemma repeated_line_repeats_host:
  assumes "fi_hosts f = [[], []]" and "te_num_alt T = 1" and "fi_disabled_hosts f = []"
  shows "parse_options T er [[''disabled_destination'', h], [''disabled_destination'', h]] f =
    Some (f\<lparr>fi_disabled_hosts := [h, h]\<rparr>, [])"
  using assms by (simp add: parse_option_def parse_disabled_destination_line_def Let_def alt_prefix_def upt_rec)

section \<open>An instance\<close>

definition demo_blank :: flow_info where
  "demo_blank = \<lparr>fi_id = 0, fi_group = 0, fi_type = 0, fi_name = [], fi_hosts = [[], [], []],
     fi_disabled_hosts = [], fi_burst = 0, fi_recharge = 0, fi_idle_timeout = 0, fi_static_flags = 0,
     fi_buf_size = 0, fi_override_source = [], fi_annotation_file = [], fi_timestamp_channel = [],
     fi_config_info = []\<rparr>"

definition demo_symbols :: "(string \<times> int32) list \<Rightarrow> symtab" where
  "demo_symbols es = (symtab_new False 0 [])\<lparr>to_int_table := map_of es\<rparr>"

definition demo_telem :: telem_env where
  "demo_telem = \<lparr>te_num_alt = 2, te_blank = demo_blank, te_id = uint,
     te_np = \<lparr>np_int = (\<lambda>_. None), np_uint = map_of [(''1'', 1), (''2'', 2), (''3'', 3)]\<rparr>,
     te_size = map_of [(''1'', 1), (''2'', 2), (''900'', 900)], te_nanos = (\<lambda>_. None),
     te_groups = demo_symbols [(''telem_group_slate'', 4), (''telem_group_video'', 5)],
     te_types = demo_symbols [(''telem_dgram'', 6), (''telem_annotated_dgram'', 7)],
     te_group_ok = (\<lambda>_. True), te_type_ok = (\<lambda>_. True), te_annotated = 7, te_mux = 1,
     te_store_forward = 2, te_external_record = 4\<rparr>"

text \<open>A gated flow in the slate group, and one with an alternative destination.\<close>

definition demo_gated :: "string list list" where
  "demo_gated = [[''flow'', ''1'', ''slate''], [''type'', ''dgram''], [''destination'', ''h1'', ''h2''],
     [''name'', ''main''], [''bandwidth'', ''900'', ''2''], [''disabled_destination'', ''h3'', ''h4''],
     [''columns'', ''all''], [''buffer'', ''900'']]"

definition demo_switched :: "string list list" where
  "demo_switched = [[''flow'', ''2'', ''slate''], [''type'', ''dgram''], [''destination'', ''h1''],
     [''name'', ''aux''], [''alt_destination_2'', ''h3'']]"

definition demo_gated_info :: flow_info where
  "demo_gated_info = demo_blank\<lparr>fi_id := 1, fi_group := 4, fi_type := 6, fi_name := ''main'',
     fi_hosts := [[''h1'', ''h2''], [], []], fi_disabled_hosts := [''h3'', ''h4''], fi_burst := 900, fi_recharge := 2,
     fi_config_info := ''columns all'' @ [CHR 0x0A] @ ''buffer 900'' @ [CHR 0x0A]\<rparr>"

definition demo_switched_info :: flow_info where
  "demo_switched_info = demo_blank\<lparr>fi_id := 2, fi_group := 4, fi_type := 6, fi_name := ''aux'',
     fi_hosts := [[''h1''], [], [''h3'']]\<rparr>"

lemma demo_telem_ok: "telem_env_ok demo_telem"
  by (simp add: telem_env_ok_def demo_telem_def demo_blank_def numeral_3_eq_3)

lemma demo_starts: "starts_flow demo_switched"
  by (simp add: starts_flow_def demo_switched_def)

lemmas demo_parse_simps = parse_flow_def parse_header_line_def parse_type_line_def parse_destination_line_def
  option_line_defs parse_disabled_destination_line_def parse_alt_destination_lines_def parse_option_def alt_prefix_def
  add_mux_flag_def raw_get_uint_table demo_telem_def demo_symbols_def symtab_new_def demo_blank_def Let_def upt_rec

lemma demo_flows:
  "parse_flow demo_telem er {} demo_gated = Some (demo_gated_info, [])"
  "parse_flow demo_telem er {} demo_switched = Some (demo_switched_info, [])"
  by (simp_all add: demo_gated_def demo_switched_def demo_gated_info_def demo_switched_info_def demo_parse_simps)

lemma demo_files:
  "parse_file demo_telem er {} demo_gated [] = (True, [demo_gated_info])"
  "parse_file demo_telem er {} demo_switched [] = (True, [demo_switched_info])"
  "parse_file demo_telem er {} (demo_gated @ demo_switched) [] = (True, [demo_gated_info, demo_switched_info])"
proof -
  have f: "parse_file demo_telem er {} lines acc = (True, acc @ [i])"
    if "parse_flow demo_telem er {} lines = Some (i, [])" "lines \<noteq> []" for lines i acc
    using that by (subst parse_file.simps) (simp add: parse_file.simps [of _ _ _ "[]"])
  show "parse_file demo_telem er {} demo_gated [] = (True, [demo_gated_info])"
    "parse_file demo_telem er {} demo_switched [] = (True, [demo_switched_info])"
    using f [OF demo_flows(1), of "[]"] f [OF demo_flows(2), of "[]"] by (simp_all add: demo_gated_def demo_switched_def)
  from parse_file_append [OF demo_starts f [OF demo_flows(1), of "[]"]]
  show "parse_file demo_telem er {} (demo_gated @ demo_switched) [] = (True, [demo_gated_info, demo_switched_info])"
    using f [OF demo_flows(2), of "[demo_gated_info]"] by (simp add: demo_gated_def demo_switched_def)
qed

section \<open>Properties\<close>

text \<open>
  C31: every flow that parsing a configuration stores, also when a later line is refused, has a
  known group and type, at least one primary destination and no primary destination twice, disabled or
  alternative destinations but not both, and a burst size exactly when it has a recharge rate.
  Nothing is said of repetitions among the disabled or the alternative destinations: these are
  looked for within a line only (\<open>repeated_line_repeats_host\<close>).
\<close>

theorem parsed_flows_ok:
  assumes "telem_env_ok T" and "runtime_parse_file T ident muxed_groups lines [] = (ok, flows)"
  shows "list_all (flow_ok T) flows"
  using parse_file_ok [OF assms(1) er_neutral_parsers(2) assms(2) [unfolded runtime_parse_file_def]] by simp

theorem parsed_flows_ok_witness:
  "flow_ok demo_telem demo_gated_info \<and> fi_disabled_hosts demo_gated_info \<noteq> [] \<and>
   flow_ok demo_telem demo_switched_info \<and> fi_hosts demo_switched_info ! 2 \<noteq> []"
  using parsed_flows_ok [OF demo_telem_ok, of "''a''" "{}" "demo_gated @ demo_switched" True "[demo_gated_info, demo_switched_info]"]
  by (simp add: runtime_parse_file_def demo_files demo_gated_info_def demo_switched_info_def demo_blank_def)

text \<open>
  C33: a configuration can be put together from files: if one file parses, appending lines that
  begin with a header gives its flows followed by those of the lines, with their result.
\<close>

theorem configurations_compose:
  assumes "starts_flow later" and "runtime_parse_file T ident muxed_groups lines [] = (True, flows)"
  shows "runtime_parse_file T ident muxed_groups (lines @ later) [] =
    (case runtime_parse_file T ident muxed_groups later [] of (ok, more_flows) \<Rightarrow> (ok, flows @ more_flows))"
  using parse_file_append [OF assms(1) assms(2) [unfolded runtime_parse_file_def]]
    parse_file_accumulates [of T _ muxed_groups later flows]
  by (simp add: runtime_parse_file_def)

theorem configurations_compose_witness:
  "runtime_parse_file demo_telem ''a'' {} (demo_gated @ demo_switched) [] = (True, [demo_gated_info] @ [demo_switched_info])"
  using configurations_compose [of demo_switched demo_telem "''a''" "{}" demo_gated "[demo_gated_info]"]
  by (simp add: runtime_parse_file_def demo_files demo_starts)

text \<open>
  A line whose first word is no option ends the options of a flow for good: whatever option
  lines follow it change nothing of the flow but its configuration text.
\<close>

theorem unknown_word_ends_options:
  assumes "u \<noteq> []" and "\<not> option_word (u ! 0)" and "length lines \<ge> 3"
    and "parse_flow T er muxed_groups (lines @ u # later) = Some (info, left)"
  shows "\<exists>cut left1 text. parse_flow T er muxed_groups (lines @ [u]) = Some (cut, left1) \<and>
    info = cut\<lparr>fi_config_info := text\<rparr>"
proof -
  obtain l1 l2 l3 os where lines: "lines = l1 # l2 # l3 # os"
    using assms(3) by (auto simp: numeral_3_eq_3 Suc_le_length_iff)
  obtain i1 i2 i3 i4 mid where h: "parse_header_line T l1 (te_blank T) = Some i1"
    and t: "parse_type_line T l2 i1 = Some i2" and d: "parse_destination_line l3 i2 = Some i3"
    and o: "parse_options T er (os @ u # later) i3 = Some (i4, mid)"
    and c: "collect_config mid (add_mux_flag T muxed_groups i4) = Some (info, left)"
    by (rule parse_flow_cases [OF assms(4)]) (simp add: lines)
  obtain mid0 where o0: "parse_options T er os i3 = Some (i4, mid0)" and mid: "mid = mid0 @ u # later"
    using o by (auto simp: parse_options_stop [OF assms(1,2)])
  have o1: "parse_options T er (os @ [u]) i3 = Some (i4, mid0 @ [u])"
    by (simp add: parse_options_stop [OF assms(1,2)] o0)
  obtain cut left1 where c1: "collect_config (mid0 @ [u]) (add_mux_flag T muxed_groups i4) = Some (cut, left1)"
    using collect_config_prefix [OF assms(1) c [unfolded mid]] by blast
  have "parse_flow T er muxed_groups (lines @ [u]) = Some (cut, left1)"
    by (simp add: parse_flow_def lines h t d o1 c1)
  moreover have "\<exists>text. info = cut\<lparr>fi_config_info := text\<rparr>"
  proof -
    obtain a b where "info = add_mux_flag T muxed_groups i4\<lparr>fi_config_info := a\<rparr>"
      and "cut = add_mux_flag T muxed_groups i4\<lparr>fi_config_info := b\<rparr>"
      using collect_config_keeps [OF c] collect_config_keeps [OF c1] by blast
    then have "info = cut\<lparr>fi_config_info := a\<rparr>" by simp
    then show ?thesis by blast
  qed
  ultimately show ?thesis by blast
qed

theorem unknown_word_ends_options_witness:
  "\<exists>cut left1 text. parse_flow demo_telem control_er_line {} (take 6 demo_gated @ [[''columns'', ''all'']]) = Some (cut, left1) \<and>
     demo_gated_info = cut\<lparr>fi_config_info := text\<rparr> \<and> fi_buf_size demo_gated_info = 0"
proof -
  have l: "take 6 demo_gated @ [''columns'', ''all''] # [[''buffer'', ''900'']] = demo_gated" by (simp add: demo_gated_def)
  show ?thesis
    using unknown_word_ends_options [of "[''columns'', ''all'']" "take 6 demo_gated" demo_telem control_er_line "{}"
        "[[''buffer'', ''900'']]" demo_gated_info "[]", unfolded l, OF _ _ _ demo_flows(1)]
    by (simp add: option_word_def alt_prefix_def demo_gated_def demo_gated_info_def demo_blank_def)
qed

end
