(* ===== verification/Telem_Flows.thy ===== *)
theory Telem_Flows
  imports Element_Setup Telem_Parse "HOL-Library.List_Lexorder" "HOL-Library.Char_ord" "HOL-Library.Product_Lexorder"
begin

text \<open>
  The second part of \<^verbatim>\<open>TelemetryRelay.cc\<close>: what is made of the parsed flows. The control part creates
  the elements that gate and redirect flows; the run-time part binds to them, creates a flow object
  for each flow, and connects it to its destinations, either with a connection for each flow and
  destination or with one for each destination.

  A \<^verbatim>\<open>TelemetryRelayFlow\<close> is not in the repository: \<open>relay_flow\<close> records what its constructor and
  its methods were given, \<open>re_accepts\<close> is whether a method succeeds, and \<open>re_metrics\<close> what
  \<^verbatim>\<open>init_metrics\<close> does to the slate. A connection that is opened is an entry of a list, its service and
  the number of datagrams it buffers; \<open>re_connect\<close> is whether opening it succeeds. The directories of
  services and nodes are parameters. \<^verbatim>\<open>std::map\<close>s that the code iterates are association lists
  sorted by key.
\<close>

section \<open>Data\<close>

record service =
  sv_host :: string
  sv_port :: "16 word"
  sv_proto :: u32

datatype 'h bwp_writer = Redirected 'h | Opened nat

datatype 'h flow_call =
    Set_bandwidth "64 word" u32
  | Set_idle_timeout nano
  | Add_connection "'h bwp_writer" nat
  | Add_disabled_connection "'h bwp_writer"

record ('id, 'h) relay_flow =
  rf_id :: int
  rf_group :: u32
  rf_type :: u32
  rf_enabled :: 'id
  rf_alt :: 'id
  rf_source :: u32
  rf_buf_size :: "64 word"
  rf_flags :: u32
  rf_calls :: "'h flow_call list"

record node_ident =
  ni_node_name :: string
  ni_string :: string

type_synonym connection = "service \<times> 64 word"

record ('id, 'h, 'p) relay =
  rl_name :: string
  rl_initialized :: bool
  rl_finalized :: bool
  rl_ident :: node_ident
  rl_ids :: "(u32 \<times> int list) list"
  rl_indices :: "int \<rightharpoonup> nat"
  rl_claimed :: "int set"
  rl_infos :: "int \<rightharpoonup> flow_info"
  rl_producers :: "'p list"
  rl_flows :: "(int \<times> ('id, 'h) relay_flow) list"
  rl_redirects :: "string \<rightharpoonup> 'h"
  rl_override :: service
  rl_muxed :: "u32 set"
  rl_buffers :: "(string \<times> 64 word) list"
  rl_wanted :: "string \<Rightarrow> (int \<times> nat) set"
  rl_wanted_disabled :: "string \<Rightarrow> int set"

record ('id, 'pm, 'v, 'q, 'e, 'w, 'h) relay_env =
  re_telem :: telem_env
  re_setup :: "('id, 'pm, 'v, 'q, 'e, 'w) setup_env"
  re_ctx :: string
  re_validator :: "bool list \<Rightarrow> 'v"
  re_slate_group :: u32
  re_packet_len :: "64 word"
  re_udp :: u32
  re_service :: "string \<Rightarrow> service option"
  re_source :: "string \<Rightarrow> u32 option"
  re_connect :: "connection list \<Rightarrow> connection \<Rightarrow> bool"
  re_to_string :: "int \<Rightarrow> string"
  re_metrics :: "('id, 'h) relay_flow \<Rightarrow> ('q, 'e) builder \<Rightarrow> ('id, 'w) bstate \<Rightarrow> (bool \<times> ('id, 'w) bstate) option"
  re_accepts :: "('id, 'h) relay_flow \<Rightarrow> 'h flow_call \<Rightarrow> bool"

abbreviation re_builder where "re_builder E \<equiv> su_builder (re_setup E)"
abbreviation re_ids where "re_ids E \<equiv> be_ids (re_builder E)"
abbreviation re_static where "re_static E \<equiv> le_static (be_layout_env (re_builder E))"

definition relay_new :: "u32 \<Rightarrow> string \<Rightarrow> ('id, 'h, 'p) relay" where
  "relay_new udp name =
     \<lparr>rl_name = name, rl_initialized = False, rl_finalized = False,
      rl_ident = \<lparr>ni_node_name = [], ni_string = []\<rparr>, rl_ids = [], rl_indices = Map.empty,
      rl_claimed = {}, rl_infos = Map.empty, rl_producers = [], rl_flows = [], rl_redirects = Map.empty,
      rl_override = \<lparr>sv_host = [], sv_port = 0, sv_proto = udp\<rparr>, rl_muxed = {}, rl_buffers = [],
      rl_wanted = (\<lambda>_. {}), rl_wanted_disabled = (\<lambda>_. {})\<rparr>"

section \<open>Ordered maps\<close>

text \<open>Assignment through \<^verbatim>\<open>std::map::operator[]\<close>.\<close>

fun put :: "'k::linorder \<Rightarrow> 'a \<Rightarrow> ('k \<times> 'a) list \<Rightarrow> ('k \<times> 'a) list" where
  "put k v [] = [(k, v)]"
| "put k v ((k', v') # al) =
     (if k < k' then (k, v) # (k', v') # al else if k = k' then (k, v) # al else (k', v') # put k v al)"

lemma map_of_put [simp]: "map_of (put k v al) = (map_of al)(k \<mapsto> v)"
  by (induction k v al rule: put.induct) (auto simp: fun_eq_iff)

lemma set_put: "fst ` set (put k v al) = insert k (fst ` set al)"
  by (induction k v al rule: put.induct) auto

lemma sorted_put: "sorted_wrt (<) (map fst al) \<Longrightarrow> sorted_wrt (<) (map fst (put k v al))"
proof (induction k v al rule: put.induct)
  case (2 k v k' v' al)
  have "\<forall>x\<in>fst ` set (put k v al). k' < x" if "k' < k"
    using 2(2) that unfolding set_put by auto
  then show ?case using 2 by (auto simp: not_less_iff_gr_or_eq)
qed simp

section \<open>Local tokens\<close>

text \<open>A token on the stack: constructed before the body, destroyed with the ID the body leaves in it.\<close>

definition with_local ::
  "'id id_space \<Rightarrow> string \<Rightarrow> ('id \<Rightarrow> ('id, 'w) bstate \<Rightarrow> ('r \<times> 'id \<times> ('id, 'w) bstate) option) \<Rightarrow>
   ('id, 'w) bstate \<Rightarrow> ('r \<times> ('id, 'w) bstate) option" where
  "with_local I ctx body st =
     (case construct_token I ctx (snd st) of (t, a) \<Rightarrow>
        (case body t (fst st, a) of
           None \<Rightarrow> None
         | Some (r, t', st') \<Rightarrow> map_option (\<lambda>a'. (r, (fst st', a'))) (drop_token I t' (snd st'))))"

lemma with_local_elim:
  assumes "with_local I ctx body st = Some (r, st')"
  obtains t st0 t' st1 where "body t st0 = Some (r, t', st1)"
  using assms by (auto simp: with_local_def split: prod.splits option.splits)

section \<open>The control part\<close>

definition alt_dests :: "telem_env \<Rightarrow> flow_info \<Rightarrow> nat list" where
  "alt_dests T f = filter (\<lambda>alt. fi_hosts f ! alt \<noteq> []) [1..<te_num_alt T + 1]"

definition alt_validity :: "telem_env \<Rightarrow> flow_info \<Rightarrow> bool list" where
  "alt_validity T f = map (\<lambda>alt. alt = 0 \<or> alt \<in> set (alt_dests T f)) [0..<te_num_alt T + 1]"

definition validate_destination :: "bool list \<Rightarrow> byte \<Rightarrow> byte \<Rightarrow> bool \<times> byte" where
  "validate_destination validity new_value val =
     (if \<not> unat new_value < length validity then (False, val)
      else if \<not> validity ! unat new_value then (False, val)
      else (True, new_value))"

definition create_gate ::
  "('id, 'pm, 'v, 'q, 'e, 'w, 'h) relay_env \<Rightarrow> ('q, 'e) builder \<Rightarrow> nat \<Rightarrow> flow_info \<Rightarrow> ('id, 'w) bstate \<Rightarrow>
   (bool \<times> ('id, 'w) bstate) option" where
  "create_gate E b shard f st =
     (if fi_disabled_hosts f = [] then Some (True, st)
      else
        (case sub_slate_at (re_builder E) (fi_name f) b of
           None \<Rightarrow> None
         | Some sub \<Rightarrow>
             with_local (re_ids E) (re_ctx E)
               (\<lambda>t. create_plain (re_builder E) sub read_kind (su_types (re_setup E) T_bool) ''enabled'' (V_bool False)
                  shard Slate_read_write t) st))"

definition create_switch ::
  "('id, 'pm, 'v, 'q, 'e, 'w, 'h) relay_env \<Rightarrow> ('q, 'e) builder \<Rightarrow> nat \<Rightarrow> flow_info \<Rightarrow>
   (int \<rightharpoonup> bool list) \<times> ('id, 'w) bstate \<Rightarrow> (bool \<times> (int \<rightharpoonup> bool list) \<times> ('id, 'w) bstate) option" where
  "create_switch E b shard f s =
     (case s of (validators, st) \<Rightarrow>
        if alt_dests (re_telem E) f = [] then Some (True, validators, st)
        else
          let validity = alt_validity (re_telem E) f; validators' = validators(fi_id f \<mapsto> validity) in
          (case sub_slate_at (re_builder E) (fi_name f) b of
             None \<Rightarrow> None
           | Some sub \<Rightarrow>
               map_option (\<lambda>(ok, st'). (ok, validators', st'))
                 (with_local (re_ids E) (re_ctx E)
                    (\<lambda>t. create (re_builder E) sub read_kind (su_types (re_setup E) T_uint8) ''destination'' (V_uint8 0)
                       shard Slate_read_write (Some (re_validator E validity)) t) st)))"

fun control_flows ::
  "('id, 'pm, 'v, 'q, 'e, 'w, 'h) relay_env \<Rightarrow> ('q, 'e) builder \<Rightarrow> nat \<Rightarrow> (string \<rightharpoonup> int) \<Rightarrow> flow_info list \<Rightarrow>
   (int \<rightharpoonup> bool list) \<times> ('id, 'w) bstate \<Rightarrow> (bool \<times> (int \<rightharpoonup> bool list) \<times> ('id, 'w) bstate) option" where
  "control_flows E b shard names [] s = Some (True, s)"
| "control_flows E b shard names (f # fs) s =
     (if fi_name f \<noteq> [] \<and> names (fi_name f) \<noteq> None then Some (False, s)
      else
        let names' = names(fi_name f \<mapsto> fi_id f) in
        (case create_gate E b shard f (snd s) of
           None \<Rightarrow> None
         | Some (False, st) \<Rightarrow> Some (False, fst s, st)
         | Some (True, st) \<Rightarrow>
             (case create_switch E b shard f (fst s, st) of
                None \<Rightarrow> None
              | Some (False, s') \<Rightarrow> Some (False, s')
              | Some (True, s') \<Rightarrow> control_flows E b shard names' fs s')))"

text \<open>The last steps of \<open>init_internal\<close>: two tokens that live until it returns.\<close>

definition create_defaults ::
  "('id, 'pm, 'v, 'q, 'e, 'w, 'h) relay_env \<Rightarrow> ('q, 'e) builder \<Rightarrow> ('id, 'w) bstate \<Rightarrow> (bool \<times> ('id, 'w) bstate) option" where
  "create_defaults E b st =
     with_local (re_ids E) (re_ctx E)
       (\<lambda>t st. case create_plain (re_builder E) b read_kind (su_types (re_setup E) T_bool) ''always_enabled'' (V_bool True)
                   (re_static E) Slate_read_only t st of
             None \<Rightarrow> None
           | Some (False, t', st') \<Rightarrow> Some (False, t', st')
           | Some (True, t', st') \<Rightarrow>
               map_option (\<lambda>(ok, st''). (ok, t', st''))
                 (with_local (re_ids E) (re_ctx E)
                    (\<lambda>u. create_plain (re_builder E) b read_kind (su_types (re_setup E) T_uint8) ''default_destination''
                       (V_uint8 0) (re_static E) Slate_read_only u) st')) st"

definition control_init_internal ::
  "('id, 'pm, 'v, 'q, 'e, 'w, 'h) relay_env \<Rightarrow> string \<Rightarrow> ('q, 'e) builder \<Rightarrow> flow_info list \<Rightarrow> bool \<Rightarrow>
   (int \<rightharpoonup> bool list) \<times> ('id, 'w) bstate \<Rightarrow> (bool \<times> (int \<rightharpoonup> bool list) \<times> ('id, 'w) bstate) option" where
  "control_init_internal E name b flows use_sync_shard s =
     (let shard = (if use_sync_shard then su_sync (re_setup E) else su_nonsync (re_setup E)) in
      case sub_slate_at (re_builder E) name b of
        None \<Rightarrow> None
      | Some sub \<Rightarrow>
          (case control_flows E sub shard Map.empty flows s of
             None \<Rightarrow> None
           | Some (False, s') \<Rightarrow> Some (False, s')
           | Some (True, validators, st) \<Rightarrow>
               map_option (\<lambda>(ok, st'). (ok, validators, st')) (create_defaults E sub st)))"

definition control_init ::
  "('id, 'pm, 'v, 'q, 'e, 'w, 'h) relay_env \<Rightarrow> string \<Rightarrow> ('q, 'e) builder \<Rightarrow> string list list \<Rightarrow> bool \<Rightarrow>
   (int \<rightharpoonup> bool list) \<times> ('id, 'w) bstate \<Rightarrow> (bool \<times> (int \<rightharpoonup> bool list) \<times> ('id, 'w) bstate) option" where
  "control_init E name b lines use_sync_shard s =
     (case control_parse_file (re_telem E) lines of
        (False, flows) \<Rightarrow> Some (False, s)
      | (True, flows) \<Rightarrow> control_init_internal E name b flows use_sync_shard s)"

section \<open>Connections\<close>

definition create_connection ::
  "('id, 'pm, 'v, 'q, 'e, 'w, 'h) relay_env \<Rightarrow> service \<Rightarrow> 64 word \<Rightarrow> connection list \<Rightarrow>
   ('h bwp_writer \<times> connection list) option" where
  "create_connection E svc buffer_size conns =
     (if \<not> re_udp E = sv_proto svc then None
      else
        let num_dgrams = (buffer_size + re_packet_len E - 1) div re_packet_len E in
        if \<not> re_connect E conns (svc, num_dgrams) then None
        else Some (Opened (length conns), conns @ [(svc, num_dgrams)]))"

definition resolve :: "('id, 'pm, 'v, 'q, 'e, 'w, 'h) relay_env \<Rightarrow> ('id, 'h, 'p) relay \<Rightarrow> string \<Rightarrow> service option" where
  "resolve E r service_name =
     (if sv_host (rl_override r) \<noteq> [] then Some (rl_override r) else re_service E service_name)"

definition relay_get_connection ::
  "('id, 'pm, 'v, 'q, 'e, 'w, 'h) relay_env \<Rightarrow> ('id, 'h, 'p) relay \<Rightarrow> string \<Rightarrow> 64 word \<Rightarrow> connection list \<Rightarrow>
   ('h bwp_writer \<times> connection list) option" where
  "relay_get_connection E r service_name buffer_size conns =
     (case resolve E r service_name of
        None \<Rightarrow> None
      | Some svc \<Rightarrow>
          (case rl_redirects r service_name of
             Some h \<Rightarrow> Some (Redirected h, conns)
           | None \<Rightarrow> create_connection E svc buffer_size conns))"

text \<open>
  The destinations of a flow in the order of the loops: the index of the alternative, or \<open>None\<close> for
  a disabled destination.
\<close>

type_synonym request = "string \<times> nat option"

definition flow_requests :: "flow_info \<Rightarrow> request list" where
  "flow_requests f =
     concat (map (\<lambda>(alt, hs). map (\<lambda>h. (h, Some alt)) hs) (enumerate 0 (fi_hosts f))) @
     map (\<lambda>h. (h, None)) (fi_disabled_hosts f)"

definition connect_call :: "nat option \<Rightarrow> 'h bwp_writer \<Rightarrow> 'h flow_call" where
  "connect_call target w = (case target of Some alt \<Rightarrow> Add_connection w alt | None \<Rightarrow> Add_disabled_connection w)"

definition call_flow ::
  "('id, 'pm, 'v, 'q, 'e, 'w, 'h) relay_env \<Rightarrow> 'h flow_call \<Rightarrow> ('id, 'h) relay_flow \<Rightarrow> ('id, 'h) relay_flow option" where
  "call_flow E c rf = (if \<not> re_accepts E rf c then None else Some (rf\<lparr>rf_calls := rf_calls rf @ [c]\<rparr>))"

fun connect_flow ::
  "('id, 'pm, 'v, 'q, 'e, 'w, 'h) relay_env \<Rightarrow> ('id, 'h, 'p) relay \<Rightarrow> 64 word \<Rightarrow> request list \<Rightarrow>
   ('id, 'h) relay_flow \<times> connection list \<Rightarrow> bool \<times> ('id, 'h) relay_flow \<times> connection list" where
  "connect_flow E r buffer_size [] s = (True, s)"
| "connect_flow E r buffer_size ((host, target) # qs) (rf, conns) =
     (case relay_get_connection E r host buffer_size conns of
        None \<Rightarrow> (False, rf, conns)
      | Some (w, conns') \<Rightarrow>
          (case call_flow E (connect_call target w) rf of
             None \<Rightarrow> (False, rf, conns')
           | Some rf' \<Rightarrow> connect_flow E r buffer_size qs (rf', conns')))"

fun tally_flow :: "int \<Rightarrow> 64 word \<Rightarrow> request list \<Rightarrow> ('id, 'h, 'p) relay \<Rightarrow> ('id, 'h, 'p) relay" where
  "tally_flow i buffer_size [] r = r"
| "tally_flow i buffer_size ((host, target) # qs) r =
     (let old = (case map_of (rl_buffers r) host of None \<Rightarrow> 0 | Some n \<Rightarrow> n);
          r1 = r\<lparr>rl_buffers := put host (old + buffer_size) (rl_buffers r)\<rparr>;
          r2 = (case target of
                  Some alt \<Rightarrow> r1\<lparr>rl_wanted := (rl_wanted r1)(host := insert (i, alt) (rl_wanted r1 host))\<rparr>
                | None \<Rightarrow> r1\<lparr>rl_wanted_disabled :=
                            (rl_wanted_disabled r1)(host := insert i (rl_wanted_disabled r1 host))\<rparr>)
      in tally_flow i buffer_size qs r2)"

section \<open>Creating a flow\<close>

definition note_flow ::
  "('id, 'pm, 'v, 'q, 'e, 'w, 'h) relay_env \<Rightarrow> flow_info \<Rightarrow> ('id, 'h, 'p) relay \<Rightarrow> bool \<times> ('id, 'h, 'p) relay" where
  "note_flow E f r =
     (let members = (case map_of (rl_ids r) (fi_group f) of None \<Rightarrow> [] | Some is \<Rightarrow> is) @ [fi_id f];
          r1 = r\<lparr>rl_ids := put (fi_group f) members (rl_ids r)\<rparr>;
          r2 = (if fi_group f = re_slate_group E
                then r1\<lparr>rl_indices := (rl_indices r1)(fi_id f \<mapsto> length members - 1)\<rparr> else r1)
      in if rl_infos r2 (fi_id f) \<noteq> None then (False, r2)
         else (True, r2\<lparr>rl_infos := (rl_infos r2)(fi_id f \<mapsto> f)\<rparr>))"

definition assign_default ::
  "'id id_space \<Rightarrow> string \<Rightarrow> 'id \<Rightarrow> 'id \<Rightarrow> ('id, 'w) bstate \<Rightarrow> (bool \<times> 'id \<times> ('id, 'w) bstate) option" where
  "assign_default I ctx dflt tok st =
     map_option (\<lambda>(i, a). (True, i, (fst st, a))) (set_id I ctx tok dflt (snd st))"

definition bind_gate ::
  "('id, 'pm, 'v, 'q, 'e, 'w, 'h) relay_env \<Rightarrow> ('q, 'e) builder \<Rightarrow> flow_info \<Rightarrow> 'id \<Rightarrow> 'id \<Rightarrow> ('id, 'w) bstate \<Rightarrow>
   (bool \<times> 'id \<times> ('id, 'w) bstate) option" where
  "bind_gate E b f dflt tok st =
     (if fi_disabled_hosts f = [] then assign_default (re_ids E) (re_ctx E) dflt tok st
      else if \<not> length (fi_hosts f ! 0) = length (fi_disabled_hosts f) then Some (False, tok, st)
      else if fi_name f = [] then Some (False, tok, st)
      else
        (case sub_slate_at (re_builder E) (fi_name f) b of
           None \<Rightarrow> None
         | Some sub \<Rightarrow> bind (re_builder E) sub read_kind (su_types (re_setup E) T_bool) ''enabled'' tok st))"

definition bind_switch ::
  "('id, 'pm, 'v, 'q, 'e, 'w, 'h) relay_env \<Rightarrow> ('q, 'e) builder \<Rightarrow> flow_info \<Rightarrow> 'id \<Rightarrow> 'id \<Rightarrow> ('id, 'w) bstate \<Rightarrow>
   (bool \<times> 'id \<times> ('id, 'w) bstate) option" where
  "bind_switch E b f dflt tok st =
     (let alts = alt_dests (re_telem E) f in
      if \<not> list_all (\<lambda>alt. length (fi_hosts f ! 0) = length (fi_hosts f ! alt) \<and> fi_name f \<noteq> []) alts
      then Some (False, tok, st)
      else if alts = [] then assign_default (re_ids E) (re_ctx E) dflt tok st
      else
        (case sub_slate_at (re_builder E) (fi_name f) b of
           None \<Rightarrow> None
         | Some sub \<Rightarrow> bind (re_builder E) sub read_kind (su_types (re_setup E) T_uint8) ''destination'' tok st))"

definition source_name :: "node_ident \<Rightarrow> flow_info \<Rightarrow> string" where
  "source_name ident f =
     (if fi_override_source f = [] then ni_node_name ident else fi_override_source f @ ni_string ident)"

definition new_flow :: "flow_info \<Rightarrow> 'id \<Rightarrow> 'id \<Rightarrow> u32 \<Rightarrow> ('id, 'h) relay_flow" where
  "new_flow f enabled_tok alt_tok source =
     \<lparr>rf_id = fi_id f, rf_group = fi_group f, rf_type = fi_type f, rf_enabled = enabled_tok, rf_alt = alt_tok,
      rf_source = source, rf_buf_size = fi_buf_size f, rf_flags = fi_static_flags f, rf_calls = []\<rparr>"

text \<open>The bandwidth and the idle timeout: the flow and the size of the buffers to its destinations.\<close>

definition flow_buffer :: "('id, 'pm, 'v, 'q, 'e, 'w, 'h) relay_env \<Rightarrow> flow_info \<Rightarrow> 64 word" where
  "flow_buffer E f =
     (if fi_burst f \<noteq> 0 then ((fi_burst f + re_packet_len E - 1) div re_packet_len E) * re_packet_len E
      else 10 * re_packet_len E)"

definition limit_flow ::
  "('id, 'pm, 'v, 'q, 'e, 'w, 'h) relay_env \<Rightarrow> flow_info \<Rightarrow> ('id, 'h) relay_flow \<Rightarrow> ('id, 'h) relay_flow option" where
  "limit_flow E f rf =
     (if (fi_burst f = 0) \<noteq> (fi_recharge f = 0) then None
      else
        (case (if fi_burst f \<noteq> 0 then call_flow E (Set_bandwidth (fi_burst f) (fi_recharge f)) rf else Some rf) of
           None \<Rightarrow> None
         | Some rf1 \<Rightarrow> call_flow E (Set_idle_timeout (fi_idle_timeout f)) rf1))"

text \<open>From the source address to the end of the body of the loop.\<close>

type_synonym ('id, 'h, 'p) relay_conns = "('id, 'h, 'p) relay \<times> connection list"

definition finish_flow ::
  "('id, 'pm, 'v, 'q, 'e, 'w, 'h) relay_env \<Rightarrow> ('q, 'e) builder \<Rightarrow> node_ident \<Rightarrow> bool \<Rightarrow> flow_info \<Rightarrow> 'id \<Rightarrow> 'id \<Rightarrow>
   ('id, 'h, 'p) relay_conns \<Rightarrow> ('id, 'w) bstate \<Rightarrow> ((bool \<times> ('id, 'h, 'p) relay_conns) \<times> ('id, 'w) bstate) option" where
  "finish_flow E lb ident aggregate f enabled_tok alt_tok x st =
     (case x of (r, conns) \<Rightarrow>
        (case re_source E (source_name ident f) of
           None \<Rightarrow> Some ((False, x), st)
         | Some source \<Rightarrow>
             let rf0 = new_flow f enabled_tok alt_tok source in
             (case sub_slate_at (re_builder E) (''flows.'' @ re_to_string E (fi_id f)) lb of
                None \<Rightarrow> None
              | Some sub \<Rightarrow>
                  (case re_metrics E rf0 sub st of
                     None \<Rightarrow> None
                   | Some (False, st1) \<Rightarrow> Some ((False, x), st1)
                   | Some (True, st1) \<Rightarrow>
                       (case limit_flow E f rf0 of
                          None \<Rightarrow> Some ((False, x), st1)
                        | Some rf1 \<Rightarrow>
                            if aggregate then
                              let r1 = tally_flow (fi_id f) (flow_buffer E f) (flow_requests f) r in
                              Some ((True, r1\<lparr>rl_flows := put (fi_id f) rf1 (rl_flows r1)\<rparr>, conns), st1)
                            else
                              (case connect_flow E r (flow_buffer E f) (flow_requests f) (rf1, conns) of
                                 (False, _, conns') \<Rightarrow> Some ((False, r, conns'), st1)
                               | (True, rf2, conns') \<Rightarrow>
                                   Some ((True, r\<lparr>rl_flows := put (fi_id f) rf2 (rl_flows r)\<rparr>, conns'), st1)))))))"

text \<open>The body of the loop, with its two local tokens.\<close>

definition create_flow ::
  "('id, 'pm, 'v, 'q, 'e, 'w, 'h) relay_env \<Rightarrow> ('q, 'e) builder \<Rightarrow> ('q, 'e) builder \<Rightarrow> node_ident \<Rightarrow> bool \<Rightarrow> 'id \<Rightarrow> 'id \<Rightarrow>
   flow_info \<Rightarrow> ('id, 'h, 'p) relay_conns \<Rightarrow> ('id, 'w) bstate \<Rightarrow>
   ((bool \<times> ('id, 'h, 'p) relay_conns) \<times> ('id, 'w) bstate) option" where
  "create_flow E cb lb ident aggregate default_enabled default_alt f x st =
     (case note_flow E f (fst x) of
        (False, r) \<Rightarrow> Some ((False, r, snd x), st)
      | (True, r) \<Rightarrow>
          with_local (re_ids E) (re_ctx E)
            (\<lambda>t st. case bind_gate E cb f default_enabled t st of
                None \<Rightarrow> None
              | Some (False, t', st') \<Rightarrow> Some ((False, r, snd x), t', st')
              | Some (True, t', st') \<Rightarrow>
                  map_option (\<lambda>(y, st''). (y, t', st''))
                    (with_local (re_ids E) (re_ctx E)
                       (\<lambda>u st. case bind_switch E cb f default_alt u st of
                           None \<Rightarrow> None
                         | Some (False, u', st') \<Rightarrow> Some ((False, r, snd x), u', st')
                         | Some (True, u', st') \<Rightarrow>
                             map_option (\<lambda>(y, st''). (y, u', st''))
                               (finish_flow E lb ident aggregate f t' u' (r, snd x) st')) st')) st)"

fun create_each ::
  "('id, 'pm, 'v, 'q, 'e, 'w, 'h) relay_env \<Rightarrow> ('q, 'e) builder \<Rightarrow> ('q, 'e) builder \<Rightarrow> node_ident \<Rightarrow> bool \<Rightarrow> 'id \<Rightarrow> 'id \<Rightarrow>
   flow_info list \<Rightarrow> ('id, 'h, 'p) relay_conns \<Rightarrow> ('id, 'w) bstate \<Rightarrow>
   ((bool \<times> ('id, 'h, 'p) relay_conns) \<times> ('id, 'w) bstate) option" where
  "create_each E cb lb ident aggregate de da [] x st = Some ((True, x), st)"
| "create_each E cb lb ident aggregate de da (f # fs) x st =
     (case create_flow E cb lb ident aggregate de da f x st of
        None \<Rightarrow> None
      | Some ((False, x'), st') \<Rightarrow> Some ((False, x'), st')
      | Some ((True, x'), st') \<Rightarrow> create_each E cb lb ident aggregate de da fs x' st')"

section \<open>One connection for each destination\<close>

definition wanting :: "('id, 'h, 'p) relay \<Rightarrow> string \<Rightarrow> (int \<times> nat option) list" where
  "wanting r host =
     map (\<lambda>(i, alt). (i, Some alt)) (sorted_list_of_set (rl_wanted r host)) @
     map (\<lambda>i. (i, None)) (sorted_list_of_set (rl_wanted_disabled r host))"

fun hand_out ::
  "('id, 'pm, 'v, 'q, 'e, 'w, 'h) relay_env \<Rightarrow> 'h bwp_writer \<Rightarrow> (int \<times> nat option) list \<Rightarrow>
   (int \<times> ('id, 'h) relay_flow) list \<Rightarrow> (bool \<times> (int \<times> ('id, 'h) relay_flow) list) option" where
  "hand_out E w [] flows = Some (True, flows)"
| "hand_out E w ((i, target) # ts) flows =
     (case map_of flows i of
        None \<Rightarrow> None
      | Some rf \<Rightarrow>
          (case call_flow E (connect_call target w) rf of
             None \<Rightarrow> Some (False, flows)
           | Some rf' \<Rightarrow> hand_out E w ts (put i rf' flows)))"

fun aggregate_each ::
  "('id, 'pm, 'v, 'q, 'e, 'w, 'h) relay_env \<Rightarrow> (string \<times> 64 word) list \<Rightarrow> ('id, 'h, 'p) relay_conns \<Rightarrow>
   (bool \<times> ('id, 'h, 'p) relay_conns) option" where
  "aggregate_each E [] x = Some (True, x)"
| "aggregate_each E ((host, buffer_size) # ds) (r, conns) =
     (case relay_get_connection E r host buffer_size conns of
        None \<Rightarrow> Some (False, r, conns)
      | Some (w, conns') \<Rightarrow>
          (case hand_out E w (wanting r host) (rl_flows r) of
             None \<Rightarrow> None
           | Some (False, flows) \<Rightarrow> Some (False, r\<lparr>rl_flows := flows\<rparr>, conns')
           | Some (True, flows) \<Rightarrow> aggregate_each E ds (r\<lparr>rl_flows := flows\<rparr>, conns')))"

definition create_flows ::
  "('id, 'pm, 'v, 'q, 'e, 'w, 'h) relay_env \<Rightarrow> ('q, 'e) builder \<Rightarrow> ('q, 'e) builder \<Rightarrow> node_ident \<Rightarrow> flow_info list \<Rightarrow> bool \<Rightarrow>
   ('id, 'h, 'p) relay_conns \<Rightarrow> ('id, 'w) bstate \<Rightarrow> ((bool \<times> ('id, 'h, 'p) relay_conns) \<times> ('id, 'w) bstate) option" where
  "create_flows E cb lb ident flows aggregate x st =
     with_local (re_ids E) (re_ctx E)
       (\<lambda>t st. case bind (re_builder E) cb read_kind (su_types (re_setup E) T_bool) ''always_enabled'' t st of
           None \<Rightarrow> None
         | Some (False, t', st') \<Rightarrow> Some ((False, x), t', st')
         | Some (True, t', st') \<Rightarrow>
             map_option (\<lambda>(y, st''). (y, t', st''))
               (with_local (re_ids E) (re_ctx E)
                  (\<lambda>u st. case bind (re_builder E) cb read_kind (su_types (re_setup E) T_uint8) ''default_destination'' u st of
                      None \<Rightarrow> None
                    | Some (False, u', st') \<Rightarrow> Some ((False, x), u', st')
                    | Some (True, u', st') \<Rightarrow>
                        (case create_each E cb lb ident aggregate t' u' flows x st' of
                           None \<Rightarrow> None
                         | Some ((False, x'), st'') \<Rightarrow> Some ((False, x'), u', st'')
                         | Some ((True, x'), st'') \<Rightarrow>
                             if aggregate
                             then map_option (\<lambda>y. (y, u', st'')) (aggregate_each E (rl_buffers (fst x')) x')
                             else Some ((True, x'), u', st''))) st')) st"

section \<open>The control part: names and switches\<close>

lemma control_flows_names:
  "control_flows E b shard names fs s = Some (True, s') \<Longrightarrow>
   distinct (filter (\<lambda>n. n \<noteq> []) (map fi_name fs)) \<and> (\<forall>f\<in>set fs. fi_name f \<noteq> [] \<longrightarrow> names (fi_name f) = None)"
proof (induction fs arbitrary: names s)
  case Nil
  then show ?case by simp
next
  case (Cons f fs)
  have free: "\<not> (fi_name f \<noteq> [] \<and> names (fi_name f) \<noteq> None)" using Cons.prems by (auto split: if_split_asm)
  obtain st where g: "create_gate E b shard f (snd s) = Some (True, st)"
    using Cons.prems free
    by (cases "create_gate E b shard f (snd s)") (auto simp: Let_def split: bool.splits)
  obtain s1 where "create_switch E b shard f (fst s, st) = Some (True, s1)"
    and rest: "control_flows E b shard (names(fi_name f \<mapsto> fi_id f)) fs s1 = Some (True, s')"
    using Cons.prems free g
    by (cases "create_switch E b shard f (fst s, st)") (auto simp: Let_def split: bool.splits)
  have IH: "distinct (filter (\<lambda>n. n \<noteq> []) (map fi_name fs))" using Cons.IH [OF rest] by (rule conjunct1)
  have other: "fi_name g \<noteq> fi_name f \<and> names (fi_name g) = None" if "g \<in> set fs" and "fi_name g \<noteq> []" for g
  proof -
    have "(names(fi_name f \<mapsto> fi_id f)) (fi_name g) = None" using Cons.IH [OF rest] that by blast
    then show ?thesis by (cases "fi_name g = fi_name f") simp_all
  qed
  have "fi_name f \<notin> set (filter (\<lambda>n. n \<noteq> []) (map fi_name fs))" if "fi_name f \<noteq> []"
    using other by fastforce
  then have "distinct (filter (\<lambda>n. n \<noteq> []) (map fi_name (f # fs)))" using IH by simp
  moreover have "\<forall>g\<in>set (f # fs). fi_name g \<noteq> [] \<longrightarrow> names (fi_name g) = None"
    using free other by auto
  ultimately show ?case by blast
qed

lemma validate_destination_exact:
  "validate_destination (alt_validity T f) n v =
     (if unat n = 0 \<or> (unat n \<le> te_num_alt T \<and> fi_hosts f ! unat n \<noteq> []) then (True, n) else (False, v))"
  by (auto simp: validate_destination_def alt_validity_def alt_dests_def simp del: upt_Suc)

section \<open>What creating the flows does\<close>

lemma note_flow_True:
  assumes "note_flow E f r = (True, r1)"
  shows "rl_infos r (fi_id f) = None" and "rl_infos r1 = (rl_infos r)(fi_id f \<mapsto> f)"
    and "map_of (rl_ids r1) = (map_of (rl_ids r))
      (fi_group f \<mapsto> (case map_of (rl_ids r) (fi_group f) of None \<Rightarrow> [] | Some is \<Rightarrow> is) @ [fi_id f])"
    and "rl_indices r1 = (if fi_group f = re_slate_group E then (rl_indices r)
      (fi_id f \<mapsto> (case map_of (rl_ids r) (fi_group f) of None \<Rightarrow> 0 | Some is \<Rightarrow> length is)) else rl_indices r)"
    and "rl_flows r1 = rl_flows r" and "rl_override r1 = rl_override r" and "rl_redirects r1 = rl_redirects r"
    and "rl_buffers r1 = rl_buffers r" and "rl_wanted r1 = rl_wanted r" and "rl_wanted_disabled r1 = rl_wanted_disabled r"
proof -
  define members where "members = (case map_of (rl_ids r) (fi_group f) of None \<Rightarrow> [] | Some is \<Rightarrow> is) @ [fi_id f]"
  define idx where "idx = (if fi_group f = re_slate_group E
    then (rl_indices r)(fi_id f \<mapsto> length members - 1) else rl_indices r)"
  have split: "rl_infos r (fi_id f) = None \<and> r1 = r\<lparr>rl_ids := put (fi_group f) members (rl_ids r),
      rl_indices := idx, rl_infos := (rl_infos r)(fi_id f \<mapsto> f)\<rparr>"
    using assms unfolding note_flow_def members_def [symmetric] idx_def Let_def
    by (cases "fi_group f = re_slate_group E"; cases "rl_infos r (fi_id f)") auto
  have len: "length members - 1 = (case map_of (rl_ids r) (fi_group f) of None \<Rightarrow> 0 | Some is \<Rightarrow> length is)"
    by (simp add: members_def split: option.split)
  note r1 = split [THEN conjunct2]
  show "rl_infos r (fi_id f) = None" using split by blast
  show "rl_infos r1 = (rl_infos r)(fi_id f \<mapsto> f)" "rl_flows r1 = rl_flows r" "rl_override r1 = rl_override r"
    "rl_redirects r1 = rl_redirects r" "rl_buffers r1 = rl_buffers r" "rl_wanted r1 = rl_wanted r"
    "rl_wanted_disabled r1 = rl_wanted_disabled r"
    by (simp_all add: r1)
  show "map_of (rl_ids r1) = (map_of (rl_ids r))
      (fi_group f \<mapsto> (case map_of (rl_ids r) (fi_group f) of None \<Rightarrow> [] | Some is \<Rightarrow> is) @ [fi_id f])"
    by (simp add: r1 members_def)
  show "rl_indices r1 = (if fi_group f = re_slate_group E then (rl_indices r)
      (fi_id f \<mapsto> (case map_of (rl_ids r) (fi_group f) of None \<Rightarrow> 0 | Some is \<Rightarrow> length is)) else rl_indices r)"
    by (simp add: r1 idx_def len [unfolded One_nat_def])
qed

text \<open>A flow that was created, up to its connections.\<close>

definition flow_checked :: "telem_env \<Rightarrow> flow_info \<Rightarrow> bool" where
  "flow_checked T f \<longleftrightarrow>
     (fi_disabled_hosts f \<noteq> [] \<longrightarrow> length (fi_disabled_hosts f) = length (fi_hosts f ! 0) \<and> fi_name f \<noteq> []) \<and>
     (\<forall>alt\<in>set (alt_dests T f). length (fi_hosts f ! alt) = length (fi_hosts f ! 0) \<and> fi_name f \<noteq> [])"

lemma bind_gate_True:
  "bind_gate E b f dflt tok st = Some (True, tok', st') \<Longrightarrow>
   fi_disabled_hosts f \<noteq> [] \<longrightarrow> length (fi_disabled_hosts f) = length (fi_hosts f ! 0) \<and> fi_name f \<noteq> []"
  by (auto simp: bind_gate_def split: if_splits)

lemma bind_switch_True:
  "bind_switch E b f dflt tok st = Some (True, tok', st') \<Longrightarrow>
   \<forall>alt\<in>set (alt_dests (re_telem E) f). length (fi_hosts f ! alt) = length (fi_hosts f ! 0) \<and> fi_name f \<noteq> []"
  by (auto simp: bind_switch_def Let_def list_all_iff split: if_splits)

lemma create_flow_finish:
  assumes "create_flow E cb lb ident aggregate de da f x st = Some ((True, y), st')"
  obtains r t u st1 st2 where "note_flow E f (fst x) = (True, r)" and "flow_checked (re_telem E) f"
    and "finish_flow E lb ident aggregate f t u (r, snd x) st1 = Some ((True, y), st2)"
proof -
  obtain r where n: "note_flow E f (fst x) = (True, r)"
    using assms by (auto simp: create_flow_def split: prod.splits bool.splits)
  obtain t s1 t1 s2 where outer: "(case bind_gate E cb f de t s1 of
                None \<Rightarrow> None
              | Some (False, t', st') \<Rightarrow> Some ((False, r, snd x), t', st')
              | Some (True, t', st') \<Rightarrow>
                  map_option (\<lambda>(y, st''). (y, t', st''))
                    (with_local (re_ids E) (re_ctx E)
                       (\<lambda>u st. case bind_switch E cb f da u st of
                           None \<Rightarrow> None
                         | Some (False, u', st') \<Rightarrow> Some ((False, r, snd x), u', st')
                         | Some (True, u', st') \<Rightarrow>
                             map_option (\<lambda>(y, st''). (y, u', st''))
                               (finish_flow E lb ident aggregate f t' u' (r, snd x) st')) st')) = Some ((True, y), t1, s2)"
    using assms unfolding create_flow_def n prod.case bool.case by (rule with_local_elim)
  then obtain t' s1' where g: "bind_gate E cb f de t s1 = Some (True, t', s1')"
    by (cases "bind_gate E cb f de t s1") (auto split: bool.splits)
  obtain s3 where inner: "with_local (re_ids E) (re_ctx E)
         (\<lambda>u st. case bind_switch E cb f da u st of
             None \<Rightarrow> None
           | Some (False, u', st') \<Rightarrow> Some ((False, r, snd x), u', st')
           | Some (True, u', st') \<Rightarrow>
               map_option (\<lambda>(y, st''). (y, u', st''))
                 (finish_flow E lb ident aggregate f t' u' (r, snd x) st')) s1' = Some ((True, y), s3)"
    using outer by (auto simp: g)
  from inner obtain u s4 u1 s5 where body: "(case bind_switch E cb f da u s4 of
             None \<Rightarrow> None
           | Some (False, u', st') \<Rightarrow> Some ((False, r, snd x), u', st')
           | Some (True, u', st') \<Rightarrow>
               map_option (\<lambda>(y, st''). (y, u', st''))
                 (finish_flow E lb ident aggregate f t' u' (r, snd x) st')) = Some ((True, y), u1, s5)"
    by (rule with_local_elim)
  then obtain u' s4' where b: "bind_switch E cb f da u s4 = Some (True, u', s4')"
    by (cases "bind_switch E cb f da u s4") (auto split: bool.splits)
  obtain s6 where f: "finish_flow E lb ident aggregate f t' u' (r, snd x) s4' = Some ((True, y), s6)"
    using body by (auto simp: b)
  have "flow_checked (re_telem E) f"
    using bind_gate_True [OF g] bind_switch_True [OF b] by (simp add: flow_checked_def)
  then show ?thesis using that n f by blast
qed

lemma finish_flow_direct:
  assumes "finish_flow E lb ident False f t u (r, conns) st = Some ((True, r', conns'), st')"
  obtains source rf1 rf2 where "limit_flow E f (new_flow f t u source) = Some rf1"
    and "connect_flow E r (flow_buffer E f) (flow_requests f) (rf1, conns) = (True, rf2, conns')"
    and "r' = r\<lparr>rl_flows := put (fi_id f) rf2 (rl_flows r)\<rparr>"
  using assms by (auto simp: finish_flow_def Let_def split: option.splits prod.splits bool.splits)

lemma finish_flow_aggregate:
  assumes "finish_flow E lb ident True f t u (r, conns) st = Some ((True, r', conns'), st')"
  obtains source rf1 r1 where "limit_flow E f (new_flow f t u source) = Some rf1"
    and "r1 = tally_flow (fi_id f) (flow_buffer E f) (flow_requests f) r"
    and "r' = r1\<lparr>rl_flows := put (fi_id f) rf1 (rl_flows r1)\<rparr>" and "conns' = conns"
  using assms by (auto simp: finish_flow_def Let_def split: option.splits prod.splits bool.splits)

section \<open>Wires\<close>

fun call_wire :: "'h flow_call \<Rightarrow> ('h bwp_writer \<times> nat option) option" where
  "call_wire (Add_connection w alt) = Some (w, Some alt)"
| "call_wire (Add_disabled_connection w) = Some (w, None)"
| "call_wire _ = None"

definition wire_calls :: "('id, 'h) relay_flow \<Rightarrow> ('h bwp_writer \<times> nat option) list" where
  "wire_calls rf = List.map_filter call_wire (rf_calls rf)"

text \<open>Where a writer leads: to the handle it was redirected to, or to a service.\<close>

fun endpoint :: "connection list \<Rightarrow> 'h bwp_writer \<Rightarrow> 'h + service" where
  "endpoint conns (Redirected h) = Inl h"
| "endpoint conns (Opened i) = Inr (fst (conns ! i))"

fun writer_ok :: "connection list \<Rightarrow> 'h bwp_writer \<Rightarrow> bool" where
  "writer_ok conns (Redirected h) = True"
| "writer_ok conns (Opened i) = (i < length conns)"

definition wires :: "connection list \<Rightarrow> ('id, 'h) relay_flow \<Rightarrow> (('h + service) \<times> nat option) set" where
  "wires conns rf = (\<lambda>(w, target). (endpoint conns w, target)) ` set (wire_calls rf)"

definition wires_ok :: "connection list \<Rightarrow> ('id, 'h) relay_flow \<Rightarrow> bool" where
  "wires_ok conns rf \<longleftrightarrow> list_all (\<lambda>(w, target). writer_ok conns w) (wire_calls rf)"

definition destination ::
  "('id, 'pm, 'v, 'q, 'e, 'w, 'h) relay_env \<Rightarrow> ('id, 'h, 'p) relay \<Rightarrow> string \<Rightarrow> 'h + service" where
  "destination E r host = (case rl_redirects r host of Some h \<Rightarrow> Inl h | None \<Rightarrow> Inr (the (resolve E r host)))"

definition same_routes :: "('id, 'h, 'p) relay \<Rightarrow> ('id, 'h, 'p) relay \<Rightarrow> bool" where
  "same_routes r r' \<longleftrightarrow> rl_override r' = rl_override r \<and> rl_redirects r' = rl_redirects r"

lemma same_routes_destination: "same_routes r r' \<Longrightarrow> destination E r' = destination E r"
  by (rule ext) (simp add: same_routes_def destination_def resolve_def split: option.split)

lemma same_routes_trans: "same_routes r r' \<Longrightarrow> same_routes r' r'' \<Longrightarrow> same_routes r r''"
  by (simp add: same_routes_def)

lemma connect_call_wire [simp]: "call_wire (connect_call target w) = Some (w, target)"
  by (simp add: connect_call_def split: option.splits)

lemma call_flow_Some: "call_flow E c rf = Some rf' \<Longrightarrow> rf' = rf\<lparr>rf_calls := rf_calls rf @ [c]\<rparr>"
  by (simp add: call_flow_def split: if_splits)

lemma endpoint_append [simp]: "writer_ok conns w \<Longrightarrow> endpoint (conns @ ds) w = endpoint conns w"
  by (cases w) (simp_all add: nth_append)

lemma writer_ok_append [simp]: "writer_ok conns w \<Longrightarrow> writer_ok (conns @ ds) w"
  by (cases w) simp_all

lemma wires_append: "wires_ok conns rf \<Longrightarrow> wires (conns @ ds) rf = wires conns rf \<and> wires_ok (conns @ ds) rf"
  by (force simp: wires_ok_def wires_def list_all_iff)

lemma get_connection_Some:
  assumes "relay_get_connection E r host n conns = Some (w, conns')"
  obtains ds where "conns' = conns @ ds" and "endpoint conns' w = destination E r host" and "writer_ok conns' w"
    and "rl_redirects r host = None \<longrightarrow>
      ds = [(the (resolve E r host), (n + re_packet_len E - 1) div re_packet_len E)]"
  using assms
  by (auto simp: relay_get_connection_def create_connection_def destination_def Let_def
      split: option.splits if_splits)

lemma connect_flow_wires:
  "connect_flow E r n qs (rf, conns) = (True, rf', conns') \<Longrightarrow> wires_ok conns rf \<Longrightarrow>
   (\<exists>ds. conns' = conns @ ds) \<and> wires_ok conns' rf' \<and>
   wires conns' rf' = wires conns rf \<union> (\<lambda>(host, target). (destination E r host, target)) ` set qs"
proof (induction qs arbitrary: rf conns)
  case Nil
  then show ?case by simp
next
  case (Cons q qs)
  obtain host target where q: "q = (host, target)" by (cases q)
  obtain w conns1 rf1 where g: "relay_get_connection E r host n conns = Some (w, conns1)"
    and c: "call_flow E (connect_call target w) rf = Some rf1"
    and rest: "connect_flow E r n qs (rf1, conns1) = (True, rf', conns')"
    using Cons.prems(1) by (auto simp: q split: option.splits prod.splits)
  obtain ds where ds: "conns1 = conns @ ds" and e: "endpoint conns1 w = destination E r host" and ok: "writer_ok conns1 w"
    using get_connection_Some [OF g] by blast
  have wc: "wire_calls rf1 = wire_calls rf @ [(w, target)]"
    by (simp add: call_flow_Some [OF c] wire_calls_def List.map_filter_def)
  have ok1: "wires_ok conns1 rf1" and w1: "wires conns1 rf1 = insert (destination E r host, target) (wires conns rf)"
    using wires_append [OF Cons.prems(2), of ds] ok e
    by (simp_all add: ds wires_ok_def wires_def wc)
  note IH = Cons.IH [OF rest ok1]
  have "\<exists>ds. conns' = conns @ ds" using IH by (auto simp: ds)
  then show ?case using IH unfolding w1 by (simp add: q)
qed

section \<open>Separate connections\<close>

lemma limit_flow_wires: "limit_flow E f rf = Some rf' \<Longrightarrow> wire_calls rf' = wire_calls rf"
  by (auto simp: limit_flow_def wire_calls_def List.map_filter_def dest!: call_flow_Some split: if_splits option.splits)

lemma new_flow_wires [simp]: "wire_calls (new_flow f en alt src) = []"
  by (simp add: wire_calls_def new_flow_def List.map_filter_def)

text \<open>A flow has the wires its description asks for.\<close>

definition wired ::
  "('id, 'pm, 'v, 'q, 'e, 'w, 'h) relay_env \<Rightarrow> ('id, 'h, 'p) relay \<Rightarrow> connection list \<Rightarrow> flow_info \<Rightarrow> bool" where
  "wired E r conns f \<longleftrightarrow>
     (\<exists>rf. map_of (rl_flows r) (fi_id f) = Some rf \<and> wires_ok conns rf \<and>
        wires conns rf = (\<lambda>(host, target). (destination E r host, target)) ` set (flow_requests f))"

lemma create_flow_direct:
  assumes "create_flow E cb lb ident False de da f (r, conns) st = Some ((True, r', conns'), st')"
  shows "rl_infos r (fi_id f) = None" and "same_routes r r'" and "rl_infos r' = (rl_infos r)(fi_id f \<mapsto> f)"
    and "\<forall>i. i \<noteq> fi_id f \<longrightarrow> map_of (rl_flows r') i = map_of (rl_flows r) i"
    and "\<exists>ds. conns' = conns @ ds" and "wired E r' conns' f"
proof -
  obtain r1 t u st1 st2 where n: "note_flow E f r = (True, r1)"
    and fin: "finish_flow E lb ident False f t u (r1, conns) st1 = Some ((True, r', conns'), st2)"
    using create_flow_finish [OF assms] by (metis fst_conv snd_conv)
  obtain src rf1 rf2 where l: "limit_flow E f (new_flow f t u src) = Some rf1"
    and c: "connect_flow E r1 (flow_buffer E f) (flow_requests f) (rf1, conns) = (True, rf2, conns')"
    and r': "r' = r1\<lparr>rl_flows := put (fi_id f) rf2 (rl_flows r1)\<rparr>"
    by (rule finish_flow_direct [OF fin])
  note n' = note_flow_True [OF n]
  have routes: "same_routes r1 r'" by (simp add: r' same_routes_def)
  have none: "wire_calls rf1 = []" using limit_flow_wires [OF l] by simp
  then have ok: "wires_ok conns rf1" by (simp add: wires_ok_def)
  have w: "(\<exists>ds. conns' = conns @ ds)" "wires_ok conns' rf2"
    "wires conns' rf2 = (\<lambda>(host, target). (destination E r1 host, target)) ` set (flow_requests f)"
    using connect_flow_wires [OF c ok] by (simp_all add: wires_def none)
  show "rl_infos r (fi_id f) = None" "same_routes r r'" "rl_infos r' = (rl_infos r)(fi_id f \<mapsto> f)"
    "\<forall>i. i \<noteq> fi_id f \<longrightarrow> map_of (rl_flows r') i = map_of (rl_flows r) i"
    using n' by (simp_all add: r' same_routes_def)
  show "\<exists>ds. conns' = conns @ ds" by (rule w(1))
  show "wired E r' conns' f"
    using w by (simp add: wired_def r' same_routes_destination [OF routes, unfolded r'])
qed

lemma wired_later:
  assumes "wired E r conns f" and "same_routes r r'" and "map_of (rl_flows r') (fi_id f) = map_of (rl_flows r) (fi_id f)"
  shows "wired E r' (conns @ ds) f"
  using assms wires_append by (fastforce simp: wired_def same_routes_destination)

lemma create_each_Cons_True:
  assumes "create_each E cb lb ident aggregate de da (f # fs) x st = Some ((True, y), st')"
  obtains x1 st1 where "create_flow E cb lb ident aggregate de da f x st = Some ((True, x1), st1)"
    and "create_each E cb lb ident aggregate de da fs x1 st1 = Some ((True, y), st')"
  using assms
  by (cases "create_flow E cb lb ident aggregate de da f x st") (auto split: bool.splits prod.splits)

lemma create_each_direct:
  "create_each E cb lb ident False de da fs (r, conns) st = Some ((True, r', conns'), st') \<Longrightarrow>
   same_routes r r' \<and> (\<exists>ds. conns' = conns @ ds) \<and> (\<forall>f\<in>set fs. rl_infos r (fi_id f) = None \<and> wired E r' conns' f) \<and>
   (\<forall>i. i \<notin> fi_id ` set fs \<longrightarrow> map_of (rl_flows r') i = map_of (rl_flows r) i)"
proof (induction fs arbitrary: r conns st)
  case Nil
  then show ?case by (simp add: same_routes_def)
next
  case (Cons f fs)
  obtain r1 conns1 st1 where one: "create_flow E cb lb ident False de da f (r, conns) st = Some ((True, r1, conns1), st1)"
    and rest: "create_each E cb lb ident False de da fs (r1, conns1) st1 = Some ((True, r', conns'), st')"
    using create_each_Cons_True [OF Cons.prems] by (metis surj_pair)
  note f = create_flow_direct [OF one]
  note IH = Cons.IH [OF rest]
  obtain ds where ds: "conns' = conns1 @ ds" using IH by blast
  have new: "fi_id f \<notin> fi_id ` set fs" using IH f(3) by force
  have "wired E r' conns' f"
    unfolding ds using wired_later [OF f(6)] IH new by blast
  moreover have "rl_infos r (fi_id g) = None" if "g \<in> set fs" for g
    using IH f(3) that by (metis fun_upd_apply option.distinct(1))
  moreover have "map_of (rl_flows r') i = map_of (rl_flows r) i" if "i \<notin> fi_id ` set (f # fs)" for i
    using IH f(4) that by simp
  moreover have "same_routes r r'" using IH f(2) same_routes_trans by blast
  moreover have "\<exists>ds. conns' = conns @ ds" using f(5) by (auto simp: ds)
  ultimately show ?case using IH f(1) by auto
qed

section \<open>Aggregated connections\<close>

text \<open>The flows and targets that asked for a host.\<close>

definition asked :: "('id, 'h, 'p) relay \<Rightarrow> string \<Rightarrow> (int \<times> nat option) set" where
  "asked r host = (\<lambda>(i, alt). (i, Some alt)) ` rl_wanted r host \<union> (\<lambda>i. (i, None)) ` rl_wanted_disabled r host"

definition asked_finite :: "('id, 'h, 'p) relay \<Rightarrow> bool" where
  "asked_finite r \<longleftrightarrow> (\<forall>host. finite (rl_wanted r host) \<and> finite (rl_wanted_disabled r host))"

lemma set_wanting: "asked_finite r \<Longrightarrow> set (wanting r host) = asked r host"
  by (simp add: asked_finite_def wanting_def asked_def)

definition asks :: "flow_info list \<Rightarrow> string \<Rightarrow> (int \<times> nat option) set" where
  "asks fs host = (\<Union>f\<in>set fs. {(fi_id f, target) | target. (host, target) \<in> set (flow_requests f)})"

lemma tally_flow_fields:
  "rl_flows (tally_flow i n qs r) = rl_flows r" "rl_infos (tally_flow i n qs r) = rl_infos r"
  "rl_ids (tally_flow i n qs r) = rl_ids r" "rl_indices (tally_flow i n qs r) = rl_indices r"
  "rl_override (tally_flow i n qs r) = rl_override r" "rl_redirects (tally_flow i n qs r) = rl_redirects r"
  "rl_initialized (tally_flow i n qs r) = rl_initialized r" "rl_finalized (tally_flow i n qs r) = rl_finalized r"
  "rl_claimed (tally_flow i n qs r) = rl_claimed r"
  by (induction i n qs r rule: tally_flow.induct; simp add: Let_def split: option.splits)+

lemma asked_insert:
  "asked (r\<lparr>rl_buffers := bs, rl_wanted := (rl_wanted r)(host := insert (i, alt) (rl_wanted r host))\<rparr>) h =
    asked r h \<union> (if h = host then {(i, Some alt)} else {})"
  "asked (r\<lparr>rl_buffers := bs, rl_wanted_disabled := (rl_wanted_disabled r)(host := insert i (rl_wanted_disabled r host))\<rparr>) h =
    asked r h \<union> (if h = host then {(i, None)} else {})"
  by (auto simp: asked_def)

lemma tally_flow_asked:
  "asked (tally_flow i n qs r) h = asked r h \<union> {(i, target) | target. (h, target) \<in> set qs}"
proof (induction i n qs r rule: tally_flow.induct)
  case (1 i n r)
  then show ?case by simp
next
  case (2 i n host target qs r)
  show ?case
  proof (cases target)
    case None
    then show ?thesis using 2 by (auto simp: Let_def asked_insert)
  next
    case (Some alt)
    then show ?thesis using 2 by (auto simp: Let_def asked_insert)
  qed
qed

lemma tally_flow_finite: "asked_finite r \<Longrightarrow> asked_finite (tally_flow i n qs r)"
  by (induction i n qs r rule: tally_flow.induct) (auto simp: Let_def asked_finite_def split: option.splits)

fun tally_buffers :: "64 word \<Rightarrow> string list \<Rightarrow> (string \<times> 64 word) list \<Rightarrow> (string \<times> 64 word) list" where
  "tally_buffers n [] bs = bs"
| "tally_buffers n (host # hosts) bs =
     tally_buffers n hosts (put host ((case map_of bs host of None \<Rightarrow> 0 | Some m \<Rightarrow> m) + n) bs)"

lemma tally_flow_buffers: "rl_buffers (tally_flow i n qs r) = tally_buffers n (map fst qs) (rl_buffers r)"
proof (induction i n qs r rule: tally_flow.induct)
  case (2 i n host target qs r)
  then show ?case by (cases target) (simp_all add: Let_def)
qed simp

lemma tally_flow_hosts: "fst ` set (rl_buffers (tally_flow i n qs r)) = fst ` set (rl_buffers r) \<union> fst ` set qs"
  by (induction i n qs r rule: tally_flow.induct) (auto simp: Let_def set_put split: option.splits)

lemma create_flow_aggregate:
  assumes "create_flow E cb lb ident True de da f (r, conns) st = Some ((True, r', conns'), st')"
  shows "rl_infos r (fi_id f) = None" and "same_routes r r'" and "rl_infos r' = (rl_infos r)(fi_id f \<mapsto> f)"
    and "\<forall>i. i \<noteq> fi_id f \<longrightarrow> map_of (rl_flows r') i = map_of (rl_flows r) i" and "conns' = conns"
    and "\<exists>rf. map_of (rl_flows r') (fi_id f) = Some rf \<and> wire_calls rf = []"
    and "asked r' host = asked r host \<union> {(fi_id f, target) | target. (host, target) \<in> set (flow_requests f)}"
    and "asked_finite r \<Longrightarrow> asked_finite r'"
    and "fst ` set (rl_buffers r') = fst ` set (rl_buffers r) \<union> fst ` set (flow_requests f)"
    and "rl_buffers r' = rl_buffers (tally_flow (fi_id f) (flow_buffer E f) (flow_requests f) r)"
proof -
  obtain r1 t u st1 st2 where n: "note_flow E f r = (True, r1)"
    and fin: "finish_flow E lb ident True f t u (r1, conns) st1 = Some ((True, r', conns'), st2)"
    using create_flow_finish [OF assms] by (metis fst_conv snd_conv)
  obtain src rf1 r2 where l: "limit_flow E f (new_flow f t u src) = Some rf1"
    and r2: "r2 = tally_flow (fi_id f) (flow_buffer E f) (flow_requests f) r1"
    and r': "r' = r2\<lparr>rl_flows := put (fi_id f) rf1 (rl_flows r2)\<rparr>" and c: "conns' = conns"
    by (rule finish_flow_aggregate [OF fin])
  note n' = note_flow_True [OF n]
  have asked1: "asked r1 host = asked r host" "asked_finite r1 = asked_finite r"
    using n' by (simp_all add: asked_def asked_finite_def)
  have asked': "asked r' host = asked r2 host" "asked_finite r' = asked_finite r2"
    by (simp_all add: r' asked_def asked_finite_def)
  show "rl_infos r (fi_id f) = None" "same_routes r r'" "rl_infos r' = (rl_infos r)(fi_id f \<mapsto> f)"
    "\<forall>i. i \<noteq> fi_id f \<longrightarrow> map_of (rl_flows r') i = map_of (rl_flows r) i"
    using n' by (simp_all add: r' r2 same_routes_def tally_flow_fields)
  show "conns' = conns" by (rule c)
  show "\<exists>rf. map_of (rl_flows r') (fi_id f) = Some rf \<and> wire_calls rf = []"
    using limit_flow_wires [OF l] by (simp add: r')
  show "asked r' host = asked r host \<union> {(fi_id f, target) | target. (host, target) \<in> set (flow_requests f)}"
    by (simp add: asked' r2 tally_flow_asked asked1)
  show "asked_finite r \<Longrightarrow> asked_finite r'"
    using tally_flow_finite [of r1] by (simp add: asked' r2 asked1)
  show "fst ` set (rl_buffers r') = fst ` set (rl_buffers r) \<union> fst ` set (flow_requests f)"
    using n' by (simp add: r' r2 tally_flow_hosts)
  have "rl_buffers r1 = rl_buffers r" by (rule n')
  then show "rl_buffers r' = rl_buffers (tally_flow (fi_id f) (flow_buffer E f) (flow_requests f) r)"
    by (simp add: r' r2 tally_flow_buffers)
qed

lemma create_each_aggregate:
  "create_each E cb lb ident True de da fs (r, conns) st = Some ((True, r', conns'), st') \<Longrightarrow> asked_finite r \<Longrightarrow>
   same_routes r r' \<and> conns' = conns \<and> asked_finite r' \<and>
   (\<forall>f\<in>set fs. rl_infos r (fi_id f) = None \<and> (\<exists>rf. map_of (rl_flows r') (fi_id f) = Some rf \<and> wire_calls rf = [])) \<and>
   (\<forall>i. i \<notin> fi_id ` set fs \<longrightarrow> map_of (rl_flows r') i = map_of (rl_flows r) i) \<and>
   (\<forall>host. asked r' host = asked r host \<union> asks fs host) \<and>
   fst ` set (rl_buffers r') = fst ` set (rl_buffers r) \<union> (\<Union>f\<in>set fs. fst ` set (flow_requests f))"
proof (induction fs arbitrary: r conns st)
  case Nil
  then show ?case by (simp add: same_routes_def asks_def)
next
  case (Cons f fs)
  obtain r1 conns1 st1 where one: "create_flow E cb lb ident True de da f (r, conns) st = Some ((True, r1, conns1), st1)"
    and rest: "create_each E cb lb ident True de da fs (r1, conns1) st1 = Some ((True, r', conns'), st')"
    using create_each_Cons_True [OF Cons.prems(1)] by (metis surj_pair)
  note f = create_flow_aggregate [OF one]
  have IH: "same_routes r1 r'" "conns' = conns1" "asked_finite r'"
    "\<forall>g\<in>set fs. rl_infos r1 (fi_id g) = None \<and> (\<exists>rf. map_of (rl_flows r') (fi_id g) = Some rf \<and> wire_calls rf = [])"
    "\<forall>i. i \<notin> fi_id ` set fs \<longrightarrow> map_of (rl_flows r') i = map_of (rl_flows r1) i"
    "\<And>host. asked r' host = asked r1 host \<union> asks fs host"
    "fst ` set (rl_buffers r') = fst ` set (rl_buffers r1) \<union> (\<Union>f\<in>set fs. fst ` set (flow_requests f))"
    using Cons.IH [OF rest f(8) [OF Cons.prems(2)]] by blast+
  have new: "fi_id f \<notin> fi_id ` set fs" using IH(4) f(3) by force
  have one_flow: "\<exists>rf. map_of (rl_flows r') (fi_id f) = Some rf \<and> wire_calls rf = []" using IH(5) f(6) new by simp
  have old: "rl_infos r (fi_id g) = None" if "g \<in> set fs" for g
    using IH(4) f(3) that by (metis fun_upd_apply option.distinct(1))
  have others: "map_of (rl_flows r') i = map_of (rl_flows r) i" if "i \<notin> fi_id ` set (f # fs)" for i
    using IH(5) f(4) that by simp
  have routes: "same_routes r r'" by (rule same_routes_trans [OF f(2) IH(1)])
  have asks: "asked r' host = asked r host \<union> asks (f # fs) host" for host
    unfolding IH(6) f(7) asks_def by (simp only: list.simps(15) UN_insert Un_assoc)
  have hosts: "fst ` set (rl_buffers r') = fst ` set (rl_buffers r) \<union> (\<Union>f\<in>set (f # fs). fst ` set (flow_requests f))"
    unfolding IH(7) f(9) by (simp only: list.simps(15) UN_insert Un_assoc)
  show ?case
    using routes IH(2,3) f(1,5) one_flow old others asks hosts IH(4) by (simp del: split_paired_All)
qed

lemma hand_out_calls:
  "hand_out E w ts flows = Some (True, flows') \<Longrightarrow> map_of flows i = Some rf \<Longrightarrow>
   \<exists>rf'. map_of flows' i = Some rf' \<and>
     wire_calls rf' = wire_calls rf @ map (\<lambda>(j, target). (w, target)) (filter (\<lambda>(j, target). j = i) ts)"
proof (induction ts arbitrary: flows rf)
  case Nil
  then show ?case by simp
next
  case (Cons t ts)
  obtain j target where t: "t = (j, target)" by (cases t)
  obtain rf0 rf1 where j: "map_of flows j = Some rf0" and c: "call_flow E (connect_call target w) rf0 = Some rf1"
    and rest: "hand_out E w ts (put j rf1 flows) = Some (True, flows')"
    using Cons.prems(1) by (auto simp: t split: option.splits)
  have wc: "wire_calls rf1 = wire_calls rf0 @ [(w, target)]"
    by (simp add: call_flow_Some [OF c] wire_calls_def List.map_filter_def)
  show ?case
  proof (cases "j = i")
    case True
    then have "map_of (put j rf1 flows) i = Some rf1" by simp
    from Cons.IH [OF rest this] show ?thesis using True j Cons.prems(2) by (simp add: t wc)
  next
    case False
    then have "map_of (put j rf1 flows) i = Some rf" using Cons.prems(2) by simp
    from Cons.IH [OF rest this] show ?thesis using False by (simp add: t)
  qed
qed

lemma aggregate_each_Cons_True:
  assumes "aggregate_each E ((host, n) # ds) (r, conns) = Some (True, y)"
  obtains w conns1 flows where "relay_get_connection E r host n conns = Some (w, conns1)"
    and "hand_out E w (wanting r host) (rl_flows r) = Some (True, flows)"
    and "aggregate_each E ds (r\<lparr>rl_flows := flows\<rparr>, conns1) = Some (True, y)"
  using assms by (auto split: option.splits prod.splits bool.splits)

lemma wanting_flows [simp]: "wanting (r\<lparr>rl_flows := flows\<rparr>) host = wanting r host"
  by (simp add: wanting_def)

lemma aggregate_each_wires:
  "aggregate_each E ds (r, conns) = Some (True, r', conns') \<Longrightarrow> map_of (rl_flows r) i = Some rf \<Longrightarrow> wires_ok conns rf \<Longrightarrow>
   \<exists>rf'. map_of (rl_flows r') i = Some rf' \<and> wires_ok conns' rf' \<and>
     wires conns' rf' = wires conns rf \<union>
       (\<Union>host\<in>fst ` set ds. {(destination E r host, target) | target. (i, target) \<in> set (wanting r host)})"
proof (induction ds arbitrary: r conns rf)
  case Nil
  then show ?case by simp
next
  case (Cons d ds)
  obtain host n where d: "d = (host, n)" by (cases d)
  obtain w conns1 flows where g: "relay_get_connection E r host n conns = Some (w, conns1)"
    and h: "hand_out E w (wanting r host) (rl_flows r) = Some (True, flows)"
    and rest: "aggregate_each E ds (r\<lparr>rl_flows := flows\<rparr>, conns1) = Some (True, r', conns')"
    using aggregate_each_Cons_True [OF Cons.prems(1) [unfolded d]] .
  obtain cs where cs: "conns1 = conns @ cs" and e: "endpoint conns1 w = destination E r host" and ok: "writer_ok conns1 w"
    using get_connection_Some [OF g] by blast
  obtain rf1 where rf1: "map_of flows i = Some rf1" and
    wc: "wire_calls rf1 = wire_calls rf @ map (\<lambda>(j, target). (w, target)) (filter (\<lambda>(j, target). j = i) (wanting r host))"
    using hand_out_calls [OF h Cons.prems(2)] by blast
  have ok1: "wires_ok conns1 rf1"
    using wires_append [OF Cons.prems(3), of cs] ok by (auto simp: cs wires_ok_def wc list_all_iff)
  have "wires conns rf = wires conns1 rf" using wires_append [OF Cons.prems(3), of cs] by (simp add: cs)
  then have w1: "wires conns1 rf1 = wires conns rf \<union> {(destination E r host, target) | target. (i, target) \<in> set (wanting r host)}"
  proof -
    assume old: "wires conns rf = wires conns1 rf"
    have "(\<lambda>(w, target). (endpoint conns1 w, target)) ` set (map (\<lambda>(j, target). (w, target)) (filter (\<lambda>(j, target). j = i) ts)) =
        {(destination E r host, target) | target. (i, target) \<in> set ts}" for ts :: "(int \<times> nat option) list"
      by (induction ts) (auto simp: e)
    then show ?thesis unfolding old by (simp only: wires_def wc set_append image_Un)
  qed
  have routes: "destination E (r\<lparr>rl_flows := flows\<rparr>) = destination E r"
    by (rule same_routes_destination) (simp add: same_routes_def)
  have f1: "map_of (rl_flows (r\<lparr>rl_flows := flows\<rparr>)) i = Some rf1" using rf1 by simp
  have split: "(\<Union>host\<in>fst ` set (d # ds). {(destination E r host, target) | target. (i, target) \<in> set (wanting r host)}) =
      {(destination E r host, target) | target. (i, target) \<in> set (wanting r host)} \<union>
      (\<Union>host\<in>fst ` set ds. {(destination E r host, target) | target. (i, target) \<in> set (wanting r host)})"
  proof -
    have "fst ` set (d # ds) = insert host (fst ` set ds)" by (simp add: d)
    then show ?thesis by (simp only: UN_insert)
  qed
  show ?case
    using Cons.IH [OF rest f1 ok1] unfolding w1 routes wanting_flows split Un_assoc .
qed

lemma create_flows_each:
  assumes "create_flows E cb lb ident fs aggregate x st = Some ((True, y), st')"
  obtains de da st1 x' st2 where "create_each E cb lb ident aggregate de da fs x st1 = Some ((True, x'), st2)"
    and "if aggregate then aggregate_each E (rl_buffers (fst x')) x' = Some (True, y) else y = x'"
proof -
  let ?inner = "\<lambda>t' u st. case bind (re_builder E) cb read_kind (su_types (re_setup E) T_uint8) ''default_destination'' u st of
                      None \<Rightarrow> None
                    | Some (False, u', st') \<Rightarrow> Some ((False, x), u', st')
                    | Some (True, u', st') \<Rightarrow>
                        (case create_each E cb lb ident aggregate t' u' fs x st' of
                           None \<Rightarrow> None
                         | Some ((False, x'), st'') \<Rightarrow> Some ((False, x'), u', st'')
                         | Some ((True, x'), st'') \<Rightarrow>
                             if aggregate
                             then map_option (\<lambda>y. (y, u', st'')) (aggregate_each E (rl_buffers (fst x')) x')
                             else Some ((True, x'), u', st''))"
  obtain t s1 t1 s2 where outer: "(case bind (re_builder E) cb read_kind (su_types (re_setup E) T_bool) ''always_enabled'' t s1 of
           None \<Rightarrow> None
         | Some (False, t', st') \<Rightarrow> Some ((False, x), t', st')
         | Some (True, t', st') \<Rightarrow>
             map_option (\<lambda>(y, st''). (y, t', st'')) (with_local (re_ids E) (re_ctx E) (?inner t') st')) = Some ((True, y), t1, s2)"
    using assms unfolding create_flows_def by (rule with_local_elim)
  then obtain t' s1' where "bind (re_builder E) cb read_kind (su_types (re_setup E) T_bool) ''always_enabled'' t s1 = Some (True, t', s1')"
    by (cases "bind (re_builder E) cb read_kind (su_types (re_setup E) T_bool) ''always_enabled'' t s1") (auto split: bool.splits)
  with outer obtain s3 where "with_local (re_ids E) (re_ctx E) (?inner t') s1' = Some ((True, y), s3)" by auto
  then obtain u s4 u1 s5 where body: "?inner t' u s4 = Some ((True, y), u1, s5)" by (rule with_local_elim)
  then obtain u' s6 where b: "bind (re_builder E) cb read_kind (su_types (re_setup E) T_uint8) ''default_destination'' u s4 = Some (True, u', s6)"
    by (cases "bind (re_builder E) cb read_kind (su_types (re_setup E) T_uint8) ''default_destination'' u s4") (auto split: bool.splits)
  with body obtain x' s7 where "create_each E cb lb ident aggregate t' u' fs x s6 = Some ((True, x'), s7)"
    by (cases "create_each E cb lb ident aggregate t' u' fs x s6") (auto split: bool.splits)
  moreover from this body b have "if aggregate then aggregate_each E (rl_buffers (fst x')) x' = Some (True, y) else y = x'"
    by (auto split: if_splits)
  ultimately show ?thesis using that by blast
qed

definition relay_fresh :: "('id, 'h, 'p) relay \<Rightarrow> bool" where
  "relay_fresh r \<longleftrightarrow> rl_infos r = Map.empty \<and> rl_flows r = [] \<and> rl_buffers r = [] \<and> rl_ids r = [] \<and>
     rl_indices r = Map.empty \<and> rl_wanted r = (\<lambda>_. {}) \<and> rl_wanted_disabled r = (\<lambda>_. {})"

lemma relay_new_fresh: "relay_fresh (relay_new udp name)"
  by (simp add: relay_fresh_def relay_new_def)

lemma direct_wires:
  assumes "create_flows E cb lb ident fs False (r, conns) st = Some ((True, r', conns'), st')" and "f \<in> set fs"
  shows "\<exists>rf. map_of (rl_flows r') (fi_id f) = Some rf \<and>
    wires conns' rf = (\<lambda>(host, target). (destination E r host, target)) ` set (flow_requests f)"
proof -
  obtain de da st1 x' st2 where e: "create_each E cb lb ident False de da fs (r, conns) st1 = Some ((True, x'), st2)"
    and last: "if False then aggregate_each E (rl_buffers (fst x')) x' = Some (True, r', conns') else (r', conns') = x'"
    by (rule create_flows_each [OF assms(1)])
  from last have x': "(r', conns') = x'" by simp
  note props = create_each_direct [OF e [folded x']]
  have "wired E r' conns' f" "same_routes r r'" using props assms(2) by blast+
  then show ?thesis by (auto simp: wired_def same_routes_destination)
qed

lemma aggregate_wires:
  assumes "relay_fresh r" and "create_flows E cb lb ident fs True (r, conns) st = Some ((True, r', conns'), st')"
    and "f \<in> set fs" and "distinct (map fi_id fs)"
  shows "\<exists>rf. map_of (rl_flows r') (fi_id f) = Some rf \<and>
    wires conns' rf = (\<lambda>(host, target). (destination E r host, target)) ` set (flow_requests f)"
proof -
  obtain de da st1 x' st2 where e: "create_each E cb lb ident True de da fs (r, conns) st1 = Some ((True, x'), st2)"
    and last: "if True then aggregate_each E (rl_buffers (fst x')) x' = Some (True, r', conns') else (r', conns') = x'"
    by (rule create_flows_each [OF assms(2)])
  from last have a: "aggregate_each E (rl_buffers (fst x')) x' = Some (True, r', conns')" by simp
  obtain r1 conns1 where x': "x' = (r1, conns1)" by (cases x')
  have "asked_finite r" using assms(1) by (simp add: relay_fresh_def asked_finite_def)
  note props = create_each_aggregate [OF e [unfolded x'] this]
  have routes: "same_routes r r1" and fin: "asked_finite r1" using props by blast+
  have all: "\<forall>f\<in>set fs. rl_infos r (fi_id f) = None \<and> (\<exists>rf. map_of (rl_flows r1) (fi_id f) = Some rf \<and> wire_calls rf = [])"
    using props by blast
  obtain rf where rf: "map_of (rl_flows r1) (fi_id f) = Some rf" and none: "wire_calls rf = []"
    using bspec [OF all assms(3)] by blast
  have old: "asked r host = {}" for host using assms(1) by (simp add: relay_fresh_def asked_def)
  have "asked r1 host = asked r host \<union> asks fs host" for host using props by blast
  then have asked: "set (wanting r1 host) = asks fs host" for host by (simp add: set_wanting [OF fin] old)
  have "fst ` set (rl_buffers r) = {}" using assms(1) by (simp add: relay_fresh_def)
  then have hosts: "fst ` set (rl_buffers r1) = (\<Union>f\<in>set fs. fst ` set (flow_requests f))"
  proof -
    assume "fst ` set (rl_buffers r) = {}"
    moreover have "fst ` set (rl_buffers r1) = fst ` set (rl_buffers r) \<union> (\<Union>f\<in>set fs. fst ` set (flow_requests f))"
      using props by blast
    ultimately show ?thesis by simp
  qed
  have mine: "(fi_id f, target) \<in> asks fs host \<longleftrightarrow> (host, target) \<in> set (flow_requests f)" for host target
  proof -
    have "g = f" if "g \<in> set fs" "fi_id g = fi_id f" for g
      using assms(3,4) that unfolding distinct_map by (metis inj_onD)
    moreover have "(fi_id f, target) \<in> asks fs host \<longleftrightarrow>
        (\<exists>g\<in>set fs. fi_id g = fi_id f \<and> (host, target) \<in> set (flow_requests g))"
      unfolding asks_def by fastforce
    ultimately show ?thesis using assms(3) by metis
  qed
  have ok: "wires_ok conns1 rf" and w0: "wires conns1 rf = {}" using none by (simp_all add: wires_ok_def wires_def)
  obtain rf' where rf': "map_of (rl_flows r') (fi_id f) = Some rf'"
    and w: "wires conns' rf' = wires conns1 rf \<union>
       (\<Union>host\<in>fst ` set (rl_buffers r1). {(destination E r1 host, target) | target. (fi_id f, target) \<in> set (wanting r1 host)})"
    using aggregate_each_wires [OF a [unfolded x' fst_conv] rf ok] by blast
  have "wires conns' rf' = (\<lambda>(host, target). (destination E r host, target)) ` set (flow_requests f)"
    unfolding w w0 asked mine hosts same_routes_destination [OF routes] using assms(3) by force
  then show ?thesis using rf' by blast
qed

lemma create_each_ids:
  "create_each E cb lb ident aggregate de da fs x st = Some ((True, r', conns'), st') \<Longrightarrow>
   distinct (map fi_id fs) \<and> (\<forall>f\<in>set fs. rl_infos (fst x) (fi_id f) = None \<and> flow_checked (re_telem E) f) \<and>
   rl_infos r' = rl_infos (fst x) ++ map_of (map (\<lambda>f. (fi_id f, f)) fs)"
proof (induction fs arbitrary: x st)
  case Nil
  then show ?case by (cases x) simp
next
  case (Cons f fs)
  obtain x1 st1 where one: "create_flow E cb lb ident aggregate de da f x st = Some ((True, x1), st1)"
    and rest: "create_each E cb lb ident aggregate de da fs x1 st1 = Some ((True, r', conns'), st')"
    by (rule create_each_Cons_True [OF Cons.prems])
  obtain r t u s1 s2 where n: "note_flow E f (fst x) = (True, r)" and ok: "flow_checked (re_telem E) f"
    and fin: "finish_flow E lb ident aggregate f t u (r, snd x) s1 = Some ((True, x1), s2)"
    by (rule create_flow_finish [OF one])
  obtain r1 c1 where x1: "x1 = (r1, c1)" by (cases x1)
  have "rl_infos r1 = rl_infos r"
  proof (cases aggregate)
    case True
    then show ?thesis using fin unfolding x1 by (auto elim!: finish_flow_aggregate simp: tally_flow_fields)
  next
    case False
    then show ?thesis using fin unfolding x1 by (auto elim!: finish_flow_direct)
  qed
  then have infos: "rl_infos r1 = (rl_infos (fst x))(fi_id f \<mapsto> f)" using note_flow_True(2) [OF n] by simp
  note IH = Cons.IH [OF rest, unfolded x1 fst_conv infos]
  have fresh: "fi_id g \<noteq> fi_id f \<and> rl_infos (fst x) (fi_id g) = None" if "g \<in> set fs" for g
  proof -
    have "((rl_infos (fst x))(fi_id f \<mapsto> f)) (fi_id g) = None" using IH that by blast
    then show ?thesis by (cases "fi_id g = fi_id f") simp_all
  qed
  have "fi_id f \<notin> set (map fi_id fs)" using fresh by force
  then have "distinct (map fi_id (f # fs))" and "map_of (map (\<lambda>f. (fi_id f, f)) fs) (fi_id f) = None"
    using IH by (auto simp: map_of_eq_None_iff)
  moreover have "rl_infos r' = rl_infos (fst x) ++ map_of (map (\<lambda>f. (fi_id f, f)) (f # fs))"
  proof -
    have "(m(k \<mapsto> v)) ++ n = m ++ (n(k \<mapsto> v))" if "n k = None" for m n :: "int \<rightharpoonup> flow_info" and k v
      using that by (auto simp: map_add_def fun_eq_iff split: option.split)
    then have "(rl_infos (fst x))(fi_id f \<mapsto> f) ++ map_of (map (\<lambda>f. (fi_id f, f)) fs) =
        rl_infos (fst x) ++ (map_of (map (\<lambda>f. (fi_id f, f)) fs))(fi_id f \<mapsto> f)" using calculation(2) by blast
    moreover have "rl_infos r' = (rl_infos (fst x))(fi_id f \<mapsto> f) ++ map_of (map (\<lambda>f. (fi_id f, f)) fs)" using IH by blast
    ultimately show ?thesis by (simp only: list.map map_of.simps fst_conv snd_conv)
  qed
  moreover have "\<forall>g\<in>set (f # fs). rl_infos (fst x) (fi_id g) = None \<and> flow_checked (re_telem E) g"
    using note_flow_True(1) [OF n] ok fresh IH by auto
  ultimately show ?case by blast
qed

lemma create_flows_ids:
  assumes "create_flows E cb lb ident fs aggregate (r, conns) st = Some ((True, y), st')"
  shows "distinct (map fi_id fs)" and "list_all (flow_checked (re_telem E)) fs"
proof -
  obtain de da st1 x' st2 where "create_each E cb lb ident aggregate de da fs (r, conns) st1 = Some ((True, x'), st2)"
    by (rule create_flows_each [OF assms])
  then show "distinct (map fi_id fs)" "list_all (flow_checked (re_telem E)) fs"
    using create_each_ids [of E cb lb ident aggregate de da fs "(r, conns)" st1 "fst x'" "snd x'" st2]
    by (simp_all add: list_all_iff)
qed

section \<open>Buffers\<close>

text \<open>What the flows ask of the buffer to a host, in bytes.\<close>

definition demand :: "('id, 'pm, 'v, 'q, 'e, 'w, 'h) relay_env \<Rightarrow> flow_info list \<Rightarrow> string \<Rightarrow> nat" where
  "demand E fs host =
     sum_list (map (\<lambda>f. length (filter (\<lambda>q. fst q = host) (flow_requests f)) * unat (flow_buffer E f)) fs)"

definition buffer_of :: "(string \<times> 64 word) list \<Rightarrow> string \<Rightarrow> 64 word" where
  "buffer_of bs host = (case map_of bs host of None \<Rightarrow> 0 | Some n \<Rightarrow> n)"

lemma buffer_of_put: "buffer_of (put h n bs) host = (if host = h then n else buffer_of bs host)"
  by (simp add: buffer_of_def)

lemma tally_buffers_sum:
  "buffer_of (tally_buffers n hosts bs) host =
     buffer_of bs host + of_nat (length (filter (\<lambda>h. h = host) hosts)) * n"
proof (induction hosts arbitrary: bs)
  case Nil
  then show ?case by simp
next
  case (Cons h hosts)
  have "tally_buffers n (h # hosts) bs = tally_buffers n hosts (put h (buffer_of bs h + n) bs)"
    by (simp add: buffer_of_def)
  then show ?case by (simp add: Cons buffer_of_put distrib_right)
qed

lemma create_each_demand:
  "create_each E cb lb ident True de da fs (r, conns) st = Some ((True, r', conns'), st') \<Longrightarrow>
   buffer_of (rl_buffers r') host = buffer_of (rl_buffers r) host + of_nat (demand E fs host)"
proof (induction fs arbitrary: r conns st)
  case Nil
  then show ?case by (simp add: demand_def)
next
  case (Cons f fs)
  obtain r1 conns1 st1 where one: "create_flow E cb lb ident True de da f (r, conns) st = Some ((True, r1, conns1), st1)"
    and rest: "create_each E cb lb ident True de da fs (r1, conns1) st1 = Some ((True, r', conns'), st')"
    using create_each_Cons_True [OF Cons.prems] by (metis surj_pair)
  have "buffer_of (rl_buffers r1) host = buffer_of (rl_buffers r) host +
      of_nat (length (filter (\<lambda>q. fst q = host) (flow_requests f)) * unat (flow_buffer E f))"
    unfolding create_flow_aggregate(10) [OF one] tally_flow_buffers tally_buffers_sum
    by (simp add: filter_map comp_def)
  then show ?case using Cons.IH [OF rest] by (simp add: demand_def add.assoc)
qed

lemma aggregate_each_conns:
  "aggregate_each E ds (r, conns) = Some (True, r', conns') \<Longrightarrow>
   set conns \<subseteq> set conns' \<and>
   (\<forall>(host, n)\<in>set ds. rl_redirects r host = None \<longrightarrow>
      (the (resolve E r host), (n + re_packet_len E - 1) div re_packet_len E) \<in> set conns')"
proof (induction ds arbitrary: r conns)
  case Nil
  then show ?case by simp
next
  case (Cons d ds)
  obtain host n where d: "d = (host, n)" by (cases d)
  obtain w conns1 flows where g: "relay_get_connection E r host n conns = Some (w, conns1)"
    and rest: "aggregate_each E ds (r\<lparr>rl_flows := flows\<rparr>, conns1) = Some (True, r', conns')"
    using aggregate_each_Cons_True [OF Cons.prems [unfolded d]] by metis
  obtain cs where cs: "conns1 = conns @ cs" and new: "rl_redirects r host = None \<longrightarrow>
      cs = [(the (resolve E r host), (n + re_packet_len E - 1) div re_packet_len E)]"
    using get_connection_Some [OF g] by metis
  have res: "resolve E (r\<lparr>rl_flows := flows\<rparr>) h = resolve E r h" for h by (simp add: resolve_def)
  have IH: "set conns1 \<subseteq> set conns'"
    "\<forall>(host, n)\<in>set ds. rl_redirects r host = None \<longrightarrow>
      (the (resolve E r host), (n + re_packet_len E - 1) div re_packet_len E) \<in> set conns'"
    using Cons.IH [OF rest] by (simp_all add: res)
  have "rl_redirects r host = None \<longrightarrow>
      (the (resolve E r host), (n + re_packet_len E - 1) div re_packet_len E) \<in> set conns'"
    using IH(1) new by (auto simp: cs)
  then show ?case using IH by (simp add: d cs)
qed

lemma datagrams_fit:
  fixes p :: "64 word"
  assumes "p \<noteq> 0" and "n + unat p \<le> 2 ^ 64"
  shows "n \<le> unat ((of_nat n + p - 1) div p) * unat p"
proof -
  have p: "0 < unat p" using assms(1) by (simp add: unat_gt_0)
  have lt: "n + unat p - 1 < 2 ^ 64" using assms(2) p by linarith
  have "(of_nat n + p - 1 :: 64 word) = of_nat (n + unat p - 1)"
    using p by (simp add: of_nat_diff)
  then have "unat (of_nat n + p - 1 :: 64 word) = n + unat p - 1" using lt by (simp add: unat_of_nat)
  then have u: "unat ((of_nat n + p - 1) div p) = (n + unat p - 1) div unat p" by (simp add: unat_div_distrib)
  have "n + unat p - 1 = (n + unat p - 1) div unat p * unat p + (n + unat p - 1) mod unat p" by simp
  moreover have "(n + unat p - 1) mod unat p < unat p" using p by simp
  ultimately have "n + unat p - 1 < (n + unat p - 1) div unat p * unat p + unat p" by linarith
  then show ?thesis unfolding u by linarith
qed

text \<open>A burst within a packet of the largest size wraps: the buffers of the flow have no room at all.\<close>

lemma huge_burst_no_buffer:
  "fi_burst f = - 1 \<Longrightarrow> re_packet_len E = 1500 \<Longrightarrow> flow_buffer E f = 0"
  by (simp add: flow_buffer_def)

section \<open>The catalogue of flows\<close>

definition group_ids :: "('id, 'h, 'p) relay \<Rightarrow> u32 \<Rightarrow> int list" where
  "group_ids r g = (case map_of (rl_ids r) g of None \<Rightarrow> [] | Some is \<Rightarrow> is)"

lemma create_flow_catalogue:
  assumes "create_flow E cb lb ident aggregate de da f x st = Some ((True, x'), st')"
  shows "group_ids (fst x') g = group_ids (fst x) g @ (if fi_group f = g then [fi_id f] else [])"
    and "rl_indices (fst x') = (if fi_group f = re_slate_group E
      then (rl_indices (fst x))(fi_id f \<mapsto> length (group_ids (fst x) (fi_group f))) else rl_indices (fst x))"
proof -
  obtain r t u s1 s2 where n: "note_flow E f (fst x) = (True, r)"
    and fin: "finish_flow E lb ident aggregate f t u (r, snd x) s1 = Some ((True, x'), s2)"
    by (rule create_flow_finish [OF assms])
  obtain r1 c1 where x': "x' = (r1, c1)" by (cases x')
  have same: "rl_ids r1 = rl_ids r \<and> rl_indices r1 = rl_indices r"
  proof (cases aggregate)
    case True
    then show ?thesis using fin unfolding x' by (auto elim!: finish_flow_aggregate simp: tally_flow_fields)
  next
    case False
    then show ?thesis using fin unfolding x' by (auto elim!: finish_flow_direct)
  qed
  note n' = note_flow_True(3,4) [OF n]
  show "group_ids (fst x') g = group_ids (fst x) g @ (if fi_group f = g then [fi_id f] else [])"
    using same by (simp add: x' group_ids_def n'(1))
  show "rl_indices (fst x') = (if fi_group f = re_slate_group E
      then (rl_indices (fst x))(fi_id f \<mapsto> length (group_ids (fst x) (fi_group f))) else rl_indices (fst x))"
    using same by (simp add: x' group_ids_def n'(2) split: option.splits)
qed

lemma create_each_catalogue:
  "create_each E cb lb ident aggregate de da fs x st = Some ((True, x'), st') \<Longrightarrow>
   (\<forall>g. group_ids (fst x') g = group_ids (fst x) g @ map fi_id (filter (\<lambda>f. fi_group f = g) fs)) \<and>
   (\<forall>k<length (filter (\<lambda>f. fi_group f = re_slate_group E) fs).
      rl_indices (fst x') (map fi_id (filter (\<lambda>f. fi_group f = re_slate_group E) fs) ! k) =
        Some (length (group_ids (fst x) (re_slate_group E)) + k)) \<and>
   (\<forall>i. i \<notin> fi_id ` set fs \<longrightarrow> rl_indices (fst x') i = rl_indices (fst x) i)"
proof (induction fs arbitrary: x st)
  case Nil
  then show ?case by simp
next
  case (Cons f fs)
  obtain x1 st1 where one: "create_flow E cb lb ident aggregate de da f x st = Some ((True, x1), st1)"
    and rest: "create_each E cb lb ident aggregate de da fs x1 st1 = Some ((True, x'), st')"
    by (rule create_each_Cons_True [OF Cons.prems])
  note c = create_flow_catalogue [OF one]
  have IH: "\<And>g. group_ids (fst x') g = group_ids (fst x1) g @ map fi_id (filter (\<lambda>f. fi_group f = g) fs)"
    "\<And>k. k < length (filter (\<lambda>f. fi_group f = re_slate_group E) fs) \<Longrightarrow>
      rl_indices (fst x') (map fi_id (filter (\<lambda>f. fi_group f = re_slate_group E) fs) ! k) =
        Some (length (group_ids (fst x1) (re_slate_group E)) + k)"
    "\<And>i. i \<notin> fi_id ` set fs \<Longrightarrow> rl_indices (fst x') i = rl_indices (fst x1) i"
    using Cons.IH [OF rest] by blast+
  obtain r' conns' where x': "x' = (r', conns')" by (cases x')
  have "distinct (map fi_id (f # fs))" using create_each_ids [OF Cons.prems [unfolded x']] by blast
  then have new: "fi_id f \<notin> fi_id ` set fs" by simp
  have groups: "group_ids (fst x') g = group_ids (fst x) g @ map fi_id (filter (\<lambda>f. fi_group f = g) (f # fs))" for g
    by (simp add: IH(1) c(1))
  have others: "rl_indices (fst x') i = rl_indices (fst x) i" if "i \<notin> fi_id ` set (f # fs)" for i
    using IH(3) [of i] that by (simp add: c(2))
  have "rl_indices (fst x') (map fi_id (filter (\<lambda>f. fi_group f = re_slate_group E) (f # fs)) ! k) =
        Some (length (group_ids (fst x) (re_slate_group E)) + k)"
    if k: "k < length (filter (\<lambda>f. fi_group f = re_slate_group E) (f # fs))" for k
  proof (cases "fi_group f = re_slate_group E")
    case False
    then show ?thesis using IH(2) [of k] k c(1) by simp
  next
    case True
    show ?thesis
    proof (cases k)
      case 0
      then show ?thesis using IH(3) [OF new] True c(2) by simp
    next
      case (Suc j)
      then show ?thesis using IH(2) [of j] k True c(1) by simp
    qed
  qed
  then show ?case using groups others by blast
qed

lemma aggregate_each_fields:
  "aggregate_each E ds (r, conns) = Some (True, r', conns') \<Longrightarrow>
   rl_ids r' = rl_ids r \<and> rl_indices r' = rl_indices r \<and> rl_infos r' = rl_infos r \<and> same_routes r r'"
proof (induction ds arbitrary: r conns)
  case Nil
  then show ?case by (simp add: same_routes_def)
next
  case (Cons d ds)
  obtain host n where d: "d = (host, n)" by (cases d)
  obtain w conns1 flows where "aggregate_each E ds (r\<lparr>rl_flows := flows\<rparr>, conns1) = Some (True, r', conns')"
    using aggregate_each_Cons_True [OF Cons.prems [unfolded d]] by metis
  from Cons.IH [OF this] show ?case by (simp add: same_routes_def)
qed

lemma create_flows_catalogue:
  assumes "relay_fresh r" and "create_flows E cb lb ident fs aggregate (r, conns) st = Some ((True, r', conns'), st')"
  shows "group_ids r' g = map fi_id (filter (\<lambda>f. fi_group f = g) fs)"
    and "k < length (group_ids r' (re_slate_group E)) \<Longrightarrow> rl_indices r' (group_ids r' (re_slate_group E) ! k) = Some k"
    and "rl_infos r' = map_of (map (\<lambda>f. (fi_id f, f)) fs)"
proof -
  obtain de da st1 x' st2 where e: "create_each E cb lb ident aggregate de da fs (r, conns) st1 = Some ((True, x'), st2)"
    and last: "if aggregate then aggregate_each E (rl_buffers (fst x')) x' = Some (True, r', conns') else (r', conns') = x'"
    by (rule create_flows_each [OF assms(2)])
  have same: "rl_ids r' = rl_ids (fst x') \<and> rl_indices r' = rl_indices (fst x') \<and> rl_infos r' = rl_infos (fst x')"
    using last aggregate_each_fields [of E "rl_buffers (fst x')" "fst x'" "snd x'" r' conns']
    by (auto split: if_splits)
  have empty: "group_ids r h = []" "rl_infos r = Map.empty" for h
    using assms(1) by (simp_all add: relay_fresh_def group_ids_def)
  have c: "\<And>h. group_ids (fst x') h = map fi_id (filter (\<lambda>f. fi_group f = h) fs)"
    "\<And>k. k < length (filter (\<lambda>f. fi_group f = re_slate_group E) fs) \<Longrightarrow>
      rl_indices (fst x') (map fi_id (filter (\<lambda>f. fi_group f = re_slate_group E) fs) ! k) = Some k"
    using create_each_catalogue [OF e] by (simp_all add: empty)
  have g: "group_ids r' h = group_ids (fst x') h" for h using same by (simp add: group_ids_def)
  show "group_ids r' g = map fi_id (filter (\<lambda>f. fi_group f = g) fs)" by (simp add: g c)
  show "k < length (group_ids r' (re_slate_group E)) \<Longrightarrow> rl_indices r' (group_ids r' (re_slate_group E) ! k) = Some k"
    using c(2) [of k] same by (simp add: g c(1))
  show "rl_infos r' = map_of (map (\<lambda>f. (fi_id f, f)) fs)"
    using create_each_ids [of E cb lb ident aggregate de da fs "(r, conns)" st1 "fst x'" "snd x'" st2] e same
    by (simp add: empty)
qed

section \<open>An instance\<close>

definition demo_service :: "string \<Rightarrow> service option" where
  "demo_service name = Some \<lparr>sv_host = name, sv_port = 17, sv_proto = 3\<rparr>"

text \<open>IDs whose write bit can be taken, as tokens for reading need it.\<close>

definition demo_relay_setup :: "(nat, unit, unit, unit, unit, unit) setup_env" where
  "demo_relay_setup = demo_setup\<lparr>su_builder := demo_store_env\<lparr>be_layout_env := (be_layout_env demo_store_env)\<lparr>le_codec :=
     \<lparr>id_buildup = (\<lambda>_ _ _ _ i. Some i), id_is_valid = (\<lambda>_. True), id_index = (\<lambda>i. i), id_can_write = (\<lambda>i. i = 2),
      id_has_validator = (\<lambda>_. False), id_ro = (\<lambda>i. if i = 2 then 4 else i)\<rparr>\<rparr>\<rparr>\<rparr>"

definition demo_relay_env :: "(nat, unit, unit, unit, unit, unit, nat) relay_env" where
  "demo_relay_env = \<lparr>re_telem = demo_telem, re_setup = demo_relay_setup, re_ctx = [], re_validator = (\<lambda>_. ()),
     re_slate_group = 4, re_packet_len = 1000, re_udp = 3, re_service = demo_service, re_source = (\<lambda>_. Some 9),
     re_connect = (\<lambda>_ _. True), re_to_string = (\<lambda>_. ''n''), re_metrics = (\<lambda>_ _ st. Some (True, st)),
     re_accepts = (\<lambda>_ _. True)\<rparr>"

definition demo_ident :: node_ident where
  "demo_ident = \<lparr>ni_node_name = ''fc_a'', ni_string = ''a''\<rparr>"

definition demo_relay :: "(nat, nat, nat) relay" where
  "demo_relay = (relay_new 3 ''telem'')\<lparr>rl_redirects := [''h3'' \<mapsto> 5]\<rparr>"

definition demo_create :: "bool \<Rightarrow> ((bool \<times> (nat, nat, nat) relay_conns) \<times> (nat, unit) bstate) option" where
  "demo_create aggregate = create_flows demo_relay_env demo_root demo_root demo_ident
     [demo_gated_info, demo_switched_info] aggregate (demo_relay, []) ((), acct_new)"

definition demo_summary :: "((bool \<times> (nat, nat, nat) relay_conns) \<times> (nat, unit) bstate) option \<Rightarrow>
    (bool \<times> nat list \<times> 64 word list) option" where
  "demo_summary = map_option (\<lambda>((ok, r, conns), st). (ok, map (length \<circ> rf_calls \<circ> snd) (rl_flows r), map snd conns))"

lemma demo_summaries:
  "demo_summary (demo_create False) = Some (True, [6, 3], [1, 1, 1, 10])"
  "demo_summary (demo_create True) = Some (True, [6, 3], [11, 1, 1])"
  by code_simp+

lemma demo_created:
  "\<exists>r conns st. demo_create aggregate = Some ((True, r, conns), st)"
proof (cases aggregate)
  case True
  then show ?thesis using demo_summaries(2) by (auto simp: demo_summary_def)
next
  case False
  then show ?thesis using demo_summaries(1) by (auto simp: demo_summary_def)
qed

lemma demo_relay_fresh: "relay_fresh demo_relay"
  by (simp add: demo_relay_def relay_fresh_def relay_new_def)

lemma demo_conns_head: "map_option (\<lambda>((ok, r, conns), st). (snd (conns ! 0), sv_host (fst (conns ! 0)))) (demo_create True) = Some (11, ''h1'')"
  by code_simp

section \<open>Redirection and override\<close>

text \<open>A redirected service keeps its redirection although an override address is set.\<close>

lemma redirect_beats_override:
  "rl_redirects r name = Some h \<Longrightarrow> sv_host (rl_override r) \<noteq> [] \<Longrightarrow>
   relay_get_connection E r name n conns = Some (Redirected h, conns)"
  by (simp add: relay_get_connection_def resolve_def)

section \<open>Properties\<close>

text \<open>
  The switch that the control part creates for a flow accepts exactly the default destination
  and the alternatives that have hosts, and leaves the slate as it is on any other value.
\<close>

theorem switch_accepts_populated:
  "validate_destination (alt_validity T f) new_value val =
     (if unat new_value = 0 \<or> (unat new_value \<le> te_num_alt T \<and> fi_hosts f ! unat new_value \<noteq> [])
      then (True, new_value) else (False, val))"
  by (rule validate_destination_exact)

text \<open>
  When the control part accepts a list of flows, no two of them have the same name, so that no
  two share the elements that gate and switch them.
\<close>

theorem accepted_names_distinct:
  assumes "control_init_internal E name b flows use_sync_shard s = Some (True, s')"
  shows "distinct (filter (\<lambda>n. n \<noteq> []) (map fi_name flows))"
proof -
  obtain sub shard s1 where "control_flows E sub shard Map.empty flows s = Some (True, s1)"
    using assms by (auto simp: control_init_internal_def Let_def split: option.splits bool.splits prod.splits if_splits)
  then show ?thesis using control_flows_names by blast
qed

definition demo_control :: "(bool \<times> (int \<rightharpoonup> bool list) \<times> (nat, unit) bstate) option" where
  "demo_control = control_init_internal demo_relay_env ''telem'' demo_root [demo_gated_info, demo_switched_info] False
     (Map.empty, (), acct_new)"

theorem accepted_names_distinct_witness:
  "(\<exists>s. demo_control = Some (True, s)) \<and> distinct (filter (\<lambda>n. n \<noteq> []) (map fi_name [demo_gated_info, demo_switched_info]))"
proof -
  have "map_option fst demo_control = Some True" by code_simp
  then obtain s where s: "demo_control = Some (True, s)" by auto
  then show ?thesis using accepted_names_distinct [OF s [unfolded demo_control_def]] by blast
qed

text \<open>
  C27: opening one connection for each destination connects every flow to the same endpoints, for
  the same alternatives and for its disabled state, as opening one for each flow and destination.
\<close>

theorem aggregation_keeps_wiring:
  assumes "relay_fresh r"
    and "create_flows E cb lb ident fs False (r, conns) st = Some ((True, rd, cd), std)"
    and "create_flows E cb' lb' ident fs True (r, conns2) st2 = Some ((True, ra, ca), sta)"
    and "f \<in> set fs"
  shows "\<exists>d a. map_of (rl_flows rd) (fi_id f) = Some d \<and> map_of (rl_flows ra) (fi_id f) = Some a \<and>
    wires cd d = wires ca a"
  using direct_wires [OF assms(2,4)] aggregate_wires [OF assms(1,3,4) create_flows_ids(1) [OF assms(3)]] by metis

theorem aggregation_keeps_wiring_witness:
  "\<exists>rd cd std ra ca sta d a. demo_create False = Some ((True, rd, cd), std) \<and> demo_create True = Some ((True, ra, ca), sta) \<and>
     map_of (rl_flows rd) 1 = Some d \<and> map_of (rl_flows ra) 1 = Some a \<and> wires cd d = wires ca a"
proof -
  obtain rd cd std ra ca sta where d: "demo_create False = Some ((True, rd, cd), std)"
    and a: "demo_create True = Some ((True, ra, ca), sta)"
    using demo_created by meson
  have "\<exists>d a. map_of (rl_flows rd) (fi_id demo_gated_info) = Some d \<and> map_of (rl_flows ra) (fi_id demo_gated_info) = Some a \<and>
      wires cd d = wires ca a"
    by (rule aggregation_keeps_wiring [OF demo_relay_fresh d [unfolded demo_create_def] a [unfolded demo_create_def]]) simp
  then show ?thesis using d a by (simp add: demo_gated_info_def del: split_paired_Ex)
qed

text \<open>
  C32: the buffer of an aggregated connection has room for what every flow asks of it, counted for
  each destination of the flow, as long as the sum and one packet fit in a \<^verbatim>\<open>size_t\<close>.
\<close>

theorem aggregated_buffer_fits:
  assumes "relay_fresh r"
    and "create_flows E cb lb ident fs True (r, conns) st = Some ((True, ra, ca), sta)"
    and "f \<in> set fs" and "(host, target) \<in> set (flow_requests f)" and "rl_redirects r host = None"
    and "re_packet_len E \<noteq> 0" and "demand E fs host + unat (re_packet_len E) \<le> 2 ^ 64"
  shows "\<exists>n. (the (resolve E r host), n) \<in> set ca \<and> demand E fs host \<le> unat n * unat (re_packet_len E)"
proof -
  obtain de da st1 x' st2 where e: "create_each E cb lb ident True de da fs (r, conns) st1 = Some ((True, x'), st2)"
    and last: "if True then aggregate_each E (rl_buffers (fst x')) x' = Some (True, ra, ca) else (ra, ca) = x'"
    by (rule create_flows_each [OF assms(2)])
  obtain r1 c1 where x': "x' = (r1, c1)" by (cases x')
  have fin: "asked_finite r" and no_buffers: "rl_buffers r = []"
    using assms(1) by (simp_all add: relay_fresh_def asked_finite_def)
  have "same_routes r r1" and hosts: "fst ` set (rl_buffers r1) = fst ` set (rl_buffers r) \<union> (\<Union>f\<in>set fs. fst ` set (flow_requests f))"
    using create_each_aggregate [OF e [unfolded x'] fin] by blast+
  then have routes: "resolve E r1 host = resolve E r host" "rl_redirects r1 host = None"
    using assms(5) by (simp_all add: same_routes_def resolve_def)
  have "host \<in> fst ` set (rl_buffers r1)" using assms(3,4) by (force simp: hosts)
  then obtain n where n: "map_of (rl_buffers r1) host = Some n"
    by (metis map_of_eq_None_iff not_None_eq)
  have "n = of_nat (demand E fs host)"
    using create_each_demand [OF e [unfolded x'], of host] n by (simp add: no_buffers buffer_of_def)
  moreover have "(the (resolve E r host), (n + re_packet_len E - 1) div re_packet_len E) \<in> set ca"
    using aggregate_each_conns [of E "rl_buffers r1" r1 c1 ra ca] last map_of_SomeD [OF n] routes
    by (auto simp: x')
  ultimately show ?thesis using datagrams_fit [OF assms(6,7)] by blast
qed

theorem aggregated_buffer_fits_witness:
  "\<exists>ra ca sta n. demo_create True = Some ((True, ra, ca), sta) \<and> (the (demo_service ''h1''), n) \<in> set ca \<and> 11000 \<le> unat n * 1000"
proof -
  obtain ra ca sta where a: "demo_create True = Some ((True, ra, ca), sta)" using demo_created by meson
  have d: "demand demo_relay_env [demo_gated_info, demo_switched_info] ''h1'' = 11000" by code_simp
  have "(''h1'', Some 0) \<in> set (flow_requests demo_gated_info)" by code_simp
  then have "\<exists>n. (the (resolve demo_relay_env demo_relay ''h1''), n) \<in> set ca \<and>
      demand demo_relay_env [demo_gated_info, demo_switched_info] ''h1'' \<le> unat n * unat (re_packet_len demo_relay_env)"
    by (intro aggregated_buffer_fits [OF demo_relay_fresh a [unfolded demo_create_def], of demo_gated_info "''h1''" "Some 0"])
      (simp_all add: d, simp_all add: demo_relay_def demo_relay_env_def)
  then have "\<exists>n. (the (demo_service ''h1''), n) \<in> set ca \<and> 11000 \<le> unat n * 1000"
    unfolding d by (simp add: resolve_def demo_relay_def relay_new_def demo_relay_env_def)
  then show ?thesis using a by blast
qed

text \<open>
  After a successful initialization a group has the IDs of its flows in the order of the
  configuration, all IDs are different, and the phase offset of a slate flow is its position.
\<close>

theorem flows_catalogued:
  assumes "relay_fresh r"
    and "create_flows E cb lb ident fs aggregate (r, conns) st = Some ((True, r', conns'), st')"
  shows "distinct (map fi_id fs) \<and> (\<forall>g. group_ids r' g = map fi_id (filter (\<lambda>f. fi_group f = g) fs)) \<and>
    (\<forall>k<length (group_ids r' (re_slate_group E)). rl_indices r' (group_ids r' (re_slate_group E) ! k) = Some k)"
  using create_flows_ids(1) [OF assms(2)] create_flows_catalogue(1,2) [OF assms] by blast

theorem flows_catalogued_witness:
  "\<exists>r conns st. demo_create False = Some ((True, r, conns), st) \<and> group_ids r 4 = [1, 2] \<and> rl_indices r 2 = Some 1"
proof -
  obtain r conns st where c: "demo_create False = Some ((True, r, conns), st)" using demo_created by meson
  have p: "\<forall>g. group_ids r g = map fi_id (filter (\<lambda>f. fi_group f = g) [demo_gated_info, demo_switched_info])"
    "\<forall>k<length (group_ids r (re_slate_group demo_relay_env)).
       rl_indices r (group_ids r (re_slate_group demo_relay_env) ! k) = Some k"
    using flows_catalogued [OF demo_relay_fresh c [unfolded demo_create_def]] by blast+
  have "group_ids r 4 = [1, 2]" using p(1) by (simp add: demo_gated_info_def demo_switched_info_def)
  moreover from this have "rl_indices r ([1, 2] ! 1) = Some 1"
    using spec [OF p(2), of 1] by (simp add: demo_relay_env_def)
  ultimately show ?thesis using c by (simp del: split_paired_Ex)
qed

end
