(* ===== verification/Telem_Relay.thy ===== *)
theory Telem_Relay
  imports Telem_Flows
begin

text \<open>
  The life of a telemetry relay (\<^verbatim>\<open>TelemetryRelay.cc\<close>): it is initialized from a configuration, its
  flows are claimed by writers, it is finalized when all are, and then it is dispatched.

  Outside the repository are the writers, the producers and the flow objects: whether a writer has a
  consumer already and accepts one are arguments of \<open>claim\<close>, what a dispatch of a producer or a flow
  does to the world \<open>'z\<close> and the wake-up time it returns are arguments of \<open>relay_dispatch\<close>. So are
  the parsing of addresses, the smoke test that claims flow IDs, and the copy of the node's identity.
\<close>

section \<open>Initialization\<close>

type_synonym ('id, 'h, 'p, 'w) relay_state = "('id, 'h, 'p) relay_conns \<times> ('id, 'w) bstate"

text \<open>\<open>init_internal\<close> of the run-time part.\<close>

definition runtime_init_internal ::
  "('id, 'pm, 'v, 'q, 'e, 'w, 'h) relay_env \<Rightarrow> ('q, 'e) builder \<Rightarrow> ('q, 'e) builder \<Rightarrow> node_ident \<Rightarrow> flow_info list \<Rightarrow>
   bool \<Rightarrow> ('id, 'h, 'p, 'w) relay_state \<Rightarrow> (bool \<times> ('id, 'h, 'p, 'w) relay_state) option" where
  "runtime_init_internal E cb lb ident flows aggregate s =
     (case s of ((r, conns), st) \<Rightarrow>
        if rl_initialized r then Some (False, s)
        else
          (case sub_slate_at (re_builder E) (rl_name r) cb of None \<Rightarrow> None | Some cb' \<Rightarrow>
          (case sub_slate_at (re_builder E) (rl_name r) lb of None \<Rightarrow> None | Some lb' \<Rightarrow>
          (case create_flows E cb' lb' ident flows aggregate (r, conns) st of
             None \<Rightarrow> None
           | Some ((False, x), st') \<Rightarrow> Some (False, x, st')
           | Some ((True, r', conns'), st') \<Rightarrow> Some (True, (r'\<lparr>rl_initialized := True\<rparr>, conns'), st')))))"

text \<open>
  \<open>init_internal\<close> of \<^verbatim>\<open>TelemetryRelay\<close>, which overrides it: a new control part, in the nonsync
  shard, and then the run-time part. The validators of the control part are kept with the state.
\<close>

type_synonym validators = "(int \<rightharpoonup> bool list) option"

definition full_init_internal ::
  "('id, 'pm, 'v, 'q, 'e, 'w, 'h) relay_env \<Rightarrow> ('q, 'e) builder \<Rightarrow> ('q, 'e) builder \<Rightarrow> node_ident \<Rightarrow> flow_info list \<Rightarrow>
   bool \<Rightarrow> validators \<times> ('id, 'h, 'p, 'w) relay_state \<Rightarrow> (bool \<times> validators \<times> ('id, 'h, 'p, 'w) relay_state) option" where
  "full_init_internal E cb lb ident flows aggregate s =
     (case s of (control, (r, conns), st) \<Rightarrow>
        (case control_init_internal E (rl_name r) cb flows False (Map.empty, st) of
           None \<Rightarrow> None
         | Some (False, validators, st') \<Rightarrow> Some (False, Some validators, (r, conns), st')
         | Some (True, validators, st') \<Rightarrow>
             map_option (\<lambda>(ok, s'). (ok, Some validators, s'))
               (runtime_init_internal E cb lb ident flows aggregate ((r, conns), st'))))"

text \<open>
  \<open>init\<close> from lines. The virtual \<open>init_internal\<close> works on the fields \<open>'k\<close> of the derived class and
  on the state; \<open>copy_ident\<close> is \<^verbatim>\<open>NodeIdentity::init\<close>.
\<close>

type_synonym ('k, 'id, 'h, 'p, 'w) internal_init =
  "flow_info list \<Rightarrow> 'k \<times> ('id, 'h, 'p, 'w) relay_state \<Rightarrow> (bool \<times> 'k \<times> ('id, 'h, 'p, 'w) relay_state) option"

definition relay_init ::
  "telem_env \<Rightarrow> (node_ident \<Rightarrow> node_ident option) \<Rightarrow> ('k, 'id, 'h, 'p, 'w) internal_init \<Rightarrow>
   node_ident \<Rightarrow> string list list \<Rightarrow> u32 set \<Rightarrow> 'k \<times> ('id, 'h, 'p, 'w) relay_state \<Rightarrow>
   (bool \<times> 'k \<times> ('id, 'h, 'p, 'w) relay_state) option" where
  "relay_init T copy_ident init_internal ident lines muxed_groups s =
     (case s of (k, (r, conns), st) \<Rightarrow>
        if rl_initialized r then Some (False, s)
        else
          let r1 = r\<lparr>rl_muxed := muxed_groups\<rparr> in
          (case runtime_parse_file T (ni_string ident) (rl_muxed r1) lines [] of
             (False, _) \<Rightarrow> Some (False, k, (r1, conns), st)
           | (True, flows) \<Rightarrow>
               (case init_internal flows (k, (r1, conns), st) of
                  None \<Rightarrow> None
                | Some (False, s') \<Rightarrow> Some (False, s')
                | Some (True, k2, (r2, conns2), st2) \<Rightarrow>
                    (case copy_ident ident of
                       None \<Rightarrow> Some (False, k2, (r2, conns2), st2)
                     | Some i \<Rightarrow> Some (True, k2, (r2\<lparr>rl_ident := i\<rparr>, conns2), st2)))))"

text \<open>\<open>init\<close> from a configuration file: \<open>config\<close> is its lines, when it is found and read.\<close>

definition relay_init_config ::
  "telem_env \<Rightarrow> (node_ident \<Rightarrow> node_ident option) \<Rightarrow> ('k, 'id, 'h, 'p, 'w) internal_init \<Rightarrow>
   node_ident \<Rightarrow> string list list option \<Rightarrow> u32 set \<Rightarrow> 'k \<times> ('id, 'h, 'p, 'w) relay_state \<Rightarrow>
   (bool \<times> 'k \<times> ('id, 'h, 'p, 'w) relay_state) option" where
  "relay_init_config T copy_ident init_internal ident config muxed_groups s =
     (if rl_initialized (fst (fst (snd s))) then Some (False, s)
      else
        (case config of
           None \<Rightarrow> Some (False, s)
         | Some lines \<Rightarrow> relay_init T copy_ident init_internal ident lines muxed_groups s))"

text \<open>The two classes, initialized from lines.\<close>

definition runtime_init ::
  "('id, 'pm, 'v, 'q, 'e, 'w, 'h) relay_env \<Rightarrow> (node_ident \<Rightarrow> node_ident option) \<Rightarrow> ('q, 'e) builder \<Rightarrow> ('q, 'e) builder \<Rightarrow>
   node_ident \<Rightarrow> string list list \<Rightarrow> u32 set \<Rightarrow> bool \<Rightarrow> unit \<times> ('id, 'h, 'p, 'w) relay_state \<Rightarrow>
   (bool \<times> unit \<times> ('id, 'h, 'p, 'w) relay_state) option" where
  "runtime_init E copy_ident cb lb ident lines muxed_groups aggregate s =
     relay_init (re_telem E) copy_ident
       (\<lambda>flows s. map_option (\<lambda>(ok, s'). (ok, (), s')) (runtime_init_internal E cb lb ident flows aggregate (snd s)))
       ident lines muxed_groups s"

definition full_init ::
  "('id, 'pm, 'v, 'q, 'e, 'w, 'h) relay_env \<Rightarrow> (node_ident \<Rightarrow> node_ident option) \<Rightarrow> ('q, 'e) builder \<Rightarrow> node_ident \<Rightarrow>
   string list list \<Rightarrow> u32 set \<Rightarrow> validators \<times> ('id, 'h, 'p, 'w) relay_state \<Rightarrow>
   (bool \<times> validators \<times> ('id, 'h, 'p, 'w) relay_state) option" where
  "full_init E copy_ident b ident lines muxed_groups s =
     relay_init (re_telem E) copy_ident (\<lambda>flows. full_init_internal E b b ident flows False) ident lines muxed_groups s"

section \<open>Before initialization\<close>

text \<open>\<open>parse_address\<close> is \<^verbatim>\<open>string_to_address\<close> with the default port of vehicles.\<close>

definition override_addresses ::
  "u32 \<Rightarrow> (string \<Rightarrow> (string \<times> 16 word) option) \<Rightarrow> string \<Rightarrow> ('id, 'h, 'p) relay \<Rightarrow> bool \<times> ('id, 'h, 'p) relay" where
  "override_addresses udp parse_address host_port r =
     (if rl_initialized r then (False, r)
      else if rl_finalized r then (False, r)
      else if sv_host (rl_override r) \<noteq> [] then (False, r)
      else
        (case parse_address host_port of
           None \<Rightarrow> (False, r)
         | Some (host, port) \<Rightarrow> (True, r\<lparr>rl_override := \<lparr>sv_host = host, sv_port = port, sv_proto = udp\<rparr>\<rparr>)))"

definition redirect_service :: "string \<Rightarrow> 'h option \<Rightarrow> ('id, 'h, 'p) relay \<Rightarrow> bool \<times> ('id, 'h, 'p) relay" where
  "redirect_service name connection r =
     (if rl_initialized r then (False, r)
      else if rl_finalized r then (False, r)
      else
        (case connection of
           None \<Rightarrow> (False, r)
         | Some h \<Rightarrow>
             if \<not> rl_redirects r name = None then (False, r)
             else (True, r\<lparr>rl_redirects := (rl_redirects r)(name \<mapsto> h)\<rparr>)))"

section \<open>Between initialization and finalization\<close>

definition get_ids :: "u32 \<Rightarrow> ('id, 'h, 'p) relay \<Rightarrow> int list option" where
  "get_ids members r =
     (if \<not> rl_initialized r then None
      else if rl_finalized r then None
      else (case map_of (rl_ids r) members of Some is \<Rightarrow> Some is | None \<Rightarrow> Some []))"

definition get_flow_info :: "int \<Rightarrow> ('id, 'h, 'p) relay \<Rightarrow> flow_info option" where
  "get_flow_info i r =
     (if \<not> rl_initialized r then None else if rl_finalized r then None else rl_infos r i)"

definition get_flow :: "int \<Rightarrow> ('id, 'h, 'p) relay \<Rightarrow> ('id, 'h) relay_flow option" where
  "get_flow i r = (if \<not> rl_initialized r then None else map_of (rl_flows r) i)"

text \<open>
  A writer is described by whether it has a consumer already and whether it accepts the flow. The
  result has the flow's description and phase offset. \<open>blank\<close> and \<open>0\<close> are what \<^verbatim>\<open>operator[]\<close> makes
  of a missing entry.
\<close>

definition claim ::
  "u32 \<Rightarrow> flow_info \<Rightarrow> int \<Rightarrow> bool \<Rightarrow> (('id, 'h) relay_flow \<Rightarrow> bool) \<Rightarrow> ('id, 'h, 'p) relay \<Rightarrow>
   (flow_info \<times> nat) option \<times> ('id, 'h, 'p) relay" where
  "claim slate_group blank i writer_good accepts r =
     (if \<not> rl_initialized r then (None, r)
      else if rl_finalized r then (None, r)
      else if writer_good then (None, r)
      else if i \<in> rl_claimed r then (None, r)
      else
        let r1 = r\<lparr>rl_claimed := insert i (rl_claimed r)\<rparr> in
        (case get_flow i r1 of
           None \<Rightarrow> (None, r1)
         | Some rf \<Rightarrow>
             if \<not> accepts rf then (None, r1)
             else
               let info = (case rl_infos r1 i of None \<Rightarrow> blank | Some f \<Rightarrow> f);
                   phase = (if fi_group info = slate_group
                            then (case rl_indices r1 i of None \<Rightarrow> 0 | Some k \<Rightarrow> k) else 0)
               in (Some (info, phase), r1)))"

definition add_producer :: "'p option \<Rightarrow> ('id, 'h, 'p) relay \<Rightarrow> bool \<times> ('id, 'h, 'p) relay" where
  "add_producer producer r =
     (if rl_finalized r then (False, r)
      else
        (case producer of
           None \<Rightarrow> (False, r)
         | Some p \<Rightarrow> (True, r\<lparr>rl_producers := rl_producers r @ [p]\<rparr>)))"

text \<open>The claims in the smoke test: the loop stops at the first that is refused.\<close>

fun smoke_claims :: "(string \<Rightarrow> int \<Rightarrow> 'z \<Rightarrow> bool \<times> 'z) \<Rightarrow> string \<Rightarrow> int list \<Rightarrow> 'z \<Rightarrow> bool \<times> 'z" where
  "smoke_claims claim_flow_id node [] z = (True, z)"
| "smoke_claims claim_flow_id node (i # is) z =
     (case claim_flow_id node i z of (ok, z') \<Rightarrow> if \<not> ok then (False, z') else smoke_claims claim_flow_id node is z')"

definition finalize_relay ::
  "(string \<Rightarrow> int \<Rightarrow> 'z \<Rightarrow> bool \<times> 'z) \<Rightarrow> ('id, 'h, 'p) relay \<Rightarrow> 'z \<Rightarrow> bool \<times> ('id, 'h, 'p) relay \<times> 'z" where
  "finalize_relay claim_flow_id r z =
     (if \<not> rl_initialized r then (False, r, z)
      else if rl_finalized r then (False, r, z)
      else if \<not> list_all (\<lambda>(members, is). list_all (\<lambda>i. i \<in> rl_claimed r) is) (rl_ids r) then (False, r, z)
      else
        (case smoke_claims claim_flow_id (ni_node_name (rl_ident r)) (sorted_list_of_set (rl_claimed r)) z of
           (ok, z') \<Rightarrow> if \<not> ok then (False, r, z') else (True, r\<lparr>rl_finalized := True\<rparr>, z')))"

section \<open>Dispatch\<close>

text \<open>A loop of dispatches: the earliest wake-up time so far, as signed nanoseconds, and the world.\<close>

fun dispatch_all :: "('o \<Rightarrow> 'z \<Rightarrow> nano \<times> 'z) \<Rightarrow> 'o list \<Rightarrow> nano \<times> 'z \<Rightarrow> nano \<times> 'z" where
  "dispatch_all d [] s = s"
| "dispatch_all d (x # xs) (wakeup, z) =
     (case d x z of (t, z') \<Rightarrow> dispatch_all d xs (min_nano t wakeup, z'))"

text \<open>The time stamp is divided as an unsigned number: the constant 1000 is a \<^verbatim>\<open>uint64_t\<close>.\<close>

definition telemetry_time :: "nano \<Rightarrow> nano" where
  "telemetry_time now = (now div 1000) * 1000"

definition relay_dispatch ::
  "('p \<Rightarrow> nano \<Rightarrow> nano \<Rightarrow> 'z \<Rightarrow> nano \<times> 'z) \<Rightarrow> (('id, 'h) relay_flow \<Rightarrow> nano \<Rightarrow> 'z \<Rightarrow> nano \<times> 'z) \<Rightarrow>
   nano \<Rightarrow> nano \<Rightarrow> ('id, 'h, 'p) relay \<Rightarrow> 'z \<Rightarrow> nano \<times> 'z" where
  "relay_dispatch produce consume now control_time r z =
     (if \<not> rl_initialized r then (nano_max, z)
      else if \<not> rl_finalized r then (nano_max, z)
      else dispatch_all (\<lambda>rf. consume rf control_time) (map snd (rl_flows r))
             (dispatch_all (\<lambda>p. produce p control_time (telemetry_time now)) (rl_producers r) (nano_max, z)))"

text \<open>\<^verbatim>\<open>TelemetryRelay::dispatch\<close>, whose control part does nothing.\<close>

definition full_dispatch ::
  "('p \<Rightarrow> nano \<Rightarrow> nano \<Rightarrow> 'z \<Rightarrow> nano \<times> 'z) \<Rightarrow> (('id, 'h) relay_flow \<Rightarrow> nano \<Rightarrow> 'z \<Rightarrow> nano \<times> 'z) \<Rightarrow>
   nano \<Rightarrow> nano \<Rightarrow> validators \<Rightarrow> ('id, 'h, 'p) relay \<Rightarrow> 'z \<Rightarrow> nano \<times> 'z" where
  "full_dispatch produce consume now control_time control r z =
     (if control = None then (nano_max, z) else relay_dispatch produce consume now control_time r z)"

section \<open>What initialization leaves alone\<close>

definition same_life :: "('id, 'h, 'p) relay \<Rightarrow> ('id, 'h, 'p) relay \<Rightarrow> bool" where
  "same_life r r' \<longleftrightarrow> rl_initialized r' = rl_initialized r \<and> rl_finalized r' = rl_finalized r \<and> rl_claimed r' = rl_claimed r"

lemma same_life_refl [simp]: "same_life r r"
  by (simp add: same_life_def)

lemma same_life_trans: "same_life r r' \<Longrightarrow> same_life r' r'' \<Longrightarrow> same_life r r''"
  by (simp add: same_life_def)

lemma same_life_flows [simp]: "same_life r (r'\<lparr>rl_flows := fl\<rparr>) \<longleftrightarrow> same_life r r'"
  by (simp add: same_life_def)

lemma with_local_inv:
  assumes "with_local I ctx body st = Some (x, st')" and "\<And>t st y t' st'. body t st = Some (y, t', st') \<Longrightarrow> P y"
  shows "P x"
  by (rule with_local_elim [OF assms(1)]) (rule assms(2))

lemma note_flow_life: "note_flow E f r = (ok, r') \<Longrightarrow> same_life r r'"
  by (auto simp: note_flow_def Let_def same_life_def split: if_splits)

lemma tally_flow_life: "same_life r (tally_flow i n qs r)"
  by (simp add: same_life_def tally_flow_fields)

lemma finish_flow_life:
  assumes "finish_flow E lb ident aggregate f t u (r, conns) st = Some ((ok, r', conns'), st')"
  shows "same_life r r'"
proof (cases "(ok, aggregate)")
  case (Pair b c)
  show ?thesis
    using assms tally_flow_life [of r "fi_id f" "flow_buffer E f" "flow_requests f"]
    by (auto simp: finish_flow_def Let_def split: option.splits prod.splits bool.splits if_splits)
qed

lemma create_flow_life:
  assumes "create_flow E cb lb ident aggregate de da f x st = Some ((ok, x'), st')"
  shows "same_life (fst x) (fst x')"
proof (cases "note_flow E f (fst x)")
  case (Pair ok1 r)
  have life: "same_life (fst x) r" by (rule note_flow_life [OF Pair])
  show ?thesis
  proof (cases ok1)
    case False
    then show ?thesis using assms life by (auto simp: create_flow_def Pair)
  next
    case True
    with Pair have n: "note_flow E f (fst x) = (True, r)" by simp
    let ?P = "\<lambda>y. same_life (fst x) (fst (snd y))"
    have fin: "?P y" if "finish_flow E lb ident aggregate f t u (r, snd x) s = Some (y, s')" for t u s y s'
    proof -
      obtain b r1 c1 where y: "y = (b, r1, c1)" by (metis surj_pair)
      show ?thesis using same_life_trans [OF life finish_flow_life [OF that [unfolded y]]] by (simp add: y)
    qed
    have inner: "?P y" if "with_local (re_ids E) (re_ctx E)
                       (\<lambda>u st. case bind_switch E cb f da u st of
                           None \<Rightarrow> None
                         | Some (False, u', st') \<Rightarrow> Some ((False, r, snd x), u', st')
                         | Some (True, u', st') \<Rightarrow>
                             map_option (\<lambda>(y, st''). (y, u', st''))
                               (finish_flow E lb ident aggregate f t' u' (r, snd x) st')) s = Some (y, s')" for t' s y s'
      by (rule with_local_inv [where P = ?P, OF that]) (auto simp: life dest: fin split: option.splits prod.splits bool.splits)
    have "?P (ok, x')"
      using assms unfolding create_flow_def n prod.case bool.case
      by (rule with_local_inv [where P = ?P]) (auto simp: life dest: inner split: option.splits prod.splits bool.splits)
    then show ?thesis by simp
  qed
qed

lemma create_each_life:
  "create_each E cb lb ident aggregate de da fs x st = Some ((ok, x'), st') \<Longrightarrow> same_life (fst x) (fst x')"
proof (induction fs arbitrary: x st)
  case Nil
  then show ?case by simp
next
  case (Cons f fs)
  then obtain b x1 st1 where one: "create_flow E cb lb ident aggregate de da f x st = Some ((b, x1), st1)"
    by (cases "create_flow E cb lb ident aggregate de da f x st") auto
  note life = create_flow_life [OF one]
  show ?case
  proof (cases b)
    case True
    then have "create_each E cb lb ident aggregate de da fs x1 st1 = Some ((ok, x'), st')" using Cons.prems one by simp
    from same_life_trans [OF life Cons.IH [OF this]] show ?thesis .
  next
    case False
    then show ?thesis using Cons.prems one life by simp
  qed
qed

lemma aggregate_each_life:
  "aggregate_each E ds (r, conns) = Some (ok, r', conns') \<Longrightarrow> same_life r r'"
proof (induction ds arbitrary: r conns)
  case Nil
  then show ?case by simp
next
  case (Cons d ds)
  obtain host n where d: "d = (host, n)" by (cases d)
  show ?case
  proof (cases "relay_get_connection E r host n conns")
    case None
    then show ?thesis using Cons.prems by (simp add: d)
  next
    case (Some wc)
    obtain w conns1 where wc: "wc = (w, conns1)" by (cases wc)
    obtain b flows where h: "hand_out E w (wanting r host) (rl_flows r) = Some (b, flows)"
      using Cons.prems Some by (cases "hand_out E w (wanting r host) (rl_flows r)") (auto simp: d wc)
    show ?thesis
    proof (cases b)
      case True
      then have "aggregate_each E ds (r\<lparr>rl_flows := flows\<rparr>, conns1) = Some (ok, r', conns')"
        using Cons.prems Some h by (simp add: d wc)
      from Cons.IH [OF this] show ?thesis by (simp add: same_life_def)
    next
      case False
      then show ?thesis using Cons.prems Some h by (auto simp: d wc)
    qed
  qed
qed

lemma create_flows_life:
  assumes "create_flows E cb lb ident fs aggregate x st = Some ((ok, x'), st')"
  shows "same_life (fst x) (fst x')"
proof -
  let ?P = "\<lambda>y. same_life (fst x) (fst (snd y))"
  let ?tail = "\<lambda>t' u' st'. (case create_each E cb lb ident aggregate t' u' fs x st' of
                           None \<Rightarrow> None
                         | Some ((False, x'), st'') \<Rightarrow> Some ((False, x'), u', st'')
                         | Some ((True, x'), st'') \<Rightarrow>
                             if aggregate
                             then map_option (\<lambda>y. (y, u', st'')) (aggregate_each E (rl_buffers (fst x')) x')
                             else Some ((True, x'), u', st''))"
  have tail: "?P y" if tl: "?tail t' u' st' = Some (y, u'', st'')" for t' u' st' y u'' st''
  proof -
    obtain b x1 st1 where e: "create_each E cb lb ident aggregate t' u' fs x st' = Some ((b, x1), st1)"
      using tl by (cases "create_each E cb lb ident aggregate t' u' fs x st'") auto
    obtain r1 c1 where x1: "x1 = (r1, c1)" by (cases x1)
    obtain b2 r2 c2 where y: "y = (b2, r2, c2)" by (metis surj_pair)
    note life = create_each_life [OF e]
    show ?thesis
    proof (cases "b \<and> aggregate")
      case True
      then have "aggregate_each E (rl_buffers r1) (r1, c1) = Some (b2, r2, c2)" using tl e by (auto simp: x1 y)
      from same_life_trans [OF life [unfolded x1 fst_conv] aggregate_each_life [OF this]] show ?thesis by (simp add: y)
    next
      case False
      then show ?thesis using tl e life by (cases b) auto
    qed
  qed
  have inner: "?P y" if "with_local (re_ids E) (re_ctx E)
                  (\<lambda>u st. case bind (re_builder E) cb read_kind (su_types (re_setup E) T_uint8) ''default_destination'' u st of
                      None \<Rightarrow> None
                    | Some (False, u', st') \<Rightarrow> Some ((False, x), u', st')
                    | Some (True, u', st') \<Rightarrow> ?tail t' u' st') s = Some (y, s')" for t' s y s'
  proof (rule with_local_inv [where P = ?P, OF that])
    fix u st y u2 st2
    assume b: "(case bind (re_builder E) cb read_kind (su_types (re_setup E) T_uint8) ''default_destination'' u st of
                      None \<Rightarrow> None
                    | Some (False, u', st') \<Rightarrow> Some ((False, x), u', st')
                    | Some (True, u', st') \<Rightarrow> ?tail t' u' st') = Some (y, u2, st2)"
    show "?P y"
    proof (cases "bind (re_builder E) cb read_kind (su_types (re_setup E) T_uint8) ''default_destination'' u st")
      case None
      then show ?thesis using b by simp
    next
      case (Some z)
      obtain ok' u' st' where z: "z = (ok', u', st')" by (metis surj_pair)
      show ?thesis
      proof (cases ok')
        case True
        then show ?thesis using b tail [of u' t' st' y u2 st2] unfolding Some z by simp
      next
        case False
        then show ?thesis using b unfolding Some z by auto
      qed
    qed
  qed
  have "?P (ok, x')"
    using assms unfolding create_flows_def
  proof (rule with_local_inv [where P = ?P])
    fix t st y t2 st2
    assume b: "(case bind (re_builder E) cb read_kind (su_types (re_setup E) T_bool) ''always_enabled'' t st of
           None \<Rightarrow> None
         | Some (False, t', st') \<Rightarrow> Some ((False, x), t', st')
         | Some (True, t', st') \<Rightarrow>
             map_option (\<lambda>(y, st''). (y, t', st''))
               (with_local (re_ids E) (re_ctx E)
                  (\<lambda>u st. case bind (re_builder E) cb read_kind (su_types (re_setup E) T_uint8) ''default_destination'' u st of
                      None \<Rightarrow> None
                    | Some (False, u', st') \<Rightarrow> Some ((False, x), u', st')
                    | Some (True, u', st') \<Rightarrow> ?tail t' u' st') st')) = Some (y, t2, st2)"
    show "?P y"
    proof (cases "bind (re_builder E) cb read_kind (su_types (re_setup E) T_bool) ''always_enabled'' t st")
      case None
      then show ?thesis using b by simp
    next
      case (Some z)
      obtain ok' t' st' where z: "z = (ok', t', st')" by (metis surj_pair)
      show ?thesis
      proof (cases ok')
        case True
        then show ?thesis using b inner [of t' st' y] unfolding Some z by auto
      next
        case False
        then show ?thesis using b unfolding Some z by auto
      qed
    qed
  qed
  then show ?thesis by simp
qed

lemma runtime_init_internal_life:
  assumes "runtime_init_internal E cb lb ident flows aggregate ((r, conns), st) = Some (ok, (r', conns'), st')"
  shows "rl_finalized r' = rl_finalized r \<and> rl_claimed r' = rl_claimed r \<and> (rl_initialized r \<longrightarrow> r' = r)"
proof (cases "rl_initialized r")
  case True
  then show ?thesis using assms by (simp add: runtime_init_internal_def)
next
  case False
  obtain cb' lb' b r1 c1 st1 where c: "create_flows E cb' lb' ident flows aggregate (r, conns) st = Some ((b, r1, c1), st1)"
    and r': "r' = (if b then r1\<lparr>rl_initialized := True\<rparr> else r1)"
    using assms False by (auto simp: runtime_init_internal_def split: option.splits prod.splits bool.splits)
  show ?thesis using create_flows_life [OF c] False by (simp add: r' same_life_def)
qed

lemma relay_init_life:
  assumes "relay_init T copy_ident internal ident lines muxed (k, (r, conns), st) = Some (ok, k', (r', conns'), st')"
    and "\<And>flows k r conns st ok k' r' conns' st'. internal flows (k, (r, conns), st) = Some (ok, k', (r', conns'), st') \<Longrightarrow>
      rl_finalized r' = rl_finalized r \<and> rl_claimed r' = rl_claimed r"
  shows "rl_finalized r' = rl_finalized r \<and> rl_claimed r' = rl_claimed r \<and> (rl_initialized r \<longrightarrow> r' = r)"
proof (cases "rl_initialized r")
  case True
  then show ?thesis using assms(1) by (simp add: relay_init_def)
next
  case False
  let ?r1 = "r\<lparr>rl_muxed := muxed\<rparr>"
  obtain b flows where p: "runtime_parse_file T (ni_string ident) muxed lines [] = (b, flows)" by (metis surj_pair)
  show ?thesis
  proof (cases b)
    case False
    then show ?thesis using assms(1) \<open>\<not> rl_initialized r\<close> p by (auto simp: relay_init_def)
  next
    case True
    obtain b2 k2 r2 c2 st2 where i: "internal flows (k, (?r1, conns), st) = Some (b2, k2, (r2, c2), st2)"
      using assms(1) False p True
      by (cases "internal flows (k, (?r1, conns), st)") (auto simp: relay_init_def)
    have "rl_finalized r' = rl_finalized r2 \<and> rl_claimed r' = rl_claimed r2"
      using assms(1) False p True i
      by (cases b2) (auto simp: relay_init_def split: option.splits)
    then show ?thesis using assms(2) [OF i] False by simp
  qed
qed

lemma runtime_init_life:
  assumes "runtime_init E copy_ident cb lb ident lines muxed aggregate ((), (r, conns), st) = Some (ok, (), (r', conns'), st')"
  shows "rl_finalized r' = rl_finalized r \<and> rl_claimed r' = rl_claimed r \<and> (rl_initialized r \<longrightarrow> r' = r)"
  using assms unfolding runtime_init_def
  by (rule relay_init_life) (use runtime_init_internal_life in fastforce)

lemma full_init_internal_life:
  assumes "full_init_internal E cb lb ident flows aggregate (k, (r, conns), st) = Some (ok, k', (r', conns'), st')"
  shows "rl_finalized r' = rl_finalized r \<and> rl_claimed r' = rl_claimed r"
proof -
  obtain b v st1 where c: "control_init_internal E (rl_name r) cb flows False (Map.empty, st) = Some (b, v, st1)"
    using assms by (cases "control_init_internal E (rl_name r) cb flows False (Map.empty, st)")
      (auto simp: full_init_internal_def)
  show ?thesis
  proof (cases b)
    case True
    then have "runtime_init_internal E cb lb ident flows aggregate ((r, conns), st1) = Some (ok, (r', conns'), st')"
      using assms c by (auto simp: full_init_internal_def)
    from runtime_init_internal_life [OF this] show ?thesis by blast
  next
    case False
    then show ?thesis using assms c by (auto simp: full_init_internal_def)
  qed
qed

lemma full_init_life:
  assumes "full_init E copy_ident b ident lines muxed (k, (r, conns), st) = Some (ok, k', (r', conns'), st')"
  shows "rl_finalized r' = rl_finalized r \<and> rl_claimed r' = rl_claimed r \<and> (rl_initialized r \<longrightarrow> r' = r)"
  using assms unfolding full_init_def
  by (rule relay_init_life) (rule full_init_internal_life)

section \<open>Steps\<close>

text \<open>
  Everything that is done to a relay. The world of the smoke test is a list of answers, which is any
  world as far as the relay can see.
\<close>

inductive relay_step :: "('id, 'pm, 'v, 'q, 'e, 'w, 'h) relay_env \<Rightarrow> ('id, 'h, 'p) relay \<Rightarrow> ('id, 'h, 'p) relay \<Rightarrow> bool"
  for E where
  init: "runtime_init E copy_ident cb lb ident lines muxed aggregate ((), (r, conns), st) = Some (ok, (), (r', conns'), st') \<Longrightarrow>
    relay_step E r r'"
| init_full: "full_init E copy_ident b ident lines muxed (k, (r, conns), st) = Some (ok, k', (r', conns'), st') \<Longrightarrow>
    relay_step E r r'"
| override: "relay_step E r (snd (override_addresses udp parse_address host_port r))"
| redirect: "relay_step E r (snd (redirect_service name connection r))"
| claim: "relay_step E r (snd (claim slate_group blank i writer_good accepts r))"
| producer: "relay_step E r (snd (add_producer p r))"
| finish: "finalize_relay claim_flow_id r (answers :: bool list) = (ok, r', answers') \<Longrightarrow> relay_step E r r'"

lemma claim_life:
  assumes "claim slate_group blank i writer_good accepts r = (res, r')"
  shows "rl_initialized r' = rl_initialized r" and "rl_finalized r' = rl_finalized r" and "rl_ids r' = rl_ids r"
    and "rl_claimed r \<subseteq> rl_claimed r'" and "res \<noteq> None \<Longrightarrow> rl_initialized r \<and> i \<in> rl_claimed r'"
  using assms by (auto simp: claim_def Let_def split: if_splits option.splits)

lemma finalize_life:
  assumes "finalize_relay claim_flow_id r z = (ok, r', z')"
  shows "rl_initialized r' = rl_initialized r" and "rl_ids r' = rl_ids r" and "rl_claimed r' = rl_claimed r"
    and "rl_finalized r' \<Longrightarrow> rl_finalized r \<or>
      rl_initialized r \<and> list_all (\<lambda>(members, is). list_all (\<lambda>i. i \<in> rl_claimed r) is) (rl_ids r)"
  using assms by (auto simp: finalize_relay_def split: if_splits prod.splits)

lemmas setter_defs = override_addresses_def redirect_service_def add_producer_def

lemma setters_life:
  "rl_initialized (snd (override_addresses udp parse_address host_port r)) = rl_initialized r"
  "rl_finalized (snd (override_addresses udp parse_address host_port r)) = rl_finalized r"
  "rl_claimed (snd (override_addresses udp parse_address host_port r)) = rl_claimed r"
  "rl_ids (snd (override_addresses udp parse_address host_port r)) = rl_ids r"
  "rl_initialized (snd (redirect_service name connection r)) = rl_initialized r"
  "rl_finalized (snd (redirect_service name connection r)) = rl_finalized r"
  "rl_claimed (snd (redirect_service name connection r)) = rl_claimed r"
  "rl_ids (snd (redirect_service name connection r)) = rl_ids r"
  "rl_initialized (snd (add_producer p r)) = rl_initialized r"
  "rl_finalized (snd (add_producer p r)) = rl_finalized r"
  "rl_claimed (snd (add_producer p r)) = rl_claimed r"
  "rl_ids (snd (add_producer p r)) = rl_ids r"
  by (simp_all add: setter_defs split: option.split)

lemma relay_step_claimed: "relay_step E r r' \<Longrightarrow> rl_claimed r \<subseteq> rl_claimed r'"
proof (induction rule: relay_step.induct)
  case (claim r slate_group blank i writer_good accepts)
  then show ?case
    by (cases "claim slate_group blank i writer_good accepts r") (simp add: claim_life(4))
next
  case (finish claim_flow_id r answers ok r' answers')
  then show ?case using finalize_life(3) [OF finish] by simp
qed (auto simp: setters_life dest: runtime_init_life full_init_life)

text \<open>A finalized relay is initialized, and every flow it lists is claimed.\<close>

definition relay_inv :: "('id, 'h, 'p) relay \<Rightarrow> bool" where
  "relay_inv r \<longleftrightarrow> rl_finalized r \<longrightarrow>
     rl_initialized r \<and> list_all (\<lambda>(members, is). list_all (\<lambda>i. i \<in> rl_claimed r) is) (rl_ids r)"

lemma relay_inv_mono:
  assumes "relay_inv r" and "rl_initialized r' = rl_initialized r" and "rl_finalized r' = rl_finalized r"
    and "rl_ids r' = rl_ids r" and "rl_claimed r \<subseteq> rl_claimed r'"
  shows "relay_inv r'"
  using assms by (fastforce simp: relay_inv_def list_all_iff)

lemma relay_inv_init:
  assumes "relay_inv r" and "rl_finalized r' = rl_finalized r \<and> rl_claimed r' = rl_claimed r \<and> (rl_initialized r \<longrightarrow> r' = r)"
  shows "relay_inv r'"
  using assms by (cases "rl_initialized r") (auto simp: relay_inv_def)

lemma relay_step_inv: "relay_step E r r' \<Longrightarrow> relay_inv r \<Longrightarrow> relay_inv r'"
proof (induction rule: relay_step.induct)
  case (init copy_ident cb lb ident lines muxed aggregate r conns st ok r' conns' st')
  then show ?case using relay_inv_init runtime_init_life by blast
next
  case (init_full copy_ident b ident lines muxed k r conns st ok k' r' conns' st')
  then show ?case using relay_inv_init full_init_life by blast
next
  case (claim r slate_group blank i writer_good accepts)
  obtain res r' where c: "claim slate_group blank i writer_good accepts r = (res, r')"
    by (cases "claim slate_group blank i writer_good accepts r")
  show ?case using relay_inv_mono [OF claim claim_life(1-4) [OF c]] by (simp add: c)
next
  case (finish claim_flow_id r answers ok r' answers')
  then show ?case using finalize_life [OF finish(1)] by (auto simp: relay_inv_def)
qed (auto intro: relay_inv_mono simp: setters_life)

lemma relay_steps_inv: "(relay_step E)\<^sup>*\<^sup>* r r' \<Longrightarrow> relay_inv r \<Longrightarrow> relay_inv r'"
  by (induction rule: rtranclp_induct) (auto intro: relay_step_inv)

lemma relay_steps_claimed: "(relay_step E)\<^sup>*\<^sup>* r r' \<Longrightarrow> rl_claimed r \<subseteq> rl_claimed r'"
  by (induction rule: rtranclp_induct) (auto dest: relay_step_claimed)

text \<open>
  How an ID gets among the claimed ones: one claim on an initialized, unfinalized relay for a writer
  that has no flow yet. It hands the flow out exactly if there is such a flow and the writer accepts it.
\<close>

definition attempt :: "('id, 'pm, 'v, 'q, 'e, 'w, 'h) relay_env \<Rightarrow> int \<Rightarrow> ('id, 'h, 'p) relay \<Rightarrow> ('id, 'h, 'p) relay \<Rightarrow> bool" where
  "attempt E i r r' \<longleftrightarrow>
     (\<exists>slate_group blank accepts res. claim slate_group blank i False accepts r = (res, r') \<and>
        rl_initialized r \<and> \<not> rl_finalized r \<and> i \<notin> rl_claimed r \<and> i \<in> rl_claimed r' \<and>
        (res \<noteq> None \<longleftrightarrow> (case get_flow i r of None \<Rightarrow> False | Some rf \<Rightarrow> accepts rf)))"

lemma attempt_step: "attempt E i r r' \<Longrightarrow> relay_step E r r'"
  unfolding attempt_def by (metis relay_step.claim snd_conv)

lemma claim_attempt:
  assumes "claim slate_group blank j writer_good accepts r = (res, r')" and "i \<in> rl_claimed r'" and "i \<notin> rl_claimed r"
  shows "attempt E i r r'"
proof -
  have "j = i" "\<not> writer_good" "rl_initialized r" "\<not> rl_finalized r"
    using assms by (auto simp: claim_def Let_def split: if_splits option.splits)
  moreover have "res \<noteq> None \<longleftrightarrow> (case get_flow i r of None \<Rightarrow> False | Some rf \<Rightarrow> accepts rf)"
    using assms calculation by (auto simp: claim_def get_flow_def Let_def split: if_splits option.splits)
  moreover have "claim slate_group blank i False accepts r = (res, r')"
    using assms(1) \<open>j = i\<close> \<open>\<not> writer_good\<close> by simp
  ultimately show ?thesis
    unfolding attempt_def using assms(2,3)
    by (intro exI [of _ slate_group] exI [of _ blank] exI [of _ accepts] exI [of _ res] conjI) assumption+
qed

lemma new_claim_is_attempt:
  assumes "relay_step E r r'" and "i \<in> rl_claimed r'" and "i \<notin> rl_claimed r"
  shows "attempt E i r r'"
  using assms
proof (induction rule: relay_step.induct)
  case (init copy_ident cb lb ident lines muxed aggregate r conns st ok r' conns' st')
  then show ?case using runtime_init_life by blast
next
  case (init_full copy_ident b ident lines muxed k r conns st ok k' r' conns' st')
  then show ?case using full_init_life by blast
next
  case (claim r slate_group blank j writer_good accepts)
  then show ?case using claim_attempt by (metis prod.collapse)
next
  case (finish claim_flow_id r answers ok r' answers')
  then show ?case using finalize_life(3) by metis
qed (simp_all add: setters_life)

lemma claimed_by_attempt:
  assumes "(relay_step E)\<^sup>*\<^sup>* r0 r" and "i \<notin> rl_claimed r0" and "i \<in> rl_claimed r"
  shows "\<exists>r1 r2. (relay_step E)\<^sup>*\<^sup>* r0 r1 \<and> attempt E i r1 r2 \<and> (relay_step E)\<^sup>*\<^sup>* r2 r"
  using assms
proof (induction rule: rtranclp_induct)
  case base
  then show ?case by simp
next
  case (step r r')
  show ?case
  proof (cases "i \<in> rl_claimed r")
    case True
    then show ?thesis using step.IH [OF step.prems(1)] step.hyps(2) by (meson rtranclp.rtrancl_into_rtrancl)
  next
    case False
    then show ?thesis using step.hyps(1) new_claim_is_attempt [OF step.hyps(2) step.prems(2)] by blast
  qed
qed

lemma relay_new_inv: "relay_inv (relay_new udp name)"
  by (simp add: relay_inv_def relay_new_def)

text \<open>
  A claim that fails because there is no such flow, or because the writer does not accept it, still
  counts: the flow cannot be claimed again, and finalizing does not notice.
\<close>

lemma failed_claim_counts:
  assumes "rl_initialized r" and "\<not> rl_finalized r" and "i \<notin> rl_claimed r"
    and "map_of (rl_flows r) i = None \<or> (\<forall>rf. \<not> accepts rf)"
  shows "claim slate_group blank i False accepts r = (None, r\<lparr>rl_claimed := insert i (rl_claimed r)\<rparr>)"
  using assms by (auto simp: claim_def get_flow_def Let_def split: option.splits)

section \<open>Wake-up times\<close>

text \<open>The times that the objects of a loop return, in order.\<close>

fun dispatch_times :: "('o \<Rightarrow> 'z \<Rightarrow> nano \<times> 'z) \<Rightarrow> 'o list \<Rightarrow> 'z \<Rightarrow> nano list" where
  "dispatch_times d [] z = []"
| "dispatch_times d (x # xs) z = (case d x z of (t, z') \<Rightarrow> t # dispatch_times d xs z')"

lemma dispatch_all_min:
  "fst (dispatch_all d xs (w, z)) \<le>s w \<and> (\<forall>t\<in>set (dispatch_times d xs z). fst (dispatch_all d xs (w, z)) \<le>s t) \<and>
   fst (dispatch_all d xs (w, z)) \<in> insert w (set (dispatch_times d xs z))"
proof (induction xs arbitrary: w z)
  case Nil
  then show ?case by (simp add: word_sle_eq)
next
  case (Cons x xs)
  obtain t z' where t: "d x z = (t, z')" by (cases "d x z")
  have IH: "fst (dispatch_all d xs (min_nano t w, z')) \<le>s min_nano t w"
    "\<forall>u\<in>set (dispatch_times d xs z'). fst (dispatch_all d xs (min_nano t w, z')) \<le>s u"
    "fst (dispatch_all d xs (min_nano t w, z')) \<in> insert (min_nano t w) (set (dispatch_times d xs z'))"
    using Cons [of "min_nano t w" z'] by blast+
  have "fst (dispatch_all d xs (min_nano t w, z')) \<le>s t" "fst (dispatch_all d xs (min_nano t w, z')) \<le>s w"
    using IH(1) min_nano_le(1,2) [of t w] by (auto simp: word_sle_eq)
  then show ?case using IH(2,3) min_nano_le(3) [of t w] by (auto simp: t)
qed

text \<open>Time stamps are whole microseconds not after the clock; below zero they are not microseconds.\<close>

lemma telemetry_time_micro:
  "unat (telemetry_time now) = unat now - unat now mod 1000" "unat (telemetry_time now) mod 1000 = 0"
proof -
  have "unat (now div 1000) * 1000 \<le> unat now" by (simp add: unat_div_distrib)
  then have lt: "unat (now div 1000) * 1000 < 2 ^ 64"
  proof -
    have "unat now < 2 ^ 64" by (rule order_less_le_trans [OF unsigned_less]) simp
    then show ?thesis using \<open>unat (now div 1000) * 1000 \<le> unat now\<close> by (rule le_less_trans [rotated])
  qed
  then have "unat (telemetry_time now) = unat (now div 1000) * 1000"
    unfolding telemetry_time_def by (subst unat_mult_lem [THEN iffD1]) simp_all
  then show "unat (telemetry_time now) = unat now - unat now mod 1000" "unat (telemetry_time now) mod 1000 = 0"
    by (simp_all add: unat_div_distrib minus_mod_eq_div_mult)
qed

lemma negative_time_stamp: "sint (telemetry_time (- 1)) = - 616"
  by (simp add: telemetry_time_def)

section \<open>From the configuration to the writer\<close>

lemma map_of_flows:
  "distinct (map fi_id fs) \<Longrightarrow> f \<in> set fs \<Longrightarrow> map_of (map (\<lambda>f. (fi_id f, f)) fs) (fi_id f) = Some f"
  by (induction fs) (auto simp: image_iff)

lemma created_flow_exists:
  assumes "relay_fresh r" and "create_flows E cb lb ident fs aggregate (r, conns) st = Some ((True, r', conns'), st')"
    and "f \<in> set fs"
  shows "\<exists>rf. map_of (rl_flows r') (fi_id f) = Some rf"
proof (cases aggregate)
  case True
  with assms(2) have c: "create_flows E cb lb ident fs True (r, conns) st = Some ((True, r', conns'), st')" by simp
  show ?thesis using aggregate_wires [OF assms(1) c assms(3) create_flows_ids(1) [OF c]] by blast
next
  case False
  with assms(2) have c: "create_flows E cb lb ident fs False (r, conns) st = Some ((True, r', conns'), st')" by simp
  show ?thesis using direct_wires [OF c assms(3)] by blast
qed

lemma runtime_init_True:
  assumes "runtime_init E copy_ident cb lb ident lines muxed aggregate ((), (r, conns), st) = Some (True, (), (r', conns'), st')"
  obtains flows cb' lb' r1 i where "\<not> rl_initialized r"
    and "runtime_parse_file (re_telem E) (ni_string ident) muxed lines [] = (True, flows)"
    and "create_flows E cb' lb' ident flows aggregate (r\<lparr>rl_muxed := muxed\<rparr>, conns) st = Some ((True, r1, conns'), st')"
    and "r' = r1\<lparr>rl_initialized := True, rl_ident := i\<rparr>"
proof -
  let ?r1 = "r\<lparr>rl_muxed := muxed\<rparr>"
  have new: "\<not> rl_initialized r"
    using assms by (auto simp: runtime_init_def relay_init_def)
  obtain flows where p: "runtime_parse_file (re_telem E) (ni_string ident) muxed lines [] = (True, flows)"
    using assms new
    by (cases "runtime_parse_file (re_telem E) (ni_string ident) muxed lines []")
      (auto simp: runtime_init_def relay_init_def Let_def split: bool.splits)
  obtain r2 c2 st2 where i: "runtime_init_internal E cb lb ident flows aggregate ((?r1, conns), st) = Some (True, (r2, c2), st2)"
    using assms new p
    by (cases "runtime_init_internal E cb lb ident flows aggregate ((?r1, conns), st)")
      (auto simp: runtime_init_def relay_init_def Let_def split: bool.splits)
  obtain j where "r' = r2\<lparr>rl_ident := j\<rparr>" and c2: "conns' = c2" "st' = st2"
    using assms new p i by (auto simp: runtime_init_def relay_init_def Let_def split: option.splits)
  moreover obtain cb' lb' r3 where "create_flows E cb' lb' ident flows aggregate (?r1, conns) st = Some ((True, r3, c2), st2)"
    and "r2 = r3\<lparr>rl_initialized := True\<rparr>"
    using i new by (auto simp: runtime_init_internal_def split: option.splits prod.splits bool.splits)
  ultimately show ?thesis using that new p c2 by simp
qed

section \<open>An instance\<close>

definition demo_lines :: "string list list" where
  "demo_lines = demo_gated @ demo_switched"

definition demo_init :: "bool \<Rightarrow> (bool \<times> unit \<times> (nat, nat, nat, unit) relay_state) option" where
  "demo_init aggregate = runtime_init demo_relay_env Some demo_root demo_root demo_ident demo_lines {} aggregate
     ((), (demo_relay, []), (), acct_new)"

lemma demo_init_True: "\<exists>r conns st. demo_init aggregate = Some (True, (), (r, conns), st)"
proof -
  have p: "runtime_parse_file demo_telem ''a'' {} demo_lines [] = (True, [demo_gated_info, demo_switched_info])"
    by (simp add: runtime_parse_file_def demo_lines_def demo_files)
  have "map_option fst (runtime_init_internal demo_relay_env demo_root demo_root demo_ident [demo_gated_info, demo_switched_info]
      aggregate ((demo_relay, []), (), acct_new)) = Some True"
    by (cases aggregate) (simp_all only:, code_simp+)
  moreover have "demo_relay\<lparr>rl_muxed := {}\<rparr> = demo_relay" by (simp add: demo_relay_def relay_new_def)
  ultimately show ?thesis
    using p by (auto simp: demo_init_def runtime_init_def relay_init_def demo_ident_def demo_relay_env_def
        demo_relay_def relay_new_def split: option.splits)
qed

section \<open>Properties\<close>

text \<open>
  C28: after a successful initialization a writer that claims a configured flow for the first time
  gets the flow as it was parsed, and for a slate flow its position among the slate flows.
\<close>

theorem claim_returns_configuration:
  assumes "relay_fresh r" and "rl_claimed r = {}" and "\<not> rl_finalized r"
    and "runtime_init E copy_ident cb lb ident lines muxed aggregate ((), (r, conns), st) = Some (True, (), (r', conns'), st')"
    and "runtime_parse_file (re_telem E) (ni_string ident) muxed lines [] = (True, flows)"
    and "f \<in> set flows" and "\<forall>rf. accepts rf"
  shows "\<exists>phase r2. claim (re_slate_group E) blank (fi_id f) False accepts r' = (Some (f, phase), r2) \<and>
    (if fi_group f = re_slate_group E
     then phase < length (group_ids r' (re_slate_group E)) \<and> group_ids r' (re_slate_group E) ! phase = fi_id f
     else phase = 0)"
proof -
  obtain fs cb' lb' r1 i where fs: "runtime_parse_file (re_telem E) (ni_string ident) muxed lines [] = (True, fs)"
    and c: "create_flows E cb' lb' ident fs aggregate (r\<lparr>rl_muxed := muxed\<rparr>, conns) st = Some ((True, r1, conns'), st')"
    and r': "r' = r1\<lparr>rl_initialized := True, rl_ident := i\<rparr>"
    by (rule runtime_init_True [OF assms(4)])
  have fl: "fs = flows" using fs assms(5) by simp
  have fresh: "relay_fresh (r\<lparr>rl_muxed := muxed\<rparr>)" using assms(1) by (simp add: relay_fresh_def)
  have life: "rl_claimed r1 = {}" "\<not> rl_finalized r1" using create_flows_life [OF c] assms(2,3) by (simp_all add: same_life_def)
  obtain rf where rf: "map_of (rl_flows r1) (fi_id f) = Some rf"
    using created_flow_exists [OF fresh c] assms(6) fl by blast
  note cat = create_flows_catalogue [OF fresh c]
  have info: "rl_infos r1 (fi_id f) = Some f"
    unfolding cat(3) by (rule map_of_flows [OF create_flows_ids(1) [OF c]]) (simp add: assms(6) fl)
  define phase where "phase = (if fi_group f = re_slate_group E then (case rl_indices r1 (fi_id f) of None \<Rightarrow> 0 | Some k \<Rightarrow> k) else 0)"
  have "claim (re_slate_group E) blank (fi_id f) False accepts r' =
      (Some (f, phase), r'\<lparr>rl_claimed := insert (fi_id f) (rl_claimed r')\<rparr>)"
    using life rf info assms(7) by (simp add: claim_def get_flow_def r' phase_def Let_def)
  moreover have "phase < length (group_ids r' (re_slate_group E)) \<and> group_ids r' (re_slate_group E) ! phase = fi_id f"
    if g: "fi_group f = re_slate_group E"
  proof -
    have same: "group_ids r' h = group_ids r1 h" for h by (simp add: group_ids_def r')
    have "fi_id f \<in> set (group_ids r1 (re_slate_group E))" using assms(6) g fl by (auto simp: cat(1))
    then obtain k where "k < length (group_ids r1 (re_slate_group E))" "group_ids r1 (re_slate_group E) ! k = fi_id f"
      by (metis in_set_conv_nth)
    then show ?thesis using cat(2) [of k] g by (simp add: phase_def same)
  qed
  ultimately show ?thesis by (auto simp: phase_def)
qed

theorem claim_returns_configuration_witness:
  "\<exists>r' conns' st' phase r2. demo_init False = Some (True, (), (r', conns'), st') \<and>
     claim 4 demo_blank 2 False (\<lambda>_. True) r' = (Some (demo_switched_info, phase), r2) \<and>
     phase < length (group_ids r' 4) \<and> group_ids r' 4 ! phase = 2"
proof -
  obtain r' conns' st' where i: "demo_init False = Some (True, (), (r', conns'), st')" using demo_init_True by meson
  have e: "re_telem demo_relay_env = demo_telem" "ni_string demo_ident = ''a''" "re_slate_group demo_relay_env = 4"
    by (simp_all add: demo_relay_env_def demo_ident_def)
  have p: "runtime_parse_file (re_telem demo_relay_env) (ni_string demo_ident) {} demo_lines [] = (True, [demo_gated_info, demo_switched_info])"
    unfolding e by (simp add: runtime_parse_file_def demo_lines_def demo_files)
  have f: "fi_id demo_switched_info = 2" "fi_group demo_switched_info = 4"
    by (simp_all add: demo_switched_info_def)
  have "\<exists>phase r2. claim (re_slate_group demo_relay_env) demo_blank (fi_id demo_switched_info) False (\<lambda>_. True) r' =
        (Some (demo_switched_info, phase), r2) \<and>
      (if fi_group demo_switched_info = re_slate_group demo_relay_env
       then phase < length (group_ids r' (re_slate_group demo_relay_env)) \<and>
         group_ids r' (re_slate_group demo_relay_env) ! phase = fi_id demo_switched_info
       else phase = 0)"
    by (rule claim_returns_configuration [OF demo_relay_fresh _ _ i [unfolded demo_init_def] p])
      (simp_all add: demo_relay_def relay_new_def)
  then show ?thesis unfolding e f using i by (simp del: split_paired_Ex)
qed

text \<open>
  C29: no flow is given to two writers. Once a claim has succeeded, no claim of the same flow
  succeeds again, whatever is done to the relay in between.
\<close>

theorem claimed_once:
  assumes "claim slate_group blank i writer_good accepts r = (Some x, r1)"
    and "(relay_step E)\<^sup>*\<^sup>* r1 r2"
  shows "claim slate_group2 blank2 i writer_good2 accepts2 r2 = (None, r2)"
proof -
  have "i \<in> rl_claimed r1" using claim_life(5) [OF assms(1)] by simp
  then have "i \<in> rl_claimed r2" using relay_steps_claimed [OF assms(2)] by blast
  then show ?thesis by (simp add: claim_def)
qed

definition demo_ready :: "(nat, nat, nat) relay" where
  "demo_ready = demo_relay\<lparr>rl_initialized := True, rl_infos := [2 \<mapsto> demo_switched_info],
     rl_flows := [(2, new_flow demo_switched_info 6 6 9)], rl_ids := [(4, [2])]\<rparr>"

lemma demo_claim:
  "claim 4 demo_blank 2 False (\<lambda>_. True) demo_ready = (Some (demo_switched_info, 0), demo_ready\<lparr>rl_claimed := {2}\<rparr>)"
  by (simp add: claim_def get_flow_def demo_ready_def demo_relay_def relay_new_def demo_switched_info_def demo_blank_def Let_def)

theorem claimed_once_witness:
  "claim 4 demo_blank 2 False (\<lambda>_. True) (snd (add_producer (Some 7) (demo_ready\<lparr>rl_claimed := {2}\<rparr>))) =
     (None, snd (add_producer (Some 7) (demo_ready\<lparr>rl_claimed := {2}\<rparr>)))"
proof -
  have "relay_step demo_relay_env (demo_ready\<lparr>rl_claimed := {2}\<rparr>) (snd (add_producer (Some 7) (demo_ready\<lparr>rl_claimed := {2}\<rparr>)))"
    by (rule relay_step.producer)
  then have "(relay_step demo_relay_env)\<^sup>*\<^sup>* (demo_ready\<lparr>rl_claimed := {2}\<rparr>)
      (snd (add_producer (Some 7) (demo_ready\<lparr>rl_claimed := {2}\<rparr>)))" by simp
  then show ?thesis by (rule claimed_once [OF demo_claim])
qed

text \<open>
  C30: finalizing waits for a claim of every flow. In every state that a new relay can reach, a
  relay that is finalized was initialized, and for each flow of each of its groups there was one
  claim on the way, made when the relay was initialized and not finalized, by a writer without a
  flow, and before which that flow had not been claimed. It is the attempt that counts: the claim handed
  the flow out exactly if the relay had it and the writer accepted it, and the relay does not tell
  (\<open>failed_claim_counts\<close>).
\<close>

theorem finalized_means_claimed:
  assumes "(relay_step E)\<^sup>*\<^sup>* (relay_new udp name) r" and "rl_finalized r"
  shows "rl_initialized r \<and>
    (\<forall>g. \<forall>i\<in>set (group_ids r g).
       \<exists>r1 r2. (relay_step E)\<^sup>*\<^sup>* (relay_new udp name) r1 \<and> attempt E i r1 r2 \<and> (relay_step E)\<^sup>*\<^sup>* r2 r)"
proof -
  have "relay_inv r" by (rule relay_steps_inv [OF assms(1) relay_new_inv])
  then have "rl_initialized r" and all: "\<forall>(members, is)\<in>set (rl_ids r). \<forall>i\<in>set is. i \<in> rl_claimed r"
    using assms(2) by (auto simp: relay_inv_def list_all_iff)
  moreover have "i \<in> rl_claimed r" if "i \<in> set (group_ids r g)" for g i
    using that all by (cases "map_of (rl_ids r) g") (auto simp: group_ids_def dest!: bspec [OF _ map_of_SomeD])
  moreover have "i \<notin> rl_claimed (relay_new udp name)" for i by (simp add: relay_new_def)
  ultimately show ?thesis using claimed_by_attempt [OF assms(1)] by blast
qed

text \<open>A relay that is initialized, whose two flows are claimed, and that is finalized.\<close>

definition demo_claims :: "(nat, nat, nat) relay \<Rightarrow> (nat, nat, nat) relay" where
  "demo_claims r = snd (claim 4 demo_blank 2 False (\<lambda>_. True) (snd (claim 4 demo_blank 1 False (\<lambda>_. True) r)))"

definition demo_end :: "(nat, nat, nat) relay \<Rightarrow> bool \<times> (nat, nat, nat) relay \<times> bool list" where
  "demo_end r = finalize_relay (\<lambda>_ _ z. (True, z)) (demo_claims r) []"

definition demo_plain :: "(bool \<times> unit \<times> (nat, nat, nat, unit) relay_state) option" where
  "demo_plain = runtime_init demo_relay_env Some demo_root demo_root demo_ident demo_lines {} False
     ((), (relay_new 3 ''telem'', []), (), acct_new)"

lemma demo_ends: "map_option (\<lambda>(ok, _, (r, _), _). (ok, case demo_end r of (ok2, r2, _) \<Rightarrow> (ok2, rl_finalized r2))) demo_plain =
    Some (True, True, True)"
  by code_simp

theorem finalized_means_claimed_witness:
  "\<exists>r :: (nat, nat, nat) relay. (relay_step demo_relay_env)\<^sup>*\<^sup>* (relay_new 3 ''telem'') r \<and> rl_finalized r \<and> rl_initialized r"
proof -
  obtain ok u r conns st where p: "demo_plain = Some (ok, u, (r, conns), st)"
    using demo_ends by (cases demo_plain) auto
  obtain ok2 r2 z where q: "demo_end r = (ok2, r2, z)" by (metis surj_pair)
  from demo_ends have ok: "ok" "ok2" and fin: "rl_finalized r2" by (simp_all add: p q)
  have i: "demo_plain = Some (True, (), (r, conns), st)" and e: "demo_end r = (True, r2, z)"
    using p q ok by (simp_all del: split_paired_All)
  have steps: "(relay_step demo_relay_env)\<^sup>*\<^sup>* (relay_new 3 ''telem'') r2"
  proof (rule rtranclp.rtrancl_into_rtrancl [OF rtranclp.rtrancl_into_rtrancl [OF rtranclp.rtrancl_into_rtrancl [OF r_into_rtranclp]]])
    show "relay_step demo_relay_env (relay_new 3 ''telem'') r" by (rule relay_step.init [OF i [unfolded demo_plain_def]])
    show "relay_step demo_relay_env r (snd (claim 4 demo_blank 1 False (\<lambda>_. True) r))" by (rule relay_step.claim)
    show "relay_step demo_relay_env (snd (claim 4 demo_blank 1 False (\<lambda>_. True) r)) (demo_claims r)"
      unfolding demo_claims_def by (rule relay_step.claim)
    show "relay_step demo_relay_env (demo_claims r) r2" by (rule relay_step.finish [OF e [unfolded demo_end_def]])
  qed
  have "rl_initialized r2" by (rule finalized_means_claimed [OF steps fin, THEN conjunct1])
  then show ?thesis using steps fin by (intro exI [of _ r2] conjI)
qed

end
