(* ===== verification/Signal_Core.thy ===== *)
theory Signal_Core
  imports Codon_Prelude
begin

text \<open>
  \<^verbatim>\<open>Signal.h\<close>, first part: the functions that slots share, the handlers that invalidate them, binding
  and hiding of arguments, and the operations of a signal that call nobody.

  Every object of the running program is a position of a list: a \<^verbatim>\<open>std::function\<close> behind a
  \<^verbatim>\<open>shared_ptr\<close> is a cell, and handlers, slots and connections are entries that become \<open>None\<close> when the
  object is destroyed. A position is never used twice. A weak pointer to a cell has expired when no
  slot, no record of a signal, no connection and no local variable (\<open>w_temps\<close>) holds the cell.
\<close>

section \<open>Values, functions and slots\<close>

datatype 'v val = V_void | V_bool bool | V_id "64 word" | V_user 'v

text \<open>
  What a function calls: a free function, or a member function of a handler. The two member functions
  of a signal that a connection is made of are told apart from those of the clients.
\<close>

datatype member_fn = Client_method nat | Signal_remove | Signal_is_valid

datatype target = Non_member nat | Member nat member_fn

text \<open>\<open>Bind\<close> is \<^verbatim>\<open>std::bind\<close>: it copies the function and keeps the bound arguments beside it.\<close>

datatype 'v bind_arg = Placeholder nat | Bound "'v val"

datatype 'v func = Raw target | Bind "'v func" "'v bind_arg list"

primrec target_of :: "'v func \<Rightarrow> target" where
  "target_of (Raw t) = t"
| "target_of (Bind f bs) = target_of f"

primrec bind_value :: "'v val list \<Rightarrow> 'v bind_arg \<Rightarrow> 'v val" where
  "bind_value xs (Placeholder k) = xs ! k"
| "bind_value xs (Bound v) = v"

primrec apply_bindings :: "'v func \<Rightarrow> 'v val list \<Rightarrow> 'v val list" where
  "apply_bindings (Raw t) xs = xs"
| "apply_bindings (Bind f bs) xs = apply_bindings f (map (bind_value xs) bs)"

text \<open>\<open>sl_arity\<close> is the number of parameters of the slot's type.\<close>

record slot =
  sl_fsptr :: "nat option"
  sl_handler :: "nat option"
  sl_arity :: nat

definition empty_slot :: "nat \<Rightarrow> slot" where
  "empty_slot n = \<lparr>sl_fsptr = None, sl_handler = None, sl_arity = n\<rparr>"

record slot_record =
  rec_id :: "64 word"
  request_removal :: bool
  rec_fsptr :: nat

record signal =
  sg_arity :: nat
  sg_locked :: bool
  sg_next_id :: "64 word"
  sg_pending_removal :: bool
  sg_records :: "slot_record list"

text \<open>A signal is itself a handler.\<close>

record handler =
  h_invalidators :: "nat list"
  h_signal :: "signal option"

text \<open>
  What can be observed of a run: calls of functions, which record of which signal a call was made
  for, the identifiers a signal hands out, and the results the clients see.
\<close>

datatype 'v event = Called target "'v val list" | Fired nat "64 word" | Connected nat "64 word"
  | Result "'v val"

record 'v sworld =
  w_cells :: "'v func option list"
  w_handlers :: "handler option list"
  w_slots :: "slot option list"
  w_conns :: "(slot \<times> slot) option list"
  w_temps :: "nat list"
  w_log :: "'v event list"

text \<open>
  \<open>Abort\<close> is a failed \<^verbatim>\<open>FswAssert\<close>. \<open>Dangling\<close> is a call through a pointer to a handler that is gone,
  made by the library. \<open>Misuse\<close> is a client that names an object it does not have or writes what does not
  compile, and \<open>Emitter_gone\<close> a client that destroys a signal inside an emission of it.
\<close>

datatype sfault = Abort | Dangling | Misuse | Emitter_gone

section \<open>Objects and ownership\<close>

definition entry :: "'a option list \<Rightarrow> nat \<Rightarrow> 'a option" where
  "entry xs i = (if i < length xs then xs ! i else None)"

definition held :: "('a \<Rightarrow> bool) \<Rightarrow> 'a option list \<Rightarrow> bool" where
  "held P xs \<longleftrightarrow> list_ex (case_option False P) xs"

definition handler_holds :: "nat \<Rightarrow> handler \<Rightarrow> bool" where
  "handler_holds a ob = (case h_signal ob of None \<Rightarrow> False
     | Some sg \<Rightarrow> list_ex (\<lambda>r. rec_fsptr r = a) (sg_records sg))"

definition conn_holds :: "nat \<Rightarrow> slot \<times> slot \<Rightarrow> bool" where
  "conn_holds a c \<longleftrightarrow> sl_fsptr (fst c) = Some a \<or> sl_fsptr (snd c) = Some a"

definition owned :: "'v sworld \<Rightarrow> nat \<Rightarrow> bool" where
  "owned w a \<longleftrightarrow> a \<in> set (w_temps w) \<or> held (\<lambda>sl. sl_fsptr sl = Some a) (w_slots w)
     \<or> held (handler_holds a) (w_handlers w) \<or> held (conn_holds a) (w_conns w)"

definition slot_valid :: "'v sworld \<Rightarrow> slot \<Rightarrow> bool" where
  "slot_valid w sl = (case sl_fsptr sl of None \<Rightarrow> False | Some a \<Rightarrow> entry (w_cells w) a \<noteq> None)"

text \<open>A new function behind a shared pointer, which a local variable holds.\<close>

definition new_cell :: "'v func \<Rightarrow> 'v sworld \<Rightarrow> nat \<times> 'v sworld" where
  "new_cell f w = (length (w_cells w),
     w\<lparr>w_cells := w_cells w @ [Some f], w_temps := length (w_cells w) # w_temps w\<rparr>)"

definition log_event :: "'v event \<Rightarrow> 'v sworld \<Rightarrow> 'v sworld" where
  "log_event e w = w\<lparr>w_log := w_log w @ [e]\<rparr>"

section \<open>Handlers\<close>

text \<open>
  \<open>FunctionWeakPointer\<close>: empty the function unless nobody holds it any more. \<open>register_invalidator\<close>
  drops the invalidators whose functions have expired.
\<close>

definition invalidate :: "nat \<Rightarrow> 'v sworld \<Rightarrow> 'v sworld" where
  "invalidate a w = (if owned w a then w\<lparr>w_cells := (w_cells w)[a := None]\<rparr> else w)"

definition register_invalidator :: "nat \<Rightarrow> nat \<Rightarrow> 'v sworld \<Rightarrow> sfault + 'v sworld" where
  "register_invalidator h a w = (case entry (w_handlers w) h of None \<Rightarrow> Inl Dangling
     | Some ob \<Rightarrow> Inr (w\<lparr>w_handlers := (w_handlers w)[h :=
         Some (ob\<lparr>h_invalidators := filter (owned w) (h_invalidators ob @ [a])\<rparr>)]\<rparr>))"

text \<open>
  \<^verbatim>\<open>~SignalHandler\<close>, after the members of the derived class are gone: those of a signal are its records.
\<close>

definition destroy_handler :: "nat \<Rightarrow> 'v sworld \<Rightarrow> sfault + 'v sworld" where
  "destroy_handler h w = (case entry (w_handlers w) h of None \<Rightarrow> Inl Misuse
     | Some ob \<Rightarrow>
         let w1 = w\<lparr>w_handlers := (w_handlers w)[h := Some (ob\<lparr>h_signal := None\<rparr>)]\<rparr>;
             w2 = fold invalidate (h_invalidators ob) w1
         in Inr (w2\<lparr>w_handlers := (w_handlers w2)[h := None]\<rparr>))"

section \<open>Making slots\<close>

text \<open>The initializers of \<open>Slot\<close> return whether they succeeded, with the slot they fill in.\<close>

definition init_non_member :: "nat option \<Rightarrow> slot \<Rightarrow> 'v sworld \<Rightarrow> bool \<times> slot \<times> 'v sworld" where
  "init_non_member f sl w =
     (if sl_fsptr sl \<noteq> None then (False, sl, w)
      else if sl_handler sl \<noteq> None then (False, sl, w)
      else case f of None \<Rightarrow> (False, sl, w)
        | Some k \<Rightarrow> (case new_cell (Raw (Non_member k)) w of
             (a, w1) \<Rightarrow> (True, sl\<lparr>sl_fsptr := Some a\<rparr>, w1)))"

definition init_member_common ::
  "nat \<Rightarrow> 'v func \<Rightarrow> slot \<Rightarrow> 'v sworld \<Rightarrow> sfault + bool \<times> slot \<times> 'v sworld" where
  "init_member_common h f sl w =
     (if sl_fsptr sl \<noteq> None then Inr (False, sl, w)
      else if sl_handler sl \<noteq> None then Inr (False, sl, w)
      else case new_cell f w of (a, w1) \<Rightarrow>
        (case register_invalidator h a w1 of Inl e \<Rightarrow> Inl e
         | Inr w2 \<Rightarrow> Inr (True, sl\<lparr>sl_handler := Some h, sl_fsptr := Some a\<rparr>, w2)))"

definition init_member ::
  "nat \<Rightarrow> member_fn option \<Rightarrow> slot \<Rightarrow> 'v sworld \<Rightarrow> sfault + bool \<times> slot \<times> 'v sworld" where
  "init_member h m sl w = (case m of None \<Rightarrow> Inr (False, sl, w)
     | Some mt \<Rightarrow> init_member_common h (Raw (Member h mt)) sl w)"

definition init_from_slot ::
  "slot \<Rightarrow> 'v bind_arg list \<Rightarrow> slot \<Rightarrow> 'v sworld \<Rightarrow> sfault + bool \<times> slot \<times> 'v sworld" where
  "init_from_slot src bindargs sl w =
     (if sl_fsptr sl \<noteq> None then Inr (False, sl, w)
      else if sl_handler sl \<noteq> None then Inr (False, sl, w)
      else case sl_fsptr src of None \<Rightarrow> Inr (False, sl, w)
        | Some old \<Rightarrow> (case entry (w_cells w) old of None \<Rightarrow> Inr (False, sl, w)
            | Some f \<Rightarrow> (case new_cell (Bind f bindargs) w of (a, w1) \<Rightarrow>
                (case sl_handler src of
                   None \<Rightarrow> Inr (True, sl\<lparr>sl_fsptr := Some a\<rparr>, w1)
                 | Some h \<Rightarrow> (case register_invalidator h a w1 of Inl e \<Rightarrow> Inl e
                     | Inr w2 \<Rightarrow> Inr (True, sl\<lparr>sl_handler := Some h, sl_fsptr := Some a\<rparr>, w2))))))"

text \<open>The constructors assert that the initializer succeeded. \<open>make_slot\<close> calls them.\<close>

definition make_function :: "nat option \<Rightarrow> nat \<Rightarrow> 'v sworld \<Rightarrow> sfault + slot \<times> 'v sworld" where
  "make_function f n w = (case init_non_member f (empty_slot n) w of
     (ok, sl, w1) \<Rightarrow> if ok then Inr (sl, w1) else Inl Abort)"

definition make_member :: "nat \<Rightarrow> member_fn option \<Rightarrow> nat \<Rightarrow> 'v sworld \<Rightarrow> sfault + slot \<times> 'v sworld" where
  "make_member h m n w = (case init_member h m (empty_slot n) w of Inl e \<Rightarrow> Inl e
     | Inr (ok, sl, w1) \<Rightarrow> if ok then Inr (sl, w1) else Inl Abort)"

text \<open>
  \<open>slot_bind\<close> and \<open>slot_hide\<close> exist for the listed numbers of parameters only. A slot that cannot be made
  is returned empty.
\<close>

definition placeholders :: "nat \<Rightarrow> 'v bind_arg list" where
  "placeholders n = map Placeholder [0..<n]"

definition or_empty :: "nat \<Rightarrow> sfault + bool \<times> slot \<times> 'v sworld \<Rightarrow> sfault + slot \<times> 'v sworld" where
  "or_empty n res = (case res of Inl e \<Rightarrow> Inl e
     | Inr (ok, sl, w1) \<Rightarrow> Inr (if ok then sl else empty_slot n, w1))"

definition slot_bind1 :: "slot \<Rightarrow> 'v val \<Rightarrow> 'v sworld \<Rightarrow> sfault + slot \<times> 'v sworld" where
  "slot_bind1 src v w =
     (if 1 \<le> sl_arity src \<and> sl_arity src \<le> 5
      then let n = sl_arity src - 1
           in or_empty n (init_from_slot src (placeholders n @ [Bound v]) (empty_slot n) w)
      else Inl Misuse)"

definition slot_bind2 :: "slot \<Rightarrow> 'v val \<Rightarrow> 'v val \<Rightarrow> 'v sworld \<Rightarrow> sfault + slot \<times> 'v sworld" where
  "slot_bind2 src v1 v2 w =
     (if 2 \<le> sl_arity src \<and> sl_arity src \<le> 4
      then let n = sl_arity src - 2
           in or_empty n (init_from_slot src (placeholders n @ [Bound v1, Bound v2]) (empty_slot n) w)
      else Inl Misuse)"

definition slot_bind3 ::
  "slot \<Rightarrow> 'v val \<Rightarrow> 'v val \<Rightarrow> 'v val \<Rightarrow> 'v sworld \<Rightarrow> sfault + slot \<times> 'v sworld" where
  "slot_bind3 src v1 v2 v3 w =
     (if 3 \<le> sl_arity src \<and> sl_arity src \<le> 6
      then let n = sl_arity src - 3
           in or_empty n
                (init_from_slot src (placeholders n @ [Bound v1, Bound v2, Bound v3]) (empty_slot n) w)
      else Inl Misuse)"

definition slot_hide :: "slot \<Rightarrow> 'v sworld \<Rightarrow> sfault + slot \<times> 'v sworld" where
  "slot_hide src w =
     (if sl_arity src \<le> 3
      then or_empty (sl_arity src + 1)
             (init_from_slot src (placeholders (sl_arity src)) (empty_slot (sl_arity src + 1)) w)
      else Inl Misuse)"

section \<open>Signals\<close>

definition signal_new :: "nat \<Rightarrow> signal" where
  "signal_new n = \<lparr>sg_arity = n, sg_locked = False, sg_next_id = 0, sg_pending_removal = False,
     sg_records = []\<rparr>"

definition signal_of :: "'v sworld \<Rightarrow> nat \<Rightarrow> signal option" where
  "signal_of w g = (case entry (w_handlers w) g of None \<Rightarrow> None | Some ob \<Rightarrow> h_signal ob)"

definition set_signal :: "nat \<Rightarrow> signal \<Rightarrow> 'v sworld \<Rightarrow> 'v sworld" where
  "set_signal g sg w = (case entry (w_handlers w) g of None \<Rightarrow> w
     | Some ob \<Rightarrow> w\<lparr>w_handlers := (w_handlers w)[g := Some (ob\<lparr>h_signal := Some sg\<rparr>)]\<rparr>)"

definition should_remove :: "'v sworld \<Rightarrow> slot_record \<Rightarrow> bool" where
  "should_remove w r \<longleftrightarrow> request_removal r \<or> entry (w_cells w) (rec_fsptr r) = None"

definition reconcile_removal :: "'v sworld \<Rightarrow> signal \<Rightarrow> signal" where
  "reconcile_removal w sg =
     (if \<not> sg_pending_removal sg then sg
      else if sg_locked sg then sg
      else sg\<lparr>sg_records := filter (\<lambda>r. \<not> should_remove w r) (sg_records sg),
              sg_pending_removal := False\<rparr>)"

text \<open>\<open>insert\<close> refuses a slot that is not valid; \<open>None\<close> is its failure.\<close>

definition signal_insert :: "'v sworld \<Rightarrow> slot \<Rightarrow> signal \<Rightarrow> ((64 word) \<times> signal) option" where
  "signal_insert w sl sg = (case sl_fsptr sl of None \<Rightarrow> None
     | Some a \<Rightarrow> (case entry (w_cells w) a of None \<Rightarrow> None
         | Some f \<Rightarrow> Some (sg_next_id sg, sg\<lparr>sg_next_id := sg_next_id sg + 1,
             sg_records := sg_records sg @
               [\<lparr>rec_id = sg_next_id sg, request_removal = False, rec_fsptr = a\<rparr>]\<rparr>)))"

fun request_first :: "64 word \<Rightarrow> slot_record list \<Rightarrow> slot_record list" where
  "request_first i [] = []"
| "request_first i (r # rs) =
     (if rec_id r = i then r\<lparr>request_removal := True\<rparr> # rs else r # request_first i rs)"

definition signal_remove :: "'v sworld \<Rightarrow> 64 word \<Rightarrow> signal \<Rightarrow> signal" where
  "signal_remove w i sg = reconcile_removal w
     (sg\<lparr>sg_records := request_first i (sg_records sg), sg_pending_removal := True\<rparr>)"

definition signal_clear :: "'v sworld \<Rightarrow> signal \<Rightarrow> signal" where
  "signal_clear w sg = reconcile_removal w
     (sg\<lparr>sg_records := map (\<lambda>r. r\<lparr>request_removal := True\<rparr>) (sg_records sg),
         sg_pending_removal := True\<rparr>)"

definition signal_empty :: "'v sworld \<Rightarrow> signal \<Rightarrow> bool" where
  "signal_empty w sg \<longleftrightarrow> list_all (should_remove w) (sg_records sg)"

definition signal_is_valid :: "'v sworld \<Rightarrow> 64 word \<Rightarrow> signal \<Rightarrow> bool" where
  "signal_is_valid w i sg = (case find (\<lambda>r. rec_id r = i) (sg_records sg) of None \<Rightarrow> False
     | Some r \<Rightarrow> \<not> should_remove w r)"

text \<open>
  \<open>connect_get\<close>: two slots on the signal's own member functions, each bound to the identifier. The
  temporaries are destroyed when the connection is made.
\<close>

definition bound_member :: "nat \<Rightarrow> member_fn \<Rightarrow> 64 word \<Rightarrow> 'v sworld \<Rightarrow> sfault + slot \<times> 'v sworld" where
  "bound_member g m i w = (case make_member g (Some m) 1 w of Inl e \<Rightarrow> Inl e
     | Inr (sl, w1) \<Rightarrow> slot_bind1 sl (V_id i) w1)"

definition make_connection :: "nat \<Rightarrow> 64 word \<Rightarrow> 'v sworld \<Rightarrow> sfault + (slot \<times> slot) \<times> 'v sworld" where
  "make_connection g i w = (case bound_member g Signal_remove i w of Inl e \<Rightarrow> Inl e
     | Inr (dsl, w1) \<Rightarrow> (case bound_member g Signal_is_valid i w1 of Inl e \<Rightarrow> Inl e
         | Inr (vsl, w2) \<Rightarrow> Inr ((dsl, vsl), w2)))"

definition empty_connection :: "slot \<times> slot" where
  "empty_connection = (empty_slot 0, empty_slot 0)"

text \<open>The object whose member function is called; only a signal has the two functions.\<close>

definition member_signal :: "'v sworld \<Rightarrow> nat \<Rightarrow> sfault + signal" where
  "member_signal w g = (case entry (w_handlers w) g of None \<Rightarrow> Inl Dangling
     | Some ob \<Rightarrow> (case h_signal ob of None \<Rightarrow> Inl Misuse | Some sg \<Rightarrow> Inr sg))"

text \<open>The call of one of the two slots of a connection: \<open>Slot::operator()\<close> on a member of a signal.\<close>

definition call_connection :: "slot \<Rightarrow> 'v sworld \<Rightarrow> sfault + 'v val \<times> 'v sworld" where
  "call_connection sl w = (case sl_fsptr sl of None \<Rightarrow> Inl Abort
     | Some a \<Rightarrow> (case entry (w_cells w) a of None \<Rightarrow> Inl Abort
        | Some f \<Rightarrow> (case (target_of f, apply_bindings f []) of
            (Member g Signal_remove, [V_id i]) \<Rightarrow> (case member_signal w g of Inl e \<Rightarrow> Inl e
               | Inr sg \<Rightarrow> Inr (V_void, set_signal g (signal_remove w i sg) w))
          | (Member g Signal_is_valid, [V_id i]) \<Rightarrow> (case member_signal w g of Inl e \<Rightarrow> Inl e
               | Inr sg \<Rightarrow> Inr (V_bool (signal_is_valid w i sg), w))
          | _ \<Rightarrow> Inl Misuse)))"

definition disconnect :: "slot \<times> slot \<Rightarrow> 'v sworld \<Rightarrow> sfault + 'v sworld" where
  "disconnect c w = (if \<not> slot_valid w (fst c) then Inr w
     else case call_connection (fst c) w of Inl e \<Rightarrow> Inl e | Inr (v, w1) \<Rightarrow> Inr w1)"

definition connection_valid :: "slot \<times> slot \<Rightarrow> 'v sworld \<Rightarrow> sfault + bool" where
  "connection_valid c w = (if \<not> slot_valid w (snd c) then Inr False
     else case call_connection (snd c) w of Inl e \<Rightarrow> Inl e
       | Inr (v, w1) \<Rightarrow> Inr (v = V_bool True))"

section \<open>Basic facts\<close>

lemma entry_Some_iff: "entry xs i = Some x \<longleftrightarrow> i < length xs \<and> xs ! i = Some x"
  by (simp add: entry_def)

lemma entry_in: "entry xs i = Some x \<Longrightarrow> Some x \<in> set xs"
  by (auto simp: entry_Some_iff in_set_conv_nth)

lemma entry_update: "entry (xs[i := x]) j = (if j = i \<and> i < length xs then x else entry xs j)"
  by (simp add: entry_def nth_list_update)

lemma entry_set: "entry xs i \<noteq> None \<Longrightarrow> entry (xs[i := x]) j = (if j = i then x else entry xs j)"
  by (auto simp: entry_update entry_Some_iff)

lemma entry_append: "entry (xs @ [x]) i = (if i = length xs then x else entry xs i)"
  by (simp add: entry_def nth_append)

lemma held_iff: "held P xs \<longleftrightarrow> (\<exists>x. Some x \<in> set xs \<and> P x)"
  by (force simp: held_def list_ex_iff split: option.splits)

lemma held_entry: "held P xs \<longleftrightarrow> (\<exists>i x. entry xs i = Some x \<and> P x)"
  by (auto simp: held_iff entry_Some_iff in_set_conv_nth)

lemma signal_of_handler:
  assumes "entry (w_handlers w) h \<noteq> None"
  shows "signal_of (w\<lparr>w_handlers := (w_handlers w)[h := x]\<rparr>) g =
    (if g = h then Option.bind x h_signal else signal_of w g)"
  by (cases x) (simp_all add: signal_of_def entry_set [OF assms])

lemma log_event_simps [simp]:
  "w_cells (log_event e w) = w_cells w" "w_handlers (log_event e w) = w_handlers w"
  "w_slots (log_event e w) = w_slots w" "w_conns (log_event e w) = w_conns w"
  "w_temps (log_event e w) = w_temps w" "w_log (log_event e w) = w_log w @ [e]"
  "owned (log_event e w) = owned w" "signal_of (log_event e w) = signal_of w"
  by (simp_all add: log_event_def owned_def signal_of_def fun_eq_iff)

lemma signal_of_Some: "signal_of w g = Some sg \<longleftrightarrow>
    (\<exists>ob. entry (w_handlers w) g = Some ob \<and> h_signal ob = Some sg)"
  by (auto simp: signal_of_def split: option.splits)

lemma member_signal_iff:
  "member_signal w g = Inr sg \<longleftrightarrow> signal_of w g = Some sg"
  "member_signal w g = Inl Dangling \<longleftrightarrow> entry (w_handlers w) g = None"
  by (auto simp: member_signal_def signal_of_def split: option.splits)

lemma record_owned:
  assumes "signal_of w g = Some sg" and "r \<in> set (sg_records sg)"
  shows "owned w (rec_fsptr r)"
proof -
  obtain ob where ob: "entry (w_handlers w) g = Some ob" "h_signal ob = Some sg"
    using assms(1) signal_of_Some by blast
  then have "handler_holds (rec_fsptr r) ob"
    using assms(2) by (auto simp: handler_holds_def list_ex_iff)
  with ob show ?thesis by (auto simp: owned_def held_entry)
qed

end
