(* ===== verification/Signal_Run.thy ===== *)
theory Signal_Run
  imports Signal_Core
begin

text \<open>
  \<^verbatim>\<open>Signal.h\<close>, second part: emission, and programs that use the library. The functions a signal calls
  are code of the clients, which may use the library again: connect, disconnect, destroy, emit_signal. A
  client is the commands its functions run and the values they return, and the emission is modelled
  together with the commands it leads to.
\<close>

section \<open>Clients\<close>

text \<open>
  An accumulator: the value it starts from and what it makes of the value returned by a function.
  \<open>return_accumulator\<close> keeps the last one; \<open>void_accumulator\<close> is the one for functions without a value.
\<close>

type_synonym 'v accum = "'v val \<times> ('v val \<Rightarrow> 'v val \<Rightarrow> 'v val)"

definition return_accumulator :: "'v val \<Rightarrow> 'v accum" where
  "return_accumulator r0 = (r0, \<lambda>r x. x)"

definition void_accumulator :: "'v accum" where
  "void_accumulator = (V_void, \<lambda>r x. V_void)"

text \<open>
  Objects are named by the order in which they are made. \<open>Decide\<close> is a client that looks at the state
  before it goes on.
\<close>

datatype 'v basic_cmd =
    New_handler
  | New_signal nat
  | Destroy nat
  | Make_function "nat option" nat
  | Make_member nat "nat option" nat
  | Bind1 nat "'v val"
  | Bind2 nat "'v val" "'v val"
  | Bind3 nat "'v val" "'v val" "'v val"
  | Hide nat
  | Copy_slot nat
  | Assign_slot nat nat
  | Drop_slot nat
  | Connect nat nat
  | Connect_get nat nat
  | Disconnect nat
  | Test_connection nat
  | Drop_connection nat
  | Clear nat
  | Test_empty nat

datatype 'v cmd =
    Basic "'v basic_cmd"
  | Emit nat "'v accum" "'v val list"
  | Call_slot nat "'v val list"
  | Decide "'v sworld \<Rightarrow> 'v cmd list"

record 'v signal_client =
  c_body :: "target \<Rightarrow> 'v val list \<Rightarrow> 'v cmd list"
  c_ret :: "target \<Rightarrow> 'v val list \<Rightarrow> 'v sworld \<Rightarrow> 'v val"

text \<open>A new slot object is stored, and the local variables of the call go out of scope.\<close>

definition keep_slot :: "sfault + slot \<times> 'v sworld \<Rightarrow> sfault + 'v sworld" where
  "keep_slot res = (case res of Inl e \<Rightarrow> Inl e
     | Inr (sl, w1) \<Rightarrow> Inr (w1\<lparr>w_slots := w_slots w1 @ [Some sl], w_temps := []\<rparr>))"

definition with_slot :: "nat \<Rightarrow> (slot \<Rightarrow> sfault + 'a) \<Rightarrow> 'v sworld \<Rightarrow> sfault + 'a" where
  "with_slot i k w = (case entry (w_slots w) i of None \<Rightarrow> Inl Misuse | Some sl \<Rightarrow> k sl)"

definition with_signal :: "nat \<Rightarrow> (signal \<Rightarrow> sfault + 'a) \<Rightarrow> 'v sworld \<Rightarrow> sfault + 'a" where
  "with_signal g k w = (case signal_of w g of None \<Rightarrow> Inl Misuse | Some sg \<Rightarrow> k sg)"

definition with_conn :: "nat \<Rightarrow> (slot \<times> slot \<Rightarrow> sfault + 'a) \<Rightarrow> 'v sworld \<Rightarrow> sfault + 'a" where
  "with_conn c k w = (case entry (w_conns w) c of None \<Rightarrow> Inl Misuse | Some cn \<Rightarrow> k cn)"

definition connect :: "nat \<Rightarrow> slot \<Rightarrow> signal \<Rightarrow> 'v sworld \<Rightarrow> sfault + 'v sworld" where
  "connect g sl sg w =
     (if sl_arity sl \<noteq> sg_arity sg then Inl Misuse
      else case signal_insert w sl sg of
          None \<Rightarrow> Inr (log_event (Result (V_bool False)) w)
        | Some (i, sg1) \<Rightarrow>
            Inr (log_event (Result (V_bool True)) (log_event (Connected g i) (set_signal g sg1 w))))"

definition keep_conn :: "sfault + (slot \<times> slot) \<times> 'v sworld \<Rightarrow> sfault + 'v sworld" where
  "keep_conn res = (case res of Inl e \<Rightarrow> Inl e
     | Inr (cn, w1) \<Rightarrow> Inr (w1\<lparr>w_conns := w_conns w1 @ [Some cn], w_temps := []\<rparr>))"

definition connect_get :: "nat \<Rightarrow> slot \<Rightarrow> signal \<Rightarrow> 'v sworld \<Rightarrow> sfault + 'v sworld" where
  "connect_get g sl sg w =
     (if sl_arity sl \<noteq> sg_arity sg then Inl Misuse
      else case signal_insert w sl sg of
          None \<Rightarrow> keep_conn (Inr (empty_connection, w))
        | Some (i, sg1) \<Rightarrow>
            keep_conn (make_connection g i (log_event (Connected g i) (set_signal g sg1 w))))"

text \<open>The commands that call no function of a client.\<close>

fun basic :: "'v basic_cmd \<Rightarrow> 'v sworld \<Rightarrow> sfault + 'v sworld" where
  "basic New_handler w =
     Inr (w\<lparr>w_handlers := w_handlers w @ [Some \<lparr>h_invalidators = [], h_signal = None\<rparr>]\<rparr>)"
| "basic (New_signal n) w =
     Inr (w\<lparr>w_handlers := w_handlers w @ [Some \<lparr>h_invalidators = [], h_signal = Some (signal_new n)\<rparr>]\<rparr>)"
| "basic (Destroy h) w = destroy_handler h w"
| "basic (Make_function f n) w = keep_slot (make_function f n w)"
| "basic (Make_member h m n) w =
     (if entry (w_handlers w) h = None then Inl Misuse
      else keep_slot (make_member h (map_option Client_method m) n w))"
| "basic (Bind1 i v) w = with_slot i (\<lambda>sl. keep_slot (slot_bind1 sl v w)) w"
| "basic (Bind2 i v1 v2) w = with_slot i (\<lambda>sl. keep_slot (slot_bind2 sl v1 v2 w)) w"
| "basic (Bind3 i v1 v2 v3) w = with_slot i (\<lambda>sl. keep_slot (slot_bind3 sl v1 v2 v3 w)) w"
| "basic (Hide i) w = with_slot i (\<lambda>sl. keep_slot (slot_hide sl w)) w"
| "basic (Copy_slot i) w = with_slot i (\<lambda>sl. Inr (w\<lparr>w_slots := w_slots w @ [Some sl]\<rparr>)) w"
| "basic (Assign_slot i j) w =
     with_slot i (\<lambda>old. with_slot j (\<lambda>sl.
       if sl_arity sl = sl_arity old then Inr (w\<lparr>w_slots := (w_slots w)[i := Some sl]\<rparr>) else Inl Misuse) w) w"
| "basic (Drop_slot i) w = with_slot i (\<lambda>sl. Inr (w\<lparr>w_slots := (w_slots w)[i := None]\<rparr>)) w"
| "basic (Connect g i) w = with_slot i (\<lambda>sl. with_signal g (\<lambda>sg. connect g sl sg w) w) w"
| "basic (Connect_get g i) w = with_slot i (\<lambda>sl. with_signal g (\<lambda>sg. connect_get g sl sg w) w) w"
| "basic (Disconnect c) w = with_conn c (\<lambda>cn. disconnect cn w) w"
| "basic (Test_connection c) w =
     with_conn c (\<lambda>cn. case connection_valid cn w of Inl e \<Rightarrow> Inl e
       | Inr b \<Rightarrow> Inr (log_event (Result (V_bool b)) w)) w"
| "basic (Drop_connection c) w = with_conn c (\<lambda>cn. Inr (w\<lparr>w_conns := (w_conns w)[c := None]\<rparr>)) w"
| "basic (Clear g) w = with_signal g (\<lambda>sg. Inr (set_signal g (signal_clear w sg) w)) w"
| "basic (Test_empty g) w =
     with_signal g (\<lambda>sg. Inr (log_event (Result (V_bool (signal_empty w sg))) w)) w"

section \<open>Emission\<close>

text \<open>
  The steps of \<open>emit\<close>. The list of records only grows while a signal is locked, so that its iterator is
  a position of the list. A position whose record is not called is marked for removal.
\<close>

definition lock_signal :: "nat \<Rightarrow> signal \<Rightarrow> 'v sworld \<Rightarrow> 'v sworld" where
  "lock_signal g sg w = set_signal g (sg\<lparr>sg_locked := True\<rparr>) w"

definition mark_record :: "nat \<Rightarrow> nat \<Rightarrow> signal \<Rightarrow> 'v sworld \<Rightarrow> 'v sworld" where
  "mark_record g it sg w = set_signal g (sg\<lparr>sg_pending_removal := True,
     sg_records := (sg_records sg)[it := (sg_records sg ! it)\<lparr>request_removal := True\<rparr>]\<rparr>) w"

definition unlock_signal :: "nat \<Rightarrow> signal \<Rightarrow> 'v sworld \<Rightarrow> 'v sworld" where
  "unlock_signal g sg w = set_signal g (reconcile_removal w (sg\<lparr>sg_locked := False\<rparr>)) w"

text \<open>
  What is called: the function of a valid slot (\<open>operator()\<close> asserts that it is), and a member function
  of an object that is still there.
\<close>

definition slot_func :: "nat \<Rightarrow> 'v val list \<Rightarrow> 'v sworld \<Rightarrow> sfault + 'v func" where
  "slot_func i xs w = with_slot i (\<lambda>sl.
     if length xs \<noteq> sl_arity sl then Inl Misuse
     else case sl_fsptr sl of None \<Rightarrow> Inl Abort
       | Some a \<Rightarrow> (case entry (w_cells w) a of None \<Rightarrow> Inl Abort | Some f \<Rightarrow> Inr f)) w"

definition target_alive :: "target \<Rightarrow> 'v sworld \<Rightarrow> bool" where
  "target_alive t w = (case t of Non_member k \<Rightarrow> True | Member h m \<Rightarrow> entry (w_handlers w) h \<noteq> None)"

text \<open>
  The rest of the program is a parameter of each piece, and \<open>run\<close> ties the knot. The fuel bounds the depth
  of the calls: every command and every position of a list takes one. \<open>None\<close> is a run that has not
  ended by then.
\<close>

type_synonym 'v outcome = "(sfault + 'v val \<times> 'v sworld) option"

definition call_func ::
  "('v cmd list \<Rightarrow> 'v sworld \<Rightarrow> (sfault + 'v sworld) option) \<Rightarrow> 'v signal_client \<Rightarrow> 'v func \<Rightarrow> 'v val list
     \<Rightarrow> 'v sworld \<Rightarrow> 'v outcome" where
  "call_func R C f xs w =
     (let t = target_of f; ys = apply_bindings f xs
      in if \<not> target_alive t w then Some (Inl Dangling)
         else case R (c_body C t ys) (log_event (Called t ys) w) of
             None \<Rightarrow> None
           | Some (Inl e) \<Rightarrow> Some (Inl e)
           | Some (Inr w1) \<Rightarrow> Some (Inr (c_ret C t ys w1, w1)))"

primrec emit_loop :: "nat \<Rightarrow> ('v func \<Rightarrow> 'v sworld \<Rightarrow> 'v outcome) \<Rightarrow> nat \<Rightarrow> nat
    \<Rightarrow> ('v val \<Rightarrow> 'v val \<Rightarrow> 'v val) \<Rightarrow> 'v val \<Rightarrow> 'v sworld \<Rightarrow> 'v outcome" where
  "emit_loop 0 K g it acc r w = None"
| "emit_loop (Suc n) K g it acc r w = (case signal_of w g of None \<Rightarrow> Some (Inl Emitter_gone)
     | Some sg \<Rightarrow>
         if it \<ge> length (sg_records sg) then Some (Inr (r, w))
         else (case entry (w_cells w) (rec_fsptr (sg_records sg ! it)) of
             None \<Rightarrow> emit_loop n K g (Suc it) acc r (mark_record g it sg w)
           | Some f \<Rightarrow>
               if request_removal (sg_records sg ! it)
               then emit_loop n K g (Suc it) acc r (mark_record g it sg w)
               else (case K f (log_event (Fired g (rec_id (sg_records sg ! it))) w) of
                   None \<Rightarrow> None
                 | Some (Inl e) \<Rightarrow> Some (Inl e)
                 | Some (Inr (v, w1)) \<Rightarrow> emit_loop n K g (Suc it) acc (acc r v) w1)))"

definition emit_signal :: "nat \<Rightarrow> ('v func \<Rightarrow> 'v val list \<Rightarrow> 'v sworld \<Rightarrow> 'v outcome) \<Rightarrow> nat \<Rightarrow> 'v accum
    \<Rightarrow> 'v val list \<Rightarrow> 'v sworld \<Rightarrow> 'v outcome" where
  "emit_signal n K g ac xs w = (case signal_of w g of None \<Rightarrow> Some (Inl Misuse)
     | Some sg \<Rightarrow>
         if length xs \<noteq> sg_arity sg then Some (Inl Misuse)
         else if sg_locked sg then Some (Inl Abort)
         else (case emit_loop n (\<lambda>f. K f xs) g 0 (snd ac) (fst ac) (lock_signal g sg w) of
             None \<Rightarrow> None
           | Some (Inl e) \<Rightarrow> Some (Inl e)
           | Some (Inr (v, w1)) \<Rightarrow> (case signal_of w1 g of None \<Rightarrow> Some (Inl Emitter_gone)
               | Some sg1 \<Rightarrow> Some (Inr (v, unlock_signal g sg1 w1)))))"

definition then_run ::
  "('v cmd list \<Rightarrow> 'v sworld \<Rightarrow> (sfault + 'v sworld) option) \<Rightarrow> 'v cmd list \<Rightarrow> 'v outcome
     \<Rightarrow> (sfault + 'v sworld) option" where
  "then_run R cs res = (case res of None \<Rightarrow> None
     | Some (Inl e) \<Rightarrow> Some (Inl e)
     | Some (Inr (v, w1)) \<Rightarrow> R cs (log_event (Result v) w1))"

primrec run :: "nat \<Rightarrow> 'v signal_client \<Rightarrow> 'v cmd list \<Rightarrow> 'v sworld \<Rightarrow> (sfault + 'v sworld) option" where
  "run 0 C cs w = None"
| "run (Suc n) C cs w = (case cs of [] \<Rightarrow> Some (Inr w)
     | c # cs1 \<Rightarrow> (case c of
           Basic b \<Rightarrow> (case basic b w of Inl e \<Rightarrow> Some (Inl e) | Inr w1 \<Rightarrow> run n C cs1 w1)
         | Emit g ac xs \<Rightarrow> then_run (run n C) cs1 (emit_signal n (call_func (run n C) C) g ac xs w)
         | Call_slot i xs \<Rightarrow> (case slot_func i xs w of Inl e \<Rightarrow> Some (Inl e)
             | Inr f \<Rightarrow> then_run (run n C) cs1 (call_func (run n C) C f xs w))
         | Decide k \<Rightarrow> run n C (k w @ cs1) w))"

section \<open>What holds through every run\<close>

text \<open>A run that has ended: its fault satisfies \<open>E\<close>, its result satisfies \<open>Q\<close>.\<close>

definition settled :: "('e \<Rightarrow> bool) \<Rightarrow> ('a \<Rightarrow> bool) \<Rightarrow> ('e + 'a) option \<Rightarrow> bool" where
  "settled E Q res = (case res of None \<Rightarrow> True | Some (Inl e) \<Rightarrow> E e | Some (Inr x) \<Rightarrow> Q x)"

lemma settled_simps [simp]:
  "settled E Q None" "settled E Q (Some (Inl e)) = E e" "settled E Q (Some (Inr x)) = Q x"
  by (simp_all add: settled_def)

lemma settledD:
  assumes "settled E Q res"
  shows "res = Some (Inl e) \<Longrightarrow> E e" "res = Some (Inr x) \<Longrightarrow> Q x"
  using assms by simp_all

text \<open>
  An interface for facts about whole programs. \<open>P\<close> is an invariant, \<open>R\<close> relates the state before to the
  state after, \<open>L\<close> the states inside one emission, and \<open>E\<close> holds of the faults. The assumptions are
  about single steps; the lemmas lift them through commands, calls, nested emissions and the clients'
  functions.
\<close>

locale signal_steps =
  fixes P :: "'v sworld \<Rightarrow> bool"
    and R :: "'v sworld \<Rightarrow> 'v sworld \<Rightarrow> bool"
    and L :: "nat \<Rightarrow> 'v sworld \<Rightarrow> 'v sworld \<Rightarrow> bool"
    and E :: "sfault \<Rightarrow> bool"
  assumes R_refl: "R w w"
    and R_trans: "R w1 w2 \<Longrightarrow> R w2 w3 \<Longrightarrow> R w1 w3"
    and L_trans: "L g w1 w2 \<Longrightarrow> L g w2 w3 \<Longrightarrow> L g w1 w3"
    and R_L: "R w1 w2 \<Longrightarrow> L g w1 w2"
    and basic_fault: "P w \<Longrightarrow> basic b w = Inl e \<Longrightarrow> E e"
    and basic_keeps: "P w \<Longrightarrow> basic b w = Inr w1 \<Longrightarrow> P w1 \<and> R w w1"
    and result_keeps: "P w \<Longrightarrow> P (log_event (Result v) w) \<and> R w (log_event (Result v) w)"
    and call_keeps: "P w \<Longrightarrow> owned w a \<Longrightarrow> entry (w_cells w) a = Some f \<Longrightarrow> target_alive (target_of f) w
      \<Longrightarrow> P (log_event (Called (target_of f) ys) w) \<and> R w (log_event (Called (target_of f) ys) w)"
    and call_fault: "P w \<Longrightarrow> owned w a \<Longrightarrow> entry (w_cells w) a = Some f \<Longrightarrow> \<not> target_alive (target_of f) w
      \<Longrightarrow> E Dangling"
    and fire_keeps: "P w \<Longrightarrow> signal_of w g = Some sg \<Longrightarrow> r \<in> set (sg_records sg)
      \<Longrightarrow> \<not> should_remove w r
      \<Longrightarrow> P (log_event (Fired g (rec_id r)) w) \<and> L g w (log_event (Fired g (rec_id r)) w)"
    and mark_keeps: "P w \<Longrightarrow> signal_of w g = Some sg \<Longrightarrow> it < length (sg_records sg)
      \<Longrightarrow> should_remove w (sg_records sg ! it)
      \<Longrightarrow> P (mark_record g it sg w) \<and> L g w (mark_record g it sg w)"
    and lock_keeps: "P w \<Longrightarrow> signal_of w g = Some sg \<Longrightarrow> \<not> sg_locked sg \<Longrightarrow> P (lock_signal g sg w)"
    and unlock_keeps: "P w \<Longrightarrow> signal_of w g = Some sg \<Longrightarrow> \<not> sg_locked sg \<Longrightarrow> P w1
      \<Longrightarrow> L g (lock_signal g sg w) w1 \<Longrightarrow> signal_of w1 g = Some sg1
      \<Longrightarrow> P (unlock_signal g sg1 w1) \<and> R w (unlock_signal g sg1 w1)"
    and user_fault: "E Abort" "E Misuse" "E Emitter_gone"
begin

lemma call_func_steps:
  assumes Rn: "\<forall>cs w. P w \<longrightarrow> settled E (\<lambda>w1. P w1 \<and> R w w1) (Rn cs w)"
    and w: "P w" "owned w a" "entry (w_cells w) a = Some f"
  shows "settled E (\<lambda>(v, w1). P w1 \<and> R w w1) (call_func Rn C f xs w)"
proof (cases "target_alive (target_of f) w")
  case False
  then show ?thesis using call_fault [OF w] by (simp add: call_func_def Let_def)
next
  case True
  let ?w1 = "log_event (Called (target_of f) (apply_bindings f xs)) w"
  have "P ?w1" "R w ?w1" using call_keeps [OF w True] by auto
  then show ?thesis
    using True Rn [rule_format, of ?w1 "c_body C (target_of f) (apply_bindings f xs)"] R_trans
    by (auto simp: call_func_def Let_def settled_def split: option.splits sum.splits)
qed

lemma emit_loop_steps:
  assumes K: "\<And>f w a. P w \<Longrightarrow> owned w a \<Longrightarrow> entry (w_cells w) a = Some f
      \<Longrightarrow> settled E (\<lambda>(v, w1). P w1 \<and> R w w1) (K f w)"
  shows "P w \<Longrightarrow> settled E (\<lambda>(v, w1). P w1 \<and> L g w w1) (emit_loop n K g it acc r w)"
proof (induction n arbitrary: it r w)
  case 0
  then show ?case by simp
next
  case (Suc n)
  show ?case
  proof (cases "signal_of w g")
    case None
    then show ?thesis using user_fault by simp
  next
    case (Some sg)
    show ?thesis
    proof (cases "it < length (sg_records sg)")
      case False
      then show ?thesis using Some Suc.prems R_L [OF R_refl] by simp
    next
      case it: True
      let ?r = "sg_records sg ! it"
      have r: "?r \<in> set (sg_records sg)" using it by simp
      show ?thesis
      proof (cases "should_remove w ?r")
        case True
        note m = mark_keeps [OF Suc.prems Some it True]
        have "emit_loop (Suc n) K g it acc r w = emit_loop n K g (Suc it) acc r (mark_record g it sg w)"
          using Some it True by (auto simp: should_remove_def split: option.splits)
        then show ?thesis using Suc.IH [OF conjunct1 [OF m], of "Suc it" r] L_trans [OF conjunct2 [OF m]]
          by (auto simp: settled_def split: option.splits sum.splits)
      next
        case False
        then obtain f where f: "entry (w_cells w) (rec_fsptr ?r) = Some f" "\<not> request_removal ?r"
          by (auto simp: should_remove_def)
        let ?w = "log_event (Fired g (rec_id ?r)) w"
        note fk = fire_keeps [OF Suc.prems Some r False]
        have k: "settled E (\<lambda>(v, w1). P w1 \<and> R ?w w1) (K f ?w)"
          using K [of ?w "rec_fsptr ?r" f] fk f record_owned [OF Some r] by simp
        show ?thesis
        proof (cases "K f ?w")
          case None
          then show ?thesis using Some it f by simp
        next
          case kf: (Some res)
          show ?thesis
          proof (cases res)
            case (Inl e)
            then show ?thesis using Some it f kf k by simp
          next
            case (Inr vw)
            obtain v w1 where vw: "vw = (v, w1)" by (cases vw)
            have w1: "P w1" "R ?w w1" using k kf Inr vw by auto
            have l: "L g w w1" using L_trans [OF conjunct2 [OF fk] R_L [OF w1(2)]] .
            have "emit_loop (Suc n) K g it acc r w = emit_loop n K g (Suc it) acc (acc r v) w1"
              using Some it f kf Inr vw by simp
            then show ?thesis using Suc.IH [OF w1(1), of "Suc it" "acc r v"] L_trans [OF l]
              by (auto simp: settled_def split: option.splits sum.splits)
          qed
        qed
      qed
    qed
  qed
qed

lemma emit_steps:
  assumes K: "\<And>f xs w a. P w \<Longrightarrow> owned w a \<Longrightarrow> entry (w_cells w) a = Some f
      \<Longrightarrow> settled E (\<lambda>(v, w1). P w1 \<and> R w w1) (K f xs w)"
    and w: "P w"
  shows "settled E (\<lambda>(v, w1). P w1 \<and> R w w1) (emit_signal n K g ac xs w)"
proof (cases "signal_of w g")
  case None
  then show ?thesis using user_fault by (simp add: emit_signal_def)
next
  case (Some sg)
  show ?thesis
  proof (cases "length xs = sg_arity sg \<and> \<not> sg_locked sg")
    case False
    then show ?thesis using Some user_fault by (auto simp: emit_signal_def)
  next
    case True
    let ?res = "emit_loop n (\<lambda>f. K f xs) g 0 (snd ac) (fst ac) (lock_signal g sg w)"
    have "settled E (\<lambda>(v, w1). P w1 \<and> L g (lock_signal g sg w) w1) ?res"
      using lock_keeps [OF w Some] True by (intro emit_loop_steps K) auto
    then show ?thesis using Some True user_fault unlock_keeps [OF w Some]
      by (auto simp: emit_signal_def settled_def split: option.splits sum.splits)
  qed
qed

lemma then_run_steps:
  assumes Rn: "\<forall>cs w. P w \<longrightarrow> settled E (\<lambda>w1. P w1 \<and> R w w1) (Rn cs w)"
    and res: "settled E (\<lambda>(v, w1). P w1 \<and> R w w1) res"
  shows "settled E (\<lambda>w1. P w1 \<and> R w w1) (then_run Rn cs res)"
proof (cases res)
  case None
  then show ?thesis by (simp add: then_run_def)
next
  case (Some x)
  show ?thesis
  proof (cases x)
    case (Inl e)
    then show ?thesis using Some res by (simp add: then_run_def)
  next
    case (Inr vw)
    obtain v w1 where vw: "vw = (v, w1)" by (cases vw)
    then have "P w1" "R w w1" using Some Inr res by auto
    with result_keeps [of w1 v] Rn [rule_format, of "log_event (Result v) w1" cs] R_trans
    show ?thesis by (auto simp: then_run_def Some Inr vw settled_def split: option.splits sum.splits)
  qed
qed

theorem run_steps: "P w \<Longrightarrow> settled E (\<lambda>w1. P w1 \<and> R w w1) (run n C cs w)"
proof (induction n arbitrary: cs w)
  case 0
  then show ?case by simp
next
  case (Suc n)
  have Rn: "\<forall>cs w. P w \<longrightarrow> settled E (\<lambda>w1. P w1 \<and> R w w1) (run n C cs w)"
    using Suc.IH by blast
  note call = call_func_steps [OF Rn]
  show ?case
  proof (cases cs)
    case Nil
    then show ?thesis using Suc.prems R_refl by simp
  next
    case (Cons c cs1)
    show ?thesis
    proof (cases c)
      case (Basic b)
      show ?thesis
      proof (cases "basic b w")
        case (Inl e)
        then show ?thesis using Cons Basic basic_fault [OF Suc.prems] by simp
      next
        case (Inr w1)
        then have "P w1" "R w w1" using basic_keeps [OF Suc.prems] by auto
        then show ?thesis using Cons Basic Inr Suc.IH [of w1 cs1] R_trans [of w w1]
          by (auto simp: settled_def split: option.splits sum.splits)
      qed
    next
      case (Emit g ac xs)
      have "settled E (\<lambda>(v, w1). P w1 \<and> R w w1) (emit_signal n (call_func (run n C) C) g ac xs w)"
        by (rule emit_steps [OF call Suc.prems])
      from then_run_steps [OF Rn this] Cons Emit show ?thesis by simp
    next
      case (Call_slot i xs)
      show ?thesis
      proof (cases "slot_func i xs w")
        case (Inl e)
        then show ?thesis using Cons Call_slot user_fault
          by (auto simp: slot_func_def with_slot_def split: option.splits if_splits)
      next
        case (Inr f)
        then obtain sl a where "entry (w_slots w) i = Some sl" "sl_fsptr sl = Some a"
          "entry (w_cells w) a = Some f"
          by (auto simp: slot_func_def with_slot_def split: option.splits if_splits)
        then have "owned w a" by (auto simp: owned_def held_entry)
        from then_run_steps [OF Rn call [OF Suc.prems this \<open>entry (w_cells w) a = Some f\<close>]]
        show ?thesis using Cons Call_slot Inr by simp
      qed
    next
      case (Decide k)
      then show ?thesis using Cons Suc.IH [OF Suc.prems] by simp
    qed
  qed
qed

end

end
