(* ===== verification/Signal_Safety.thy ===== *)
theory Signal_Safety
  imports Signal_Run
begin

text \<open>
  No dangling call: a well-formed state keeps every function that calls a handler registered with that
  handler, and every step of every program preserves this.
\<close>

section \<open>Well-formed states\<close>

definition registered :: "'v sworld \<Rightarrow> nat \<Rightarrow> nat \<Rightarrow> bool" where
  "registered w h a \<longleftrightarrow> (\<exists>ob. entry (w_handlers w) h = Some ob \<and> a \<in> set (h_invalidators ob))"

definition cells_ok :: "'v sworld \<Rightarrow> bool" where
  "cells_ok w \<longleftrightarrow> (\<forall>a. owned w a \<longrightarrow> a < length (w_cells w)) \<and>
     (\<forall>a f h m. owned w a \<longrightarrow> entry (w_cells w) a = Some f \<longrightarrow> target_of f = Member h m \<longrightarrow> registered w h a)"

text \<open>A slot knows the handler of its function: the copies that bind and hide arguments register with it.\<close>

definition handler_known :: "'v func option list \<Rightarrow> slot \<Rightarrow> bool" where
  "handler_known cells sl \<longleftrightarrow> (\<forall>a f. sl_fsptr sl = Some a \<longrightarrow> entry cells a = Some f \<longrightarrow>
     sl_handler sl = (case target_of f of Non_member k \<Rightarrow> None | Member h m \<Rightarrow> Some h))"

definition slots_ok :: "'v sworld \<Rightarrow> bool" where
  "slots_ok w \<longleftrightarrow> (\<forall>sl. Some sl \<in> set (w_slots w) \<longrightarrow> handler_known (w_cells w) sl) \<and>
     (\<forall>cn. Some cn \<in> set (w_conns w) \<longrightarrow> handler_known (w_cells w) (fst cn) \<and> handler_known (w_cells w) (snd cn))"

definition sworld_ok :: "'v sworld \<Rightarrow> bool" where
  "sworld_ok w \<longleftrightarrow> cells_ok w \<and> slots_ok w \<and> w_temps w = []"

text \<open>The state before a program makes its first object.\<close>

definition sworld_new :: "'v sworld" where
  "sworld_new = \<lparr>w_cells = [], w_handlers = [], w_slots = [], w_conns = [], w_temps = [], w_log = []\<rparr>"

lemma sworld_new_ok: "sworld_ok sworld_new"
  by (simp add: sworld_ok_def cells_ok_def slots_ok_def sworld_new_def owned_def held_def)

section \<open>Making slots\<close>

text \<open>What the makers of slots do to the rest of the state.\<close>

definition grows :: "'v sworld \<Rightarrow> 'v sworld \<Rightarrow> bool" where
  "grows w w1 \<longleftrightarrow> (\<exists>fs. w_cells w1 = w_cells w @ fs) \<and> set (w_temps w) \<subseteq> set (w_temps w1) \<and>
     w_slots w1 = w_slots w \<and> w_conns w1 = w_conns w \<and> w_log w1 = w_log w \<and>
     signal_of w1 = signal_of w \<and> length (w_handlers w1) = length (w_handlers w) \<and>
     (\<forall>h. entry (w_handlers w1) h = None \<longleftrightarrow> entry (w_handlers w) h = None)"

lemma grows_refl [intro]: "grows w w"
  by (auto simp: grows_def)

lemma grows_trans: "grows w1 w2 \<Longrightarrow> grows w2 w3 \<Longrightarrow> grows w1 w3"
  by (force simp: grows_def)

lemma grows_cell: "grows w w1 \<Longrightarrow> new_cell f w1 = (a, w2) \<Longrightarrow> grows w w2"
  by (auto simp: grows_def new_cell_def signal_of_def fun_eq_iff)

lemma grows_register1:
  assumes "register_invalidator h a w = Inr w1"
  shows "grows w w1"
proof -
  obtain ob where ob: "entry (w_handlers w) h = Some ob"
    and w1: "w1 = w\<lparr>w_handlers := (w_handlers w)[h :=
      Some (ob\<lparr>h_invalidators := filter (owned w) (h_invalidators ob @ [a])\<rparr>)]\<rparr>"
    using assms by (auto simp: register_invalidator_def split: option.splits simp del: filter_append)
  have "entry (w_handlers w) h \<noteq> None" using ob by simp
  then show ?thesis
    unfolding w1 grows_def using ob
    by (auto simp: entry_set signal_of_handler fun_eq_iff signal_of_def simp del: filter_append)
qed

lemmas grows_register = grows_trans [OF _ grows_register1]

lemma init_grows:
  "init_non_member k sl w = (ok, sl1, w1) \<Longrightarrow> grows w w1"
  "init_member h m sl w = Inr (ok, sl1, w1) \<Longrightarrow> grows w w1"
  "init_from_slot src bs sl w = Inr (ok, sl1, w1) \<Longrightarrow> grows w w1"
  by (auto simp: init_non_member_def init_member_def init_member_common_def init_from_slot_def
      split: if_splits option.splits sum.splits prod.splits dest!: grows_cell [OF grows_refl]
      intro: grows_register)

lemma make_grows:
  "make_function k n w = Inr (sl, w1) \<Longrightarrow> grows w w1"
  "make_member h m n w = Inr (sl, w1) \<Longrightarrow> grows w w1"
  "slot_bind1 src v1 w = Inr (sl, w1) \<Longrightarrow> grows w w1"
  "slot_bind2 src v1 v2 w = Inr (sl, w1) \<Longrightarrow> grows w w1"
  "slot_bind3 src v1 v2 v3 w = Inr (sl, w1) \<Longrightarrow> grows w w1"
  "slot_hide src w = Inr (sl, w1) \<Longrightarrow> grows w w1"
  by (auto simp: make_function_def make_member_def slot_bind1_def slot_bind2_def slot_bind3_def
      slot_hide_def or_empty_def Let_def split: if_splits option.splits sum.splits prod.splits
      dest: init_grows)

lemma bound_member_grows: "bound_member g m i w = Inr (sl, w1) \<Longrightarrow> grows w w1"
  by (auto simp: bound_member_def split: sum.splits dest!: make_grows intro: grows_trans)

lemma make_connection_grows: "make_connection g i w = Inr (cn, w1) \<Longrightarrow> grows w w1"
  by (auto simp: make_connection_def split: sum.splits dest!: bound_member_grows intro: grows_trans)

text \<open>The steps of a maker keep the state well-formed: a new cell, then its registration.\<close>

definition mid_ok :: "'v sworld \<Rightarrow> bool" where
  "mid_ok w \<longleftrightarrow> cells_ok w \<and> slots_ok w"

lemma slot_owned:
  "Some sl \<in> set (w_slots w) \<Longrightarrow> sl_fsptr sl = Some a \<Longrightarrow> owned w a"
  "Some cn \<in> set (w_conns w) \<Longrightarrow> sl_fsptr (fst cn) = Some a \<Longrightarrow> owned w a"
  "Some cn \<in> set (w_conns w) \<Longrightarrow> sl_fsptr (snd cn) = Some a \<Longrightarrow> owned w a"
  by (auto simp: owned_def held_iff) (cases cn; auto simp: conn_holds_def)+

lemma handler_known_append:
  "handler_known cells sl \<Longrightarrow> \<forall>a. sl_fsptr sl = Some a \<longrightarrow> a < length cells \<Longrightarrow> handler_known (cells @ fs) sl"
  by (auto simp: handler_known_def entry_def nth_append split: if_splits)

lemma slots_ok_append:
  assumes "mid_ok w" and "w_slots w1 = w_slots w" and "w_conns w1 = w_conns w"
    and "w_cells w1 = w_cells w @ fs"
  shows "slots_ok w1"
proof -
  have len: "owned w a \<Longrightarrow> a < length (w_cells w)" for a
    using assms(1) by (simp add: mid_ok_def cells_ok_def)
  show ?thesis
    unfolding slots_ok_def assms(2-4)
  proof (intro conjI allI impI)
    fix sl assume sl: "Some sl \<in> set (w_slots w)"
    then have "handler_known (w_cells w) sl" using assms(1) by (simp add: mid_ok_def slots_ok_def)
    then show "handler_known (w_cells w @ fs) sl"
      by (rule handler_known_append) (use sl slot_owned(1) len in blast)
  next
    fix cn assume cn: "Some cn \<in> set (w_conns w)"
    then have ok: "handler_known (w_cells w) (fst cn)" "handler_known (w_cells w) (snd cn)"
      using assms(1) by (simp_all only: mid_ok_def slots_ok_def)
    show "handler_known (w_cells w @ fs) (fst cn)"
      by (rule handler_known_append [OF ok(1)]) (use cn slot_owned(2) len in blast)
    show "handler_known (w_cells w @ fs) (snd cn)"
      by (rule handler_known_append [OF ok(2)]) (use cn slot_owned(3) len in blast)
  qed
qed

lemma new_cell_simps:
  assumes "new_cell f w = (a, w1)"
  shows "a = length (w_cells w)" "w_cells w1 = w_cells w @ [Some f]" "w_handlers w1 = w_handlers w"
    "w_slots w1 = w_slots w" "w_conns w1 = w_conns w" "w_temps w1 = a # w_temps w" "w_log w1 = w_log w"
    "owned w1 b \<longleftrightarrow> b = a \<or> owned w b" "entry (w_cells w1) a = Some f"
  using assms by (auto simp: new_cell_def owned_def entry_def)

lemma new_cell_entry:
  assumes "new_cell f w = (a, w1)" and "mid_ok w" and "owned w b"
  shows "entry (w_cells w1) b = entry (w_cells w) b"
  using assms by (auto simp: new_cell_def entry_def nth_append mid_ok_def cells_ok_def)

lemma new_cell_non_member:
  assumes n: "new_cell f w = (a, w1)" and w: "mid_ok w" and t: "target_of f = Non_member k"
  shows "mid_ok w1"
proof -
  have "registered w1 = registered w" by (simp add: registered_def fun_eq_iff new_cell_simps [OF n])
  then have "cells_ok w1"
    using w t new_cell_entry [OF n w] by (auto simp: cells_ok_def mid_ok_def new_cell_simps [OF n] less_Suc_eq entry_append)
  with slots_ok_append [OF w] new_cell_simps [OF n] show ?thesis by (auto simp: mid_ok_def)
qed

lemma held_handler_set:
  assumes "entry hs h = Some ob"
  shows "held (handler_holds a) (hs[h := Some (ob\<lparr>h_invalidators := is\<rparr>)]) = held (handler_holds a) hs"
proof -
  have hh: "handler_holds a (ob\<lparr>h_invalidators := is\<rparr>) = handler_holds a ob"
    by (simp add: handler_holds_def)
  have ne: "entry hs h \<noteq> None" using assms by simp
  show ?thesis
    unfolding held_entry entry_set [OF ne]
    by (metis assms hh option.inject)
qed

lemma register_owned:
  assumes "register_invalidator h a w = Inr w1"
  shows "owned w1 = owned w"
  using assms held_handler_set
  by (fastforce simp: register_invalidator_def owned_def fun_eq_iff split: option.splits
      simp del: filter_append)

lemma new_cell_member:
  assumes n: "new_cell f w = (a, w1)" and w: "mid_ok w" and t: "target_of f = Member h m"
    and h: "entry (w_handlers w) h = Some ob"
  shows "\<exists>w2. register_invalidator h a w1 = Inr w2 \<and> mid_ok w2 \<and> grows w w2
    \<and> a \<in> set (w_temps w2) \<and> entry (w_cells w2) a = Some f"
proof -
  define w2 where "w2 = w1\<lparr>w_handlers := (w_handlers w1)[h :=
      Some (ob\<lparr>h_invalidators := filter (owned w1) (h_invalidators ob @ [a])\<rparr>)]\<rparr>"
  have ne: "entry (w_handlers w) h \<noteq> None" using h by simp
  have reg: "register_invalidator h a w1 = Inr w2"
    using h by (simp add: register_invalidator_def new_cell_simps [OF n] w2_def)
  have w2: "owned w2 = owned w1" "w_cells w2 = w_cells w1" "w_slots w2 = w_slots w" "w_conns w2 = w_conns w"
    "w_temps w2 = a # w_temps w" "w_handlers w2 = (w_handlers w)[h :=
      Some (ob\<lparr>h_invalidators := filter (owned w1) (h_invalidators ob @ [a])\<rparr>)]"
    using register_owned [OF reg] by (simp_all add: w2_def new_cell_simps [OF n])
  have regd: "registered w2 h' b" if "owned w2 b" "registered w h' b \<or> (h' = h \<and> b = a)" for h' b
    using that h by (auto simp: registered_def w2 entry_set [OF ne])
  have "registered w2 h' b"
    if "owned w2 b" "entry (w_cells w2) b = Some f'" "target_of f' = Member h' m'" for b f' h' m'
  proof (cases "b = a")
    case True
    then have "h' = h" using that t by (simp add: w2 new_cell_simps [OF n] entry_append)
    then show ?thesis using regd that True by simp
  next
    case False
    then have b: "owned w b" using that by (simp add: w2 new_cell_simps [OF n])
    then have "entry (w_cells w) b = Some f'" using that new_cell_entry [OF n w b] by (simp add: w2)
    then show ?thesis using regd that b w by (auto simp: mid_ok_def cells_ok_def)
  qed
  then have "cells_ok w2"
    using w by (auto simp: cells_ok_def mid_ok_def w2 new_cell_simps [OF n] less_Suc_eq)
  moreover have "slots_ok w2" using slots_ok_append [OF w] by (simp add: w2 new_cell_simps [OF n])
  moreover have "grows w w2" using grows_register [OF grows_cell [OF grows_refl n] reg] .
  ultimately show ?thesis using reg by (auto simp: mid_ok_def w2 new_cell_simps [OF n] entry_append)
qed

definition made :: "'v sworld \<Rightarrow> sfault + slot \<times> 'v sworld \<Rightarrow> bool" where
  "made w res = (case res of Inl e \<Rightarrow> e \<noteq> Dangling
     | Inr (sl, w1) \<Rightarrow> mid_ok w1 \<and> grows w w1 \<and> handler_known (w_cells w1) sl
         \<and> (\<forall>a. sl_fsptr sl = Some a \<longrightarrow> a \<in> set (w_temps w1)))"

lemma made_empty: "mid_ok w \<Longrightarrow> made w (Inr (empty_slot n, w))"
  by (auto simp: made_def handler_known_def empty_slot_def)

lemma make_function_made:
  assumes "mid_ok w"
  shows "made w (make_function k n w)"
proof (cases k)
  case None
  then show ?thesis
    by (simp add: make_function_def init_non_member_def empty_slot_def made_def)
next
  case (Some j)
  obtain a w1 where n: "new_cell (Raw (Non_member j)) w = (a, w1)"
    by (cases "new_cell (Raw (Non_member j)) w") auto
  have "mid_ok w1" using new_cell_non_member [OF n assms] by simp
  then show ?thesis
    using n new_cell_simps [OF n] grows_cell [OF grows_refl n]
    by (simp add: make_function_def init_non_member_def Some empty_slot_def made_def handler_known_def)
qed

lemma make_member_made:
  assumes "mid_ok w" and "entry (w_handlers w) h = Some ob"
  shows "made w (make_member h m n w)"
proof (cases m)
  case None
  then show ?thesis by (simp add: make_member_def init_member_def made_def)
next
  case (Some mt)
  obtain a w1 where n: "new_cell (Raw (Member h mt)) w = (a, w1)"
    by (cases "new_cell (Raw (Member h mt)) w") auto
  from new_cell_member [OF n assms(1) _ assms(2)] obtain w2 where
    "register_invalidator h a w1 = Inr w2" "mid_ok w2" "grows w w2" "a \<in> set (w_temps w2)"
    "entry (w_cells w2) a = Some (Raw (Member h mt))" by auto
  then show ?thesis
    using n by (simp add: make_member_def init_member_def init_member_common_def Some empty_slot_def
        made_def handler_known_def)
qed

text \<open>Binding and hiding: the copy registers with the handler that the slot remembers.\<close>

lemma init_from_slot_made:
  assumes w: "mid_ok w" and sl: "handler_known (w_cells w) src" "\<forall>a. sl_fsptr src = Some a \<longrightarrow> owned w a"
  shows "made w (or_empty n (init_from_slot src bs (empty_slot n) w))"
proof (cases "slot_valid w src")
  case False
  then show ?thesis using made_empty [OF w, of n]
    by (auto simp: init_from_slot_def or_empty_def slot_valid_def empty_slot_def split: option.splits)
next
  case True
  then obtain b f where b: "sl_fsptr src = Some b" "entry (w_cells w) b = Some f"
    by (auto simp: slot_valid_def split: option.splits)
  obtain a w1 where n: "new_cell (Bind f bs) w = (a, w1)"
    by (cases "new_cell (Bind f bs) w") auto
  show ?thesis
  proof (cases "target_of f")
    case (Non_member k)
    then have "sl_handler src = None" "mid_ok w1"
      using sl b new_cell_non_member [OF n w] by (auto simp: handler_known_def)
    then show ?thesis
      using b n Non_member new_cell_simps [OF n] grows_cell [OF grows_refl n]
      by (simp add: init_from_slot_def or_empty_def empty_slot_def made_def handler_known_def)
  next
    case (Member h m)
    have h: "sl_handler src = Some h" using sl(1) b Member by (auto simp: handler_known_def)
    have "registered w h b"
      using w sl(2) b Member by (auto simp: mid_ok_def cells_ok_def)
    then obtain ob where "entry (w_handlers w) h = Some ob" by (auto simp: registered_def)
    from new_cell_member [OF n w _ this] Member obtain w2 where
      "register_invalidator h a w1 = Inr w2" "mid_ok w2" "grows w w2" "a \<in> set (w_temps w2)"
      "entry (w_cells w2) a = Some (Bind f bs)" by auto
    then show ?thesis
      using b n h Member by (simp add: init_from_slot_def or_empty_def empty_slot_def made_def handler_known_def)
  qed
qed

lemma rebind_made:
  assumes w: "mid_ok w" and sl: "handler_known (w_cells w) src" "\<forall>a. sl_fsptr src = Some a \<longrightarrow> owned w a"
  shows "made w (slot_bind1 src v1 w)" "made w (slot_bind2 src v1 v2 w)"
    "made w (slot_bind3 src v1 v2 v3 w)" "made w (slot_hide src w)"
  using init_from_slot_made [OF assms]
  by (simp_all add: slot_bind1_def slot_bind2_def slot_bind3_def slot_hide_def Let_def made_def)

lemma grows_handler: "grows w w1 \<Longrightarrow> entry (w_handlers w) h \<noteq> None \<Longrightarrow> entry (w_handlers w1) h \<noteq> None"
  by (simp add: grows_def)

lemma bound_member_made:
  assumes w: "mid_ok w" and h: "entry (w_handlers w) h \<noteq> None"
  shows "made w (bound_member h m i w)"
proof (cases "make_member h (Some m) 1 w")
  case (Inl e)
  then show ?thesis using make_member_made [OF w, of h _ "Some m" 1] h by (auto simp: bound_member_def made_def)
next
  case (Inr x)
  obtain sl w1 where x: "x = (sl, w1)" by (cases x)
  have m: "made w (Inr (sl, w1))" using make_member_made [OF w, of h _ "Some m" 1] h Inr x by auto
  then have "made w1 (slot_bind1 sl (V_id i) w1)"
    by (intro rebind_made) (auto simp: made_def owned_def)
  moreover have "bound_member h m i w = slot_bind1 sl (V_id i) w1"
    unfolding bound_member_def Inr x by simp
  ultimately show ?thesis
    using m by (auto simp: made_def split: sum.splits intro: grows_trans)
qed

lemma grows_slot_ok:
  assumes "grows w w1" and "mid_ok w" and "handler_known (w_cells w) sl"
    and "\<forall>a. sl_fsptr sl = Some a \<longrightarrow> a \<in> set (w_temps w)"
  shows "handler_known (w_cells w1) sl" "\<forall>a. sl_fsptr sl = Some a \<longrightarrow> a \<in> set (w_temps w1)"
proof -
  obtain fs where fs: "w_cells w1 = w_cells w @ fs" "set (w_temps w) \<subseteq> set (w_temps w1)"
    using assms(1) by (auto simp: grows_def)
  have "\<forall>a. sl_fsptr sl = Some a \<longrightarrow> a < length (w_cells w)"
    using assms(2,4) by (auto simp: mid_ok_def cells_ok_def owned_def)
  with assms(3) show "handler_known (w_cells w1) sl" unfolding fs(1) by (rule handler_known_append)
  show "\<forall>a. sl_fsptr sl = Some a \<longrightarrow> a \<in> set (w_temps w1)" using assms(4) fs(2) by blast
qed

lemma make_connection_made:
  assumes w: "mid_ok w" and h: "entry (w_handlers w) g \<noteq> None"
    and c: "make_connection g i w = Inr (cn, w1)"
  shows "made w (Inr (fst cn, w1))" "made w (Inr (snd cn, w1))"
proof -
  obtain dsl w2 where d: "bound_member g Signal_remove i w = Inr (dsl, w2)"
    using c by (auto simp: make_connection_def split: sum.splits)
  then obtain vsl where v: "bound_member g Signal_is_valid i w2 = Inr (vsl, w1)" and cn: "cn = (dsl, vsl)"
    using c by (auto simp: make_connection_def split: sum.splits)
  have md: "made w (Inr (dsl, w2))" using bound_member_made [OF w h] d by metis
  then have w2: "mid_ok w2" "grows w w2" by (simp_all add: made_def)
  have mv: "made w2 (Inr (vsl, w1))"
    using bound_member_made [OF w2(1) grows_handler [OF w2(2) h]] v by metis
  show "made w (Inr (fst cn, w1))"
    using md mv grows_slot_ok [of w2 w1 dsl] grows_trans [OF w2(2)] by (simp add: cn made_def)
  show "made w (Inr (snd cn, w1))"
    using mv grows_trans [OF w2(2)] by (simp add: cn made_def)
qed

lemma make_connection_fault:
  assumes w: "mid_ok w" and h: "entry (w_handlers w) g \<noteq> None"
    and c: "make_connection g i w = Inl e"
  shows "e \<noteq> Dangling"
proof (cases "bound_member g Signal_remove i w")
  case (Inl e1)
  then show ?thesis using c bound_member_made [OF w h, of Signal_remove i]
    by (simp add: make_connection_def made_def)
next
  case (Inr x)
  obtain dsl w2 where x: "x = (dsl, w2)" by (cases x)
  have "made w (Inr (dsl, w2))" using bound_member_made [OF w h, of Signal_remove i] Inr x by simp
  then have w2: "mid_ok w2" "grows w w2" by (simp_all add: made_def)
  show ?thesis
    using c bound_member_made [OF w2(1) grows_handler [OF w2(2) h], of Signal_is_valid i]
    by (auto simp: make_connection_def Inr x made_def split: sum.splits prod.splits)
qed

section \<open>Every command keeps the state well-formed\<close>

lemma handler_known_mono:
  "handler_known c sl \<Longrightarrow> (\<And>a f. entry c' a = Some f \<Longrightarrow> entry c a = Some f) \<Longrightarrow> handler_known c' sl"
  by (auto simp: handler_known_def)

lemma sworld_ok_shrink:
  assumes w: "mid_ok w"
    and cells: "\<And>a f. entry (w_cells w') a = Some f \<Longrightarrow> entry (w_cells w) a = Some f"
      "length (w_cells w) = length (w_cells w')"
    and own: "\<And>a. owned w' a \<Longrightarrow> owned w a"
    and reg: "\<And>h a f m. registered w h a \<Longrightarrow> owned w' a \<Longrightarrow> entry (w_cells w') a = Some f
      \<Longrightarrow> target_of f = Member h m \<Longrightarrow> registered w' h a"
    and slots: "\<And>sl. Some sl \<in> set (w_slots w') \<Longrightarrow> handler_known (w_cells w) sl"
    and conns: "\<And>cn. Some cn \<in> set (w_conns w') \<Longrightarrow> handler_known (w_cells w) (fst cn) \<and> handler_known (w_cells w) (snd cn)"
    and temps: "w_temps w' = []"
  shows "sworld_ok w'"
proof -
  have "cells_ok w'"
    unfolding cells_ok_def
  proof (intro conjI allI impI)
    fix a assume "owned w' a"
    then show "a < length (w_cells w')" using w own cells(2) by (auto simp: mid_ok_def cells_ok_def)
  next
    fix a f h m
    assume a: "owned w' a" "entry (w_cells w') a = Some f" "target_of f = Member h m"
    have "registered w h a" using w own [OF a(1)] cells(1) [OF a(2)] a(3) by (auto simp: mid_ok_def cells_ok_def)
    then show "registered w' h a" using reg a by blast
  qed
  moreover have "slots_ok w'"
    unfolding slots_ok_def using slots conns handler_known_mono [OF _ cells(1)] by metis
  ultimately show ?thesis using temps by (simp add: sworld_ok_def)
qed

lemma sworld_mid: "sworld_ok w \<Longrightarrow> mid_ok w"
  by (simp add: sworld_ok_def mid_ok_def)

lemma mid_slots:
  assumes "mid_ok w"
  shows "Some sl \<in> set (w_slots w) \<Longrightarrow> handler_known (w_cells w) sl"
    "Some cn \<in> set (w_conns w) \<Longrightarrow> handler_known (w_cells w) (fst cn) \<and> handler_known (w_cells w) (snd cn)"
  using assms by (simp_all only: mid_ok_def slots_ok_def)

lemma keep_slot_ok:
  assumes "made w res"
  shows "keep_slot res = Inl e \<Longrightarrow> e \<noteq> Dangling" "keep_slot res = Inr w2 \<Longrightarrow> sworld_ok w2"
proof -
  show "keep_slot res = Inl e \<Longrightarrow> e \<noteq> Dangling"
    using assms by (auto simp: keep_slot_def made_def split: sum.splits)
  assume k: "keep_slot res = Inr w2"
  then obtain sl w1 where r: "res = Inr (sl, w1)"
    and w2: "w2 = w1\<lparr>w_slots := w_slots w1 @ [Some sl], w_temps := []\<rparr>"
    by (auto simp: keep_slot_def split: sum.splits)
  have m: "mid_ok w1" "handler_known (w_cells w1) sl" "\<forall>a. sl_fsptr sl = Some a \<longrightarrow> a \<in> set (w_temps w1)"
    using assms by (simp_all add: made_def r)
  show "sworld_ok w2"
    unfolding w2 using m(1)
  proof (rule sworld_ok_shrink)
    show "owned w1 a" if "owned (w1\<lparr>w_slots := w_slots w1 @ [Some sl], w_temps := []\<rparr>) a" for a
      using that m(3) by (auto simp: owned_def held_iff)
  qed (use m mid_slots [OF m(1)] in \<open>auto simp: registered_def\<close>)
qed

lemma keep_conn_ok:
  assumes "made w (Inr (fst cn, w1))" "made w (Inr (snd cn, w1))" "keep_conn (Inr (cn, w1)) = Inr w2"
  shows "sworld_ok w2"
proof -
  have w2: "w2 = w1\<lparr>w_conns := w_conns w1 @ [Some cn], w_temps := []\<rparr>"
    using assms(3) by (simp add: keep_conn_def)
  have m: "mid_ok w1" "handler_known (w_cells w1) (fst cn)" "handler_known (w_cells w1) (snd cn)"
    "\<forall>a. sl_fsptr (fst cn) = Some a \<longrightarrow> a \<in> set (w_temps w1)"
    "\<forall>a. sl_fsptr (snd cn) = Some a \<longrightarrow> a \<in> set (w_temps w1)"
    using assms(1,2) by (simp_all add: made_def)
  show ?thesis
    unfolding w2 using m(1)
  proof (rule sworld_ok_shrink)
    show "owned w1 a" if "owned (w1\<lparr>w_conns := w_conns w1 @ [Some cn], w_temps := []\<rparr>) a" for a
      using that m(4,5) by (auto simp: owned_def held_iff conn_holds_def)
    show "handler_known (w_cells w1) (fst c) \<and> handler_known (w_cells w1) (snd c)"
      if "Some c \<in> set (w_conns (w1\<lparr>w_conns := w_conns w1 @ [Some cn], w_temps := []\<rparr>))" for c
      using that m mid_slots(2) [OF m(1), of c] by auto
  qed (use m mid_slots(1) [OF m(1)] in \<open>auto simp: registered_def\<close>)
qed

lemma set_signal_simps [simp]:
  "w_cells (set_signal g sg w) = w_cells w" "w_slots (set_signal g sg w) = w_slots w"
  "w_conns (set_signal g sg w) = w_conns w" "w_temps (set_signal g sg w) = w_temps w"
  "w_log (set_signal g sg w) = w_log w" "length (w_handlers (set_signal g sg w)) = length (w_handlers w)"
  "registered (set_signal g sg w) = registered w"
  by (auto simp: set_signal_def registered_def entry_set fun_eq_iff split: option.splits)

lemma set_signal_alive:
  "entry (w_handlers (set_signal g sg w)) h = None \<longleftrightarrow> entry (w_handlers w) h = None"
  by (auto simp: set_signal_def entry_set split: option.splits)

lemma signal_of_set:
  "signal_of (set_signal g sg w) k = (if k = g \<and> entry (w_handlers w) g \<noteq> None then Some sg else signal_of w k)"
  by (auto simp: set_signal_def signal_of_handler split: option.splits)

lemma set_signal_owned:
  assumes "\<forall>r \<in> set (sg_records sg1). owned w (rec_fsptr r)" and "owned (set_signal g sg1 w) a"
  shows "owned w a"
proof (cases "held (handler_holds a) (w_handlers (set_signal g sg1 w))")
  case True
  then obtain h ob where h: "entry (w_handlers (set_signal g sg1 w)) h = Some ob" "handler_holds a ob"
    by (auto simp: held_entry)
  show ?thesis
  proof (cases "entry (w_handlers w) h = Some ob")
    case True
    with h(2) show ?thesis by (auto simp: owned_def held_entry)
  next
    case False
    with h(1) have "h_signal ob = Some sg1"
      by (auto simp: set_signal_def entry_set split: option.splits if_splits)
    with h(2) assms(1) show ?thesis by (auto simp: handler_holds_def list_ex_iff)
  qed
next
  case False
  with assms(2) show ?thesis by (auto simp: owned_def)
qed

lemma set_signal_ok:
  assumes "sworld_ok w" and "\<forall>r \<in> set (sg_records sg1). owned w (rec_fsptr r)"
  shows "sworld_ok (set_signal g sg1 w)"
  using sworld_mid [OF assms(1)]
proof (rule sworld_ok_shrink)
  show "owned w a" if "owned (set_signal g sg1 w) a" for a
    by (rule set_signal_owned [OF assms(2) that])
qed (use assms(1) mid_slots [OF sworld_mid [OF assms(1)]] in \<open>auto simp: sworld_ok_def\<close>)

lemma fold_invalidate:
  "owned (fold invalidate is w) = owned w"
  "entry (w_cells (fold invalidate is w)) a = (if a \<in> set is \<and> owned w a then None else entry (w_cells w) a)"
  "length (w_cells (fold invalidate is w)) = length (w_cells w)"
  "w_handlers (fold invalidate is w) = w_handlers w" "w_slots (fold invalidate is w) = w_slots w"
  "w_conns (fold invalidate is w) = w_conns w" "w_temps (fold invalidate is w) = w_temps w"
  "w_log (fold invalidate is w) = w_log w"
proof -
  have own: "owned (w\<lparr>w_cells := c\<rparr>) = owned w" for c and w :: "'v sworld"
    by (simp add: owned_def fun_eq_iff)
  have inv: "owned (invalidate b w) = owned w" for b and w :: "'v sworld"
    by (simp add: invalidate_def own)
  show o: "owned (fold invalidate is w) = owned w" for w :: "'v sworld"
    by (induction "is" arbitrary: w) (simp_all add: inv)
  show "entry (w_cells (fold invalidate is w)) a = (if a \<in> set is \<and> owned w a then None else entry (w_cells w) a)"
  proof (induction "is" arbitrary: w)
    case (Cons b "is")
    have "entry (w_cells (invalidate b w)) a = (if a = b \<and> owned w a then None else entry (w_cells w) a)"
      by (auto simp: invalidate_def entry_update) (simp add: entry_def)
    with Cons.IH [of "invalidate b w"] show ?case by (auto simp: inv)
  qed simp
qed (induction "is" arbitrary: w; simp add: invalidate_def)+

lemma destroy_ok:
  assumes w: "sworld_ok w"
  shows "destroy_handler h w = Inl e \<Longrightarrow> e \<noteq> Dangling" "destroy_handler h w = Inr w3 \<Longrightarrow> sworld_ok w3"
proof -
  show "destroy_handler h w = Inl e \<Longrightarrow> e \<noteq> Dangling"
    by (auto simp: destroy_handler_def Let_def split: option.splits)
  assume d: "destroy_handler h w = Inr w3"
  then obtain ob where ob: "entry (w_handlers w) h = Some ob"
    by (auto simp: destroy_handler_def split: option.splits)
  define w1 where "w1 = w\<lparr>w_handlers := (w_handlers w)[h := Some (ob\<lparr>h_signal := None\<rparr>)]\<rparr>"
  define w2 where "w2 = fold invalidate (h_invalidators ob) w1"
  have w3: "w3 = w2\<lparr>w_handlers := (w_handlers w2)[h := None]\<rparr>"
    using d ob by (simp add: destroy_handler_def w1_def w2_def Let_def)
  have ne: "entry (w_handlers w) h \<noteq> None" using ob by simp
  have hs: "w_handlers w3 = (w_handlers w)[h := None]" "w_slots w3 = w_slots w" "w_conns w3 = w_conns w"
    "w_temps w3 = w_temps w" "w_cells w3 = w_cells w2"
    by (simp_all add: w3 w2_def w1_def fold_invalidate)
  have own3: "owned w a" if "owned w3 a" for a
    using that by (auto simp: owned_def hs held_entry entry_set [OF ne] split: if_splits)
  have own1: "owned w1 a" if "owned w3 a" for a
    using that by (auto simp: owned_def hs held_entry w1_def entry_set [OF ne] handler_holds_def split: if_splits)
  have c2: "entry (w_cells w2) a = (if a \<in> set (h_invalidators ob) \<and> owned w1 a then None else entry (w_cells w) a)" for a
    by (simp add: w2_def fold_invalidate) (simp add: w1_def)
  show "sworld_ok w3"
    using sworld_mid [OF w]
  proof (rule sworld_ok_shrink)
    show "entry (w_cells w) a = Some f" if "entry (w_cells w3) a = Some f" for a f
      using that by (simp add: hs c2 split: if_splits)
    show "length (w_cells w) = length (w_cells w3)" by (simp add: hs w2_def fold_invalidate) (simp add: w1_def)
    show "registered w3 k a" if "registered w k a" "owned w3 a" "entry (w_cells w3) a = Some f" for k a f
    proof -
      have "k \<noteq> h" using that own1 [of a] ob by (auto simp: registered_def hs c2)
      then show ?thesis using that(1) by (simp add: registered_def hs entry_set [OF ne])
    qed
  qed (use own3 w mid_slots [OF sworld_mid [OF w]] in \<open>auto simp: hs sworld_ok_def\<close>)
qed

text \<open>The records of a signal never hold a cell that is not held already.\<close>

lemma records_sub:
  "rec_fsptr ` set (sg_records (reconcile_removal w sg)) \<subseteq> rec_fsptr ` set (sg_records sg)"
  "rec_fsptr ` set (request_first i rs) = rec_fsptr ` set rs"
proof -
  show "rec_fsptr ` set (sg_records (reconcile_removal w sg)) \<subseteq> rec_fsptr ` set (sg_records sg)"
    by (auto simp: reconcile_removal_def)
  show "rec_fsptr ` set (request_first i rs) = rec_fsptr ` set rs" by (induction rs) auto
qed

lemma signal_ops_sub:
  "rec_fsptr ` set (sg_records (signal_remove w i sg)) \<subseteq> rec_fsptr ` set (sg_records sg)"
  "rec_fsptr ` set (sg_records (signal_clear w sg)) \<subseteq> rec_fsptr ` set (sg_records sg)"
proof -
  show "rec_fsptr ` set (sg_records (signal_remove w i sg)) \<subseteq> rec_fsptr ` set (sg_records sg)"
    unfolding signal_remove_def by (rule subset_trans [OF records_sub(1)]) (simp add: records_sub(2))
  show "rec_fsptr ` set (sg_records (signal_clear w sg)) \<subseteq> rec_fsptr ` set (sg_records sg)"
    unfolding signal_clear_def by (rule subset_trans [OF records_sub(1)]) (auto simp: image_iff)
qed

lemma set_signal_sub_ok:
  assumes "sworld_ok w" and "signal_of w g = Some sg"
    and "rec_fsptr ` set (sg_records sg1) \<subseteq> rec_fsptr ` set (sg_records sg)"
  shows "sworld_ok (set_signal g sg1 w)"
proof (rule set_signal_ok [OF assms(1)])
  show "\<forall>r \<in> set (sg_records sg1). owned w (rec_fsptr r)"
  proof
    fix r assume "r \<in> set (sg_records sg1)"
    then obtain r1 where "r1 \<in> set (sg_records sg)" "rec_fsptr r = rec_fsptr r1" using assms(3) by blast
    then show "owned w (rec_fsptr r)" using record_owned [OF assms(2)] by simp
  qed
qed

lemma sworld_log [simp]: "sworld_ok (log_event e w) = sworld_ok w"
  by (simp add: sworld_ok_def cells_ok_def slots_ok_def registered_def)

lemma insert_set_ok:
  assumes "sworld_ok w" and "signal_of w g = Some sg" and "entry (w_slots w) i = Some sl"
    and "signal_insert w sl sg = Some (j, sg1)"
  shows "sworld_ok (set_signal g sg1 w)"
proof (rule set_signal_ok [OF assms(1)])
  obtain a where a: "sl_fsptr sl = Some a"
    "sg_records sg1 = sg_records sg @ [\<lparr>rec_id = sg_next_id sg, request_removal = False, rec_fsptr = a\<rparr>]"
    using assms(4) by (auto simp: signal_insert_def split: option.splits)
  moreover have "owned w a" using slot_owned(1) [OF entry_in [OF assms(3)] a(1)] .
  ultimately show "\<forall>r \<in> set (sg_records sg1). owned w (rec_fsptr r)"
    using record_owned [OF assms(2)] by auto
qed

lemma call_connection_cases:
  assumes "call_connection sl w = Inr (v, w1)"
  shows "w1 = w \<or> (\<exists>g i sg. signal_of w g = Some sg \<and> w1 = set_signal g (signal_remove w i sg) w)"
  using assms
  by (auto simp: call_connection_def member_signal_iff
      split: option.splits sum.splits target.splits member_fn.splits list.splits val.splits)

lemma call_connection_fault:
  assumes "call_connection sl w = Inl Dangling" and w: "sworld_ok w"
    and sl: "\<forall>a. sl_fsptr sl = Some a \<longrightarrow> owned w a"
  shows False
proof -
  obtain a f where a: "sl_fsptr sl = Some a" "entry (w_cells w) a = Some f"
    using assms(1) by (auto simp: call_connection_def split: option.splits)
  have "\<exists>g m. target_of f = Member g m \<and> member_signal w g = Inl Dangling"
    using assms(1) a
    by (auto simp: call_connection_def
        split: sum.splits target.splits member_fn.splits list.splits val.splits)
  then obtain g m where "target_of f = Member g m" "entry (w_handlers w) g = None"
    by (auto simp: member_signal_iff)
  moreover have "owned w a" using sl a by simp
  ultimately show False using w a by (force simp: sworld_ok_def cells_ok_def registered_def)
qed

lemma call_connection_ok:
  assumes "sworld_ok w" and "call_connection sl w = Inr (v, w1)"
  shows "sworld_ok w1"
  using call_connection_cases [OF assms(2)] set_signal_sub_ok [OF assms(1) _ signal_ops_sub(1)] assms(1)
  by auto

lemma disconnect_ok:
  assumes w: "sworld_ok w" and cn: "entry (w_conns w) c = Some cn"
  shows "disconnect cn w = Inl e \<Longrightarrow> e \<noteq> Dangling" "disconnect cn w = Inr w1 \<Longrightarrow> sworld_ok w1"
    "connection_valid cn w = Inl e \<Longrightarrow> e \<noteq> Dangling"
proof -
  note own = slot_owned(2,3) [OF entry_in [OF cn]]
  show "disconnect cn w = Inl e \<Longrightarrow> e \<noteq> Dangling"
    using call_connection_fault [OF _ w, of "fst cn"] own
    by (auto simp: disconnect_def split: if_splits sum.splits)
  show "disconnect cn w = Inr w1 \<Longrightarrow> sworld_ok w1"
    using call_connection_ok [OF w, of "fst cn"] w
    by (auto simp: disconnect_def split: if_splits sum.splits)
  show "connection_valid cn w = Inl e \<Longrightarrow> e \<noteq> Dangling"
    using call_connection_fault [OF _ w, of "snd cn"] own
    by (auto simp: connection_valid_def split: if_splits sum.splits)
qed

text \<open>A result that is no dangling call and leaves a well-formed state.\<close>

definition safe :: "sfault + 'v sworld \<Rightarrow> bool" where
  "safe res = (case res of Inl e \<Rightarrow> e \<noteq> Dangling | Inr w1 \<Rightarrow> sworld_ok w1)"

lemma safe_keep: "made w res \<Longrightarrow> safe (keep_slot res)"
  using keep_slot_ok [of w res] by (auto simp: safe_def split: sum.splits)

lemma safe_with:
  "(\<And>sl. entry (w_slots w) i = Some sl \<Longrightarrow> safe (k1 sl)) \<Longrightarrow> safe (with_slot i k1 w)"
  "(\<And>sg. signal_of w g = Some sg \<Longrightarrow> safe (k2 sg)) \<Longrightarrow> safe (with_signal g k2 w)"
  "(\<And>cn. entry (w_conns w) c = Some cn \<Longrightarrow> safe (k3 cn)) \<Longrightarrow> safe (with_conn c k3 w)"
  by (auto simp: with_slot_def with_signal_def with_conn_def safe_def split: option.splits)

lemma safe_slots:
  assumes w: "sworld_ok w"
    and slots: "\<And>sl. Some sl \<in> set slots \<Longrightarrow> Some sl \<in> set (w_slots w)"
    and conns: "\<And>cn. Some cn \<in> set conns \<Longrightarrow> Some cn \<in> set (w_conns w)"
  shows "sworld_ok (w\<lparr>w_slots := slots\<rparr>)" "sworld_ok (w\<lparr>w_conns := conns\<rparr>)"
proof -
  note mid = mid_slots [OF sworld_mid [OF w]]
  show "sworld_ok (w\<lparr>w_slots := slots\<rparr>)"
    using sworld_mid [OF w]
  proof (rule sworld_ok_shrink)
    show "owned w a" if "owned (w\<lparr>w_slots := slots\<rparr>) a" for a
      using that slots by (auto simp: owned_def held_iff)
  qed (use w slots mid in \<open>auto simp: registered_def sworld_ok_def\<close>)
  show "sworld_ok (w\<lparr>w_conns := conns\<rparr>)"
    using sworld_mid [OF w]
  proof (rule sworld_ok_shrink)
    show "owned w a" if "owned (w\<lparr>w_conns := conns\<rparr>) a" for a
      using that conns by (auto simp: owned_def held_iff)
    show "handler_known (w_cells w) (fst cn) \<and> handler_known (w_cells w) (snd cn)"
      if "Some cn \<in> set (w_conns (w\<lparr>w_conns := conns\<rparr>))" for cn
      using that conns mid(2) by simp
  qed (use w mid in \<open>auto simp: registered_def sworld_ok_def\<close>)
qed

lemma entry_append_old: "entry xs i = Some x \<Longrightarrow> entry (xs @ ys) i = Some x"
  by (auto simp: entry_def nth_append split: if_splits)

lemma safe_new_handler:
  assumes w: "sworld_ok w" and ob: "h_signal ob = None \<or> h_signal ob = Some (signal_new n)"
  shows "sworld_ok (w\<lparr>w_handlers := w_handlers w @ [Some ob]\<rparr>)"
  using sworld_mid [OF w]
proof (rule sworld_ok_shrink)
  have "\<not> handler_holds a ob" for a using ob by (auto simp: handler_holds_def signal_new_def)
  then show "owned w a" if "owned (w\<lparr>w_handlers := w_handlers w @ [Some ob]\<rparr>) a" for a
    using that by (auto simp: owned_def held_iff)
qed (use w mid_slots [OF sworld_mid [OF w]] in \<open>auto simp: registered_def sworld_ok_def dest: entry_append_old\<close>)

lemma connect_safe:
  assumes "sworld_ok w" and "entry (w_slots w) i = Some sl" and "signal_of w g = Some sg"
  shows "safe (connect g sl sg w)"
  using insert_set_ok [OF assms(1,3,2)] assms(1)
  by (auto simp: connect_def safe_def split: option.splits)

lemma connect_get_safe:
  assumes w: "sworld_ok w" and "entry (w_slots w) i = Some sl" and g: "signal_of w g = Some sg"
  shows "safe (connect_get g sl sg w)"
proof (cases "sl_arity sl = sg_arity sg")
  case False
  then show ?thesis by (simp add: connect_get_def safe_def)
next
  case ar: True
  show ?thesis
  proof (cases "signal_insert w sl sg")
    case None
    have "sworld_ok w1" if "keep_conn (Inr (empty_connection, w)) = Inr w1" for w1
      using made_empty [OF sworld_mid [OF w]]
      by (intro keep_conn_ok [OF _ _ that]) (simp_all add: empty_connection_def)
    then show ?thesis using ar None by (simp add: connect_get_def safe_def keep_conn_def)
  next
    case (Some x)
    obtain j sg1 where x: "x = (j, sg1)" by (cases x)
    let ?w = "log_event (Connected g j) (set_signal g sg1 w)"
    have m: "mid_ok ?w"
      using insert_set_ok [OF w g assms(2)] Some x by (intro sworld_mid) simp
    have h: "entry (w_handlers ?w) g \<noteq> None"
      using g by (auto simp: set_signal_alive signal_of_Some)
    show ?thesis
    proof (cases "make_connection g j ?w")
      case (Inl e)
      then show ?thesis using ar Some x make_connection_fault [OF m h Inl]
        by (simp add: connect_get_def safe_def keep_conn_def)
    next
      case (Inr y)
      obtain cn w1 where y: "y = (cn, w1)" by (cases y)
      have "sworld_ok w2" if "keep_conn (Inr (cn, w1)) = Inr w2" for w2
        using make_connection_made [OF m h] Inr y by (intro keep_conn_ok [OF _ _ that]) (auto simp: made_def)
      then show ?thesis using ar Some x Inr y by (simp add: connect_get_def safe_def keep_conn_def)
    qed
  qed
qed

lemma basic_safe:
  assumes w: "sworld_ok w"
  shows "safe (basic b w)"
proof -
  note mid = sworld_mid [OF w]
  have src: "handler_known (w_cells w) sl" "\<forall>a. sl_fsptr sl = Some a \<longrightarrow> owned w a"
    if "entry (w_slots w) i = Some sl" for i sl
    using mid_slots(1) [OF mid entry_in [OF that]] slot_owned(1) [OF entry_in [OF that]] by auto
  note re = safe_keep [OF rebind_made(1) [OF mid src]] safe_keep [OF rebind_made(2) [OF mid src]]
    safe_keep [OF rebind_made(3) [OF mid src]] safe_keep [OF rebind_made(4) [OF mid src]]
  have upd: "Some sl \<in> set (xs[j := y]) \<Longrightarrow> y = None \<or> y \<in> set xs \<Longrightarrow> Some sl \<in> set xs"
    for sl :: slot and xs j y by (auto dest!: set_update_subset_insert [THEN subsetD])
  show ?thesis
  proof (cases b)
    case New_handler
    then show ?thesis using safe_new_handler [OF w] by (simp add: safe_def)
  next
    case (New_signal n)
    then show ?thesis using safe_new_handler [OF w] by (simp add: safe_def)
  next
    case (Destroy h)
    then show ?thesis using destroy_ok [OF w] by (auto simp: safe_def split: sum.splits)
  next
    case (Make_function k n)
    then show ?thesis using safe_keep [OF make_function_made [OF mid]] by simp
  next
    case (Make_member h m n)
    then show ?thesis using safe_keep [OF make_member_made [OF mid]] by (auto simp: safe_def)
  next
    case (Assign_slot i j)
    have "sworld_ok (w\<lparr>w_slots := (w_slots w)[i := Some sl]\<rparr>)" if "entry (w_slots w) j = Some sl" for sl
      using entry_in [OF that] by (intro safe_slots(1) [OF w]) (auto dest: upd)
    then show ?thesis unfolding Assign_slot basic.simps
      by (intro safe_with(1)) (auto simp: safe_def)
  next
    case (Copy_slot i)
    have "sworld_ok (w\<lparr>w_slots := w_slots w @ [Some sl]\<rparr>)" if "entry (w_slots w) i = Some sl" for sl
      using entry_in [OF that] by (intro safe_slots(1) [OF w]) auto
    then show ?thesis unfolding Copy_slot basic.simps
      by (intro safe_with(1)) (auto simp: safe_def)
  next
    case (Drop_slot i)
    have "sworld_ok (w\<lparr>w_slots := (w_slots w)[i := None]\<rparr>)"
      by (intro safe_slots(1) [OF w]) (auto dest: upd)
    then show ?thesis unfolding Drop_slot basic.simps
      by (intro safe_with(1)) (auto simp: safe_def)
  next
    case (Drop_connection c)
    have "sworld_ok (w\<lparr>w_conns := (w_conns w)[c := None]\<rparr>)"
      by (intro safe_slots(2) [OF w]) (auto dest!: set_update_subset_insert [THEN subsetD])
    then show ?thesis unfolding Drop_connection basic.simps
      by (intro safe_with(3)) (auto simp: safe_def)
  next
    case (Connect g i)
    then show ?thesis using connect_safe [OF w] by (auto intro!: safe_with)
  next
    case (Connect_get g i)
    then show ?thesis using connect_get_safe [OF w] by (auto intro!: safe_with)
  next
    case (Disconnect c)
    have "safe (disconnect cn w)" if "entry (w_conns w) c = Some cn" for cn
      using disconnect_ok(1,2) [OF w that] by (auto simp: safe_def split: sum.splits)
    then show ?thesis unfolding Disconnect basic.simps by (intro safe_with(3))
  next
    case (Test_connection c)
    have "safe (case connection_valid cn w of Inl e \<Rightarrow> Inl e
        | Inr b \<Rightarrow> Inr (log_event (Result (V_bool b)) w))" if "entry (w_conns w) c = Some cn" for cn
      using disconnect_ok(3) [OF w that] w by (auto simp: safe_def split: sum.splits)
    then show ?thesis unfolding Test_connection basic.simps by (intro safe_with(3))
  next
    case (Clear g)
    show ?thesis unfolding Clear basic.simps
      using set_signal_sub_ok [OF w _ signal_ops_sub(2)] by (intro safe_with(2)) (simp add: safe_def)
  next
    case (Test_empty g)
    show ?thesis unfolding Test_empty basic.simps
      using w by (intro safe_with(2)) (simp add: safe_def)
  qed (use re in \<open>auto intro!: safe_with(1)\<close>)
qed

section \<open>Every program is safe\<close>

lemma reconcile_sub_ok:
  assumes "sworld_ok w" and "signal_of w g = Some sg"
    and "rec_fsptr ` set (sg_records sg1) \<subseteq> rec_fsptr ` set (sg_records sg)"
  shows "sworld_ok (set_signal g (reconcile_removal w sg1) w)"
  by (rule set_signal_sub_ok [OF assms(1,2)]) (use records_sub(1) [of w sg1] assms(3) in blast)

lemma emission_step_ok:
  assumes w: "sworld_ok w" and sg: "signal_of w g = Some sg"
  shows "sworld_ok (lock_signal g sg w)" "sworld_ok (unlock_signal g sg w)"
    "it < length (sg_records sg) \<Longrightarrow> sworld_ok (mark_record g it sg w)"
proof -
  show "sworld_ok (lock_signal g sg w)"
    unfolding lock_signal_def by (rule set_signal_sub_ok [OF w sg]) simp
  show "sworld_ok (unlock_signal g sg w)"
    unfolding unlock_signal_def by (rule reconcile_sub_ok [OF w sg]) simp
  assume it: "it < length (sg_records sg)"
  have "map rec_fsptr ((sg_records sg)[it := (sg_records sg ! it)\<lparr>request_removal := True\<rparr>])
      = map rec_fsptr (sg_records sg)"
    using it by (simp add: map_update list_update_same_conv)
  then have "rec_fsptr ` set ((sg_records sg)[it := (sg_records sg ! it)\<lparr>request_removal := True\<rparr>])
      = rec_fsptr ` set (sg_records sg)" by (metis list.set_map)
  then show "sworld_ok (mark_record g it sg w)"
    unfolding mark_record_def by (intro set_signal_sub_ok [OF w sg]) simp
qed

lemma owned_alive:
  assumes "sworld_ok w" and "owned w a" and "entry (w_cells w) a = Some f"
  shows "target_alive (target_of f) w"
  using assms by (force simp: target_alive_def sworld_ok_def cells_ok_def registered_def split: target.splits)

interpretation wf: signal_steps sworld_ok "\<lambda>w w1. True" "\<lambda>g w w1. True" "\<lambda>e. e \<noteq> Dangling"
proof (unfold_locales, goal_cases)
  case (5 w b e)
  then show ?case using basic_safe [of w b] by (simp add: safe_def)
next
  case (6 w b w1)
  then show ?case using basic_safe [of w b] by (simp add: safe_def)
next
  case (9 w a f)
  then show ?case using owned_alive by blast
qed (simp_all add: emission_step_ok)

lemma run_keeps_ok: "sworld_ok w \<Longrightarrow> run n C cs w = Some (Inr w1) \<Longrightarrow> sworld_ok w1"
  using wf.run_steps [of w n C cs] by simp

text \<open>C34: No program makes the library call through a pointer to a handler that is gone, however it
  interleaves connecting, binding, destroying and emitting, inside functions that are being called as
  well as outside; and the state it leaves is well-formed again.\<close>

theorem no_dangling_call:
  assumes "sworld_ok w"
  shows "settled (\<lambda>e. e \<noteq> Dangling) sworld_ok (run n C cs w)"
  using wf.run_steps [OF assms, of n C cs] by simp


text \<open>A function is emptied, called through its slot afterwards, and the library stops at the assertion.\<close>

definition idle_client :: "nat signal_client" where
  "idle_client = \<lparr>c_body = \<lambda>t ys. [], c_ret = \<lambda>t ys w. V_void\<rparr>"

theorem no_dangling_call_witness:
  "run 9 idle_client [Basic New_handler, Basic (Make_member 0 (Some 7) 1), Basic (Destroy 0),
     Call_slot 0 [V_user 3]] sworld_new \<notin> {None, Some (Inl Dangling)}"
proof -
  let ?cs = "[Basic New_handler, Basic (Make_member 0 (Some 7) 1), Basic (Destroy 0), Call_slot 0 [V_user 3]]"
  have "run 9 idle_client ?cs sworld_new \<noteq> None" by code_simp
  then show ?thesis using no_dangling_call [OF sworld_new_ok, of 9 idle_client ?cs] by auto
qed


text \<open>
  A state for the examples: handler 0 with a slot on its method 7, connected to signal 1, and a slot on a
  free function that is connected to nothing.
\<close>

definition signal_setup :: "nat cmd list" where
  "signal_setup = [Basic New_handler, Basic (New_signal 1), Basic (Make_member 0 (Some 7) 1),
     Basic (Make_function (Some 3) 1), Basic (Connect_get 1 0)]"

definition demo_signal :: signal where
  "demo_signal = \<lparr>sg_arity = 1, sg_locked = False, sg_next_id = 1, sg_pending_removal = False,
     sg_records = [\<lparr>rec_id = 0, request_removal = False, rec_fsptr = 0\<rparr>]\<rparr>"

definition demo_world :: "nat sworld" where
  "demo_world = \<lparr>w_cells = [Some (Raw (Member 0 (Client_method 7))), Some (Raw (Non_member 3)),
       Some (Raw (Member 1 Signal_remove)), Some (Bind (Raw (Member 1 Signal_remove)) [Bound (V_id 0)]),
       Some (Raw (Member 1 Signal_is_valid)), Some (Bind (Raw (Member 1 Signal_is_valid)) [Bound (V_id 0)])],
     w_handlers = [Some \<lparr>h_invalidators = [0], h_signal = None\<rparr>,
       Some \<lparr>h_invalidators = [2, 3, 4, 5], h_signal = Some demo_signal\<rparr>],
     w_slots = [Some \<lparr>sl_fsptr = Some 0, sl_handler = Some 0, sl_arity = 1\<rparr>,
       Some \<lparr>sl_fsptr = Some 1, sl_handler = None, sl_arity = 1\<rparr>],
     w_conns = [Some (\<lparr>sl_fsptr = Some 3, sl_handler = Some 1, sl_arity = 0\<rparr>,
       \<lparr>sl_fsptr = Some 5, sl_handler = Some 1, sl_arity = 0\<rparr>)],
     w_temps = [], w_log = [Connected 1 0]\<rparr>"

text \<open>Method 7 connects the free function and disconnects itself.\<close>

definition removing_client :: "nat signal_client" where
  "removing_client = \<lparr>c_body = \<lambda>t ys. if t = Member 0 (Client_method 7)
     then [Basic (Connect 1 1), Basic (Disconnect 0)] else [], c_ret = \<lambda>t ys w. V_void\<rparr>"

definition ended :: "('e + 'a) option \<Rightarrow> bool" where
  "ended res = (case res of Some (Inr x) \<Rightarrow> True | _ \<Rightarrow> False)"

lemma endedD: "ended res \<Longrightarrow> \<exists>x. res = Some (Inr x)"
  by (auto simp: ended_def split: option.splits sum.splits)

lemma demo_world_reached: "run 9 idle_client signal_setup sworld_new = Some (Inr demo_world)"
  by code_simp

lemma demo_world_ok: "sworld_ok demo_world"
  by (rule run_keeps_ok [OF sworld_new_ok demo_world_reached])

lemma demo_signal_of: "signal_of demo_world 1 = Some demo_signal"
  by code_simp

end
