(* ===== verification/Signal_Emission.thy ===== *)
theory Signal_Emission
  imports Signal_Safety "HOL-Library.Sublist"
begin

text \<open>
  What an emission does to the list of its signal, and what it calls: the list only grows while the
  signal is locked, a slot that is still connected afterwards has been called, one that was
  disconnected or whose handler was destroyed is not called any more.
\<close>

section \<open>What a command does to the signals\<close>

definition same_record :: "slot_record \<Rightarrow> slot_record \<Rightarrow> bool" where
  "same_record r r1 \<longleftrightarrow> rec_id r1 = rec_id r \<and> rec_fsptr r1 = rec_fsptr r \<and>
     (request_removal r \<longrightarrow> request_removal r1)"

lemma same_record_refl [simp]: "same_record r r"
  by (simp add: same_record_def)

lemma same_record_trans: "same_record r1 r2 \<Longrightarrow> same_record r2 r3 \<Longrightarrow> same_record r1 r3"
  by (auto simp: same_record_def)

definition sig_change :: "'v sworld \<Rightarrow> 'v event list \<Rightarrow> nat \<Rightarrow> signal \<Rightarrow> signal \<Rightarrow> bool" where
  "sig_change w ev g sg sg1 \<longleftrightarrow> sg1 = sg
     \<or> (\<exists>rs. list_all2 same_record (sg_records sg) rs \<and>
          sg1 = reconcile_removal w (sg\<lparr>sg_records := rs, sg_pending_removal := True\<rparr>))
     \<or> (\<exists>a. Connected g (sg_next_id sg) \<in> set ev \<and>
          sg1 = sg\<lparr>sg_next_id := sg_next_id sg + 1, sg_records := sg_records sg @
            [\<lparr>rec_id = sg_next_id sg, request_removal = False, rec_fsptr = a\<rparr>]\<rparr>)"

text \<open>Objects that are gone stay gone, and the log of a command holds no calls.\<close>

definition sig_step :: "'v sworld \<Rightarrow> 'v event list \<Rightarrow> 'v sworld \<Rightarrow> bool" where
  "sig_step w ev w1 \<longleftrightarrow> w_log w1 = w_log w @ ev \<and> length (w_handlers w) \<le> length (w_handlers w1) \<and>
     (\<forall>e \<in> set ev. (\<exists>v. e = Result v) \<or> (\<exists>g i. e = Connected g i)) \<and>
     (\<forall>h < length (w_handlers w). entry (w_handlers w) h = None \<longrightarrow> entry (w_handlers w1) h = None) \<and>
     (\<forall>g < length (w_handlers w). signal_of w g = None \<longrightarrow> signal_of w1 g = None) \<and>
     (\<forall>g sg sg1. signal_of w g = Some sg \<longrightarrow> signal_of w1 g = Some sg1 \<longrightarrow> sig_change w ev g sg sg1)"

lemma signal_of_fields [simp]:
  "signal_of (w\<lparr>w_slots := s\<rparr>) = signal_of w" "signal_of (w\<lparr>w_conns := c\<rparr>) = signal_of w"
  "signal_of (w\<lparr>w_temps := t\<rparr>) = signal_of w" "signal_of (w\<lparr>w_cells := cs\<rparr>) = signal_of w"
  by (simp_all add: signal_of_def fun_eq_iff)

lemma sig_step_same:
  assumes "w_log w1 = w_log w @ ev" "\<forall>e \<in> set ev. (\<exists>v. e = Result v) \<or> (\<exists>g i. e = Connected g i)"
    "signal_of w1 = signal_of w" "length (w_handlers w1) = length (w_handlers w)"
    "\<forall>h. entry (w_handlers w1) h = None \<longleftrightarrow> entry (w_handlers w) h = None"
  shows "sig_step w ev w1"
  using assms by (simp add: sig_step_def sig_change_def)

lemma sig_step_fields [intro]:
  "sig_step w [] (w\<lparr>w_slots := s\<rparr>)" "sig_step w [] (w\<lparr>w_conns := c\<rparr>)"
  by (rule sig_step_same; simp)+

lemma set_signal_step:
  assumes g: "signal_of w g = Some sg" and ch: "sig_change w ev g sg sg1"
    and w1: "w_log w1 = w_log w @ ev" "signal_of w1 = signal_of (set_signal g sg1 w)"
      "length (w_handlers w1) = length (w_handlers w)"
      "\<forall>h. entry (w_handlers w1) h = None \<longleftrightarrow> entry (w_handlers w) h = None"
    and ev: "\<forall>e \<in> set ev. (\<exists>v. e = Result v) \<or> (\<exists>g i. e = Connected g i)"
  shows "sig_step w ev w1"
proof -
  have "signal_of w1 k = (if k = g then Some sg1 else signal_of w k)" for k
    using g by (simp add: w1 signal_of_set signal_of_Some) (auto simp: signal_of_def split: option.splits)
  then show ?thesis
    using g ch w1 ev by (auto simp: sig_step_def sig_change_def)
qed

lemma change_remove: "sig_change w ev g sg (signal_remove w' i sg)" if "w' = w"
proof -
  have "list_all2 same_record rs (request_first i rs)" for rs
    by (induction rs) (auto simp: list_all2_refl same_record_def)
  then show ?thesis unfolding sig_change_def signal_remove_def that by blast
qed

lemma change_clear: "sig_change w ev g sg (signal_clear w sg)"
proof -
  have "list_all2 same_record (sg_records sg) (map (\<lambda>r. r\<lparr>request_removal := True\<rparr>) (sg_records sg))"
    by (simp add: list_all2_map2 list_all2_refl same_record_def)
  then show ?thesis unfolding sig_change_def signal_clear_def by blast
qed

lemma change_insert:
  assumes "signal_insert w sl sg = Some (i, sg1)" and "Connected g i \<in> set ev"
  shows "sig_change w ev g sg sg1"
  using assms by (auto simp: signal_insert_def sig_change_def split: option.splits)

lemma destroy_step:
  assumes "destroy_handler h w = Inr w1"
  shows "sig_step w [] w1"
proof -
  obtain ob where ob: "entry (w_handlers w) h = Some ob"
    using assms by (auto simp: destroy_handler_def split: option.splits)
  then have ne: "entry (w_handlers w) h \<noteq> None" by simp
  have w1: "w_handlers w1 = (w_handlers w)[h := None]" "w_log w1 = w_log w"
    using assms ob by (auto simp: destroy_handler_def Let_def fold_invalidate)
  have "signal_of w1 k = (if k = h then None else signal_of w k)" for k
    by (simp add: signal_of_def w1 entry_set [OF ne])
  then show ?thesis by (auto simp: sig_step_def sig_change_def w1 entry_set [OF ne])
qed

lemma append_step:
  assumes "w_handlers w1 = w_handlers w @ [x]" and "w_log w1 = w_log w"
  shows "sig_step w [] w1"
  using assms
  by (auto simp: sig_step_def sig_change_def signal_of_def entry_append split: if_splits option.splits)
     (simp_all add: entry_def)

lemma connect_step:
  assumes "connect g sl sg w = Inr w1" and "signal_of w g = Some sg"
  shows "\<exists>ev. sig_step w ev w1"
proof (cases "signal_insert w sl sg")
  case None
  then have "w1 = log_event (Result (V_bool False)) w"
    using assms(1) by (simp add: connect_def split: if_splits)
  then have "sig_step w [Result (V_bool False)] w1" by (intro sig_step_same) auto
  then show ?thesis by blast
next
  case (Some x)
  obtain i sg1 where x: "x = (i, sg1)" by (cases x)
  have w1: "w1 = log_event (Result (V_bool True)) (log_event (Connected g i) (set_signal g sg1 w))"
    using assms(1) Some x by (simp add: connect_def split: if_splits)
  have "sig_step w [Connected g i, Result (V_bool True)] w1"
    using Some x by (intro set_signal_step [OF assms(2) change_insert])
      (auto simp: w1 set_signal_alive)
  then show ?thesis by blast
qed

lemma connect_get_step:
  assumes "connect_get g sl sg w = Inr w1" and "signal_of w g = Some sg"
  shows "\<exists>ev. sig_step w ev w1"
proof (cases "signal_insert w sl sg")
  case None
  then have "w1 = w\<lparr>w_conns := w_conns w @ [Some empty_connection], w_temps := []\<rparr>"
    using assms(1) by (simp add: connect_get_def keep_conn_def split: if_splits)
  then have "sig_step w [] w1" by (intro sig_step_same) (auto simp: signal_of_def)
  then show ?thesis by blast
next
  case (Some x)
  obtain i sg1 where x: "x = (i, sg1)" by (cases x)
  let ?w = "log_event (Connected g i) (set_signal g sg1 w)"
  obtain cn w2 where c: "make_connection g i ?w = Inr (cn, w2)"
    and w1: "w1 = w2\<lparr>w_conns := w_conns w2 @ [Some cn], w_temps := []\<rparr>"
    using assms(1) Some x by (auto simp: connect_get_def keep_conn_def split: if_splits sum.splits)
  have gr: "grows ?w w2" by (rule make_connection_grows [OF c])
  have "sig_step w [Connected g i] w1"
    using Some x gr by (intro set_signal_step [OF assms(2) change_insert])
      (auto simp: w1 grows_def set_signal_alive)
  then show ?thesis by blast
qed

lemma disconnect_step:
  assumes "disconnect cn w = Inr w1"
  shows "sig_step w [] w1"
proof -
  have same: "sig_step w [] w" by (rule sig_step_same) auto
  consider "w1 = w" | v where "call_connection (fst cn) w = Inr (v, w1)"
    using assms by (auto simp: disconnect_def split: if_splits sum.splits)
  then show ?thesis
  proof cases
    case 2
    from call_connection_cases [OF this] show ?thesis
    proof (elim disjE exE conjE)
      fix g i sg assume g: "signal_of w g = Some sg" and w1: "w1 = set_signal g (signal_remove w i sg) w"
      show ?thesis unfolding w1
        by (rule set_signal_step [OF g change_remove]) (auto simp: set_signal_alive)
    qed (simp add: same)
  qed (simp add: same)
qed

definition no_connect :: "'v basic_cmd \<Rightarrow> bool" where
  "no_connect b = (case b of Connect g i \<Rightarrow> False | Connect_get g i \<Rightarrow> False | _ \<Rightarrow> True)"

lemma with_Inr:
  "with_slot i k1 w = Inr x \<Longrightarrow> \<exists>sl. entry (w_slots w) i = Some sl \<and> k1 sl = Inr x"
  "with_signal g k2 w = Inr x \<Longrightarrow> \<exists>sg. signal_of w g = Some sg \<and> k2 sg = Inr x"
  "with_conn c k3 w = Inr x \<Longrightarrow> \<exists>cn. entry (w_conns w) c = Some cn \<and> k3 cn = Inr x"
  by (auto simp: with_slot_def with_signal_def with_conn_def split: option.splits)

lemma keep_step: "keep_slot res = Inr w1 \<Longrightarrow> (\<And>sl w2. res = Inr (sl, w2) \<Longrightarrow> grows w w2) \<Longrightarrow> sig_step w [] w1"
proof -
  assume k: "keep_slot res = Inr w1" and gr: "\<And>sl w2. res = Inr (sl, w2) \<Longrightarrow> grows w w2"
  then obtain sl w2 where r: "res = Inr (sl, w2)" and w1: "w1 = w2\<lparr>w_slots := w_slots w2 @ [Some sl], w_temps := []\<rparr>"
    by (auto simp: keep_slot_def split: sum.splits)
  show ?thesis using gr [OF r] by (intro sig_step_same) (auto simp: w1 grows_def)
qed

lemma basic_step:
  assumes "basic b w = Inr w1"
  shows "\<exists>ev. sig_step w ev w1 \<and> (no_connect b \<longrightarrow> (\<forall>g i. Connected g i \<notin> set ev))"
proof -
  have nil: ?thesis if "sig_step w [] w1"
    using that by (intro exI [of _ "[]"]) simp
  have res: ?thesis if "w1 = log_event (Result v) w" for v
    unfolding that by (rule exI [of _ "[Result v]"]) (auto intro: sig_step_same)
  show ?thesis
  proof (cases b)
    case New_handler
    show ?thesis by (rule nil, rule append_step) (use assms New_handler in auto)
  next
    case (New_signal n)
    show ?thesis by (rule nil, rule append_step) (use assms New_signal in auto)
  next
    case (Destroy h)
    show ?thesis
      by (rule nil) (use assms Destroy in \<open>auto dest!: with_Inr intro: destroy_step split: if_splits\<close>)
  next
    case (Make_function k n)
    show ?thesis
      by (rule nil) (use assms Make_function in \<open>auto dest!: with_Inr intro: keep_step make_grows split: if_splits\<close>)
  next
    case (Make_member h m n)
    show ?thesis
      by (rule nil) (use assms Make_member in \<open>auto dest!: with_Inr intro: keep_step make_grows split: if_splits\<close>)
  next
    case (Bind1 i v)
    show ?thesis
      by (rule nil) (use assms Bind1 in \<open>auto dest!: with_Inr intro: keep_step make_grows split: if_splits\<close>)
  next
    case (Bind2 i v1 v2)
    show ?thesis
      by (rule nil) (use assms Bind2 in \<open>auto dest!: with_Inr intro: keep_step make_grows split: if_splits\<close>)
  next
    case (Bind3 i v1 v2 v3)
    show ?thesis
      by (rule nil) (use assms Bind3 in \<open>auto dest!: with_Inr intro: keep_step make_grows split: if_splits\<close>)
  next
    case (Hide i)
    show ?thesis
      by (rule nil) (use assms Hide in \<open>auto dest!: with_Inr intro: keep_step make_grows split: if_splits\<close>)
  next
    case (Copy_slot i)
    show ?thesis
      by (rule nil) (use assms Copy_slot in \<open>auto dest!: with_Inr split: if_splits\<close>)
  next
    case (Assign_slot i j)
    show ?thesis
      by (rule nil) (use assms Assign_slot in \<open>auto dest!: with_Inr split: if_splits\<close>)
  next
    case (Drop_slot i)
    show ?thesis
      by (rule nil) (use assms Drop_slot in \<open>auto dest!: with_Inr split: if_splits\<close>)
  next
    case (Drop_connection c)
    show ?thesis
      by (rule nil) (use assms Drop_connection in \<open>auto dest!: with_Inr split: if_splits\<close>)
  next
    case (Disconnect c)
    show ?thesis
      by (rule nil) (use assms Disconnect in \<open>auto dest!: with_Inr intro: disconnect_step split: if_splits\<close>)
  next
    case (Connect g i)
    then obtain sg sl where "signal_of w g = Some sg" "connect g sl sg w = Inr w1"
      using assms by (auto dest!: with_Inr)
    then show ?thesis using connect_step Connect by (auto simp: no_connect_def)
  next
    case (Connect_get g i)
    then obtain sg sl where "signal_of w g = Some sg" "connect_get g sl sg w = Inr w1"
      using assms by (auto dest!: with_Inr)
    then show ?thesis using connect_get_step Connect_get by (auto simp: no_connect_def)
  next
    case (Test_connection c)
    then obtain v where "w1 = log_event (Result v) w"
      using assms by (auto dest!: with_Inr split: sum.splits)
    then show ?thesis by (rule res)
  next
    case (Test_empty g)
    then obtain v where "w1 = log_event (Result v) w"
      using assms by (auto dest!: with_Inr)
    then show ?thesis by (rule res)
  next
    case (Clear g)
    then obtain sg where sg: "signal_of w g = Some sg" "w1 = set_signal g (signal_clear w sg) w"
      using assms by (auto dest!: with_Inr)
    show ?thesis
      by (rule nil, rule set_signal_step [OF sg(1) change_clear]) (auto simp: sg(2) set_signal_alive)
  qed
qed

section \<open>The list of a locked signal\<close>

text \<open>
  While a signal is locked its records keep their places: records are only added at the end and
  marked for removal. This is what makes the iterator of \<open>emit\<close> a position.
\<close>

definition records_extend :: "signal \<Rightarrow> signal \<Rightarrow> bool" where
  "records_extend sg sg1 \<longleftrightarrow> length (sg_records sg) \<le> length (sg_records sg1) \<and>
     (\<forall>k < length (sg_records sg). same_record (sg_records sg ! k) (sg_records sg1 ! k)) \<and>
     (sg_pending_removal sg \<longrightarrow> sg_pending_removal sg1) \<and> sg_locked sg1 = sg_locked sg"

lemma records_extend_refl [simp]: "records_extend sg sg"
  by (simp add: records_extend_def)

lemma records_extend_trans:
  assumes "records_extend s1 s2" and "records_extend s2 s3"
  shows "records_extend s1 s3"
proof -
  have "same_record (sg_records s1 ! k) (sg_records s3 ! k)" if "k < length (sg_records s1)" for k
    by (rule same_record_trans [of _ "sg_records s2 ! k"]) (use assms that in \<open>auto simp: records_extend_def\<close>)
  with assms show ?thesis by (auto simp: records_extend_def)
qed

lemma change_extends: "sig_change w ev g sg sg1 \<Longrightarrow> sg_locked sg \<Longrightarrow> records_extend sg sg1"
  by (auto simp: sig_change_def records_extend_def reconcile_removal_def list_all2_conv_all_nth nth_append)

definition log_grows :: "'v sworld \<Rightarrow> 'v sworld \<Rightarrow> ('v event list \<Rightarrow> bool) \<Rightarrow> bool" where
  "log_grows w w1 Q \<longleftrightarrow> (\<exists>ev. w_log w1 = w_log w @ ev \<and> Q ev)"

definition locked_kept :: "nat \<Rightarrow> 'v sworld \<Rightarrow> 'v sworld \<Rightarrow> bool" where
  "locked_kept g w w1 \<longleftrightarrow> length (w_handlers w) \<le> length (w_handlers w1) \<and>
     (g < length (w_handlers w) \<longrightarrow> signal_of w g = None \<longrightarrow> signal_of w1 g = None) \<and>
     (\<forall>sg sg1. signal_of w g = Some sg \<longrightarrow> sg_locked sg \<longrightarrow> signal_of w1 g = Some sg1
        \<longrightarrow> records_extend sg sg1)"

text \<open>Nobody but the emission that locked the signal calls from its list.\<close>

definition held_still :: "nat \<Rightarrow> 'v sworld \<Rightarrow> 'v sworld \<Rightarrow> bool" where
  "held_still g w w1 \<longleftrightarrow> locked_kept g w w1 \<and>
     log_grows w w1 (\<lambda>ev. g < length (w_handlers w) \<longrightarrow>
       (case signal_of w g of None \<Rightarrow> True | Some sg \<Rightarrow> sg_locked sg) \<longrightarrow> (\<forall>i. Fired g i \<notin> set ev))"

definition within :: "nat \<Rightarrow> nat \<Rightarrow> 'v sworld \<Rightarrow> 'v sworld \<Rightarrow> bool" where
  "within g k w w1 \<longleftrightarrow> (if k = g then locked_kept g w w1 \<and> log_grows w w1 (\<lambda>ev. True) else held_still g w w1)"

lemma signal_of_length: "signal_of w g = Some sg \<Longrightarrow> g < length (w_handlers w)"
  by (auto simp: signal_of_Some entry_Some_iff)

lemma log_grows_trans:
  "log_grows w1 w2 Q1 \<Longrightarrow> log_grows w2 w3 Q2 \<Longrightarrow> (\<And>a b. Q1 a \<Longrightarrow> Q2 b \<Longrightarrow> Q3 (a @ b)) \<Longrightarrow> log_grows w1 w3 Q3"
  by (auto simp: log_grows_def)

lemma locked_kept_refl [simp]: "locked_kept g w w"
  by (auto simp: locked_kept_def)

lemma locked_kept_trans:
  assumes 1: "locked_kept g w1 w2" and 2: "locked_kept g w2 w3"
  shows "locked_kept g w1 w3"
proof -
  have "records_extend sg sg3"
    if a: "signal_of w1 g = Some sg" "sg_locked sg" and c: "signal_of w3 g = Some sg3" for sg sg3
  proof -
    have len: "g < length (w_handlers w2)" using 1 signal_of_length [OF a(1)] by (simp add: locked_kept_def)
    obtain sg2 where sg2: "signal_of w2 g = Some sg2"
      using 2 c len by (cases "signal_of w2 g") (auto simp: locked_kept_def)
    then have "records_extend sg sg2" using 1 a by (simp add: locked_kept_def)
    moreover have "records_extend sg2 sg3"
      using 2 a c sg2 calculation by (simp add: locked_kept_def records_extend_def)
    ultimately show ?thesis by (rule records_extend_trans)
  qed
  moreover have "signal_of w3 g = None" if "g < length (w_handlers w1)" "signal_of w1 g = None"
    using 1 2 that by (simp add: locked_kept_def)
  ultimately show ?thesis using 1 2 by (simp add: locked_kept_def)
qed

lemma held_still_trans:
  assumes 1: "held_still g w1 w2" and 2: "held_still g w2 w3"
  shows "held_still g w1 w3"
proof -
  have k: "locked_kept g w1 w2" "locked_kept g w2 w3" using assms by (simp_all add: held_still_def)
  have st: "g < length (w_handlers w2) \<and> (case signal_of w2 g of None \<Rightarrow> True | Some sg \<Rightarrow> sg_locked sg)"
    if "g < length (w_handlers w1)" "case signal_of w1 g of None \<Rightarrow> True | Some sg \<Rightarrow> sg_locked sg"
    using k(1) that by (auto simp: locked_kept_def records_extend_def split: option.splits)
  have "log_grows w1 w3 (\<lambda>ev. g < length (w_handlers w1) \<longrightarrow>
       (case signal_of w1 g of None \<Rightarrow> True | Some sg \<Rightarrow> sg_locked sg) \<longrightarrow> (\<forall>i. Fired g i \<notin> set ev))"
    by (rule log_grows_trans [OF conjunct2 [OF 1 [unfolded held_still_def]]
          conjunct2 [OF 2 [unfolded held_still_def]]]) (use st in auto)
  with locked_kept_trans [OF k] show ?thesis by (simp add: held_still_def)
qed

lemma within_trans: "within g k w1 w2 \<Longrightarrow> within g k w2 w3 \<Longrightarrow> within g k w1 w3"
  by (auto simp: within_def intro: locked_kept_trans held_still_trans log_grows_trans split: if_splits)

lemma held_still_within: "held_still g w1 w2 \<Longrightarrow> within g k w1 w2"
  by (auto simp: within_def held_still_def log_grows_def)

lemma held_still_log: "(\<And>i. e \<noteq> Fired g i) \<Longrightarrow> held_still g w (log_event e w)"
  by (auto simp: held_still_def log_grows_def locked_kept_def)

lemma sig_step_held: "sig_step w ev w1 \<Longrightarrow> held_still g w w1"
proof -
  assume st: "sig_step w ev w1"
  then have "records_extend sg sg1"
    if "signal_of w g = Some sg" "sg_locked sg" "signal_of w1 g = Some sg1" for sg sg1
    using that change_extends [of w ev g sg sg1] by (auto simp: sig_step_def)
  then show ?thesis
    using st by (auto simp: held_still_def locked_kept_def log_grows_def sig_step_def)
qed

lemma set_signal_other:
  assumes "signal_of w k = Some sg0" and "k \<noteq> g"
  shows "held_still g w (set_signal k sg w)"
  using assms by (auto simp: held_still_def locked_kept_def log_grows_def signal_of_set)

lemma set_signal_within:
  assumes "signal_of w k = Some sg0" and "k = g \<Longrightarrow> sg_locked sg0 \<Longrightarrow> records_extend sg0 sg"
  shows "within g k w (set_signal k sg w)"
  using assms by (auto simp: within_def set_signal_other locked_kept_def log_grows_def signal_of_set)

interpretation still: signal_steps "\<lambda>w. True" "held_still g" "within g" "\<lambda>e. True" for g
proof (unfold_locales, goal_cases)
  case (1 w)
  show ?case by (auto simp: held_still_def log_grows_def)
next
  case (6 w b w1)
  then show ?case using basic_step [of b w w1] sig_step_held by blast
next
  case (10 w k sg r)
  then show ?case by (auto simp: within_def log_grows_def locked_kept_def intro: held_still_log)
next
  case (11 w k sg it)
  have "same_record (sg_records sg ! j) ((sg_records sg)[it := (sg_records sg ! it)\<lparr>request_removal := True\<rparr>] ! j)"
    for j using 11 by (cases "j = it") (auto simp: same_record_def)
  then show ?case unfolding mark_record_def using 11
    by (intro conjI TrueI set_signal_within) (auto simp: records_extend_def)
next
  case (13 w k sg w1 sg1)
  have h: "entry (w_handlers w) k \<noteq> None" using 13(2) by (auto simp: signal_of_Some)
  show ?case
  proof (cases "k = g")
    case True
    then have kept: "locked_kept g (lock_signal g sg w) w1" "log_grows (lock_signal g sg w) w1 (\<lambda>ev. True)"
      using 13 by (simp_all add: within_def)
    then have "length (w_handlers w) \<le> length (w_handlers w1)" "log_grows w w1 (\<lambda>ev. True)"
      by (simp_all add: locked_kept_def lock_signal_def log_grows_def)
    then show ?thesis using 13 True
      by (auto simp: held_still_def locked_kept_def log_grows_def unlock_signal_def)
  next
    case False
    have "held_still g w (lock_signal k sg w)" unfolding lock_signal_def using 13 False by (intro set_signal_other) auto
    moreover have "held_still g (lock_signal k sg w) w1" using 13 False by (simp add: within_def)
    moreover have "held_still g w1 (unlock_signal k sg1 w1)"
      unfolding unlock_signal_def using 13 False by (intro set_signal_other) auto
    ultimately show ?thesis by (blast intro: held_still_trans)
  qed
qed (auto intro: held_still_trans within_trans held_still_within held_still_log)

lemma run_still: "run n C cs w = Some (Inr w1) \<Longrightarrow> held_still g w w1"
  using still.run_steps [where w = w and g = g and n = n and C = C and cs = cs] by simp

lemma call_still:
  assumes "call_func (run m C) C f xs w = Some (Inr (v, w1))"
  shows "held_still g w w1"
proof -
  let ?w = "log_event (Called (target_of f) (apply_bindings f xs)) w"
  have "run m C (c_body C (target_of f) (apply_bindings f xs)) ?w = Some (Inr w1)"
    using assms by (auto simp: call_func_def Let_def split: if_splits option.splits sum.splits)
  then have "held_still g ?w w1" by (rule run_still)
  moreover have "held_still g w ?w" by (rule held_still_log) simp
  ultimately show ?thesis by (blast intro: held_still_trans)
qed

section \<open>Who is called by an emission\<close>

definition fired :: "nat \<Rightarrow> 'v event list \<Rightarrow> (64 word) list" where
  "fired g ev = concat (map (\<lambda>e. case e of Fired k i \<Rightarrow> if k = g then [i] else [] | _ \<Rightarrow> []) ev)"

lemma fired_simps [simp]:
  "fired g [] = []" "fired g (a @ b) = fired g a @ fired g b"
  "fired g (Fired k i # ev) = (if k = g then i # fired g ev else fired g ev)"
  "(\<And>i. e \<noteq> Fired g i) \<Longrightarrow> fired g (e # ev) = fired g ev"
  by (auto simp: fired_def split: event.splits)

lemma fired_none: "(\<forall>i. Fired g i \<notin> set ev) \<longleftrightarrow> fired g ev = []"
  by (induction ev) (auto simp: fired_def split: event.splits if_splits)

text \<open>C38: While a signal is locked, whatever the functions it calls do keeps the places of its records:
  they are added at the end or marked, and only the emission itself calls from the list.\<close>

theorem records_stay_while_locked:
  assumes "run n C cs w = Some (Inr w1)" and "signal_of w g = Some sg" and "sg_locked sg"
  shows "(\<exists>ev. w_log w1 = w_log w @ ev \<and> fired g ev = [])
    \<and> (\<forall>sg1. signal_of w1 g = Some sg1 \<longrightarrow> records_extend sg sg1)"
  using run_still [OF assms(1), of g] assms(2,3) signal_of_length [OF assms(2)]
  by (auto simp: held_still_def log_grows_def locked_kept_def fired_none)

theorem records_stay_while_locked_witness:
  "\<exists>w1 sg1. run 9 idle_client [Basic (Connect 1 1), Basic (Disconnect 0)] (lock_signal 1 demo_signal demo_world)
      = Some (Inr w1) \<and> signal_of w1 1 = Some sg1 \<and> records_extend (demo_signal\<lparr>sg_locked := True\<rparr>) sg1
      \<and> map request_removal (sg_records sg1) = [True, False]"
proof -
  let ?w = "lock_signal 1 demo_signal demo_world"
  let ?res = "run 9 idle_client [Basic (Connect 1 1), Basic (Disconnect 0)] ?w"
  have "case ?res of Some (Inr w1) \<Rightarrow> map_option (\<lambda>sg. map request_removal (sg_records sg)) (signal_of w1 1)
      = Some [True, False] | _ \<Rightarrow> False" by code_simp
  then obtain w1 sg1 where r: "?res = Some (Inr w1)" and s: "signal_of w1 1 = Some sg1"
    and m: "map request_removal (sg_records sg1) = [True, False]"
    by (auto split: option.splits sum.splits)
  have "signal_of ?w 1 = Some (demo_signal\<lparr>sg_locked := True\<rparr>)" by code_simp
  from records_stay_while_locked [OF r this] show ?thesis using r s m by auto
qed

text \<open>
  From position \<open>it\<close> on: the positions that satisfy \<open>F\<close> are called, in order, the others are marked.
\<close>

definition calls_from :: "nat \<Rightarrow> nat \<Rightarrow> signal \<Rightarrow> 'v event list \<Rightarrow> bool" where
  "calls_from g it sg ev \<longleftrightarrow> (\<exists>F. fired g ev =
      map (\<lambda>k. rec_id (sg_records sg ! k)) (filter F [it..<length (sg_records sg)]) \<and>
      (\<forall>k. it \<le> k \<longrightarrow> k < length (sg_records sg) \<longrightarrow>
         F k \<or> (request_removal (sg_records sg ! k) \<and> sg_pending_removal sg)))"

lemma calls_from_end: "length (sg_records sg) \<le> it \<Longrightarrow> calls_from g it sg []"
  by (auto simp: calls_from_def)

lemma calls_from_step:
  assumes "calls_from g (Suc it) sg ev" and "it < length (sg_records sg)"
    and "(b \<and> pre = [rec_id (sg_records sg ! it)]) \<or>
      (\<not> b \<and> pre = [] \<and> request_removal (sg_records sg ! it) \<and> sg_pending_removal sg)"
    and "fired g ev1 = pre"
  shows "calls_from g it sg (ev1 @ ev)"
proof -
  obtain F where F: "fired g ev =
      map (\<lambda>k. rec_id (sg_records sg ! k)) (filter F [Suc it..<length (sg_records sg)])"
    "\<And>k. Suc it \<le> k \<Longrightarrow> k < length (sg_records sg) \<Longrightarrow>
       F k \<or> (request_removal (sg_records sg ! k) \<and> sg_pending_removal sg)"
    using assms(1) by (auto simp: calls_from_def)
  let ?F = "F(it := b)"
  have cut: "[it..<length (sg_records sg)] = it # [Suc it..<length (sg_records sg)]"
    using assms(2) by (simp add: upt_conv_Cons)
  have "filter ?F [Suc it..<length (sg_records sg)] = filter F [Suc it..<length (sg_records sg)]"
    by (rule filter_cong) auto
  then have "fired g (ev1 @ ev) = map (\<lambda>k. rec_id (sg_records sg ! k)) (filter ?F [it..<length (sg_records sg)])"
    using assms(3,4) F(1) by (auto simp: cut)
  moreover have "?F k \<or> (request_removal (sg_records sg ! k) \<and> sg_pending_removal sg)"
    if "it \<le> k" "k < length (sg_records sg)" for k
    using that assms(3) F(2) [of k] by (cases "k = it") auto
  ultimately show ?thesis unfolding calls_from_def by blast
qed

lemma emit_loop_fires:
  assumes K: "\<forall>f w v w1. K f w = Some (Inr (v, w1)) \<longrightarrow> held_still g w w1"
  shows "emit_loop n K g it acc r w = Some (Inr (v, w1)) \<Longrightarrow> signal_of w g = Some sg \<Longrightarrow> sg_locked sg
    \<Longrightarrow> \<exists>ev sg1. w_log w1 = w_log w @ ev \<and> signal_of w1 g = Some sg1 \<and> records_extend sg sg1
      \<and> calls_from g it sg1 ev"
proof (induction n arbitrary: it r w sg)
  case 0
  then show ?case by simp
next
  case (Suc n)
  show ?case
  proof (cases "it < length (sg_records sg)")
    case False
    then have "w1 = w" using Suc.prems by simp
    then show ?thesis using Suc.prems(2) False by (intro exI [of _ "[]"] exI [of _ sg]) (simp add: calls_from_end)
  next
    case it: True
    let ?r = "sg_records sg ! it"
    show ?thesis
    proof (cases "should_remove w ?r")
      case True
      let ?rs = "(sg_records sg)[it := ?r\<lparr>request_removal := True\<rparr>]"
      let ?sg = "sg\<lparr>sg_pending_removal := True, sg_records := ?rs\<rparr>"
      have l: "emit_loop n K g (Suc it) acc r (mark_record g it sg w) = Some (Inr (v, w1))"
        using Suc.prems it True by (auto simp: should_remove_def split: option.splits)
      have s: "signal_of (mark_record g it sg w) g = Some ?sg"
        using Suc.prems(2) by (auto simp: mark_record_def signal_of_set signal_of_Some)
      obtain ev sg1 where e: "w_log w1 = w_log w @ ev" "signal_of w1 g = Some sg1"
        "records_extend ?sg sg1" "calls_from g (Suc it) sg1 ev"
        using Suc.IH [OF l s] Suc.prems(3) by (auto simp: mark_record_def)
      have ext: "records_extend sg ?sg"
        using it by (auto simp: records_extend_def same_record_def nth_list_update)
      have "request_removal (sg_records sg1 ! it)" "sg_pending_removal sg1" "it < length (sg_records sg1)"
        using e(3) it by (force simp: records_extend_def same_record_def nth_list_update)+
      then have "calls_from g it sg1 ([] @ ev)"
        by (intro calls_from_step [OF e(4), where b = False and pre = "[]"]) auto
      then show ?thesis using e records_extend_trans [OF ext e(3)] by auto
    next
      case False
      then obtain f where f: "entry (w_cells w) (rec_fsptr ?r) = Some f" "\<not> request_removal ?r"
        by (auto simp: should_remove_def)
      let ?w = "log_event (Fired g (rec_id ?r)) w"
      obtain x w2 where k: "K f ?w = Some (Inr (x, w2))"
        and l: "emit_loop n K g (Suc it) acc (acc r x) w2 = Some (Inr (v, w1))"
        using Suc.prems it f by (auto split: option.splits sum.splits prod.splits)
      note hs = K [rule_format, OF k, unfolded held_still_def log_grows_def]
      obtain ev2 where ev2: "w_log w2 = w_log w @ Fired g (rec_id ?r) # ev2" "\<forall>i. Fired g i \<notin> set ev2"
        using hs Suc.prems(2,3) signal_of_length by fastforce
      have "signal_of w2 g \<noteq> None" using l by (cases n) (auto split: option.splits)
      then obtain sg2 where s2: "signal_of w2 g = Some sg2" by blast
      have ext: "records_extend sg sg2" using hs s2 Suc.prems(2,3) by (simp add: locked_kept_def)
      have "sg_locked sg2" using ext Suc.prems(3) by (simp add: records_extend_def)
      then obtain ev sg1 where e: "w_log w1 = w_log w2 @ ev" "signal_of w1 g = Some sg1"
        "records_extend sg2 sg1" "calls_from g (Suc it) sg1 ev"
        using Suc.IH [OF l s2] by auto
      have ext1: "records_extend sg sg1" by (rule records_extend_trans [OF ext e(3)])
      then have "it < length (sg_records sg1)" "rec_id (sg_records sg1 ! it) = rec_id ?r"
        using it by (auto simp: records_extend_def same_record_def)
      then have "calls_from g it sg1 ((Fired g (rec_id ?r) # ev2) @ ev)"
        using ev2(2) by (intro calls_from_step [OF e(4), where b = True and pre = "[rec_id ?r]"])
          (auto simp: fired_none)
      then show ?thesis using e ev2 ext1 by auto
    qed
  qed
qed

lemma filter_upt_nth: "map (\<lambda>k. f (xs ! k)) (filter (\<lambda>k. P (xs ! k)) [0..<length xs]) = map f (filter P xs)"
proof -
  have "filter P xs = map ((!) xs) (filter (P \<circ> (!) xs) [0..<length xs])"
    by (metis filter_map map_nth)
  then show ?thesis by (simp add: comp_def)
qed

text \<open>C35: Once an emission has ended the signal is unlocked, and every slot that is still connected has
  been called by it, in the order of connection: also one that was connected meanwhile.\<close>

theorem emission_reaches_connected:
  assumes "emit_signal n (call_func (run m C) C) g ac xs w = Some (Inr (v, w1))"
  shows "\<exists>ev sg1. w_log w1 = w_log w @ ev \<and> signal_of w1 g = Some sg1 \<and> \<not> sg_locked sg1
    \<and> subseq (map rec_id (sg_records sg1)) (fired g ev)"
proof -
  obtain sg where sg: "signal_of w g = Some sg" "\<not> sg_locked sg"
    using assms by (auto simp: emit_signal_def split: option.splits if_splits)
  let ?w = "lock_signal g sg w"
  obtain w2 sg2 where l: "emit_loop n (\<lambda>f. call_func (run m C) C f xs) g 0 (snd ac) (fst ac) ?w = Some (Inr (v, w2))"
    and s2: "signal_of w2 g = Some sg2" and w1: "w1 = unlock_signal g sg2 w2"
    using assms sg by (auto simp: emit_signal_def split: option.splits sum.splits if_splits)
  have lk: "signal_of ?w g = Some (sg\<lparr>sg_locked := True\<rparr>)"
    using sg by (auto simp: lock_signal_def signal_of_set signal_of_Some)
  have "\<forall>f w v w1. call_func (run m C) C f xs w = Some (Inr (v, w1)) \<longrightarrow> held_still g w w1"
    using call_still by blast
  from emit_loop_fires [OF this l lk] obtain ev where ev: "w_log w2 = w_log w @ ev" and c: "calls_from g 0 sg2 ev"
    using s2 by (auto simp: lock_signal_def)
  let ?sg1 = "reconcile_removal w2 (sg2\<lparr>sg_locked := False\<rparr>)"
  have s1: "signal_of w1 g = Some ?sg1"
    using s2 by (auto simp: w1 unlock_signal_def signal_of_set signal_of_Some)
  obtain F where F: "fired g ev = map (\<lambda>k. rec_id (sg_records sg2 ! k)) (filter F [0..<length (sg_records sg2)])"
    "\<And>k. k < length (sg_records sg2) \<Longrightarrow> F k \<or> (request_removal (sg_records sg2 ! k) \<and> sg_pending_removal sg2)"
    using c by (auto simp: calls_from_def)
  define G where "G = (\<lambda>r. \<not> (sg_pending_removal sg2 \<and> should_remove w2 r))"
  have recs: "sg_records ?sg1 = filter G (sg_records sg2)"
    by (simp add: reconcile_removal_def G_def)
  have "filter (\<lambda>k. G (sg_records sg2 ! k)) [0..<length (sg_records sg2)] =
      filter (\<lambda>k. G (sg_records sg2 ! k)) (filter F [0..<length (sg_records sg2)])"
    unfolding filter_filter by (rule filter_cong) (use F(2) in \<open>auto simp: G_def should_remove_def\<close>)
  then have "subseq (filter (\<lambda>k. G (sg_records sg2 ! k)) [0..<length (sg_records sg2)])
      (filter F [0..<length (sg_records sg2)])"
    by (metis subseq_filter_left)
  moreover have "map rec_id (sg_records ?sg1) = map (\<lambda>k. rec_id (sg_records sg2 ! k))
      (filter (\<lambda>k. G (sg_records sg2 ! k)) [0..<length (sg_records sg2)])"
    by (simp only: recs filter_upt_nth)
  ultimately have "subseq (map rec_id (sg_records ?sg1)) (fired g ev)"
    by (simp only: F(1) subseq_map)
  moreover have "\<not> sg_locked ?sg1" by (simp add: reconcile_removal_def)
  ultimately show ?thesis using ev s1 by (auto simp: w1 unlock_signal_def)
qed

theorem emission_reaches_connected_witness:
  "\<exists>v w1 ev sg1. emit_signal 9 (call_func (run 9 removing_client) removing_client) 1 (return_accumulator V_void)
       [V_user 4] demo_world = Some (Inr (v, w1)) \<and> w_log w1 = w_log demo_world @ ev
     \<and> signal_of w1 1 = Some sg1 \<and> map rec_id (sg_records sg1) = [1]
     \<and> subseq (map rec_id (sg_records sg1)) (fired 1 ev)"
proof -
  let ?res = "emit_signal 9 (call_func (run 9 removing_client) removing_client) 1 (return_accumulator V_void)
       [V_user 4] demo_world"
  have "case ?res of Some (Inr (v, w1)) \<Rightarrow> map_option (\<lambda>sg. map rec_id (sg_records sg)) (signal_of w1 1)
      = Some [1] | _ \<Rightarrow> False" by code_simp
  then obtain v w1 sg1 where r: "?res = Some (Inr (v, w1))" and s: "signal_of w1 1 = Some sg1"
    and m: "map rec_id (sg_records sg1) = [1]"
    by (auto split: option.splits sum.splits prod.splits)
  from emission_reaches_connected [OF r] show ?thesis using r s m by auto
qed

end
