(* ===== verification/Signal_Calls.thy ===== *)
theory Signal_Calls
  imports Signal_Emission
begin

text \<open>
  Slots that are not called any more, arguments that are bound and hidden, emissions that end and one
  that does not.
\<close>

section \<open>Destroyed handlers\<close>

definition never_calls :: "nat \<Rightarrow> 'v sworld \<Rightarrow> 'v sworld \<Rightarrow> bool" where
  "never_calls h w w1 \<longleftrightarrow> log_grows w w1 (\<lambda>ev. \<forall>m ys. Called (Member h m) ys \<notin> set ev)"

definition destroyed :: "nat \<Rightarrow> 'v sworld \<Rightarrow> bool" where
  "destroyed h w \<longleftrightarrow> h < length (w_handlers w) \<and> entry (w_handlers w) h = None"

lemma never_calls_trans: "never_calls h w1 w2 \<Longrightarrow> never_calls h w2 w3 \<Longrightarrow> never_calls h w1 w3"
  unfolding never_calls_def by (erule log_grows_trans) auto

lemma never_calls_log: "(\<And>m ys. e \<noteq> Called (Member h m) ys) \<Longrightarrow> never_calls h w (log_event e w)"
  by (auto simp: never_calls_def log_grows_def)

lemma never_calls_set [simp]: "never_calls h w (set_signal g sg w)"
  by (simp add: never_calls_def log_grows_def)

lemma sig_step_never: "sig_step w ev w1 \<Longrightarrow> never_calls h w w1"
  by (force simp: sig_step_def never_calls_def log_grows_def)

lemma sig_step_destroyed: "sig_step w ev w1 \<Longrightarrow> destroyed h w \<Longrightarrow> destroyed h w1"
  by (auto simp: sig_step_def destroyed_def)

lemma destroyed_simps [simp]:
  "destroyed h (log_event e w) = destroyed h w" "destroyed h (set_signal g sg w) = destroyed h w"
  by (simp_all add: destroyed_def set_signal_alive)

interpretation dead: signal_steps "\<lambda>w. sworld_ok w \<and> destroyed h w" "never_calls h" "\<lambda>g. never_calls h"
  "\<lambda>e. e \<noteq> Dangling" for h
proof (unfold_locales, goal_cases)
  case (1 w)
  show ?case by (simp add: never_calls_def log_grows_def)
next
  case (5 w b e)
  then show ?case using basic_safe [of w b] by (simp add: safe_def)
next
  case (6 w b w1)
  then show ?case using basic_safe [of w b] basic_step [of b w w1] sig_step_never sig_step_destroyed
    by (fastforce simp: safe_def)
next
  case (8 w a f ys)
  then have "target_of f \<noteq> Member h m" for m by (auto simp: target_alive_def destroyed_def)
  then show ?case using 8 by (auto intro: never_calls_log)
next
  case (9 w a f)
  then show ?case using owned_alive by blast
next
  case (13 w g sg w1 sg1)
  then have "never_calls h w (lock_signal g sg w)" by (simp add: lock_signal_def)
  then have "never_calls h w w1" using 13 by (blast intro: never_calls_trans)
  moreover have "never_calls h w1 (unlock_signal g sg1 w1)" by (simp add: unlock_signal_def)
  ultimately show ?case using 13 emission_step_ok(2) [of w1 g sg1]
    by (auto simp: unlock_signal_def intro: never_calls_trans)
qed (auto intro: never_calls_trans never_calls_log simp: emission_step_ok
      lock_signal_def mark_record_def dest: emission_step_ok(1,3) [unfolded lock_signal_def mark_record_def])

lemma destroy_handler_destroyed:
  assumes "destroy_handler h w = Inr w1"
  shows "destroyed h w1"
proof -
  obtain ob where ob: "entry (w_handlers w) h = Some ob"
    using assms by (auto simp: destroy_handler_def split: option.splits)
  then have ne: "entry (w_handlers w) h \<noteq> None" by simp
  have "w_handlers w1 = (w_handlers w)[h := None]"
    using assms ob by (auto simp: destroy_handler_def Let_def fold_invalidate)
  then show ?thesis using ob by (simp add: destroyed_def entry_set [OF ne] entry_Some_iff)
qed

lemma settled_mono:
  "settled E Q res \<Longrightarrow> (\<And>x. Q x \<Longrightarrow> Q' x) \<Longrightarrow> settled E Q' res"
  by (auto simp: settled_def split: option.splits sum.splits)

lemma destroyed_not_held:
  assumes "sworld_ok w" and "destroyed h w" and "owned w a" and "entry (w_cells w) a = Some f"
  shows "target_of f \<noteq> Member h m"
proof
  assume "target_of f = Member h m"
  then have "registered w h a" using assms by (simp add: sworld_ok_def cells_ok_def)
  then show False using assms(2) by (simp add: registered_def destroyed_def)
qed

text \<open>
  C36: destroying a handler empties every function that calls it. From a well-formed state, after the
  handler's destructor and whatever the program does next, no function that a slot, a connection or
  a record of a signal still holds calls the handler, bound copies and copies that hide an argument
  included: the slots made for it are not valid, and their records are passed over. So no call of the
  handler is made, and the run does not stop at one either: \<open>Dangling\<close>, the call of a function of an
  object that is gone, is not among its faults.
\<close>

theorem destroyed_never_called:
  assumes "sworld_ok w" and "destroy_handler h w = Inr w1"
  shows "settled (\<lambda>e. e \<noteq> Dangling)
    (\<lambda>w2. (\<forall>a f m. owned w2 a \<longrightarrow> entry (w_cells w2) a = Some f \<longrightarrow> target_of f \<noteq> Member h m) \<and>
       (\<exists>ev. w_log w2 = w_log w1 @ ev \<and> (\<forall>m ys. Called (Member h m) ys \<notin> set ev)))
    (run n C cs w1)"
proof -
  have "sworld_ok w1 \<and> destroyed h w1"
    using destroy_ok(2) [OF assms] destroy_handler_destroyed [OF assms(2)] by simp
  from dead.run_steps [OF this, of n C cs] show ?thesis
    by (rule settled_mono) (unfold never_calls_def log_grows_def, use destroyed_not_held in blast)
qed

section \<open>Disconnected slots\<close>

definition removed :: "nat \<Rightarrow> 64 word \<Rightarrow> 'v sworld \<Rightarrow> bool" where
  "removed g i w \<longleftrightarrow> g < length (w_handlers w) \<and> (case signal_of w g of None \<Rightarrow> True
     | Some sg \<Rightarrow> \<forall>r \<in> set (sg_records sg). rec_id r = i \<longrightarrow> request_removal r)"

definition stays_removed :: "nat \<Rightarrow> 64 word \<Rightarrow> 'v sworld \<Rightarrow> 'v sworld \<Rightarrow> bool" where
  "stays_removed g i w w1 \<longleftrightarrow> log_grows w w1 (\<lambda>ev. removed g i w \<longrightarrow> Connected g i \<notin> set ev
     \<longrightarrow> removed g i w1 \<and> Fired g i \<notin> set ev)"

lemma stays_removed_trans: "stays_removed g i w1 w2 \<Longrightarrow> stays_removed g i w2 w3 \<Longrightarrow> stays_removed g i w1 w3"
  by (auto simp: stays_removed_def log_grows_def)

lemma removed_log [simp]: "removed g i (log_event e w) = removed g i w"
  by (simp add: removed_def)

lemma stays_removed_log: "(removed g i w \<Longrightarrow> e \<noteq> Fired g i) \<Longrightarrow> stays_removed g i w (log_event e w)"
  by (auto simp: stays_removed_def log_grows_def)

lemma removed_change:
  assumes "\<forall>r \<in> set (sg_records sg). rec_id r = i \<longrightarrow> request_removal r" and "sig_change w ev g sg sg1"
    and "Connected g i \<notin> set ev" and "r \<in> set (sg_records sg1)" and "rec_id r = i"
  shows "request_removal r"
proof -
  have flag: "request_removal x" if a: "list_all2 same_record (sg_records sg) rs" "x \<in> set rs" "rec_id x = i" for rs x
  proof -
    obtain k where "k < length rs" "rs ! k = x" using a(2) by (auto simp: in_set_conv_nth)
    moreover from this have "same_record (sg_records sg ! k) x" "k < length (sg_records sg)"
      using a(1) by (auto simp: list_all2_conv_all_nth)
    ultimately show ?thesis using assms(1) a(3) by (simp add: same_record_def)
  qed
  from assms(2) show ?thesis unfolding sig_change_def
    using assms(1,3-5) flag by (auto simp: reconcile_removal_def split: if_splits)
qed

lemma sig_step_removed:
  assumes st: "sig_step w ev w1"
  shows "stays_removed g i w w1"
proof -
  have "removed g i w1" if r: "removed g i w" and c: "Connected g i \<notin> set ev"
  proof (cases "signal_of w g")
    case None
    then show ?thesis using st r by (auto simp: sig_step_def removed_def)
  next
    case (Some sg)
    have "\<forall>r \<in> set (sg_records sg). rec_id r = i \<longrightarrow> request_removal r"
      using r Some by (simp add: removed_def)
    moreover have "sig_change w ev g sg sg1" if "signal_of w1 g = Some sg1" for sg1
      using st Some that by (simp add: sig_step_def)
    ultimately show ?thesis using st r c removed_change
      by (fastforce simp: removed_def sig_step_def split: option.splits)
  qed
  with st show ?thesis by (force simp: stays_removed_def log_grows_def sig_step_def)
qed

lemma set_signal_removed:
  assumes "signal_of w k = Some sg0"
    and "k = g \<Longrightarrow> \<forall>r \<in> set (sg_records sg0). rec_id r = i \<longrightarrow> request_removal r
      \<Longrightarrow> \<forall>r \<in> set (sg_records sg). rec_id r = i \<longrightarrow> request_removal r"
  shows "stays_removed g i w (set_signal k sg w)"
  using assms by (auto simp: stays_removed_def log_grows_def removed_def signal_of_set split: option.splits)

lemma emission_removed:
  assumes "signal_of w k = Some sg"
  shows "stays_removed g i w (lock_signal k sg w)" "stays_removed g i w (unlock_signal k sg w)"
    "it < length (sg_records sg) \<Longrightarrow> stays_removed g i w (mark_record k it sg w)"
  unfolding lock_signal_def unlock_signal_def mark_record_def
  by (rule set_signal_removed [OF assms];
      auto simp: reconcile_removal_def dest!: set_update_subset_insert [THEN subsetD])+

interpretation gone: signal_steps "\<lambda>w. True" "stays_removed g i" "\<lambda>k. stays_removed g i" "\<lambda>e. True" for g i
proof (unfold_locales, goal_cases)
  case (1 w)
  show ?case by (simp add: stays_removed_def log_grows_def)
next
  case (6 w b w1)
  then show ?case using basic_step [of b w w1] sig_step_removed by blast
next
  case (10 w k sg r)
  then show ?case by (auto intro!: stays_removed_log simp: removed_def should_remove_def)
next
  case (13 w k sg w1 sg1)
  then show ?case using emission_removed(1) [of w k sg g i] emission_removed(2) [of w1 k sg1 g i]
    by (blast intro: stays_removed_trans)
qed (auto intro: stays_removed_trans stays_removed_log emission_removed)

text \<open>What a connection disconnects: a signal and the identifier of a record.\<close>

definition connection_id :: "'v sworld \<Rightarrow> slot \<times> slot \<Rightarrow> (nat \<times> 64 word) option" where
  "connection_id w cn = (case sl_fsptr (fst cn) of None \<Rightarrow> None
     | Some a \<Rightarrow> (case entry (w_cells w) a of None \<Rightarrow> None
        | Some f \<Rightarrow> (case (target_of f, apply_bindings f []) of
            (Member g Signal_remove, [V_id i]) \<Rightarrow> Some (g, i) | _ \<Rightarrow> None)))"

lemma connection_idD:
  assumes "connection_id w cn = Some (g, i)"
  shows "\<exists>a f. sl_fsptr (fst cn) = Some a \<and> entry (w_cells w) a = Some f
    \<and> target_of f = Member g Signal_remove \<and> apply_bindings f [] = [V_id i]"
proof -
  obtain a f where a: "sl_fsptr (fst cn) = Some a" "entry (w_cells w) a = Some f"
    using assms by (auto simp: connection_id_def split: option.splits)
  have "(case (target_of f, apply_bindings f []) of (Member g Signal_remove, [V_id i]) \<Rightarrow> Some (g, i) | _ \<Rightarrow> None)
      = Some (g, i)"
    using assms a by (simp add: connection_id_def)
  then have "target_of f = Member g Signal_remove \<and> apply_bindings f [] = [V_id i]"
    by (simp split: target.splits member_fn.splits list.splits val.splits)
  with a show ?thesis by blast
qed

lemma request_first_distinct:
  "distinct (map rec_id rs) \<Longrightarrow> r \<in> set (request_first i rs) \<Longrightarrow> rec_id r = i \<Longrightarrow> request_removal r"
proof (induction rs)
  case (Cons a rs)
  show ?case
  proof (cases "rec_id a = i")
    case True
    then have "rec_id r \<notin> rec_id ` set rs" using Cons.prems by simp
    then have "r \<notin> set rs" by blast
    then show ?thesis using Cons.prems(2) True by simp
  next
    case False
    then show ?thesis using Cons by auto
  qed
qed simp

lemma disconnect_removes:
  assumes "connection_id w cn = Some (g, i)" and sg: "signal_of w g = Some sg"
    and "distinct (map rec_id (sg_records sg))" and "disconnect cn w = Inr w1"
  shows "removed g i w1"
proof -
  obtain a f where a: "sl_fsptr (fst cn) = Some a" "entry (w_cells w) a = Some f"
    "target_of f = Member g Signal_remove" "apply_bindings f [] = [V_id i]"
    using connection_idD [OF assms(1)] by blast
  have "w1 = set_signal g (signal_remove w i sg) w"
    using assms(4) a sg member_signal_iff(1) [of w g sg]
    by (simp add: disconnect_def slot_valid_def call_connection_def)
  moreover have "request_removal r" if "r \<in> set (sg_records (signal_remove w i sg))" "rec_id r = i" for r
    using that request_first_distinct [OF assms(3)]
    by (auto simp: signal_remove_def reconcile_removal_def split: if_splits)
  ultimately show ?thesis
    using sg signal_of_length [OF sg] by (auto simp: removed_def signal_of_set signal_of_Some)
qed

text \<open>C37: A slot that has been disconnected is not called by its signal any more: not by what the program
  does next, and not by the rest of an emission that is in progress, as long as the signal does not
  hand out the same identifier again.\<close>

theorem disconnected_never_fires:
  assumes "connection_id w cn = Some (g, i)" and "signal_of w g = Some sg"
    and "distinct (map rec_id (sg_records sg))" and "disconnect cn w = Inr w1"
    and "run n C cs w1 = Some (Inr w2)
      \<or> emit_loop n (\<lambda>f. call_func (run m C) C f xs) k it acc r w1 = Some (Inr (v, w2))"
  shows "\<exists>ev. w_log w2 = w_log w1 @ ev \<and> (Connected g i \<in> set ev \<or> Fired g i \<notin> set ev)"
proof -
  have rn: "stays_removed g i w1 w2" if "run n C cs w1 = Some (Inr w2)" for n cs w1 w2
    using gone.run_steps [where g = g and i = i and w = w1 and n = n and C = C and cs = cs] that by simp
  have K: "settled (\<lambda>e. True) (\<lambda>(v, w1). True \<and> stays_removed g i w w1) (call_func (run m C) C f xs w)"
    if "owned w a" "entry (w_cells w) a = Some f" for f a and w :: "'a sworld"
    using gone.run_steps [where g = g and i = i and n = m and C = C] that
    by (intro gone.call_func_steps) auto
  have "stays_removed g i w1 w2"
    if "emit_loop n (\<lambda>f. call_func (run m C) C f xs) k it acc r w1 = Some (Inr (v, w2))"
    using gone.emit_loop_steps [where K = "\<lambda>f. call_func (run m C) C f xs" and i = i and w = w1
        and g = k and ga = g and n = n and it = it and acc = acc and r = r] K that by auto
  then have "stays_removed g i w1 w2" using assms(5) rn by blast
  with disconnect_removes [OF assms(1-4)] show ?thesis
    by (auto simp: stays_removed_def log_grows_def)
qed

section \<open>Emissions that end\<close>

text \<open>
  A sequence of at most \<open>k\<close> commands and decisions, whatever the decisions see, that connects nothing,
  emits no signal and calls no slot. Making, binding, copying and dropping slots, disconnecting, clearing
  and destroying are all allowed.
\<close>

primrec quiet_within :: "nat \<Rightarrow> 'v cmd list \<Rightarrow> bool" where
  "quiet_within 0 cs \<longleftrightarrow> cs = []"
| "quiet_within (Suc k) cs \<longleftrightarrow> (case cs of [] \<Rightarrow> True
     | c # cs1 \<Rightarrow> (case c of Basic b \<Rightarrow> no_connect b \<and> quiet_within k cs1
         | Decide d \<Rightarrow> (\<forall>w. quiet_within k (d w @ cs1))
         | _ \<Rightarrow> False))"

definition keeps_length :: "nat \<Rightarrow> 'v sworld \<Rightarrow> 'v sworld \<Rightarrow> bool" where
  "keeps_length g w w1 \<longleftrightarrow> locked_kept g w w1 \<and> (\<forall>sg sg1. signal_of w g = Some sg \<longrightarrow> sg_locked sg
     \<longrightarrow> signal_of w1 g = Some sg1 \<longrightarrow> length (sg_records sg1) = length (sg_records sg))"

lemma keeps_length_trans:
  assumes 1: "keeps_length g w1 w2" and 2: "keeps_length g w2 w3"
  shows "keeps_length g w1 w3"
proof -
  have k: "locked_kept g w1 w2" "locked_kept g w2 w3" using assms by (simp_all add: keeps_length_def)
  have "length (sg_records sg3) = length (sg_records sg)"
    if a: "signal_of w1 g = Some sg" "sg_locked sg" and c: "signal_of w3 g = Some sg3" for sg sg3
  proof -
    have "g < length (w_handlers w2)" using k(1) signal_of_length [OF a(1)] by (simp add: locked_kept_def)
    then obtain sg2 where s2: "signal_of w2 g = Some sg2"
      using k(2) c by (cases "signal_of w2 g") (auto simp: locked_kept_def)
    moreover have "sg_locked sg2" using k(1) a s2 by (simp add: locked_kept_def records_extend_def)
    ultimately show ?thesis using 1 2 a c by (simp add: keeps_length_def)
  qed
  with locked_kept_trans [OF k] show ?thesis by (simp add: keeps_length_def)
qed

lemma quiet_step:
  assumes "basic b w = Inr w1" and "no_connect b"
  shows "keeps_length g w w1"
proof -
  obtain ev where st: "sig_step w ev w1" and ev: "\<forall>g i. Connected g i \<notin> set ev"
    using basic_step [OF assms(1)] assms(2) by blast
  have "length (sg_records sg1) = length (sg_records sg)"
    if "signal_of w g = Some sg" "sg_locked sg" "signal_of w1 g = Some sg1" for sg sg1
  proof -
    have "sig_change w ev g sg sg1" using st that by (simp add: sig_step_def)
    then show ?thesis using that(2) ev
      by (auto simp: sig_change_def reconcile_removal_def list_all2_lengthD)
  qed
  with sig_step_held [OF st, of g] show ?thesis by (simp add: keeps_length_def held_still_def)
qed

lemma quiet_run:
  "quiet_within k cs \<Longrightarrow> run (Suc k) C cs w \<noteq> None \<and>
     (\<forall>w1. run (Suc k) C cs w = Some (Inr w1) \<longrightarrow> keeps_length g w w1)"
proof (induction k arbitrary: cs w)
  case 0
  then show ?case by (simp add: keeps_length_def)
next
  case (Suc k)
  show ?case
  proof (cases cs)
    case Nil
    then show ?thesis by (simp add: keeps_length_def)
  next
    case (Cons c cs1)
    show ?thesis
    proof (cases c)
      case (Basic b)
      then have q: "no_connect b" "quiet_within k cs1" using Suc.prems Cons by simp_all
      show ?thesis
      proof (cases "basic b w")
        case (Inl e)
        then show ?thesis by (simp add: Cons Basic)
      next
        case (Inr w1)
        have step: "run (Suc (Suc k)) C cs w = run (Suc k) C cs1 w1" using Inr by (simp add: Cons Basic)
        show ?thesis
          unfolding step using Suc.IH [OF q(2), of w1] keeps_length_trans [OF quiet_step [OF Inr q(1)]] by blast
      qed
    next
      case (Decide d)
      then have q: "quiet_within k (d w @ cs1)" using Suc.prems Cons by simp
      have step: "run (Suc (Suc k)) C cs w = run (Suc k) C (d w @ cs1) w" by (simp add: Cons Decide)
      show ?thesis unfolding step by (rule Suc.IH [OF q])
    qed (use Suc.prems Cons in simp_all)
  qed
qed

lemma quiet_loop:
  assumes K: "\<forall>f w. K f w \<noteq> None \<and> (\<forall>v w1. K f w = Some (Inr (v, w1)) \<longrightarrow> keeps_length g w w1)"
  shows "signal_of w g = Some sg \<Longrightarrow> sg_locked sg \<Longrightarrow> length (sg_records sg) - it < n
    \<Longrightarrow> emit_loop n K g it acc r w \<noteq> None"
proof (induction n arbitrary: it r w sg)
  case 0
  then show ?case by simp
next
  case (Suc n)
  show ?case
  proof (cases "it < length (sg_records sg)")
    case False
    then show ?thesis using Suc.prems by simp
  next
    case it: True
    let ?r = "sg_records sg ! it"
    show ?thesis
    proof (cases "should_remove w ?r")
      case True
      let ?sg = "sg\<lparr>sg_pending_removal := True,
        sg_records := (sg_records sg)[it := ?r\<lparr>request_removal := True\<rparr>]\<rparr>"
      have s: "signal_of (mark_record g it sg w) g = Some ?sg"
        using Suc.prems(1) by (auto simp: mark_record_def signal_of_set signal_of_Some)
      have "emit_loop (Suc n) K g it acc r w = emit_loop n K g (Suc it) acc r (mark_record g it sg w)"
        using Suc.prems it True by (auto simp: should_remove_def split: option.splits)
      then show ?thesis using Suc.IH [OF s, of "Suc it" r] Suc.prems it by (simp del: emit_loop.simps)
    next
      case False
      then obtain f where f: "entry (w_cells w) (rec_fsptr ?r) = Some f" "\<not> request_removal ?r"
        by (auto simp: should_remove_def)
      let ?w = "log_event (Fired g (rec_id ?r)) w"
      from K obtain res where res: "K f ?w = Some res" by blast
      show ?thesis
      proof (cases res)
        case (Inl e)
        then show ?thesis using Suc.prems it f res by simp
      next
        case (Inr x)
        obtain v w1 where x: "x = (v, w1)" by (cases x)
        have k: "keeps_length g ?w w1" using K res Inr x by blast
        have l: "emit_loop (Suc n) K g it acc r w = emit_loop n K g (Suc it) acc (acc r v) w1"
          using Suc.prems it f res Inr x by simp
        show ?thesis
        proof (cases "signal_of w1 g")
          case None
          then show ?thesis using l Suc.prems it by (cases n) (auto simp del: emit_loop.simps(2) simp: emit_loop.simps(2) [of _ _ _ _ _ _ w1])
        next
          case (Some sg1)
          then have "sg_locked sg1" "length (sg_records sg1) = length (sg_records sg)"
            using k Suc.prems by (auto simp: keeps_length_def locked_kept_def records_extend_def)
          then show ?thesis using l Suc.IH [OF Some] Suc.prems it by (simp del: emit_loop.simps)
        qed
      qed
    qed
  qed
qed

text \<open>
  C39: an emission ends when the functions it calls do a bounded number of things each, none of them a
  connection, an emission or a call of a slot; what else they do, to this signal or others, does not
  matter, nor what they decide by. The number of the signal's records and the bound on the functions are
  enough fuel. That connections have to be excluded, \<open>self_connecting_never_returns\<close> shows; emissions
  and slots can call the same functions again.
\<close>

theorem quiet_emission_returns:
  assumes "signal_of w g = Some sg" and "length (sg_records sg) < n"
    and "\<forall>t ys. quiet_within m (c_body C t ys)"
  shows "\<exists>res. emit_signal n (call_func (run (Suc m) C) C) g ac xs w = Some res"
proof (cases "length xs = sg_arity sg \<and> \<not> sg_locked sg")
  case False
  then show ?thesis using assms(1) by (auto simp: emit_signal_def)
next
  case True
  let ?sg = "sg\<lparr>sg_locked := True\<rparr>"
  have s: "signal_of (lock_signal g sg w) g = Some ?sg"
    using assms(1) by (auto simp: lock_signal_def signal_of_set signal_of_Some)
  have K: "call_func (run (Suc m) C) C f xs w \<noteq> None \<and>
      (\<forall>v w1. call_func (run (Suc m) C) C f xs w = Some (Inr (v, w1)) \<longrightarrow> keeps_length g w w1)" for f w
  proof -
    let ?b = "c_body C (target_of f) (apply_bindings f xs)"
    let ?w = "log_event (Called (target_of f) (apply_bindings f xs)) w"
    have "run (Suc m) C ?b ?w \<noteq> None" "\<And>w1. run (Suc m) C ?b ?w = Some (Inr w1) \<Longrightarrow> keeps_length g ?w w1"
      using quiet_run [of m ?b C ?w g] assms(3) by blast+
    moreover have "keeps_length g w ?w" by (simp add: keeps_length_def locked_kept_def)
    ultimately show ?thesis
      by (auto simp: call_func_def Let_def split: option.splits sum.splits intro: keeps_length_trans)
  qed
  have "emit_loop n (\<lambda>f. call_func (run (Suc m) C) C f xs) g 0 (snd ac) (fst ac) (lock_signal g sg w) \<noteq> None"
    using K assms(2) by (intro quiet_loop [OF _ s]) auto
  then show ?thesis using assms(1) True by (auto simp: emit_signal_def split: option.splits sum.splits)
qed

lemma same_cells [simp]:
  "target_alive t (log_event e w) = target_alive t w"
  "slot_valid (log_event e w) sl = slot_valid w sl" "slot_valid (set_signal g sg w) sl = slot_valid w sl"
  by (cases t; simp add: target_alive_def) (cases "sl_fsptr sl"; simp add: slot_valid_def)+

text \<open>A function that connects a slot to the signal that called it is followed by that slot, in the same
  emission; if every one does so, the emission never ends.\<close>

lemma self_connecting_loop:
  assumes C: "\<forall>t ys. c_body C t ys = [Basic (Connect g i)]" and ar: "length xs = sg_arity sg"
    and w: "sworld_ok w" "signal_of w g = Some sg" "it < length (sg_records sg)"
      "\<forall>k < length (sg_records sg). it \<le> k \<longrightarrow> \<not> should_remove w (sg_records sg ! k)"
    and sl: "entry (w_slots w) i = Some sl" "slot_valid w sl" "sl_arity sl = sg_arity sg"
  shows "emit_loop n (\<lambda>f. call_func (run m C) C f xs) g it acc r w = None"
  using w sl ar
proof (induction n arbitrary: it r w sg)
  case 0
  then show ?case by simp
next
  case (Suc n)
  let ?r = "sg_records sg ! it"
  obtain f where f: "entry (w_cells w) (rec_fsptr ?r) = Some f" "\<not> request_removal ?r"
    using Suc.prems by (auto simp: should_remove_def)
  let ?w = "log_event (Fired g (rec_id ?r)) w"
  let ?w1 = "log_event (Called (target_of f) (apply_bindings f xs)) ?w"
  obtain a fa where a: "sl_fsptr sl = Some a" "entry (w_cells w) a = Some fa"
    using Suc.prems(6) by (auto simp: slot_valid_def split: option.splits)
  let ?sg = "sg\<lparr>sg_next_id := sg_next_id sg + 1, sg_records := sg_records sg @
    [\<lparr>rec_id = sg_next_id sg, request_removal = False, rec_fsptr = a\<rparr>]\<rparr>"
  let ?w2 = "log_event (Result (V_bool True)) (log_event (Connected g (sg_next_id sg)) (set_signal g ?sg ?w1))"
  have alive: "target_alive (target_of f) w"
    using owned_alive [OF Suc.prems(1) record_owned [OF Suc.prems(2)] f(1)] Suc.prems(3) by simp
  have b: "basic (Connect g i) ?w1 = Inr ?w2"
    using Suc.prems a by (simp add: with_slot_def with_signal_def connect_def signal_insert_def)
  have call: "call_func (run m C) C f xs ?w = None \<or>
      call_func (run m C) C f xs ?w = Some (Inr (c_ret C (target_of f) (apply_bindings f xs) ?w2, ?w2))"
  proof -
    have "run m C [Basic (Connect g i)] ?w1 = None \<or> run m C [Basic (Connect g i)] ?w1 = Some (Inr ?w2)"
    proof (cases m)
      case (Suc k)
      then show ?thesis using b by (cases k) simp_all
    qed simp
    then show ?thesis using alive C by (auto simp: call_func_def Let_def)
  qed
  have ok: "sworld_ok ?w2" using basic_safe [of ?w1 "Connect g i"] b Suc.prems(1) by (simp add: safe_def)
  have s2: "signal_of ?w2 g = Some ?sg" using Suc.prems(2) by (auto simp: signal_of_set signal_of_Some)
  have rest: "\<not> should_remove ?w2 (sg_records ?sg ! k)"
    if "k < length (sg_records ?sg)" "Suc it \<le> k" for k
    using that Suc.prems(4) a by (cases "k < length (sg_records sg)") (auto simp: nth_append should_remove_def)
  have "emit_loop n (\<lambda>f. call_func (run m C) C f xs) g (Suc it) acc r' ?w2 = None" for r'
    using Suc.IH [OF ok s2 _ _ _ _ _ _, of "Suc it" r'] rest Suc.prems
    by simp
  then show ?case using Suc.prems f call by (auto split: option.splits)
qed

lemma self_connecting_never_returns:
  assumes "\<forall>t ys. c_body C t ys = [Basic (Connect g i)]" and "length xs = sg_arity sg"
    and w: "sworld_ok w" "signal_of w g = Some sg" "sg_records sg \<noteq> []" "\<not> sg_locked sg"
      "\<forall>r \<in> set (sg_records sg). \<not> should_remove w r"
    and sl: "entry (w_slots w) i = Some sl" "slot_valid w sl" "sl_arity sl = sg_arity sg"
  shows "emit_signal n (call_func (run m C) C) g ac xs w = None"
proof -
  let ?sg = "sg\<lparr>sg_locked := True\<rparr>"
  have s: "signal_of (lock_signal g sg w) g = Some ?sg"
    using w(2) by (auto simp: lock_signal_def signal_of_set signal_of_Some)
  have "emit_loop n (\<lambda>f. call_func (run m C) C f xs) g 0 (snd ac) (fst ac) (lock_signal g sg w) = None"
  proof (rule self_connecting_loop [OF assms(1) _ emission_step_ok(1) [OF w(1,2)] s])
    show "slot_valid (lock_signal g sg w) sl" using sl by (simp add: lock_signal_def)
    show "\<forall>k < length (sg_records ?sg). 0 \<le> k \<longrightarrow> \<not> should_remove (lock_signal g sg w) (sg_records ?sg ! k)"
      using w(5) by (simp add: should_remove_def lock_signal_def)
  qed (use assms in \<open>simp_all add: lock_signal_def\<close>)
  then show ?thesis using w assms(2) by (simp add: emit_signal_def)
qed

section \<open>Binding and hiding arguments\<close>

definition callee :: "'v sworld \<Rightarrow> slot \<Rightarrow> 'v val list \<Rightarrow> (target \<times> 'v val list) option" where
  "callee w sl xs = (case sl_fsptr sl of None \<Rightarrow> None
     | Some a \<Rightarrow> (case entry (w_cells w) a of None \<Rightarrow> None
         | Some f \<Rightarrow> Some (target_of f, apply_bindings f xs)))"

lemma placeholders_values: "length xs = n \<Longrightarrow> map (bind_value xs) (placeholders n) = xs"
  by (auto simp: placeholders_def comp_def map_nth)

lemma bind_value_append: "k < length xs \<Longrightarrow> bind_value (xs @ ys) (Placeholder k) = bind_value xs (Placeholder k)"
  by (simp add: nth_append)

lemma new_cell_callee:
  "new_cell f w = (a, w1) \<Longrightarrow> sl_fsptr sl = Some a \<Longrightarrow> callee w1 sl xs = Some (target_of f, apply_bindings f xs)"
  using new_cell_simps(9) [of f w a w1] by (simp add: callee_def)

lemma register_cells: "register_invalidator h a w = Inr w1 \<Longrightarrow> w_cells w1 = w_cells w"
  by (auto simp: register_invalidator_def split: option.splits simp del: filter_append)

lemma init_from_slot_callee:
  assumes "or_empty n (init_from_slot src bs (empty_slot n) w) = Inr (sl, w1)"
  shows "callee w1 sl xs = callee w src (map (bind_value xs) bs) \<and> sl_arity sl = n"
proof (cases "slot_valid w src")
  case False
  then show ?thesis using assms
    by (auto simp: init_from_slot_def or_empty_def slot_valid_def empty_slot_def callee_def split: option.splits)
next
  case True
  then obtain b f where b: "sl_fsptr src = Some b" "entry (w_cells w) b = Some f"
    by (auto simp: slot_valid_def split: option.splits)
  obtain a w2 where n: "new_cell (Bind f bs) w = (a, w2)" by (cases "new_cell (Bind f bs) w") auto
  have "w_cells w1 = w_cells w2 \<and> sl_fsptr sl = Some a \<and> sl_arity sl = n"
    using assms b n register_cells
    by (auto simp: init_from_slot_def or_empty_def empty_slot_def split: option.splits sum.splits)
  then show ?thesis using new_cell_callee [OF n, of sl xs] b by (auto simp: callee_def)
qed

lemma grows_callee:
  assumes "grows w w1" and "callee w sl xs = Some c"
  shows "callee w1 sl xs = Some c"
  using assms entry_append_old by (fastforce simp: grows_def callee_def split: option.splits)

lemma bound_member_callee:
  assumes "bound_member g m i w = Inr (sl, w1)"
  shows "callee w1 sl [] = Some (Member g m, [V_id i])"
proof -
  obtain sl0 w0 where m: "make_member g (Some m) 1 w = Inr (sl0, w0)" and b: "slot_bind1 sl0 (V_id i) w0 = Inr (sl, w1)"
    using assms by (auto simp: bound_member_def split: sum.splits)
  obtain a w2 where n: "new_cell (Raw (Member g m)) w = (a, w2)" by (cases "new_cell (Raw (Member g m)) w") auto
  have "w_cells w0 = w_cells w2 \<and> sl_fsptr sl0 = Some a \<and> sl_arity sl0 = 1"
    using m n register_cells
    by (auto simp: make_member_def init_member_def init_member_common_def empty_slot_def split: sum.splits)
  then have "callee w0 sl0 [V_id i] = Some (Member g m, [V_id i])" and ar: "sl_arity sl0 = 1"
    using new_cell_callee [OF n, of sl0 "[V_id i]"] by (auto simp: callee_def)
  moreover have "callee w1 sl [] = callee w0 sl0 [V_id i]"
    using b ar init_from_slot_callee [of 0 sl0 "[Bound (V_id i)]" w0 sl w1 "[]"]
    by (simp add: slot_bind1_def placeholders_def Let_def)
  ultimately show ?thesis by simp
qed

text \<open>The connection that \<open>connect_get\<close> returns disconnects the slot that was connected.\<close>

lemma connect_get_id:
  assumes "connect_get g sl sg w = Inr w1" and "slot_valid w sl"
  shows "\<exists>cn. entry (w_conns w1) (length (w_conns w)) = Some cn \<and> connection_id w1 cn = Some (g, sg_next_id sg)"
proof -
  obtain sg1 where ins: "signal_insert w sl sg = Some (sg_next_id sg, sg1)"
    using assms(2) by (auto simp: signal_insert_def slot_valid_def split: option.splits)
  let ?w = "log_event (Connected g (sg_next_id sg)) (set_signal g sg1 w)"
  obtain cn w2 where c: "make_connection g (sg_next_id sg) ?w = Inr (cn, w2)"
    and w1: "w1 = w2\<lparr>w_conns := w_conns w2 @ [Some cn], w_temps := []\<rparr>"
    using assms(1) ins by (auto simp: connect_get_def keep_conn_def split: if_splits sum.splits)
  obtain w3 where d: "bound_member g Signal_remove (sg_next_id sg) ?w = Inr (fst cn, w3)"
    and v: "bound_member g Signal_is_valid (sg_next_id sg) w3 = Inr (snd cn, w2)"
    using c by (auto simp: make_connection_def split: sum.splits)
  have "callee w2 (fst cn) [] = Some (Member g Signal_remove, [V_id (sg_next_id sg)])"
    by (rule grows_callee [OF bound_member_grows [OF v] bound_member_callee [OF d]])
  then have "connection_id w1 cn = Some (g, sg_next_id sg)"
    by (auto simp: callee_def connection_id_def w1 split: option.splits)
  moreover have "w_conns w2 = w_conns w" using make_connection_grows [OF c] by (simp add: grows_def)
  ultimately show ?thesis by (auto simp: w1 entry_append)
qed

section \<open>Assertions\<close>

text \<open>
  \<open>FswAssert\<close> aborts. The default value that a slot without a function and a nested emission are said to
  return is never returned.
\<close>

lemma invalid_slot_call_aborts:
  "entry (w_slots w) i = Some sl \<Longrightarrow> \<not> slot_valid w sl \<Longrightarrow> length xs = sl_arity sl
    \<Longrightarrow> run (Suc n) C (Call_slot i xs # cs) w = Some (Inl Abort)"
  by (auto simp: slot_func_def with_slot_def slot_valid_def split: option.splits)

lemma nested_emission_aborts:
  "signal_of w g = Some sg \<Longrightarrow> sg_locked sg \<Longrightarrow> length xs = sg_arity sg
    \<Longrightarrow> emit_signal n K g ac xs w = Some (Inl Abort)"
  by (simp add: emit_signal_def)

text \<open>C40: Calling a slot with bound arguments calls the original with the bound arguments after those given,
  and a slot that hides its last argument calls the original without it.\<close>

theorem bound_arguments_follow:
  assumes "length xs = sl_arity sl"
    and "slot_bind1 src v1 w = Inr (sl, w1) \<and> ys = xs @ [v1]
      \<or> slot_bind2 src v1 v2 w = Inr (sl, w1) \<and> ys = xs @ [v1, v2]
      \<or> slot_bind3 src v1 v2 v3 w = Inr (sl, w1) \<and> ys = xs @ [v1, v2, v3]
      \<or> slot_hide src w = Inr (sl, w1) \<and> ys = butlast xs"
  shows "callee w1 sl xs = callee w src ys \<and> length ys = sl_arity src"
proof -
  have hide: "map (bind_value xs) (placeholders k) = butlast xs" if "length xs = Suc k" for k
    using that by (auto simp: placeholders_def butlast_conv_take intro!: nth_equalityI)
  show ?thesis
    using assms placeholders_values [of xs] hide
    by (auto simp: slot_bind1_def slot_bind2_def slot_bind3_def slot_hide_def Let_def split: if_splits
        dest!: init_from_slot_callee [where xs = xs])
qed

section \<open>Examples\<close>

theorem destroyed_never_called_witness:
  "\<exists>w1 w2 ev. destroy_handler 0 demo_world = Inr w1
     \<and> run 9 removing_client [Emit 1 (return_accumulator V_void) [V_user 4]] w1 = Some (Inr w2)
     \<and> (\<forall>a f m. owned w2 a \<longrightarrow> entry (w_cells w2) a = Some f \<longrightarrow> target_of f \<noteq> Member 0 m)
     \<and> w_log w2 = w_log w1 @ ev \<and> (\<forall>m ys. Called (Member 0 m) ys \<notin> set ev)"
proof -
  let ?cs = "[Emit 1 (return_accumulator V_void) [V_user 4]]"
  have "case destroy_handler 0 demo_world of Inr w1 \<Rightarrow> ended (run 9 removing_client ?cs w1) | _ \<Rightarrow> False" by code_simp
  then obtain w1 w2 where w: "destroy_handler 0 demo_world = Inr w1" "run 9 removing_client ?cs w1 = Some (Inr w2)"
    by (auto split: sum.splits dest: endedD)
  from destroyed_never_called [OF demo_world_ok w(1), of 9 removing_client ?cs] show ?thesis
    unfolding w(2) settled_simps using w by blast
qed

theorem disconnected_never_fires_witness:
  "\<exists>cn w1 w2 ev. entry (w_conns demo_world) 0 = Some cn \<and> disconnect cn demo_world = Inr w1
     \<and> run 9 removing_client [Basic (Connect 1 1), Emit 1 (return_accumulator V_void) [V_user 4]] w1 = Some (Inr w2)
     \<and> w_log w2 = w_log w1 @ ev \<and> (Connected 1 0 \<in> set ev \<or> Fired 1 0 \<notin> set ev)"
proof -
  let ?cs = "[Basic (Connect 1 1), Emit 1 (return_accumulator V_void) [V_user 4]]"
  let ?cn = "(\<lparr>sl_fsptr = Some 3, sl_handler = Some 1, sl_arity = 0\<rparr>,
       \<lparr>sl_fsptr = Some 5, sl_handler = Some 1, sl_arity = 0\<rparr>)"
  have c: "entry (w_conns demo_world) 0 = Some ?cn" "connection_id demo_world ?cn = Some (1, 0)"
    by code_simp+
  have "case disconnect ?cn demo_world of Inr w1 \<Rightarrow> ended (run 9 removing_client ?cs w1) | _ \<Rightarrow> False" by code_simp
  then obtain w1 w2 where w: "disconnect ?cn demo_world = Inr w1" "run 9 removing_client ?cs w1 = Some (Inr w2)"
    by (auto split: sum.splits dest: endedD)
  have "distinct (map rec_id (sg_records demo_signal))" by code_simp
  from disconnected_never_fires [OF c(2) demo_signal_of this w(1) disjI1 [OF w(2)]]
  show ?thesis using c(1) w by blast
qed

text \<open>Every function disconnects the first connection if it has not been dropped.\<close>

definition deciding_client :: "nat signal_client" where
  "deciding_client = \<lparr>c_body = \<lambda>t ys. [Decide (\<lambda>w. if entry (w_conns w) 0 = None then [] else [Basic (Disconnect 0)])],
     c_ret = \<lambda>t ys w. V_void\<rparr>"

theorem quiet_emission_returns_witness:
  "\<exists>res. emit_signal 2 (call_func (run 3 deciding_client) deciding_client) 1 (return_accumulator V_void) [V_user 4] demo_world
     = Some res"
proof -
  have "\<forall>t ys. quiet_within 2 (c_body deciding_client t ys)"
    by (simp add: deciding_client_def no_connect_def numeral_2_eq_2)
  from quiet_emission_returns [OF demo_signal_of _ this, of 2] show ?thesis
    by (simp add: demo_signal_def numeral_3_eq_3 numeral_2_eq_2)
qed

theorem bound_arguments_follow_witness:
  "\<exists>src sl w1. entry (w_slots demo_world) 0 = Some src \<and> slot_bind1 src (V_user 9) demo_world = Inr (sl, w1)
     \<and> callee w1 sl [] = callee demo_world src [V_user 9]"
proof -
  let ?src = "\<lparr>sl_fsptr = Some 0, sl_handler = Some 0, sl_arity = 1\<rparr>"
  have c: "entry (w_slots demo_world) 0 = Some ?src" by code_simp
  have "case slot_bind1 ?src (V_user 9) demo_world of Inr (sl, w1) \<Rightarrow> sl_arity sl = 0 | _ \<Rightarrow> False" by code_simp
  then obtain sl w1 where b: "slot_bind1 ?src (V_user 9) demo_world = Inr (sl, w1)" "sl_arity sl = 0"
    by (auto split: sum.splits)
  have "callee w1 sl [] = callee demo_world ?src [V_user 9]"
    by (rule conjunct1 [OF bound_arguments_follow [where xs = "[]" and sl = sl and ?v1.0 = "V_user 9"]]) (use b in simp_all)
  then show ?thesis using b c by blast
qed

end
