(* ===== verification/Spec2Isabelle.thy ===== *)
theory Spec2Isabelle
  imports Codon_Prelude Slate_Layout Symbol_Table Slate_Tokens Slate_Builder Slate_Memory Slate_Combiner
    Element_Setup Combiner_Init Command_Queue Command_Relay Machine_Init
    Aos_Monitor Deferred_Queue Server_Conns Telem_Relay Signal_Calls
begin

text \<open>
  A verification library for the core of the drone flight software: the Slate, the typed shared
  memory through which all its components talk, and the components built on it.

  \<^bold>\<open>The program.\<close> At start-up components create or bind elements through a \<^verbatim>\<open>SlateBuilder\<close>,
  which checks permissions and paths and registers the elements in a \<^verbatim>\<open>SlateLayout\<close>. The layout
  places each element in a shard, a growing \<^verbatim>\<open>AlignedBuffer\<close>, and packs the rights of the
  holder into the element ID. Every token handed out is counted by the \<^verbatim>\<open>SlateTokenAccountant\<close>,
  which refuses the build while one is unbound. At run time a \<^verbatim>\<open>Slate\<close> loads and stores
  elements by ID. \<^verbatim>\<open>SlateCombiner\<close> merges the elements of redundant sources. Commands from the
  ground pass the \<^verbatim>\<open>CommandQueueClient\<close>; a \<^verbatim>\<open>StateMachine\<close>, whose state lives in the slate, turns
  commands and timeouts into transitions of the vehicle and runs its control tasks. Telemetry leaves
  through a \<^verbatim>\<open>TelemetryRelay\<close>, whose flows, gates and destinations come from a configuration. Components
  call each other back through \<^verbatim>\<open>Signal\<close>, which must survive what is connected and destroyed meanwhile.

  \<^bold>\<open>Theories.\<close>
  \<^item> \<open>Codon_Prelude\<close>: alignment arithmetic on \<^verbatim>\<open>size_t\<close>, bit lemmas, byte blocks.
  \<^item> \<open>Aligned_Buffer\<close> (\<^verbatim>\<open>AlignedBuffer.cc\<close>): record \<open>abuf\<close>; \<open>ensure\<close>, \<open>assign_buffer\<close>, \<open>clone\<close>.
  \<^item> \<open>Slate_Alloc\<close> (\<^verbatim>\<open>SlateLayout.cc\<close>, lines 104-182): record \<open>shard\<close> with its free list;
    \<open>alloc_block\<close> and its loop \<open>carve\<close>. Locale \<open>block_allocator\<close>, interpreted on the shard.
  \<^item> \<open>Slate_Layout\<close> (the rest of \<^verbatim>\<open>SlateLayout.cc\<close>): record \<open>layout\<close>, all operations, the
    invariant \<open>layout_inv\<close>.
  \<^item> \<open>Symbol_Table\<close> (\<^verbatim>\<open>SymbolTable.cc\<close>): the two maps of an enumeration.
  \<^item> \<open>Slate_Tokens\<close> (\<^verbatim>\<open>slate_tokens.cc\<close>, \<^verbatim>\<open>.h\<close>): the accountant, tokens as a step relation whose
    labels count the tokens that a binding hides from the accountant.
  \<^item> \<open>Slate_Builder\<close> (\<^verbatim>\<open>SlateBuilder.cc\<close>, \<^verbatim>\<open>.h\<close>): paths, masks, permissions, creation, binding.
  \<^item> \<open>Slate_Memory\<close> (\<^verbatim>\<open>Slate.cc\<close>, \<^verbatim>\<open>Slate.h\<close>, \<^verbatim>\<open>SlateMemory.h\<close>): run-time access. Locale
    \<open>cell_store\<close>, interpreted on the shard memory.
  \<^item> \<open>Slate_Combiner\<close> (\<^verbatim>\<open>SlateCombiner.cc\<close>): freshness, selection, copy, maximum and median.
  \<^item> \<open>Element_Setup\<close>: the initialization of a component as a plan of builder calls on its tokens.
  \<^item> \<open>Combiner_Init\<close> (\<^verbatim>\<open>SlateCombiner.cc\<close>): initialization from a configuration.
  \<^item> \<open>Command_Queue\<close> (\<^verbatim>\<open>CommandQueueClient.cc\<close>): requests, checks of signed commands, replay.
  \<^item> \<open>Command_Relay\<close> (\<^verbatim>\<open>CommandPump.cc\<close>, \<^verbatim>\<open>CommandSender.cc\<close>): from feedback to the client, from the
    client to the channels.
  \<^item> \<open>Machine_Core\<close>, \<open>Machine_Graph\<close>, \<open>Machine_Run\<close>, \<open>Machine_Init\<close> (\<^verbatim>\<open>StateMachine.cc\<close>): records
    \<open>machine\<close> and \<open>control_state\<close>; commands, the check of the state graph, transitions and
    dispatch of the three kinds of machine, initialization from files. \<open>Machine_Safety\<close> has the
    invariant and what each operation keeps of it, \<open>Machine_Cycle\<close> what is called in a cycle.
  \<^item> \<open>Aos_Monitor\<close> (\<^verbatim>\<open>AcquisitionOfSignalMonitor.cc\<close>): when contact counts as regained.
  \<^item> \<open>Deferred_Queue\<close> (\<^verbatim>\<open>DeferredCallbackQueue\<close>): callbacks from any thread to the event loop; relation
    \<open>dq_step\<close> of interleaved steps, invariant \<open>dq_inv\<close>.
  \<^item> \<open>Server_Conns\<close> (\<^verbatim>\<open>Server.cc\<close>): the pending and the accepted connections of a server.
  \<^item> \<open>Telem_Parse\<close>, \<open>Telem_Flows\<close>, \<open>Telem_Relay\<close> (\<^verbatim>\<open>TelemetryRelay.cc\<close>): records \<open>flow_info\<close>,
    \<open>relay_flow\<close> and \<open>relay\<close>; the configuration parser, the flows and their connections, and the
    life of a relay as the step relation \<open>relay_step\<close>.
  \<^item> \<open>Signal_Core\<close>, \<open>Signal_Run\<close> (\<^verbatim>\<open>Signal.h\<close>): records \<open>slot\<close>, \<open>handler\<close>, \<open>signal\<close> and the world
    they live in, a store with shared and weak pointers; emission \<open>emit_signal\<close> together with the programs
    of the clients it calls. Locale \<open>signal_steps\<close> lifts facts about single steps to programs; it is
    interpreted in \<open>Signal_Safety\<close> (no dangling call), \<open>Signal_Emission\<close> (the list of a locked signal) and
    \<open>Signal_Calls\<close> (destroyed and disconnected slots). The fuel of \<open>run\<close> bounds the depth of calls; how
    much is enough for an emission is a property there.

  \<^bold>\<open>Conventions.\<close> A C++ function that returns a status gives a pair or an option. A failed
  \<^verbatim>\<open>FswAssert\<close> ends the process and is \<open>None\<close>; an \<^verbatim>\<open>FswAbortIf\<close> is an early return. Debug
  assertions and log output are not modelled. Integers whose wrap-around matters are words, or
  naturals with the wrap written out (\<^verbatim>\<open>slate_offset_t\<close>, whose width is a parameter).

  \<^bold>\<open>Parameters.\<close> Code outside the repository is an argument of the definitions that use it: the
  bit layout of element IDs (\<open>id_codec\<close>), the path map, path joining and permission sets, the
  addresses \<^verbatim>\<open>new[]\<close> returns, number parsing, the operations of \<^verbatim>\<open>SlateMemory.cc\<close>, and how
  each value type is laid out and compared. What is relied on is a predicate such as
  \<open>codec_ok\<close>, and each has an instance on which the properties are evaluated.

  \<^bold>\<open>What is proved.\<close> Blocks handed out by the allocator are aligned and disjoint and the shard is
  tiled by them; exactly when allocation fails, and that one kind of failure corrupts the shard.
  Registration keeps the layout sound, also when it fails in any other way. IDs carry the rights of
  the element; views stay inside their parents, though without the parent's validator. The token
  counters are exact in every reachable state, but for the tokens bound while tracking is off, which
  stay in the default counter for ever. Masked paths cannot be touched; what a sub-slate permits is
  what the parent permits less its own masks, with one exception, which is characterized. What a store
  leaves in an element is what is loaded, and nothing else changes. A cycle of the combiner writes
  copies, maxima and medians of the connected sources; between two connected sources a third one,
  faulty or gone, cannot move an output. If signed commands are required, only authentic commands
  reach a channel, and none that a request has reported as accepted is executed again while the
  vehicle's feedback does not fall. An initialized state machine is well formed, never fails an
  assertion in any run of cycles, commands and forced states at times in range, carries out accepted
  commands in the next cycle, and keeps the documented order of the calls to its tasks, but for one
  exception. Its search for cycles of states is exact. The callback queue loses no wake-up and keeps
  the order of the callbacks under every interleaving. A server keeps its newest connections and,
  unless the limit is changed, no more than its limit. Parsed telemetry flows are well formed, with
  distinct primary destinations, one connection for each destination wires the flows as one for each
  flow does and has room for all of them. A finalized relay has seen one claim of each flow; no flow is
  given out twice. No program makes a signal call a handler that is gone or a slot that was
  disconnected, an emission reaches every slot that stays connected, and it ends if the functions it
  calls are bounded sequences of commands that connect, emit and call no slot. Destroying a signal inside
  its own emission is undefined in the source (the loop goes on over a freed list); there the model
  stops with the fault \<open>Emitter_gone\<close>, and the theorems on programs say nothing of what follows.

  \<^bold>\<open>Not modelled.\<close> The networking, gRPC and flight-control components, logging, smart pointers
  that only wrap the standard library, and the template code that registers enumerations.
\<close>

end
